(* ===== verification/EzPrelude.thy ===== *)
theory EzPrelude
  imports Main "HOL-Library.Word"
begin

text \<open>
  Shared vocabulary of the development: the kernel's fixed-width integer types
  (\<open>src/kernel/types.h\<close>), the collections of simplification rules the component
  theories extend, and the generic facts about words, masks and lists that several
  components use.
\<close>

unbundle bit_operations_syntax

section \<open>Integer types of the kernel\<close>

type_synonym u8 = "8 word"
type_synonym u16 = "16 word"
type_synonym u32 = "32 word"
type_synonym u64 = "64 word"

text \<open>
  The contents of byte-addressed memory: every 32-bit address holds a byte.
\<close>

type_synonym memory = "u32 \<Rightarrow> u8"

named_theorems ez_defs \<open>definitions that component proofs unfold together\<close>
named_theorems ez_inv \<open>preservation of component invariants\<close>

section \<open>Masks and shifts on words\<close>

lemma unat_and_mask: "unat (x AND mask n) = unat x mod 2 ^ n" for x :: "'a::len word"
  by (metis take_bit_eq_mask take_bit_nat_def unsigned_take_bit_eq)

lemma word_split_and_not: "(x AND NOT m) + (x AND m) = x" for x m :: "'a::len word"
proof -
  have "(x AND NOT m) + (x AND m) = (x AND NOT m) OR (x AND m)"
    by (rule disjunctive_add) (auto simp: bit_simps)
  also have "\<dots> = x"
    by (rule bit_eqI) (auto simp: bit_simps)
  finally show ?thesis .
qed

lemma unat_and_not_mask: "unat (x AND NOT (mask n)) = unat x - unat x mod 2 ^ n"
  for x :: "'a::len word"
proof -
  have e: "x AND NOT (mask n) = x - (x AND mask n)"
    using word_split_and_not [of x "mask n"] by (simp add: eq_diff_eq)
  have "unat (x AND mask n) \<le> unat x"
    by (simp add: unat_and_mask)
  then have "unat (x - (x AND mask n)) = unat x - unat (x AND mask n)"
    by (simp add: unat_sub word_le_nat_alt)
  then show ?thesis by (simp add: e unat_and_mask)
qed

lemma mask12_numeral: "(0xFFF::u32) = mask 12" and page_mask_numeral: "(0xFFFFF000::u32) = NOT (mask 12)"
  by (simp_all add: mask_eq_exp_minus_1)

lemma unat_page_offset [simp]: "unat ((x::u32) AND 0xFFF) = unat x mod 4096"
  by (simp add: mask12_numeral unat_and_mask)

lemma unat_page_base [simp]: "unat ((x::u32) AND 0xFFFFF000) = unat x - unat x mod 4096"
  by (simp add: page_mask_numeral unat_and_not_mask)

lemma page_offset_0_iff: "(x::u32) AND 0xFFF = 0 \<longleftrightarrow> 4096 dvd unat x"
proof -
  have "(x AND 0xFFF = 0) \<longleftrightarrow> unat (x AND 0xFFF) = 0"
    by (rule unat_eq_zero [symmetric])
  then show ?thesis by (simp add: dvd_eq_mod_eq_0)
qed

lemma unat_of_nat32: "n < 2 ^ 32 \<Longrightarrow> unat (of_nat n :: u32) = n"
  by (simp add: unat_of_nat)

lemma u32_bound: "unat (x::u32) < 4294967296"
  using unsigned_less [of x] by simp

lemma u8_bound: "unat (x::u8) < 256"
  using unsigned_less [of x] by simp

lemma u16_bound: "unat (x::u16) < 65536"
  using unsigned_less [of x] by simp

section \<open>Counting and intervals\<close>

lemma interval_Suc_insert: "{a..<Suc (a + n)} = insert a {Suc a..<Suc (a + n)}"
  by auto

lemma card_insert_interval:
  assumes "finite A" and "{a..<a + n} \<inter> A = {}"
  shows "card (A \<union> {a..<a + n}) = card A + n"
  using assms by (simp add: card_Un_disjoint Int_commute)

lemma card_remove_interval:
  assumes "finite A" and "{a..<a + n} \<subseteq> A"
  shows "card (A - {a..<a + n}) = card A - n"
  using assms by (simp add: card_Diff_subset)

lemma list_ex_window:
  "list_ex (\<lambda>k. \<not> P (i + k)) [0..<n] \<longleftrightarrow> \<not> (\<forall>j. i \<le> j \<and> j < i + n \<longrightarrow> P j)"
proof
  assume "list_ex (\<lambda>k. \<not> P (i + k)) [0..<n]"
  then obtain k where "k < n" "\<not> P (i + k)" by (auto simp: list_ex_iff)
  then have "i \<le> i + k \<and> i + k < i + n \<and> \<not> P (i + k)" by simp
  then show "\<not> (\<forall>j. i \<le> j \<and> j < i + n \<longrightarrow> P j)" by blast
next
  assume "\<not> (\<forall>j. i \<le> j \<and> j < i + n \<longrightarrow> P j)"
  then obtain j where "i \<le> j" "j < i + n" "\<not> P j" by blast
  then have "j - i \<in> set [0..<n]" "\<not> P (i + (j - i))" by auto
  then show "list_ex (\<lambda>k. \<not> P (i + k)) [0..<n]" by (auto simp: list_ex_iff)
qed

lemma unat_ucast_widen [simp]:
  "unat (ucast (a::u8) :: u16) = unat a" "unat (ucast (a::u8) :: u32) = unat a" "unat (ucast (b::u16) :: u32) = unat b"
  "unat (ucast (c::u32) :: u64) = unat c"
  by (transfer, simp)+

text \<open>A 32-bit word read as signed.\<close>

lemma sint_small:
  assumes "unat (x::u32) < 2 ^ 31" shows "sint x = int (unat x)"
proof -
  have u: "uint x = int (unat x)" by (simp only: uint_nat)
  have "unat x < 2147483648" using assms by simp
  then have "int (unat x) < 2147483648" by linarith
  then have b: "0 \<le> uint x" "uint x < 2 ^ 31" unfolding u by simp_all
  have "sint x = signed_take_bit 31 (uint x)" by (simp only: sint_uint) simp
  also have "\<dots> = uint x" by (rule signed_take_bit_int_eq_self) (use b in linarith)+
  finally show ?thesis unfolding u .
qed

lemma sint_big:
  assumes "2 ^ 31 \<le> unat (x::u32)" shows "sint x < 0"
proof -
  have u: "uint x = int (unat x)" by (simp only: uint_nat)
  have "2147483648 \<le> unat x" using assms by simp
  then have "2147483648 \<le> int (unat x)" by linarith
  then have b: "2147483648 \<le> uint x" "uint x < 4294967296" using uint_lt2p [of x] unfolding u by simp_all
  have "sint x = signed_take_bit 31 (uint x)" by (simp only: sint_uint) simp
  also have "\<dots> < 0 \<longleftrightarrow> bit (uint x) 31" by (rule signed_take_bit_negative_iff)
  finally have "sint x < 0 \<longleftrightarrow> bit (uint x) 31" .
  moreover have "uint x div 2147483648 = 1" by (rule int_div_pos_eq [of _ _ _ "uint x - 2147483648"]) (use b in linarith)+
  ultimately show ?thesis by (simp add: bit_iff_odd)
qed

section \<open>Little-endian loads\<close>

definition rd16 :: "memory \<Rightarrow> u32 \<Rightarrow> u16" where
  "rd16 m a = ucast (m a) OR push_bit 8 (ucast (m (a + 1)))"

definition rd32 :: "memory \<Rightarrow> u32 \<Rightarrow> u32" where
  "rd32 m a = ucast (m a) OR push_bit 8 (ucast (m (a + 1))) OR
     push_bit 16 (ucast (m (a + 2))) OR push_bit 24 (ucast (m (a + 3)))"

section \<open>Ring buffers\<close>

text \<open>Inside a window of N positions no two offsets meet in a ring of N cells.\<close>

lemma ring_window_inj:
  fixes N :: nat
  assumes "(t + i) mod N = (t + j) mod N" and "i < N" and "j < N"
  shows "i = j"
proof -
  have le: "i = j" if "i \<le> j" "(t + i) mod N = (t + j) mod N" "j < N" for i j
  proof -
    have "N dvd (t + j) - (t + i)" using that(1,2) by (subst mod_eq_dvd_iff_nat [symmetric]) simp_all
    then have "N dvd j - i" by simp
    then have "j - i = 0" using that(3) by (meson dvd_imp_le less_imp_diff_less not_gr_zero not_le)
    then show ?thesis using that(1) by simp
  qed
  show ?thesis using le [of i j] le [of j i] assms by (cases "i \<le> j") auto
qed

section \<open>Bits of natural numbers\<close>

lemma or_disjoint: "y < 2 ^ k \<Longrightarrow> x * 2 ^ k OR y = x * 2 ^ k + y" for x y :: nat
proof -
  assume "y < 2 ^ k"
  then have y: "take_bit k y = y" by (simp add: take_bit_nat_eq_self)
  have "x * 2 ^ k + y = push_bit k x + take_bit k y" by (simp add: push_bit_eq_mult y)
  also have "\<dots> = push_bit k x OR take_bit k y" by (rule disjunctive_add) (auto simp: bit_simps)
  finally show ?thesis by (simp add: push_bit_eq_mult y)
qed

lemma or_shift: "a < 2 ^ k \<Longrightarrow> a OR push_bit k b = a + 2 ^ k * b" for a b :: nat
  using or_disjoint [of a k b] by (simp add: push_bit_eq_mult or.commute mult.commute)

lemma and_window: "n AND push_bit k (mask j) = (n div 2 ^ k mod 2 ^ j) * 2 ^ k" for n :: nat
proof -
  have "n AND push_bit k (mask j) = push_bit k (take_bit j (drop_bit k n))" by (rule bit_eqI) (auto simp: bit_simps)
  then show ?thesis by (simp add: push_bit_eq_mult take_bit_eq_mod drop_bit_eq_div)
qed

lemma and_low: "n AND mask j = n mod 2 ^ j" for n :: nat
  by (simp add: take_bit_eq_mod flip: take_bit_eq_mask)

lemma byte_masks:
  "n AND 7 = n mod 8" "n AND 15 = n mod 16" "n AND 31 = n mod 32" "n AND 63 = n mod 64" "n AND 1023 = n mod 1024"
  "n AND 192 = (n div 64 mod 4) * 64" "n AND 30 = (n div 2 mod 16) * 2" for n :: nat
  using and_low [of n 3] and_low [of n 4] and_low [of n 5] and_low [of n 6] and_low [of n 10] and_window [of n 6 2] and_window [of n 1 4]
  by (simp_all add: mask_eq_exp_minus_1 push_bit_eq_mult)

text \<open>The first index of a table with a property, as the loops look it up.\<close>

lemma first_filter: "P j \<Longrightarrow> j < n \<Longrightarrow> \<forall>i < j. \<not> P i \<Longrightarrow> \<exists>r. filter P [0..<n] = j # r"
proof -
  assume p: "P j" "j < n" "\<forall>i < j. \<not> P i"
  have "[0..<n] = [0..<j] @ [j..<n]" using p(2) upt_add_eq_append [of 0 j "n - j"] by simp
  moreover have "[j..<n] = j # [Suc j..<n]" using p(2) by (rule upt_conv_Cons)
  moreover have "filter P [0..<j] = []" using p(3) by (simp add: filter_empty_conv)
  ultimately show ?thesis using p(1) by simp
qed

lemma in_filter_upt: "filter P [0..<n] = i # r \<Longrightarrow> i < n \<and> P i"
proof -
  assume "filter P [0..<n] = i # r"
  then have "i \<in> set (filter P [0..<n])" by simp
  then show ?thesis by simp
qed

lemma filter_first: "filter P [0..<n] = i # r \<Longrightarrow> i < n \<and> P i \<and> (\<forall>k < i. \<not> P k)"
proof -
  assume f: "filter P [0..<n] = i # r"
  have "sorted (filter P [0..<n])" by (simp add: sorted_wrt_filter)
  then have le: "\<forall>k \<in> set (filter P [0..<n]). i \<le> k" unfolding f by auto
  have "\<not> P k" if "k < i" for k
  proof
    assume "P k"
    then have "k \<in> set (filter P [0..<n])" using that in_filter_upt [OF f] by simp
    then show False using le that by auto
  qed
  then show ?thesis using in_filter_upt [OF f] by simp
qed

end
