(* ===== verification/Pmm.thy ===== *)
theory Pmm
  imports EzPrelude
begin

text \<open>
  The physical page-frame allocator, \<open>src/kernel/pmm.c\<close> and \<open>pmm.h\<close>: a bitmap of 48
  words over the 1536 frames of the pool [10 MB, 16 MB), first-fit allocation of
  contiguous runs, and frees that reject ranges outside the pool and double frees.
  Addresses and counts that enter from callers are 32-bit words, so the range checks are
  stated with their wrap-around; loop indices below 1536 are natural numbers.

  The bodies run with interrupts disabled (\<open>irq_save_disable\<close>), so each is one atomic
  state transformer here; theory \<open>Irqflags\<close> models the primitives themselves.
\<close>

section \<open>State and bitmap primitives\<close>

abbreviation PMM_PAGE_SIZE :: u32 where "PMM_PAGE_SIZE \<equiv> 4096"
abbreviation PMM_POOL_START :: u32 where "PMM_POOL_START \<equiv> 0x00A00000"
abbreviation PMM_POOL_END :: u32 where "PMM_POOL_END \<equiv> 0x01000000"
abbreviation PMM_POOL_PAGES :: nat where "PMM_POOL_PAGES \<equiv> 1536"
abbreviation BITMAP_WORDS :: nat where "BITMAP_WORDS \<equiv> 48"

record pmm =
  g_bitmap :: "u32 list"
  g_used :: u32
  pmm_ready :: bool

definition bit_get :: "pmm \<Rightarrow> nat \<Rightarrow> bool" where
  "bit_get s i = (drop_bit (i mod 32) (g_bitmap s ! (i div 32)) AND 1 \<noteq> 0)"

definition bit_set :: "nat \<Rightarrow> pmm \<Rightarrow> pmm" where
  "bit_set i s = s\<lparr>g_bitmap := (g_bitmap s)
     [i div 32 := g_bitmap s ! (i div 32) OR push_bit (i mod 32) 1]\<rparr>"

definition bit_clear :: "nat \<Rightarrow> pmm \<Rightarrow> pmm" where
  "bit_clear i s = s\<lparr>g_bitmap := (g_bitmap s)
     [i div 32 := g_bitmap s ! (i div 32) AND NOT (push_bit (i mod 32) 1)]\<rparr>"

definition in_pool :: "u32 \<Rightarrow> u32 \<Rightarrow> bool" where
  "in_pool phys n =
     (if phys = 0 \<or> phys AND (PMM_PAGE_SIZE - 1) \<noteq> 0 then False
      else if phys < PMM_POOL_START then False
      else if n = 0 then False
      else if phys > PMM_POOL_END then False
      else if PMM_POOL_END - phys < n * PMM_PAGE_SIZE then False
      else True)"

definition idx_of :: "u32 \<Rightarrow> u32" where
  "idx_of phys = (phys - PMM_POOL_START) div PMM_PAGE_SIZE"

section \<open>Allocation and release\<close>

definition pmm_init :: "pmm \<Rightarrow> pmm" where
  "pmm_init s = s\<lparr>g_bitmap := replicate BITMAP_WORDS 0, g_used := 0, pmm_ready := True\<rparr>"

text \<open>The first-fit scan: \<open>run\<close> counts the free bits that end just before \<open>i\<close>.\<close>

function alloc_scan :: "pmm \<Rightarrow> nat \<Rightarrow> nat \<Rightarrow> nat \<Rightarrow> nat option" where
  "alloc_scan s n i run =
     (if i < PMM_POOL_PAGES then
        if \<not> bit_get s i then
          if run + 1 = n then Some (i + 1 - n) else alloc_scan s n (i + 1) (run + 1)
        else alloc_scan s n (i + 1) 0
      else None)"
  by pat_completeness auto
termination
  by (relation "measure (\<lambda>(s, n, i, run). PMM_POOL_PAGES - i)") auto

declare alloc_scan.simps [simp del]

fun set_run :: "nat \<Rightarrow> nat \<Rightarrow> pmm \<Rightarrow> pmm" where
  "set_run first 0 s = s"
| "set_run first (Suc n) s = set_run (Suc first) n (bit_set first s)"

fun clear_run :: "nat \<Rightarrow> nat \<Rightarrow> pmm \<Rightarrow> pmm" where
  "clear_run first 0 s = s"
| "clear_run first (Suc n) s = clear_run (Suc first) n (bit_clear first s)"

definition pmm_alloc_pages :: "u32 \<Rightarrow> pmm \<Rightarrow> u32 \<times> pmm" where
  "pmm_alloc_pages n s =
     (if \<not> pmm_ready s \<or> n = 0 \<or> unat n > PMM_POOL_PAGES then (0, s)
      else case alloc_scan s (unat n) 0 0 of
        None \<Rightarrow> (0, s)
      | Some first \<Rightarrow>
          (PMM_POOL_START + of_nat first * PMM_PAGE_SIZE,
           (set_run first (unat n) s)\<lparr>g_used := g_used s + n\<rparr>))"

definition pmm_alloc_page :: "pmm \<Rightarrow> u32 \<times> pmm" where
  "pmm_alloc_page s = pmm_alloc_pages 1 s"

text \<open>A status of \<open>True\<close> is the C result 0, \<open>False\<close> the result -1.\<close>

definition pmm_free_pages :: "u32 \<Rightarrow> u32 \<Rightarrow> pmm \<Rightarrow> bool \<times> pmm" where
  "pmm_free_pages phys n s =
     (if \<not> pmm_ready s \<or> \<not> in_pool phys n then (False, s)
      else let first = idx_of phys in
        if first + n > of_nat PMM_POOL_PAGES then (False, s)
        else if list_ex (\<lambda>k. \<not> bit_get s (unat first + k)) [0..<unat n] then (False, s)
        else (True, (clear_run (unat first) (unat n) s)\<lparr>g_used := g_used s - n\<rparr>))"

definition pmm_free_page :: "u32 \<Rightarrow> pmm \<Rightarrow> bool \<times> pmm" where
  "pmm_free_page phys s = pmm_free_pages phys 1 s"

definition pmm_total_pages :: u32 where
  "pmm_total_pages = of_nat PMM_POOL_PAGES"

definition pmm_used_pages :: "pmm \<Rightarrow> u32" where
  "pmm_used_pages s = g_used s"

definition pmm_free_count :: "pmm \<Rightarrow> u32" where
  "pmm_free_count s = of_nat PMM_POOL_PAGES - g_used s"

section \<open>The allocated set and the invariant\<close>

definition allocated :: "pmm \<Rightarrow> nat set" where
  "allocated s = {i. i < PMM_POOL_PAGES \<and> bit_get s i}"

definition pmm_inv :: "pmm \<Rightarrow> bool" where
  "pmm_inv s \<longleftrightarrow> length (g_bitmap s) = BITMAP_WORDS \<and> unat (g_used s) = card (allocated s)"

lemma finite_allocated [simp]: "finite (allocated s)"
  by (simp add: allocated_def)

lemma card_allocated_le: "card (allocated s) \<le> PMM_POOL_PAGES"
proof -
  have "allocated s \<subseteq> {..<PMM_POOL_PAGES}" by (auto simp: allocated_def)
  then have "card (allocated s) \<le> card {..<PMM_POOL_PAGES}" by (intro card_mono) auto
  then show ?thesis by simp
qed

lemma bit_get_bit: "bit_get s i \<longleftrightarrow> bit (g_bitmap s ! (i div 32)) (i mod 32)"
  by (simp add: bit_get_def bit_iff_odd_drop_bit and_one_eq odd_iff_mod_2_eq_one)

lemma length_bit_set [simp]: "length (g_bitmap (bit_set i s)) = length (g_bitmap s)"
  and length_bit_clear [simp]: "length (g_bitmap (bit_clear i s)) = length (g_bitmap s)"
  by (simp_all add: bit_set_def bit_clear_def)

lemma bit_get_bit_set:
  assumes "length (g_bitmap s) = BITMAP_WORDS" and "i < PMM_POOL_PAGES"
  shows "bit_get (bit_set i s) j \<longleftrightarrow> j = i \<or> bit_get s j"
proof -
  have w: "i div 32 < length (g_bitmap s)" using assms by simp
  show ?thesis
  proof (cases "j div 32 = i div 32")
    case True
    have ji: "j = i \<longleftrightarrow> j mod 32 = i mod 32"
      using True by (metis div_mod_decomp)
    show ?thesis
      using w True ji by (auto simp: bit_get_bit bit_set_def bit_simps)
  next
    case False
    then show ?thesis using w by (auto simp: bit_get_bit bit_set_def)
  qed
qed

lemma bit_get_bit_clear:
  assumes "length (g_bitmap s) = BITMAP_WORDS" and "i < PMM_POOL_PAGES"
  shows "bit_get (bit_clear i s) j \<longleftrightarrow> j \<noteq> i \<and> bit_get s j"
proof -
  have w: "i div 32 < length (g_bitmap s)" using assms by simp
  show ?thesis
  proof (cases "j div 32 = i div 32")
    case True
    have ji: "j = i \<longleftrightarrow> j mod 32 = i mod 32"
      using True by (metis div_mod_decomp)
    have "j mod 32 < 32" by simp
    then show ?thesis
      using w True ji by (auto simp: bit_get_bit bit_clear_def bit_simps)
  next
    case False
    then show ?thesis using w by (auto simp: bit_get_bit bit_clear_def)
  qed
qed

lemma set_run_spec:
  assumes "length (g_bitmap s) = BITMAP_WORDS" and "first + n \<le> PMM_POOL_PAGES"
  shows "length (g_bitmap (set_run first n s)) = BITMAP_WORDS \<and>
    allocated (set_run first n s) = allocated s \<union> {first..<first + n}"
  using assms
proof (induction first n s rule: set_run.induct)
  case (1 first s)
  then show ?case by simp
next
  case (2 first n s)
  have "allocated (bit_set first s) = insert first (allocated s)"
    using "2.prems" by (auto simp: allocated_def bit_get_bit_set)
  with 2 show ?case by (simp add: interval_Suc_insert)
qed

lemma clear_run_spec:
  assumes "length (g_bitmap s) = BITMAP_WORDS" and "first + n \<le> PMM_POOL_PAGES"
  shows "length (g_bitmap (clear_run first n s)) = BITMAP_WORDS \<and>
    allocated (clear_run first n s) = allocated s - {first..<first + n}"
  using assms
proof (induction first n s rule: clear_run.induct)
  case (1 first s)
  then show ?case by simp
next
  case (2 first n s)
  have "allocated (bit_clear first s) = allocated s - {first}"
    using "2.prems" by (auto simp: allocated_def bit_get_bit_clear)
  moreover have "A - {first} - {Suc first..<Suc (first + n)} = A - {first..<Suc (first + n)}" for A
    by (subst interval_Suc_insert) blast
  ultimately show ?case using 2 by simp
qed

lemma set_run_frame [simp]:
  "g_used (set_run first n s) = g_used s" "pmm_ready (set_run first n s) = pmm_ready s"
  by (induction first n s rule: set_run.induct) (simp_all add: bit_set_def)

lemma clear_run_frame [simp]:
  "g_used (clear_run first n s) = g_used s" "pmm_ready (clear_run first n s) = pmm_ready s"
  by (induction first n s rule: clear_run.induct) (simp_all add: bit_clear_def)

lemma allocated_used_update [simp]: "allocated (s\<lparr>g_used := u\<rparr>) = allocated s"
  by (simp add: allocated_def bit_get_def)

text \<open>
  A run of \<open>n\<close> free frames that starts at \<open>f\<close>, and what the scan finds: the first such run.
\<close>

definition free_run :: "pmm \<Rightarrow> nat \<Rightarrow> nat \<Rightarrow> bool" where
  "free_run s n f \<longleftrightarrow> f + n \<le> PMM_POOL_PAGES \<and> {f..<f + n} \<inter> allocated s = {}"

lemma free_run_iff: "free_run s n f \<longleftrightarrow> f + n \<le> PMM_POOL_PAGES \<and> (\<forall>j. f \<le> j \<and> j < f + n \<longrightarrow> \<not> bit_get s j)"
  by (auto simp: free_run_def allocated_def)

lemma alloc_scan_correct:
  assumes "run \<le> i" and "run < n" and "\<forall>j. i - run \<le> j \<and> j < i \<longrightarrow> \<not> bit_get s j"
    and "\<forall>f < i - run. \<not> free_run s n f"
  shows "case alloc_scan s n i run of
      None \<Rightarrow> \<forall>f. \<not> free_run s n f
    | Some f \<Rightarrow> free_run s n f \<and> (\<forall>g < f. \<not> free_run s n g)"
  using assms
proof (induction s n i run rule: alloc_scan.induct)
  case (1 s n i run)
  consider (off) "\<not> i < PMM_POOL_PAGES" | (used) "i < PMM_POOL_PAGES" "bit_get s i"
    | (last) "i < PMM_POOL_PAGES" "\<not> bit_get s i" "run + 1 = n"
    | (more) "i < PMM_POOL_PAGES" "\<not> bit_get s i" "run + 1 \<noteq> n" by blast
  then show ?case
  proof cases
    case off
    have "\<not> free_run s n f" for f
      using off "1.prems" by (cases "f < i - run") (auto simp: free_run_def)
    then show ?thesis using off by (simp add: alloc_scan.simps [of s n i run])
  next
    case used
    have nf: "\<forall>f < i + 1. \<not> free_run s n f"
    proof (intro allI impI)
      fix f assume "f < i + 1"
      then show "\<not> free_run s n f"
        using used "1.prems" by (cases "f < i - run") (auto simp: free_run_iff intro!: exI [of _ i])
    qed
    then show ?thesis
      using used "1.IH"(2) "1.prems" by (simp add: alloc_scan.simps [of s n i run])
  next
    case last
    have "free_run s n (i + 1 - n)"
      using last "1.prems" by (auto simp: free_run_iff less_Suc_eq)
    moreover have "i + 1 - n = i - run" using last by simp
    ultimately show ?thesis
      using last "1.prems" by (simp add: alloc_scan.simps [of s n i run])
  next
    case more
    have "\<forall>j. i + 1 - (run + 1) \<le> j \<and> j < i + 1 \<longrightarrow> \<not> bit_get s j"
      using more "1.prems" by (auto simp: less_Suc_eq)
    then show ?thesis
      using more "1.IH"(1) "1.prems" by (simp add: alloc_scan.simps [of s n i run])
  qed
qed

lemma alloc_scan_first_fit:
  assumes "0 < n"
  shows "alloc_scan s n 0 0 = (if \<exists>f. free_run s n f then Some (LEAST f. free_run s n f) else None)"
proof (cases "alloc_scan s n 0 0")
  case None
  then show ?thesis using alloc_scan_correct [of 0 0 n s] assms by auto
next
  case (Some f)
  then have "free_run s n f" and "\<forall>g < f. \<not> free_run s n g"
    using alloc_scan_correct [of 0 0 n s] assms by auto
  then have "(LEAST f. free_run s n f) = f"
    by (metis LeastI not_less_Least linorder_neqE_nat)
  then show ?thesis using Some \<open>free_run s n f\<close> by auto
qed

section \<open>Addresses of frames\<close>

abbreviation frame_addr :: "nat \<Rightarrow> u32" where
  "frame_addr f \<equiv> PMM_POOL_START + of_nat f * PMM_PAGE_SIZE"

lemma unat_frame_addr:
  assumes "f \<le> PMM_POOL_PAGES"
  shows "unat (frame_addr f) = 0xA00000 + f * 4096"
proof -
  have "unat (of_nat f :: u32) = f" using assms by (simp add: unat_of_nat)
  then have "unat ((of_nat f :: u32) * 4096) = f * 4096"
    using assms by (simp add: unat_word_ariths)
  then show ?thesis using assms by (simp add: unat_word_ariths)
qed

lemma unat_idx_of:
  assumes "PMM_POOL_START \<le> phys"
  shows "unat (idx_of phys) = (unat phys - 0xA00000) div 4096"
  using assms by (simp add: idx_of_def unat_div unat_sub)

lemma idx_of_frame_addr [simp]: "f \<le> PMM_POOL_PAGES \<Longrightarrow> unat (idx_of (frame_addr f)) = f"
  by (subst unat_idx_of) (simp_all add: unat_frame_addr word_le_nat_alt)

text \<open>
  The range check on exact integers: \<open>in_pool\<close> multiplies \<open>n\<close> by the page size in 32 bits,
  so for a count of \<open>2^20\<close> and more it can accept a range that leaves the pool; together
  with the second check of \<open>pmm_free_pages\<close> the two are exact.
\<close>

definition pool_range :: "u32 \<Rightarrow> u32 \<Rightarrow> bool" where
  "pool_range phys n \<longleftrightarrow> 4096 dvd unat phys \<and> 0xA00000 \<le> unat phys \<and> 0 < unat n \<and>
     unat phys + unat n * 4096 \<le> 0x1000000"

lemma pool_range_in_pool:
  assumes "pool_range phys n"
  shows "in_pool phys n \<and> unat (idx_of phys) + unat n \<le> PMM_POOL_PAGES"
proof -
  have b: "unat n * 4096 < 2 ^ 32" using assms by (simp add: pool_range_def)
  then have m: "unat (n * 4096) = unat n * 4096" by (simp add: unat_word_ariths)
  have le: "phys \<le> PMM_POOL_END" using assms by (simp add: pool_range_def word_le_nat_alt)
  have "unat (PMM_POOL_END - phys) = 0x1000000 - unat phys"
    using le by (simp add: unat_sub)
  then have "in_pool phys n"
    using assms m le
    by (auto simp: in_pool_def pool_range_def page_offset_0_iff word_le_nat_alt word_less_nat_alt
        unat_eq_zero)
  moreover have "unat (idx_of phys) + unat n \<le> PMM_POOL_PAGES"
    using assms by (subst unat_idx_of) (auto simp: pool_range_def word_le_nat_alt)
  ultimately show ?thesis by simp
qed

lemma in_pool_range:
  assumes "in_pool phys n" and "unat (idx_of phys + n) \<le> PMM_POOL_PAGES"
  shows "pool_range phys n"
proof -
  have a: "4096 dvd unat phys" "0xA00000 \<le> unat phys" "unat phys \<le> 0x1000000" "0 < unat n"
    and l: "\<not> PMM_POOL_END - phys < n * 4096"
    using assms(1) by (auto simp: in_pool_def page_offset_0_iff word_le_nat_alt word_less_nat_alt
        unat_gt_0 split: if_splits)
  have ix: "unat (idx_of phys) = (unat phys - 0xA00000) div 4096"
    using a by (intro unat_idx_of) (simp add: word_le_nat_alt)
  have e: "unat (PMM_POOL_END - phys) = 0x1000000 - unat phys"
    using a by (simp add: unat_sub word_le_nat_alt)
  have m: "unat (n * 4096) = unat n * 4096 mod 2 ^ 32" by (simp add: unat_word_ariths)
  have k: "unat n * 4096 mod 2 ^ 32 \<le> 0x1000000 - unat phys"
    using l e m by (simp add: word_less_nat_alt)
  have s: "unat (idx_of phys + n) = (unat (idx_of phys) + unat n) mod 2 ^ 32"
    by (simp add: unat_word_ariths)
  have "unat (idx_of phys) + unat n < 2 ^ 32"
  proof (rule ccontr)
    assume w: "\<not> ?thesis"
    define r where "r = 2 ^ 32 - unat n"
    have r: "0 < r" "r \<le> 1536" "unat n = 2 ^ 32 - r"
      using w u32_bound [of n] ix a by (auto simp: r_def)
    then have "unat n * 4096 = (2 ^ 32 - 4096 * r) + 4095 * 2 ^ 32" by simp
    then have "unat n * 4096 mod 2 ^ 32 = (2 ^ 32 - 4096 * r) mod 2 ^ 32" by presburger
    also have "\<dots> = 2 ^ 32 - 4096 * r" using r by simp
    finally show False using k r by simp
  qed
  then have "unat (idx_of phys) + unat n \<le> 1536" using assms(2) s by simp
  then show ?thesis using a k by (simp add: pool_range_def)
qed

section \<open>Correctness of allocation and release\<close>

theorem pmm_alloc_pages_spec:
  assumes "pmm_inv s" and "pmm_alloc_pages n s = (p, s')"
  shows "if pmm_ready s \<and> n \<noteq> 0 \<and> (\<exists>f. free_run s (unat n) f)
     then (let f = (LEAST f. free_run s (unat n) f) in
       p = frame_addr f \<and> pool_range p n \<and> p \<noteq> 0 \<and> free_run s (unat n) f \<and>
       unat (idx_of p) = f \<and>
       allocated s' = allocated s \<union> {f..<f + unat n} \<and> pmm_inv s' \<and> pmm_ready s')
     else p = 0 \<and> s' = s"
proof (cases "pmm_ready s \<and> n \<noteq> 0 \<and> (\<exists>f. free_run s (unat n) f)")
  case True
  define f where "f = (LEAST f. free_run s (unat n) f)"
  have n: "0 < unat n" using True by (simp add: unat_gt_0)
  have fr: "free_run s (unat n) f" using True unfolding f_def by (blast intro: LeastI)
  then have b: "f + unat n \<le> PMM_POOL_PAGES" by (simp add: free_run_def)
  have res: "p = frame_addr f" "s' = (set_run f (unat n) s)\<lparr>g_used := g_used s + n\<rparr>"
    using assms(2) True b alloc_scan_first_fit [OF n, of s]
    by (auto simp: pmm_alloc_pages_def f_def)
  have sr: "length (g_bitmap (set_run f (unat n) s)) = BITMAP_WORDS"
    "allocated (set_run f (unat n) s) = allocated s \<union> {f..<f + unat n}"
    using set_run_spec [of s f "unat n"] assms(1) b by (auto simp: pmm_inv_def)
  have card: "card (allocated s \<union> {f..<f + unat n}) = card (allocated s) + unat n"
    using fr by (intro card_insert_interval) (auto simp: free_run_def)
  have le: "card (allocated s \<union> {f..<f + unat n}) \<le> PMM_POOL_PAGES"
    using card_allocated_le [of "set_run f (unat n) s"] sr by simp
  have u: "unat (g_used s + n) = card (allocated s \<union> {f..<f + unat n})"
    using assms(1) card le by (simp add: pmm_inv_def unat_word_ariths)
  have pr: "pool_range p n"
    using b n by (simp add: res pool_range_def unat_frame_addr)
  have "p \<noteq> 0" using pr by (auto simp: pool_range_def)
  then show ?thesis
    using True res sr u pr fr b by (simp add: Let_def f_def [symmetric] pmm_inv_def)
next
  case False
  have "unat n > PMM_POOL_PAGES \<Longrightarrow> \<not> free_run s (unat n) f" for f
    by (simp add: free_run_def)
  then show ?thesis
    using False assms(2) alloc_scan_first_fit [of "unat n" s]
    by (auto simp: pmm_alloc_pages_def unat_gt_0 split: if_splits option.splits)
qed

theorem pmm_free_pages_spec:
  assumes "pmm_inv s" and "pmm_free_pages p n s = (ok, s')"
  shows "ok = (pmm_ready s \<and> pool_range p n \<and>
       {unat (idx_of p)..<unat (idx_of p) + unat n} \<subseteq> allocated s) \<and>
     (if ok then allocated s' = allocated s - {unat (idx_of p)..<unat (idx_of p) + unat n} \<and>
        pmm_inv s' \<and> pmm_ready s' else s' = s)"
proof (cases "pmm_ready s \<and> pool_range p n")
  case False
  have "ok = False \<and> s' = s"
    using assms(2) False in_pool_range [of p n]
    by (auto simp: pmm_free_pages_def Let_def word_less_nat_alt not_less split: if_splits)
  then show ?thesis using False by auto
next
  case True
  define i where "i = unat (idx_of p)"
  have ip: "in_pool p n" and b: "i + unat n \<le> PMM_POOL_PAGES"
    using pool_range_in_pool [of p n] True by (auto simp: i_def)
  have nw: "unat (idx_of p + n) = i + unat n"
    using b by (simp add: unat_word_ariths i_def)
  then have chk: "\<not> idx_of p + n > of_nat PMM_POOL_PAGES"
    using b by (simp add: word_less_nat_alt)
  have all: "list_ex (\<lambda>k. \<not> bit_get s (i + k)) [0..<unat n] \<longleftrightarrow> \<not> {i..<i + unat n} \<subseteq> allocated s"
    using b by (auto simp: list_ex_window allocated_def)
  show ?thesis
  proof (cases "{i..<i + unat n} \<subseteq> allocated s")
    case sub: True
    have s': "ok" "s' = (clear_run i (unat n) s)\<lparr>g_used := g_used s - n\<rparr>"
      using assms(2) True ip chk all sub by (auto simp: pmm_free_pages_def Let_def i_def)
    have cr: "length (g_bitmap (clear_run i (unat n) s)) = BITMAP_WORDS"
      "allocated (clear_run i (unat n) s) = allocated s - {i..<i + unat n}"
      using clear_run_spec [of s i "unat n"] assms(1) b by (auto simp: pmm_inv_def)
    have "card {i..<i + unat n} \<le> card (allocated s)" using sub by (intro card_mono) auto
    then have "unat (g_used s - n) = card (allocated s - {i..<i + unat n})"
      using assms(1) sub by (simp add: pmm_inv_def card_remove_interval unat_sub word_le_nat_alt)
    then show ?thesis using s' cr True sub by (simp add: pmm_inv_def i_def)
  next
    case False
    then have "ok = False \<and> s' = s"
      using assms(2) True ip chk all by (auto simp: pmm_free_pages_def Let_def i_def)
    then show ?thesis using False by (simp add: i_def)
  qed
qed

section \<open>The interface of a frame allocator\<close>

text \<open>
  What the loader, the process code and the page-table code rely on: allocations are fresh,
  releases are checked, and a failed call changes nothing.
\<close>

locale frame_allocator =
  fixes inv :: "'s \<Rightarrow> bool"
    and frames :: "'s \<Rightarrow> nat set"
    and ix :: "u32 \<Rightarrow> nat"
    and alloc :: "u32 \<Rightarrow> 's \<Rightarrow> u32 \<times> 's"
    and release :: "u32 \<Rightarrow> u32 \<Rightarrow> 's \<Rightarrow> bool \<times> 's"
  assumes alloc_none: "inv s \<Longrightarrow> alloc n s = (0, s') \<Longrightarrow> s' = s"
    and alloc_fresh: "inv s \<Longrightarrow> alloc n s = (p, s') \<Longrightarrow> p \<noteq> 0 \<Longrightarrow>
      inv s' \<and> frames s \<inter> {ix p..<ix p + unat n} = {} \<and> frames s' = frames s \<union> {ix p..<ix p + unat n}"
    and alloc_pos: "inv s \<Longrightarrow> alloc n s = (p, s') \<Longrightarrow> p \<noteq> 0 \<Longrightarrow> 0 < unat n"
    and release_true: "inv s \<Longrightarrow> release p n s = (True, s') \<Longrightarrow>
      inv s' \<and> {ix p..<ix p + unat n} \<subseteq> frames s \<and> frames s' = frames s - {ix p..<ix p + unat n}"
    and release_false: "inv s \<Longrightarrow> release p n s = (False, s') \<Longrightarrow> s' = s"
    and release_empty: "inv s \<Longrightarrow> unat n = 0 \<Longrightarrow> fst (release p n s) = False"
    and release_alloc: "inv s \<Longrightarrow> alloc n s = (p, s') \<Longrightarrow> p \<noteq> 0 \<Longrightarrow> inv t \<Longrightarrow>
      {ix p..<ix p + unat n} \<subseteq> frames t \<Longrightarrow> fst (release p n t)"
begin

lemma alloc_release_roundtrip:
  assumes "inv s" and "alloc n s = (p, s')" and "p \<noteq> 0"
  shows "\<exists>s''. release p n s' = (True, s'') \<and> inv s'' \<and> frames s'' = frames s"
proof -
  note f = alloc_fresh [OF assms]
  then have "fst (release p n s')" using release_alloc [OF assms, of s'] by simp
  then obtain s'' where r: "release p n s' = (True, s'')" by (cases "release p n s'") auto
  have "frames s'' = frames s" using release_true [OF _ r] f by auto
  then show ?thesis using r release_true [OF _ r] f by auto
qed

lemma double_release_rejected:
  assumes "inv s" and "release p n s = (True, s')"
  shows "release p n s' = (False, s')"
proof -
  have i: "inv s'" and fs: "frames s' = frames s - {ix p..<ix p + unat n}"
    using release_true [OF assms] by auto
  obtain ok s'' where r: "release p n s' = (ok, s'')" by (cases "release p n s'")
  have "\<not> ok"
  proof
    assume ok
    then have "{ix p..<ix p + unat n} \<subseteq> frames s'" using release_true [OF i] r by simp
    then have "{ix p..<ix p + unat n} = {}" using fs by blast
    then have "unat n = 0" by simp
    then show False using release_empty [OF assms(1)] assms(2) by (metis fst_conv)
  qed
  then show ?thesis using r release_false [OF i] by auto
qed

lemma allocs_disjoint:
  assumes "inv s" and "alloc n s = (p, s')" and "p \<noteq> 0"
    and "inv t" and "frames s' \<subseteq> frames t" and "alloc k t = (q, t')" and "q \<noteq> 0"
  shows "{ix p..<ix p + unat n} \<inter> {ix q..<ix q + unat k} = {}"
  using alloc_fresh [OF assms(1-3)] alloc_fresh [OF assms(4,6,7)] assms(5) by blast

end

definition pmm_live :: "pmm \<Rightarrow> bool" where
  "pmm_live s \<longleftrightarrow> pmm_inv s \<and> pmm_ready s"

interpretation pf: frame_allocator pmm_live allocated "\<lambda>p. unat (idx_of p)" pmm_alloc_pages pmm_free_pages
proof
  fix n p s s'
  assume live: "pmm_live s"
  then have i: "pmm_inv s" by (simp add: pmm_live_def)
  { assume a: "pmm_alloc_pages n s = (0, s')"
    show "s' = s" using pmm_alloc_pages_spec [OF i a] by (auto simp: Let_def split: if_splits) }
  { assume a: "pmm_alloc_pages n s = (p, s')" and p: "p \<noteq> 0"
    note sp = pmm_alloc_pages_spec [OF i a]
    show "pmm_live s' \<and> allocated s \<inter> {unat (idx_of p)..<unat (idx_of p) + unat n} = {} \<and>
        allocated s' = allocated s \<union> {unat (idx_of p)..<unat (idx_of p) + unat n}"
      using sp p by (auto simp: Let_def free_run_def pmm_live_def split: if_splits)
    show "0 < unat n" using sp p by (auto simp: Let_def unat_gt_0 split: if_splits)
    fix t assume "pmm_live t" "{unat (idx_of p)..<unat (idx_of p) + unat n} \<subseteq> allocated t"
    moreover have "pool_range p n" using sp p by (auto simp: Let_def split: if_splits)
    ultimately show "fst (pmm_free_pages p n t)"
      using pmm_free_pages_spec [of t p n] by (cases "pmm_free_pages p n t") (auto simp: pmm_live_def) }
  { assume r: "pmm_free_pages p n s = (True, s')"
    show "pmm_live s' \<and> {unat (idx_of p)..<unat (idx_of p) + unat n} \<subseteq> allocated s \<and>
        allocated s' = allocated s - {unat (idx_of p)..<unat (idx_of p) + unat n}"
      using pmm_free_pages_spec [OF i r] by (simp add: pmm_live_def) }
  { assume r: "pmm_free_pages p n s = (False, s')"
    show "s' = s" using pmm_free_pages_spec [OF i r] by simp }
  { assume "unat (n :: u32) = 0"
    then show "fst (pmm_free_pages p n s) = False"
      using pmm_free_pages_spec [OF i, of p n] by (cases "pmm_free_pages p n s") (auto simp: pool_range_def) }
qed

section \<open>The UEFI memory map\<close>

text \<open>
  The loader leaves the magic number at 0x5010, the map's header at 0x5020 and the
  descriptors in [0x5100, 0x6000). Each step of the loop reads one descriptor; the marking
  loop walks the frames of the descriptor that lie in the pool.
\<close>

function mark_pages :: "nat \<Rightarrow> nat \<Rightarrow> u32 \<Rightarrow> pmm \<Rightarrow> u32 \<times> pmm" where
  "mark_pages p e marked s =
     (if p < e then
        let i = (p - 0xA00000) div 4096 in
        if \<not> bit_get s i
        then mark_pages (p + 4096) e (marked + 1) ((bit_set i s)\<lparr>g_used := g_used s + 1\<rparr>)
        else mark_pages (p + 4096) e marked s
      else (marked, s))"
  by pat_completeness auto
termination
  by (relation "measure (\<lambda>(p, e, m, s). e - p)") auto

declare mark_pages.simps [simp del]

text \<open>The saturated end address of a descriptor.\<close>

definition desc_end :: "u32 \<Rightarrow> u32 \<Rightarrow> u32" where
  "desc_end start pages = (if pages \<ge> 0x100000 then 0xFFFFFFFF
     else if start + pages * 4096 < start then 0xFFFFFFFF else start + pages * 4096)"

definition apply_desc :: "memory \<Rightarrow> u32 \<Rightarrow> u32 \<times> u32 \<times> pmm \<Rightarrow> u32 \<times> u32 \<times> pmm" where
  "apply_desc m d = (\<lambda>(usable, marked, s).
     let type = rd32 m d; start = rd32 m (d + 8); pages = rd32 m (d + 24) in
     if 1 \<le> type \<and> type \<le> 4 then (usable + pages, marked, s)
     else if pages = 0 then (usable, marked, s)
     else if start \<ge> PMM_POOL_END then (usable, marked, s)
     else
       let end = desc_end start pages
       in if end \<le> PMM_POOL_START then (usable, marked, s)
       else
         let lo = (if start > PMM_POOL_START then start else PMM_POOL_START);
             hi = (if end < PMM_POOL_END then end else PMM_POOL_END);
             (marked', s') = mark_pages (unat lo) (unat hi) marked s
         in (usable, marked', s'))"

text \<open>
  The descriptor loop: \<open>map_size\<close> is at most 0xF00 after the clamp, so \<open>off + desc_size\<close>
  never wraps and the offset is a natural number.
\<close>

function uefi_loop :: "memory \<Rightarrow> u32 \<Rightarrow> nat \<Rightarrow> nat \<Rightarrow> nat \<Rightarrow> u32 \<times> u32 \<times> pmm \<Rightarrow> u32 \<times> u32 \<times> pmm" where
  "uefi_loop m data desc_size map_size off acc =
     (if 0 < desc_size \<and> off + desc_size \<le> map_size
      then uefi_loop m data desc_size map_size (off + desc_size) (apply_desc m (data + of_nat off) acc)
      else acc)"
  by pat_completeness auto
termination
  by (relation "measure (\<lambda>(m, data, d, sz, off, acc). sz - off)") auto

declare uefi_loop.simps [simp del]

text \<open>The result is (newly marked pages, usable KB, state).\<close>

definition pmm_apply_uefi_map :: "memory \<Rightarrow> pmm \<Rightarrow> u32 \<times> u32 \<times> pmm" where
  "pmm_apply_uefi_map m s =
     (let map_size = rd32 m 0x5020; desc_size = rd32 m 0x5024; data = rd32 m 0x502C in
      if \<not> pmm_ready s then (0, 0, s)
      else if rd32 m 0x5010 \<noteq> 0x55454649 then (0, 0, s)
      else if map_size = 0 \<or> desc_size < 40 \<or> data = 0 then (0, 0, s)
      else if data < 0x5100 \<or> data \<ge> 0x6000 then (0, 0, s)
      else
        let sz = (if map_size > 0x6000 - data then 0x6000 - data else map_size);
            (usable, marked, s') = uefi_loop m data (unat desc_size) (unat sz) 0 (0, 0, s)
        in (marked, usable * 4, s'))"

text \<open>The frames a descriptor takes out of the pool.\<close>

definition desc_blocks :: "memory \<Rightarrow> u32 \<Rightarrow> nat set" where
  "desc_blocks m d = (if 1 \<le> rd32 m d \<and> rd32 m d \<le> 4 then {}
     else {i. i < PMM_POOL_PAGES \<and> unat (rd32 m (d + 8)) \<le> 0xA00000 + i * 4096 \<and>
        0xA00000 + i * 4096 < unat (rd32 m (d + 8)) + unat (rd32 m (d + 24)) * 4096})"

lemma mark_one_inv:
  assumes "pmm_inv s" and "i < PMM_POOL_PAGES" and "\<not> bit_get s i"
  shows "pmm_inv ((bit_set i s)\<lparr>g_used := g_used s + 1\<rparr>) \<and>
    allocated (bit_set i s) = insert i (allocated s)"
proof -
  have al: "allocated (bit_set i s) = insert i (allocated s)"
    using assms by (auto simp: allocated_def pmm_inv_def bit_get_bit_set)
  have c: "card (insert i (allocated s)) = Suc (card (allocated s))"
    using assms(3) by (simp add: allocated_def)
  then have "Suc (card (allocated s)) \<le> PMM_POOL_PAGES"
    using card_allocated_le [of "bit_set i s"] al by simp
  then have "unat (g_used s + 1) = Suc (card (allocated s))"
    using assms(1) by (simp add: pmm_inv_def unat_word_ariths)
  then show ?thesis using assms(1) al c by (simp add: pmm_inv_def)
qed

lemma mark_pages_spec:
  assumes "pmm_inv s" and "p = 0xA00000 + a * 4096" and "e \<le> 0x1000000"
    and "mark_pages p e mk s = (mk', s')"
  shows "pmm_inv s' \<and> pmm_ready s' = pmm_ready s \<and>
    allocated s' = allocated s \<union> {i. a \<le> i \<and> 0xA00000 + i * 4096 < e}"
  using assms
proof (induction p e mk s arbitrary: a rule: mark_pages.induct)
  case (1 p e mk s)
  show ?case
  proof (cases "p < e")
    case True
    have a: "(p - 0xA00000) div 4096 = a" "a < PMM_POOL_PAGES" "p + 4096 = 0xA00000 + Suc a * 4096"
      using "1.prems" True by auto
    have eq: "{i. a \<le> i \<and> 0xA00000 + i * 4096 < e} = insert a {i. Suc a \<le> i \<and> 0xA00000 + i * 4096 < e}"
      using True "1.prems"(2) by (auto simp: not_less_eq_eq)
    show ?thesis
    proof (cases "bit_get s a")
      case bg: True
      have step: "mark_pages (p + 4096) e mk s = (mk', s')"
        using "1.prems"(4) True bg by (simp add: mark_pages.simps [of p e mk s] a(1))
      have "pmm_inv s' \<and> pmm_ready s' = pmm_ready s \<and>
          allocated s' = allocated s \<union> {i. Suc a \<le> i \<and> 0xA00000 + i * 4096 < e}"
        by (rule "1.IH"(2) [OF True refl _ "1.prems"(1) a(3) "1.prems"(3) step]) (simp add: a(1) bg)
      moreover have "a \<in> allocated s" using bg a(2) by (simp add: allocated_def)
      ultimately show ?thesis unfolding eq by blast
    next
      case False
      let ?s = "(bit_set a s)\<lparr>g_used := g_used s + 1\<rparr>"
      have inv: "pmm_inv ?s" and al: "allocated ?s = insert a (allocated s)"
        using mark_one_inv [OF "1.prems"(1) a(2) False] by simp_all
      have rd: "pmm_ready ?s = pmm_ready s" by (simp add: bit_set_def)
      have step: "mark_pages (p + 4096) e (mk + 1) ?s = (mk', s')"
        using "1.prems"(4) True False by (simp add: mark_pages.simps [of p e mk s] a(1))
      have "pmm_inv s' \<and> pmm_ready s' = pmm_ready ?s \<and>
          allocated s' = allocated ?s \<union> {i. Suc a \<le> i \<and> 0xA00000 + i * 4096 < e}"
        using "1.IH"(1) [OF True refl _ _ a(3) "1.prems"(3)] inv step False
        unfolding a(1) by blast
      then show ?thesis unfolding eq rd al by blast
    qed
  next
    case False
    then have "{i. a \<le> i \<and> 0xA00000 + i * 4096 < e} = {}" using "1.prems"(2) by auto
    moreover have "s' = s"
      using "1.prems"(4) False by (simp add: mark_pages.simps [of p e mk s])
    ultimately show ?thesis using "1.prems"(1) by auto
  qed
qed

lemma desc_end_cases:
  "unat (desc_end st pg) = unat st + unat pg * 4096 \<or>
   unat (desc_end st pg) = 0xFFFFFFFF \<and> 2 ^ 32 \<le> unat st + unat pg * 4096"
proof (cases "pg \<ge> 0x100000")
  case True
  then show ?thesis by (simp add: desc_end_def word_le_nat_alt)
next
  case False
  then have "unat (pg * 4096) = unat pg * 4096" by (simp add: word_le_nat_alt unat_word_ariths)
  then show ?thesis
    using False no_olen_add_nat [of st "pg * 4096"] unat_plus_simple [of st "pg * 4096"]
    by (auto simp: desc_end_def not_less linorder_not_le [symmetric])
qed

lemma apply_desc_spec:
  assumes "pmm_inv s" and "4096 dvd unat (rd32 m (d + 8))"
    and "apply_desc m d (u, mk, s) = (u', mk', s')"
  shows "pmm_inv s' \<and> pmm_ready s' = pmm_ready s \<and> allocated s' = allocated s \<union> desc_blocks m d"
proof -
  define st where "st = rd32 m (d + 8)"
  define pg where "pg = rd32 m (d + 24)"
  define lo where "lo = (if st > PMM_POOL_START then st else PMM_POOL_START)"
  define hi where "hi = (if desc_end st pg < PMM_POOL_END then desc_end st pg else PMM_POOL_END)"
  note ec = desc_end_cases [of st pg]
  show ?thesis
  proof (cases "1 \<le> rd32 m d \<and> rd32 m d \<le> 4 \<or> pg = 0 \<or> st \<ge> PMM_POOL_END \<or> desc_end st pg \<le> PMM_POOL_START")
    case True
    have "desc_blocks m d = {}"
      using True ec by (auto simp: desc_blocks_def st_def [symmetric] pg_def [symmetric] word_le_nat_alt)
    moreover have "s' = s"
      using True assms(3)
      by (auto simp: apply_desc_def Let_def st_def [symmetric] pg_def [symmetric] split: if_splits)
    ultimately show ?thesis using assms(1) by simp
  next
    case False
    have lo: "unat lo = max (unat st) 0xA00000"
      by (auto simp: lo_def word_less_nat_alt)
    obtain q where q: "unat st = 4096 * q" using assms(2) unfolding st_def by (auto elim: dvdE)
    define a where "a = max q 2560 - 2560"
    have a: "unat lo = 0xA00000 + a * 4096" using lo q by (auto simp: a_def max_def diff_mult_distrib)
    have "mark_pages (unat lo) (unat hi) mk s = (mk', s')"
      using False assms(3)
      by (auto simp: apply_desc_def Let_def st_def [symmetric] pg_def [symmetric] lo_def hi_def
          split: prod.splits if_splits)
    then have "pmm_inv s' \<and> pmm_ready s' = pmm_ready s \<and>
        allocated s' = allocated s \<union> {i. a \<le> i \<and> 0xA00000 + i * 4096 < unat hi}"
      by (intro mark_pages_spec [OF assms(1) a]) (auto simp: hi_def word_less_nat_alt)
    moreover have "{i. a \<le> i \<and> 0xA00000 + i * 4096 < unat hi} = desc_blocks m d"
    proof -
      have "unat hi = min (unat (desc_end st pg)) 0x1000000"
        by (auto simp: hi_def word_less_nat_alt)
      then have "0xA00000 + i * 4096 < unat hi \<longleftrightarrow> i < 1536 \<and> 0xA00000 + i * 4096 < unat st + unat pg * 4096" for i
        using ec by auto
      moreover have "a \<le> i \<longleftrightarrow> unat st \<le> 0xA00000 + i * 4096" for i
        using a lo by linarith
      ultimately show ?thesis
        using False by (auto simp: desc_blocks_def st_def [symmetric] pg_def [symmetric])
    qed
    ultimately show ?thesis by simp
  qed
qed

text \<open>The descriptor addresses the loop visits from offset \<open>off\<close> on.\<close>

function desc_addrs :: "u32 \<Rightarrow> nat \<Rightarrow> nat \<Rightarrow> nat \<Rightarrow> u32 list" where
  "desc_addrs data desc_size map_size off =
     (if 0 < desc_size \<and> off + desc_size \<le> map_size
      then (data + of_nat off) # desc_addrs data desc_size map_size (off + desc_size) else [])"
  by pat_completeness auto
termination
  by (relation "measure (\<lambda>(data, d, sz, off). sz - off)") auto

declare desc_addrs.simps [simp del]

lemma uefi_loop_fold:
  "uefi_loop m data d sz off acc = fold (apply_desc m) (desc_addrs data d sz off) acc"
proof (induction m data d sz off acc rule: uefi_loop.induct)
  case (1 m data d sz off acc)
  then show ?case
    by (simp add: uefi_loop.simps [of m data d sz off acc] desc_addrs.simps [of data d sz off])
qed

lemma fold_apply_desc_spec:
  assumes "pmm_inv s" and "\<forall>d \<in> set ds. 4096 dvd unat (rd32 m (d + 8))"
    and "fold (apply_desc m) ds (u, mk, s) = (u', mk', s')"
  shows "pmm_inv s' \<and> pmm_ready s' = pmm_ready s \<and>
    allocated s' = allocated s \<union> (\<Union>d \<in> set ds. desc_blocks m d)"
  using assms
proof (induction ds arbitrary: u mk s)
  case Nil
  then show ?case by simp
next
  case (Cons d ds)
  obtain u1 mk1 s1 where d: "apply_desc m d (u, mk, s) = (u1, mk1, s1)"
    by (cases "apply_desc m d (u, mk, s)")
  have one: "pmm_inv s1 \<and> pmm_ready s1 = pmm_ready s \<and> allocated s1 = allocated s \<union> desc_blocks m d"
    using Cons.prems by (intro apply_desc_spec [OF _ _ d]) simp_all
  then show ?case using Cons.IH [of s1 u1 mk1] Cons.prems d by auto
qed

text \<open>The descriptors of a valid hand-off.\<close>

definition uefi_descs :: "memory \<Rightarrow> u32 list" where
  "uefi_descs m =
     (let map_size = rd32 m 0x5020; data = rd32 m 0x502C;
          sz = (if map_size > 0x6000 - data then 0x6000 - data else map_size)
      in desc_addrs data (unat (rd32 m 0x5024)) (unat sz) 0)"

definition uefi_valid :: "memory \<Rightarrow> bool" where
  "uefi_valid m \<longleftrightarrow> rd32 m 0x5010 = 0x55454649 \<and> rd32 m 0x5020 \<noteq> 0 \<and> rd32 m 0x5024 \<ge> 40 \<and>
     0x5100 \<le> rd32 m 0x502C \<and> rd32 m 0x502C < 0x6000"

lemma pmm_apply_uefi_map_spec:
  assumes "pmm_inv s" and "pmm_ready s" and "uefi_valid m"
    and "\<forall>d \<in> set (uefi_descs m). 4096 dvd unat (rd32 m (d + 8))"
    and "pmm_apply_uefi_map m s = (marked, kb, s')"
  shows "pmm_inv s' \<and> allocated s' = allocated s \<union> (\<Union>d \<in> set (uefi_descs m). desc_blocks m d)"
proof -
  obtain u mk s1 where f: "fold (apply_desc m) (uefi_descs m) (0, 0, s) = (u, mk, s1)"
    by (cases "fold (apply_desc m) (uefi_descs m) (0, 0, s)")
  have "rd32 m 0x502C \<noteq> 0" using assms(3) by (auto simp: uefi_valid_def)
  then have "s' = s1"
    using assms(2,3,5) f
    by (auto simp: pmm_apply_uefi_map_def uefi_valid_def Let_def uefi_loop_fold uefi_descs_def
        split: if_splits)
  then show ?thesis using fold_apply_desc_spec [OF assms(1,4) f] by simp
qed

section \<open>Properties\<close>

text \<open>C1: allocation is first-fit and exact. On a ready pool whose counter agrees with its
  bitmap, a request for n > 0 pages fails, leaving the state as it is, exactly when no run of
  n free frames exists; otherwise it returns the page-aligned address, inside the pool, of
  the lowest free run, marks exactly that run, and keeps the counter right.\<close>

theorem pmm_alloc_first_fit:
  assumes "pmm_inv s" and "pmm_ready s" and "n \<noteq> 0" and "pmm_alloc_pages n s = (p, s')"
  shows "if \<forall>f. \<not> free_run s (unat n) f then p = 0 \<and> s' = s
    else \<exists>f. free_run s (unat n) f \<and> (\<forall>g < f. \<not> free_run s (unat n) g) \<and>
      p = frame_addr f \<and> pool_range p n \<and>
      allocated s' = allocated s \<union> {f..<f + unat n} \<and> pmm_inv s'"
proof (cases "\<exists>f. free_run s (unat n) f")
  case True
  define f where "f = (LEAST f. free_run s (unat n) f)"
  have "\<forall>g < f. \<not> free_run s (unat n) g" unfolding f_def by (blast dest: not_less_Least)
  moreover have "p = frame_addr f \<and> pool_range p n \<and> free_run s (unat n) f \<and>
      allocated s' = allocated s \<union> {f..<f + unat n} \<and> pmm_inv s'"
    using pmm_alloc_pages_spec [OF assms(1,4)] assms(2,3) True by (auto simp: Let_def f_def)
  ultimately show ?thesis using True by auto
next
  case False
  then show ?thesis using pmm_alloc_pages_spec [OF assms(1,4)] by simp
qed

text \<open>The pool right after \<open>pmm_init\<close>.\<close>

abbreviation fresh_pmm :: pmm where
  "fresh_pmm \<equiv> pmm_init \<lparr>g_bitmap = [], g_used = 0, pmm_ready = False\<rparr>"

lemma fresh_pmm_facts [simp]:
  "pmm_inv fresh_pmm" "pmm_ready fresh_pmm" "allocated fresh_pmm = {}" "pmm_live fresh_pmm"
proof -
  show a: "allocated fresh_pmm = {}"
    by (auto simp: allocated_def bit_get_def pmm_init_def)
  show i: "pmm_inv fresh_pmm" unfolding pmm_inv_def a by (simp add: pmm_init_def)
  show r: "pmm_ready fresh_pmm" by (simp add: pmm_init_def)
  show "pmm_live fresh_pmm" using i r by (simp add: pmm_live_def)
qed

theorem pmm_alloc_first_fit_witness:
  "pmm_alloc_pages 3 fresh_pmm = (0x00A00000, snd (pmm_alloc_pages 3 fresh_pmm)) \<and>
   allocated (snd (pmm_alloc_pages 3 fresh_pmm)) = {0, 1, 2}"
proof -
  have r: "fst (pmm_alloc_pages 3 fresh_pmm) = 0x00A00000" by code_simp
  obtain s' where s': "pmm_alloc_pages 3 fresh_pmm = (0x00A00000, s')"
    using r by (cases "pmm_alloc_pages 3 fresh_pmm") simp
  have "free_run fresh_pmm 3 0" by (simp add: free_run_def)
  then have "\<not> (\<forall>f. \<not> free_run fresh_pmm (unat (3 :: u32)) f)" by auto
  then obtain f where f: "\<forall>g < f. \<not> free_run fresh_pmm 3 g" "allocated s' = {f..<f + 3}"
    using if_not_P [THEN iffD1, OF _ pmm_alloc_first_fit [OF fresh_pmm_facts(1,2) _ s']] by auto
  then have "f = 0" using \<open>free_run fresh_pmm 3 0\<close> by (metis gr0I)
  then have "allocated s' = {0..<3}" using f by simp
  also have "\<dots> = {0, 1, 2}" by auto
  finally show ?thesis using s' by simp
qed

text \<open>C2: release is exact. \<open>pmm_free_pages\<close> succeeds if and only if the range lies in the
  pool on unbounded integers (so no 32-bit wrap-around in \<open>in_pool\<close> is exploitable), is
  page-aligned and non-empty, and every frame of it is allocated; it then clears exactly
  those frames and adjusts the counter, and in every other case changes nothing.\<close>

theorem pmm_free_exact:
  assumes "pmm_inv s" and "pmm_free_pages p n s = (ok, s')"
  shows "ok = (pmm_ready s \<and> pool_range p n \<and>
       {unat (idx_of p)..<unat (idx_of p) + unat n} \<subseteq> allocated s) \<and>
     (if ok then allocated s' = allocated s - {unat (idx_of p)..<unat (idx_of p) + unat n} \<and>
        pmm_inv s' \<and> pmm_ready s' else s' = s)"
  using assms by (rule pmm_free_pages_spec)

theorem pmm_free_exact_witness:
  "in_pool 0x00A00000 0x100000 \<and> \<not> fst (pmm_free_pages 0x00A00000 0x100000 fresh_pmm)"
proof -
  obtain ok s' where r: "pmm_free_pages 0x00A00000 0x100000 fresh_pmm = (ok, s')"
    by (cases "pmm_free_pages 0x00A00000 0x100000 fresh_pmm")
  have "in_pool 0x00A00000 0x100000" by (simp add: in_pool_def)
  moreover have "\<not> ok" using pmm_free_exact [OF _ r] by (simp add: pool_range_def)
  ultimately show ?thesis using r by simp
qed

text \<open>Pages go round. Releasing a fresh allocation succeeds and restores the allocated
  set, and a second release of the same range is rejected without any change.\<close>

theorem pmm_alloc_free_roundtrip:
  assumes "pmm_live s" and "pmm_alloc_pages n s = (p, s1)" and "p \<noteq> 0"
  shows "\<exists>s2. pmm_free_pages p n s1 = (True, s2) \<and> pmm_live s2 \<and> allocated s2 = allocated s \<and>
    pmm_free_pages p n s2 = (False, s2)"
proof -
  obtain s2 where s2: "pmm_free_pages p n s1 = (True, s2)" "pmm_live s2" "allocated s2 = allocated s"
    using pf.alloc_release_roundtrip [OF assms] by blast
  have "pmm_live s1" using pf.alloc_fresh [OF assms] by simp
  then have "pmm_free_pages p n s2 = (False, s2)"
    using s2(1) by (rule pf.double_release_rejected)
  with s2 show ?thesis by blast
qed

theorem pmm_alloc_free_roundtrip_witness:
  "\<exists>s2. pmm_free_pages (fst (pmm_alloc_pages 4 fresh_pmm)) 4 (snd (pmm_alloc_pages 4 fresh_pmm)) = (True, s2) \<and>
    allocated s2 = {}"
proof -
  have "fst (pmm_alloc_pages 4 fresh_pmm) \<noteq> 0" by code_simp
  then show ?thesis
    using pmm_alloc_free_roundtrip [of fresh_pmm 4 "fst (pmm_alloc_pages 4 fresh_pmm)"
        "snd (pmm_alloc_pages 4 fresh_pmm)"] by auto
qed

text \<open>Firmware memory the map calls free is taken out of the pool. Every frame of the
  pool that a descriptor of type EfiConventionalMemory (7) covers is marked allocated by
  \<open>pmm_apply_uefi_map\<close>: only the types 1 to 4 are skipped, although the header comment
  names type 7 as reusable.\<close>

theorem uefi_conventional_memory_is_reserved:
  assumes "pmm_inv s" and "pmm_ready s" and "uefi_valid m"
    and "\<forall>d \<in> set (uefi_descs m). 4096 dvd unat (rd32 m (d + 8))"
    and "d \<in> set (uefi_descs m)" and "rd32 m d = 7"
    and "i < PMM_POOL_PAGES" and "unat (rd32 m (d + 8)) \<le> 0xA00000 + i * 4096"
    and "0xA00000 + i * 4096 < unat (rd32 m (d + 8)) + unat (rd32 m (d + 24)) * 4096"
  shows "i \<in> allocated (snd (snd (pmm_apply_uefi_map m s)))"
proof -
  obtain marked kb s' where r: "pmm_apply_uefi_map m s = (marked, kb, s')"
    by (cases "pmm_apply_uefi_map m s")
  have "i \<in> desc_blocks m d" using assms(6-9) by (simp add: desc_blocks_def)
  then have "i \<in> allocated s'"
    using pmm_apply_uefi_map_spec [OF assms(1-4) r] assms(5) by blast
  then show ?thesis using r by simp
qed

definition uefi_example :: memory where
  "uefi_example = ((\<lambda>_. 0)(0x5010 := 0x49, 0x5011 := 0x46, 0x5012 := 0x45, 0x5013 := 0x55,
     0x5020 := 40, 0x5024 := 40, 0x502D := 0x51, 0x5100 := 7, 0x510A := 0xA0, 0x5118 := 2))"

theorem uefi_conventional_memory_is_reserved_witness:
  "{0, 1} \<subseteq> allocated (snd (snd (pmm_apply_uefi_map uefi_example fresh_pmm)))"
proof -
  have v: "uefi_valid uefi_example" by (simp add: uefi_valid_def rd32_def uefi_example_def)
  have d: "uefi_descs uefi_example = [0x5100]"
    by (simp add: uefi_descs_def rd32_def uefi_example_def desc_addrs.simps)
  have r: "rd32 uefi_example 0x5100 = 7" "rd32 uefi_example 0x5108 = 0xA00000"
    "rd32 uefi_example 0x5118 = 2"
    by (simp_all add: rd32_def uefi_example_def)
  show ?thesis
    using uefi_conventional_memory_is_reserved [where s = fresh_pmm and d = "0x5100" and i = 0, OF _ _ v]
      uefi_conventional_memory_is_reserved [where s = fresh_pmm and d = "0x5100" and i = 1, OF _ _ v] d r
    by simp
qed

end
