(* ===== verification/Paging.thy ===== *)
theory Paging
  imports EzPrelude
begin

text \<open>
  Two-level 32-bit paging, \<open>src/kernel/paging.c\<close>. Page directories and page tables are
  4 KB pages of 1024 entries; the store \<open>tbl\<close> maps the physical base of such a page and an
  index to the entry. The code reaches them through pointers that are page-aligned by
  construction (a masked CR3 or PDE, or a page of the static pool), so nothing is lost by
  indexing with the base. The TLB is not modelled: \<open>invlpg\<close> has no effect on the tables.
\<close>

section \<open>State\<close>

abbreviation PTE_P :: u32 where "PTE_P \<equiv> 0x001"
abbreviation PTE_RW :: u32 where "PTE_RW \<equiv> 0x002"
abbreviation PTE_US :: u32 where "PTE_US \<equiv> 0x004"
abbreviation PAGING_PD_ADDR :: u32 where "PAGING_PD_ADDR \<equiv> 0x00200000"
abbreviation PAGING_PT_BASE :: u32 where "PAGING_PT_BASE \<equiv> 0x00201000"
abbreviation PAGING_PT_MAX :: u32 where "PAGING_PT_MAX \<equiv> 16"
abbreviation PAGING_IDENTITY_END :: u32 where "PAGING_IDENTITY_END \<equiv> 0x02000000"
abbreviation PAGING_LFB_WINDOW :: u32 where "PAGING_LFB_WINDOW \<equiv> 0x00800000"
abbreviation PAGING_KRN_FLAGS :: u32 where "PAGING_KRN_FLAGS \<equiv> 0x002"
abbreviation PAGING_USR_FLAGS :: u32 where "PAGING_USR_FLAGS \<equiv> 0x006"
abbreviation PAGING_MMIO_FLAGS :: u32 where "PAGING_MMIO_FLAGS \<equiv> 0x01A"

record paging =
  tbl :: "u32 \<Rightarrow> nat \<Rightarrow> u32"
  cr0 :: u32
  cr3 :: u32
  g_pt_used :: u32
  g_mapped :: u32
  paging_ready :: bool

definition pdi :: "u32 \<Rightarrow> nat" where
  "pdi virt = unat (drop_bit 22 virt)"

definition pti :: "u32 \<Rightarrow> nat" where
  "pti virt = unat (drop_bit 12 virt AND 0x3FF)"

definition set_entry :: "u32 \<Rightarrow> nat \<Rightarrow> u32 \<Rightarrow> paging \<Rightarrow> paging" where
  "set_entry base i v s = s\<lparr>tbl := (tbl s)(base := (tbl s base)(i := v))\<rparr>"

section \<open>Operations\<close>

definition pd_active :: "paging \<Rightarrow> u32" where
  "pd_active s = (if \<not> paging_ready s then PAGING_PD_ADDR else cr3 s AND 0xFFFFF000)"

definition pt_for :: "u32 \<Rightarrow> bool \<Rightarrow> paging \<Rightarrow> u32 option \<times> paging" where
  "pt_for virt create s =
     (let pd = pd_active s; pde = tbl s pd (pdi virt) in
      if pde AND PTE_P \<noteq> 0 then (Some (pde AND 0xFFFFF000), s)
      else if \<not> create then (None, s)
      else if g_pt_used s \<ge> PAGING_PT_MAX then (None, s)
      else if pd \<noteq> PAGING_PD_ADDR then (None, s)
      else
        let pt = PAGING_PT_BASE + g_pt_used s * 4096;
            s1 = s\<lparr>g_pt_used := g_pt_used s + 1\<rparr>;
            s2 = fold (\<lambda>i. set_entry pt i 0) [0..<1024] s1;
            s3 = set_entry pd (pdi virt) (pt OR PTE_P OR PTE_RW) s2
        in (Some pt, s3))"

text \<open>A status of \<open>True\<close> is the C result 0.\<close>

definition paging_map :: "u32 \<Rightarrow> u32 \<Rightarrow> u32 \<Rightarrow> paging \<Rightarrow> bool \<times> paging" where
  "paging_map virt phys flags s =
     (if virt AND 0xFFF \<noteq> 0 \<or> phys AND 0xFFF \<noteq> 0 then (False, s)
      else case pt_for virt True s of
        (None, s1) \<Rightarrow> (False, s1)
      | (Some pt, s1) \<Rightarrow>
          let s2 = (if tbl s1 pt (pti virt) AND PTE_P = 0 then s1\<lparr>g_mapped := g_mapped s1 + 1\<rparr> else s1);
              s3 = set_entry pt (pti virt) ((phys AND 0xFFFFF000) OR (flags AND 0xFFF) OR PTE_P) s2;
              pd = pd_active s3
          in (True,
              if flags AND PTE_US \<noteq> 0
              then set_entry pd (pdi virt) (tbl s3 pd (pdi virt) OR (PTE_US OR PTE_RW)) s3
              else s3))"

definition paging_unmap :: "u32 \<Rightarrow> paging \<Rightarrow> paging" where
  "paging_unmap virt s =
     (case pt_for virt False s of
        (None, s1) \<Rightarrow> s1
      | (Some pt, s1) \<Rightarrow>
          set_entry pt (pti virt) 0
            (if tbl s1 pt (pti virt) AND PTE_P \<noteq> 0 then s1\<lparr>g_mapped := g_mapped s1 - 1\<rparr> else s1))"

text \<open>The result is \<open>Some (phys, flags)\<close> for the C result 0.\<close>

definition paging_query :: "u32 \<Rightarrow> paging \<Rightarrow> (u32 \<times> u32) option" where
  "paging_query virt s =
     (case fst (pt_for virt False s) of
        None \<Rightarrow> None
      | Some pt \<Rightarrow>
          let pte = tbl s pt (pti virt) in
          if pte AND PTE_P = 0 then None else Some (pte AND 0xFFFFF000, pte AND 0xFFF))"

definition paging_enabled :: "paging \<Rightarrow> bool" where
  "paging_enabled s = (cr0 s AND 0x80000000 \<noteq> 0)"

definition paging_cr3 :: "paging \<Rightarrow> u32" where
  "paging_cr3 s = cr3 s AND 0xFFFFF000"

definition paging_switch_cr3 :: "u32 \<Rightarrow> paging \<Rightarrow> paging" where
  "paging_switch_cr3 pd_phys s = s\<lparr>cr3 := pd_phys AND 0xFFFFF000\<rparr>"

text \<open>A loop of \<open>paging_map\<close> calls that stops at the first failure.\<close>

fun map_pages :: "(u32 \<times> u32) list \<Rightarrow> u32 \<Rightarrow> paging \<Rightarrow> bool \<times> paging" where
  "map_pages [] flags s = (True, s)"
| "map_pages ((v, p) # xs) flags s =
     (case paging_map v p flags s of
        (False, s1) \<Rightarrow> (False, s1)
      | (True, s1) \<Rightarrow> map_pages xs flags s1)"

definition identity_map :: "nat \<Rightarrow> paging \<Rightarrow> bool \<times> paging" where
  "identity_map pages s =
     map_pages (map (\<lambda>k. (of_nat (k * 4096), of_nat (k * 4096))) [0..<pages]) PAGING_KRN_FLAGS s"

text \<open>
  What boot.asm leaves at 0x5000: the linear framebuffer's address, width, height and depth.
\<close>

record vbe_info =
  lfb :: u32
  vxr :: u16
  vyr :: u16
  vbpp :: u8

definition lfb_need :: "vbe_info \<Rightarrow> u32" where
  "lfb_need v =
     (let need = ucast (vxr v) * ucast (vyr v) * ucast (vbpp v div 8);
          need' = (need + 4096 - 1) AND NOT (4096 - 1)
      in if need' < PAGING_LFB_WINDOW then PAGING_LFB_WINDOW else need')"

definition map_lfb :: "vbe_info \<Rightarrow> paging \<Rightarrow> bool \<times> paging" where
  "map_lfb v s =
     (if lfb v < 0x00100000 \<or> lfb v \<ge> 0xFFF00000 then (False, s)
      else if vxr v < 320 \<or> vyr v < 200 \<or> (vbpp v \<noteq> 16 \<and> vbpp v \<noteq> 32) then (False, s)
      else
        let base = lfb v AND 0xFFFFF000 in
        map_pages (map (\<lambda>k. (base + of_nat (k * 4096), base + of_nat (k * 4096)))
          [0..<unat (lfb_need v) div 4096]) PAGING_MMIO_FLAGS s)"

definition paging_init :: "vbe_info \<Rightarrow> paging \<Rightarrow> bool \<times> paging" where
  "paging_init v s =
     (if paging_ready s then (True, s)
      else
        let s1 = set_entry PAGING_PD_ADDR 1023 0x5A5A5A5A (set_entry PAGING_PD_ADDR 0 0xA5A5A5A5 s) in
        if tbl s1 PAGING_PD_ADDR 0 \<noteq> 0xA5A5A5A5 \<or> tbl s1 PAGING_PD_ADDR 1023 \<noteq> 0x5A5A5A5A
        then (False, s1)
        else
          let s2 = (fold (\<lambda>i. set_entry PAGING_PD_ADDR i 0) [0..<1024] s1)
                     \<lparr>g_pt_used := 0, g_mapped := 0\<rparr>
          in case identity_map (unat PAGING_IDENTITY_END div 4096) s2 of
            (False, s3) \<Rightarrow> (False, s3)
          | (True, s3) \<Rightarrow>
              let s4 = snd (map_lfb v s3)
              in (True, s4\<lparr>cr3 := PAGING_PD_ADDR, cr0 := cr0 s4 OR 0x80000000, paging_ready := True\<rparr>))"

section \<open>Index arithmetic\<close>

lemma pdi_less: "pdi v < 1024"
proof -
  have "unat v < 2 ^ 32" using u32_bound [of v] by simp
  then show ?thesis by (simp add: pdi_def unat_drop_bit_eq drop_bit_nat_def less_mult_imp_div_less)
qed

lemma pdi_eq: "pdi v = unat v div 2 ^ 22"
  by (simp add: pdi_def unat_drop_bit_eq drop_bit_nat_def)

lemma pti_eq: "pti v = unat v div 4096 mod 1024"
proof -
  have m: "(0x3FF::u32) = mask 10" by (simp add: mask_eq_exp_minus_1)
  show ?thesis
    unfolding pti_def m by (simp add: unat_and_mask unat_drop_bit_eq drop_bit_nat_def)
qed

lemma pti_less: "pti v < 1024"
  by (simp add: pti_eq)

text \<open>Two addresses walk through the same entry exactly when they lie in the same page.\<close>

lemma same_slot_iff: "pdi v = pdi w \<and> pti v = pti w \<longleftrightarrow> unat v div 4096 = unat w div 4096"
proof -
  have q: "unat x div 4096 = pdi x * 1024 + pti x" for x :: u32
    using div_mult_mod_eq [of "unat x div 4096" 1024]
    by (simp add: pdi_eq pti_eq div_mult2_eq [symmetric])
  have "pdi x = (unat x div 4096) div 1024 \<and> pti x = (unat x div 4096) mod 1024" for x
    by (simp add: pdi_eq pti_eq div_mult2_eq [symmetric])
  then show ?thesis using q by metis
qed

section \<open>The invariant of the active directory\<close>

abbreviation present :: "u32 \<Rightarrow> bool" where "present e \<equiv> e AND PTE_P \<noteq> 0"

text \<open>The page table a present directory entry points to.\<close>

definition table_of :: "paging \<Rightarrow> nat \<Rightarrow> u32" where
  "table_of s i = tbl s (pd_active s) i AND 0xFFFFF000"

text \<open>
  Distinct present entries of the active directory point to distinct tables, none of which
  is the directory itself or a page of the static pool that has not been handed out.
\<close>

definition paging_inv :: "paging \<Rightarrow> bool" where
  "paging_inv s \<longleftrightarrow>
     g_pt_used s \<le> PAGING_PT_MAX \<and>
     (\<forall>i < 1024. present (tbl s (pd_active s) i) \<longrightarrow>
        table_of s i \<noteq> pd_active s \<and>
        (\<forall>j < 1024. j \<noteq> i \<longrightarrow> present (tbl s (pd_active s) j) \<longrightarrow> table_of s j \<noteq> table_of s i) \<and>
        (\<forall>k. unat (g_pt_used s) \<le> k \<and> k < 16 \<longrightarrow> table_of s i \<noteq> PAGING_PT_BASE + of_nat k * 4096))"

lemma paging_query_walk:
  "paging_query v s =
     (if \<not> present (tbl s (pd_active s) (pdi v)) then None
      else let e = tbl s (table_of s (pdi v)) (pti v) in
        if present e then Some (e AND 0xFFFFF000, e AND 0xFFF) else None)"
  by (simp add: paging_query_def pt_for_def Let_def table_of_def)

lemma set_entry_simps [simp]:
  "tbl (set_entry b i v s) = (tbl s)(b := (tbl s b)(i := v))"
  "cr3 (set_entry b i v s) = cr3 s" "cr0 (set_entry b i v s) = cr0 s"
  "g_pt_used (set_entry b i v s) = g_pt_used s" "g_mapped (set_entry b i v s) = g_mapped s"
  "paging_ready (set_entry b i v s) = paging_ready s"
  "pd_active (set_entry b i v s) = pd_active s"
  by (simp_all add: set_entry_def pd_active_def)

lemma pd_active_update [simp]:
  "pd_active (s\<lparr>g_pt_used := u\<rparr>) = pd_active s" "pd_active (s\<lparr>g_mapped := c\<rparr>) = pd_active s"
  by (simp_all add: pd_active_def)

lemma fold_set_entry_zero:
  "fold (\<lambda>i. set_entry b i 0) [0..<n] s = s\<lparr>tbl := (tbl s)(b := (\<lambda>i. if i < n then 0 else tbl s b i))\<rparr>"
proof (induction n)
  case 0
  then show ?case by simp
next
  case (Suc n)
  have "fold (\<lambda>i. set_entry b i 0) [0..<Suc n] s = set_entry b n 0 (fold (\<lambda>i. set_entry b i 0) [0..<n] s)"
    by simp
  also have "\<dots> = s\<lparr>tbl := (tbl s)(b := (\<lambda>i. if i < Suc n then 0 else tbl s b i))\<rparr>"
    unfolding Suc by (auto simp: set_entry_def fun_eq_iff less_Suc_eq
        intro!: arg_cong [where f = "\<lambda>t. s\<lparr>tbl := t\<rparr>"])
  finally show ?case .
qed

text \<open>The outcome of \<open>pt_for\<close> with creation: the old state, or the state with one fresh table.\<close>

definition fresh_table :: "u32 \<Rightarrow> paging \<Rightarrow> paging" where
  "fresh_table virt s =
     (let pt = PAGING_PT_BASE + g_pt_used s * 4096 in
      s\<lparr>g_pt_used := g_pt_used s + 1,
        tbl := (tbl s)(pt := (\<lambda>i. if i < 1024 then 0 else tbl s pt i),
          PAGING_PD_ADDR := (tbl s PAGING_PD_ADDR)(pdi virt := (pt OR PTE_P OR PTE_RW)))\<rparr>)"

lemma pool_page_bounds:
  assumes "u < 16"
  shows "unat (PAGING_PT_BASE + u * 4096) = 0x201000 + unat u * 4096"
proof -
  have "unat (u * 4096) = unat u * 4096" using assms by (simp add: unat_word_ariths word_less_nat_alt)
  then show ?thesis using assms by (simp add: unat_word_ariths word_less_nat_alt)
qed

lemma pool_page_neq_pd: "u < 16 \<Longrightarrow> PAGING_PT_BASE + u * 4096 \<noteq> PAGING_PD_ADDR"
proof
  assume u: "u < 16" and e: "PAGING_PT_BASE + u * 4096 = PAGING_PD_ADDR"
  have "unat (PAGING_PT_BASE + u * 4096) = 0x200000" unfolding e by simp
  then show False using pool_page_bounds [OF u] by linarith
qed

lemma pt_for_create:
  "pt_for virt True s =
     (if present (tbl s (pd_active s) (pdi virt)) then (Some (table_of s (pdi virt)), s)
      else if g_pt_used s < PAGING_PT_MAX \<and> pd_active s = PAGING_PD_ADDR
      then (Some (PAGING_PT_BASE + g_pt_used s * 4096), fresh_table virt s)
      else (None, s))"
proof -
  have "g_pt_used s < 16 \<Longrightarrow> PAGING_PT_BASE + g_pt_used s * 4096 \<noteq> PAGING_PD_ADDR"
    by (rule pool_page_neq_pd)
  then show ?thesis
    by (auto simp: pt_for_def Let_def table_of_def fresh_table_def fold_set_entry_zero set_entry_def
        not_le cong: if_cong)
qed

lemma or_flags_base:
  assumes "(b::u32) AND 0xFFF = 0" and "f AND 0xFFFFF000 = 0"
  shows "(b OR f) AND 0xFFFFF000 = b" "(b OR f) AND 0xFFF = f"
proof -
  have b: "b AND 0xFFFFF000 = b" and f: "f AND 0xFFF = f"
    using word_split_and_not [of b "mask 12"] word_split_and_not [of f "mask 12"] assms
    unfolding page_mask_numeral mask12_numeral by simp_all
  show "(b OR f) AND 0xFFFFF000 = b" using b assms(2) by (simp add: bit.conj_disj_distrib2)
  show "(b OR f) AND 0xFFF = f" using f assms(1) by (simp add: bit.conj_disj_distrib2)
qed

lemma table_of_fresh:
  assumes "g_pt_used s < 16" and "pd_active s = PAGING_PD_ADDR"
  shows "table_of (fresh_table v s) (pdi v) = PAGING_PT_BASE + g_pt_used s * 4096"
    and "pd_active (fresh_table v s) = PAGING_PD_ADDR"
    and "present (tbl (fresh_table v s) PAGING_PD_ADDR (pdi v))"
    and "i \<noteq> pdi v \<Longrightarrow> tbl (fresh_table v s) PAGING_PD_ADDR i = tbl s PAGING_PD_ADDR i"
proof -
  let ?b = "PAGING_PT_BASE + g_pt_used s * 4096"
  show pd: "pd_active (fresh_table v s) = PAGING_PD_ADDR"
    using assms(2) by (simp add: fresh_table_def Let_def pd_active_def split: if_splits)
  have "unat ?b = (513 + unat (g_pt_used s)) * 4096" using pool_page_bounds [OF assms(1)] by simp
  then have "4096 dvd unat ?b" by simp
  then have al: "?b AND 0xFFF = 0" by (simp add: page_offset_0_iff)
  have e: "tbl (fresh_table v s) PAGING_PD_ADDR (pdi v) = ?b OR 3"
    by (simp add: fresh_table_def Let_def)
  show "table_of (fresh_table v s) (pdi v) = ?b"
    unfolding table_of_def pd e by (rule or_flags_base(1) [OF al]) simp
  show "present (tbl (fresh_table v s) PAGING_PD_ADDR (pdi v))"
    unfolding e by (simp add: bit.conj_disj_distrib2)
  show "i \<noteq> pdi v \<Longrightarrow> tbl (fresh_table v s) PAGING_PD_ADDR i = tbl s PAGING_PD_ADDR i"
    by (simp add: fresh_table_def Let_def)
qed

lemma used_table_not_pool:
  assumes "paging_inv s" and "i < 1024" and "present (tbl s (pd_active s) i)" and "g_pt_used s < 16"
  shows "table_of s i \<noteq> PAGING_PT_BASE + g_pt_used s * 4096"
proof -
  have "unat (g_pt_used s) < 16" using assms(4) by (simp add: word_less_nat_alt)
  then have "table_of s i \<noteq> PAGING_PT_BASE + of_nat (unat (g_pt_used s)) * 4096"
    using assms(1-3) unfolding paging_inv_def by blast
  then show ?thesis by simp
qed

lemma pool_pages_distinct:
  assumes "j < 16" and "k < 16" and "(PAGING_PT_BASE::u32) + of_nat j * 4096 = PAGING_PT_BASE + of_nat k * 4096"
  shows "j = k"
proof -
  have b: "unat (PAGING_PT_BASE + of_nat i * 4096 :: u32) = 0x201000 + i * 4096" if "i < 16" for i
    using that pool_page_bounds [of "of_nat i"] by (simp add: word_less_nat_alt unat_of_nat)
  show ?thesis using b [OF assms(1)] b [OF assms(2)] unfolding assms(3) by linarith
qed

lemma fresh_table_spec:
  assumes inv: "paging_inv s" and np: "\<not> present (tbl s (pd_active s) (pdi v))"
    and u: "g_pt_used s < 16" and pd: "pd_active s = PAGING_PD_ADDR"
  shows "paging_inv (fresh_table v s) \<and> paging_query w (fresh_table v s) = paging_query w s"
proof -
  let ?f = "fresh_table v s" and ?b = "PAGING_PT_BASE + g_pt_used s * 4096"
  note fr = table_of_fresh [OF u pd]
  have u16: "unat (g_pt_used s) < 16" using u by (simp add: word_less_nat_alt)
  have used: "g_pt_used ?f = g_pt_used s + 1" "unat (g_pt_used s + 1) = Suc (unat (g_pt_used s))"
    using u16 by (simp_all add: fresh_table_def Let_def unat_word_ariths)
  have tb: "table_of ?f i = table_of s i" if "i \<noteq> pdi v" for i
    using fr(2,4) that pd by (simp add: table_of_def)
  have pr: "present (tbl ?f PAGING_PD_ADDR i) = present (tbl s PAGING_PD_ADDR i)" if "i \<noteq> pdi v" for i
    using fr(4) that by simp
  have bn: "?b \<noteq> PAGING_PD_ADDR" by (rule pool_page_neq_pd [OF u])
  have nb: "table_of s i \<noteq> ?b" if "i < 1024" "present (tbl s PAGING_PD_ADDR i)" for i
    using used_table_not_pool [OF inv that(1) _ u] that pd by simp
  have old: "table_of s i \<noteq> PAGING_PD_ADDR"
    "\<And>j. j < 1024 \<Longrightarrow> j \<noteq> i \<Longrightarrow> present (tbl s PAGING_PD_ADDR j) \<Longrightarrow> table_of s j \<noteq> table_of s i"
    "\<And>k. unat (g_pt_used s) \<le> k \<Longrightarrow> k < 16 \<Longrightarrow> table_of s i \<noteq> PAGING_PT_BASE + of_nat k * 4096"
    if "i < 1024" "present (tbl s PAGING_PD_ADDR i)" for i
    using inv that unfolding paging_inv_def pd by blast+
  have bk: "?b \<noteq> PAGING_PT_BASE + of_nat k * 4096" if "Suc (unat (g_pt_used s)) \<le> k" "k < 16" for k
    using pool_pages_distinct [of "unat (g_pt_used s)" k] u16 that by auto
  have "paging_inv ?f"
    unfolding paging_inv_def fr(2) used
  proof (intro conjI allI impI)
    show "g_pt_used s + 1 \<le> 16" using used(2) u16 by (simp add: word_le_nat_alt)
    fix i assume i: "i < 1024" and p: "present (tbl ?f PAGING_PD_ADDR i)"
    show "table_of ?f i \<noteq> PAGING_PD_ADDR"
      using old(1) [of i] i p tb pr fr(1) bn by (cases "i = pdi v") auto
    { fix j assume "j < 1024" "j \<noteq> i" "present (tbl ?f PAGING_PD_ADDR j)"
      then show "table_of ?f j \<noteq> table_of ?f i"
        using old(2) [of i j] i p tb pr fr(1) nb [of i] nb [of j]
        by (cases "i = pdi v"; cases "j = pdi v") auto }
    { fix k assume "Suc (unat (g_pt_used s)) \<le> k \<and> k < 16"
      then show "table_of ?f i \<noteq> PAGING_PT_BASE + of_nat k * 4096"
        using old(3) [of i k] i p tb pr fr(1) bk [of k] by (cases "i = pdi v") auto }
  qed
  moreover have "paging_query w ?f = paging_query w s"
  proof (cases "pdi w = pdi v")
    case True
    have "tbl ?f ?b (pti w) = 0" using bn pti_less [of w] by (simp add: fresh_table_def Let_def)
    then show ?thesis using True fr np pd by (simp add: paging_query_walk)
  next
    case False
    have "table_of s (pdi w) \<noteq> ?b \<and> table_of s (pdi w) \<noteq> PAGING_PD_ADDR" if "present (tbl s PAGING_PD_ADDR (pdi w))"
      using nb [OF pdi_less that] old(1) [OF pdi_less that] by simp
    then have "tbl ?f (table_of s (pdi w)) = tbl s (table_of s (pdi w))"
      if "present (tbl s PAGING_PD_ADDR (pdi w))"
      using that by (simp add: fresh_table_def Let_def)
    then show ?thesis using False tb pr fr(2) pd by (simp add: paging_query_walk)
  qed
  ultimately show ?thesis by simp
qed

text \<open>
  Writes that keep the directory's shape (which entries are present and where they point)
  keep the invariant.
\<close>

lemma paging_inv_cong:
  assumes "paging_inv s" and "pd_active s' = pd_active s" and "g_pt_used s' = g_pt_used s"
    and "\<And>i. i < 1024 \<Longrightarrow> present (tbl s' (pd_active s) i) = present (tbl s (pd_active s) i)"
    and "\<And>i. i < 1024 \<Longrightarrow> table_of s' i = table_of s i"
  shows "paging_inv s'"
  using assms unfolding paging_inv_def by auto

lemma inv_table_neq_pd:
  "paging_inv s \<Longrightarrow> present (tbl s (pd_active s) (pdi v)) \<Longrightarrow> table_of s (pdi v) \<noteq> pd_active s"
  using pdi_less unfolding paging_inv_def by blast

lemma inv_tables_distinct:
  "paging_inv s \<Longrightarrow> present (tbl s (pd_active s) (pdi v)) \<Longrightarrow> present (tbl s (pd_active s) (pdi w)) \<Longrightarrow>
   table_of s (pdi w) = table_of s (pdi v) \<Longrightarrow> pdi w = pdi v"
  using pdi_less unfolding paging_inv_def by blast

lemma set_pte_spec:
  assumes inv: "paging_inv s" and p: "present (tbl s (pd_active s) (pdi v))"
    and s'_def: "s' = set_entry (table_of s (pdi v)) (pti v) e s"
  shows "paging_inv s'" and "pd_active s' = pd_active s"
    and "paging_query w s' =
      (if unat w div 4096 = unat v div 4096
       then (if present e then Some (e AND 0xFFFFF000, e AND 0xFFF) else None)
       else paging_query w s)"
    and "tbl s' (pd_active s) i = tbl s (pd_active s) i"
proof -
  note ne = inv_table_neq_pd [OF inv p]
  show pd: "pd_active s' = pd_active s" by (simp add: s'_def)
  show dir: "tbl s' (pd_active s) i = tbl s (pd_active s) i" for i using ne by (simp add: s'_def)
  have tb: "table_of s' i = table_of s i" for i using dir pd by (simp add: table_of_def)
  show "paging_inv s'"
    using inv by (rule paging_inv_cong) (simp_all add: pd dir tb, simp add: s'_def)
  show "paging_query w s' = (if unat w div 4096 = unat v div 4096
      then (if present e then Some (e AND 0xFFFFF000, e AND 0xFFF) else None) else paging_query w s)"
  proof (cases "unat w div 4096 = unat v div 4096")
    case True
    then have "pdi w = pdi v" "pti w = pti v" using same_slot_iff by blast+
    then show ?thesis using True p dir tb pd by (simp add: paging_query_walk) (simp add: s'_def)
  next
    case False
    then have "pdi w \<noteq> pdi v \<or> pti w \<noteq> pti v" using same_slot_iff by blast
    then have "tbl s' (table_of s (pdi w)) (pti w) = tbl s (table_of s (pdi w)) (pti w)"
      if "present (tbl s (pd_active s) (pdi w))"
      using inv_tables_distinct [OF inv p that] by (auto simp: s'_def)
    then show ?thesis using False dir tb pd by (simp add: paging_query_walk)
  qed
qed

lemma pde_flags_spec:
  assumes inv: "paging_inv s" and p: "present (tbl s (pd_active s) (pdi v))"
    and s'_def: "s' = set_entry (pd_active s) (pdi v) (tbl s (pd_active s) (pdi v) OR 6) s"
  shows "paging_inv s'" and "pd_active s' = pd_active s" and "paging_query w s' = paging_query w s"
proof -
  show pd: "pd_active s' = pd_active s" by (simp add: s'_def)
  have pr: "present (tbl s' (pd_active s) i) = present (tbl s (pd_active s) i)" for i
    using p by (simp add: s'_def bit.conj_disj_distrib2)
  have tb: "table_of s' i = table_of s i" for i
    by (simp add: table_of_def s'_def bit.conj_disj_distrib2)
  show "paging_inv s'"
    using inv by (rule paging_inv_cong) (simp_all add: pd pr tb, simp add: s'_def)
  have "tbl s' (table_of s (pdi w)) = tbl s (table_of s (pdi w))"
    if "present (tbl s (pd_active s) (pdi w))"
    using inv_table_neq_pd [OF inv that] by (simp add: s'_def)
  then show "paging_query w s' = paging_query w s" using pr tb pd by (simp add: paging_query_walk)
qed

section \<open>Correctness of map, unmap and query\<close>

lemma or_pte:
  "p AND 0xFFF = (0::u32) \<Longrightarrow> ((p AND 0xFFFFF000) OR (f AND 0xFFF) OR 1) AND 0xFFFFF000 = p"
  "p AND 0xFFF = (0::u32) \<Longrightarrow> ((p AND 0xFFFFF000) OR (f AND 0xFFF) OR 1) AND 0xFFF = (f AND 0xFFF) OR 1"
  "present ((p AND 0xFFFFF000) OR (f AND 0xFFF) OR (1::u32))"
proof -
  assume p: "p AND 0xFFF = (0::u32)"
  have b: "p AND 0xFFFFF000 = p"
    using word_split_and_not [of p "mask 12"] p unfolding page_mask_numeral mask12_numeral by simp
  have f: "((f AND 0xFFF) OR 1) AND 0xFFFFF000 = (0::u32)"
    by (simp add: bit.conj_disj_distrib2 and.assoc)
  show "((p AND 0xFFFFF000) OR (f AND 0xFFF) OR 1) AND 0xFFFFF000 = p"
    "((p AND 0xFFFFF000) OR (f AND 0xFFF) OR 1) AND 0xFFF = (f AND 0xFFF) OR 1"
    using or_flags_base [OF p f] b by (simp_all add: or.assoc)
next
  show "present ((p AND 0xFFFFF000) OR (f AND 0xFFF) OR (1::u32))"
    by (simp add: bit.conj_disj_distrib2)
qed

lemma g_mapped_irrelevant [simp]:
  "paging_inv (s\<lparr>g_mapped := c\<rparr>) = paging_inv s" "table_of (s\<lparr>g_mapped := c\<rparr>) = table_of s"
  "paging_query v (s\<lparr>g_mapped := c\<rparr>) = paging_query v s"
  by (simp_all add: paging_inv_def table_of_def fun_eq_iff paging_query_walk)

lemma pt_for_create_spec:
  assumes "paging_inv s" and "pt_for v True s = (Some pt, s1)"
  shows "paging_inv s1" and "pd_active s1 = pd_active s" and "present (tbl s1 (pd_active s1) (pdi v))"
    and "pt = table_of s1 (pdi v)" and "paging_query w s1 = paging_query w s"
proof -
  have *: "paging_inv s1 \<and> pd_active s1 = pd_active s \<and> present (tbl s1 (pd_active s1) (pdi v)) \<and>
      pt = table_of s1 (pdi v) \<and> paging_query w s1 = paging_query w s" for w
    using assms table_of_fresh [where s = s and v = v] fresh_table_spec [where s = s and v = v and w = w]
    by (auto simp: pt_for_create split: if_splits)
  show "paging_inv s1" "pd_active s1 = pd_active s" "present (tbl s1 (pd_active s1) (pdi v))"
    "pt = table_of s1 (pdi v)" "paging_query w s1 = paging_query w s" using * by blast+
qed

theorem paging_map_spec:
  assumes "paging_inv s" and "paging_map v p fl s = (ok, s')"
  shows "if ok
    then paging_inv s' \<and> pd_active s' = pd_active s \<and> v AND 0xFFF = 0 \<and> p AND 0xFFF = 0 \<and>
      (\<forall>w. paging_query w s' =
        (if unat w div 4096 = unat v div 4096 then Some (p, (fl AND 0xFFF) OR 1) else paging_query w s))
    else s' = s"
proof (cases ok)
  case False
  then show ?thesis
    using assms(2) by (auto simp: paging_map_def pt_for_create Let_def split: if_splits option.splits prod.splits)
next
  case True
  have al: "v AND 0xFFF = 0" "p AND 0xFFF = 0"
    using assms(2) True by (auto simp: paging_map_def split: if_splits)
  obtain pt s1 where pt: "pt_for v True s = (Some pt, s1)"
    using assms(2) True al by (auto simp: paging_map_def split: prod.splits option.splits)
  note p1 = pt_for_create_spec [OF assms(1) pt]
  define s2 where "s2 = (if tbl s1 pt (pti v) AND PTE_P = 0 then s1\<lparr>g_mapped := g_mapped s1 + 1\<rparr> else s1)"
  define e where "e = (p AND 0xFFFFF000) OR (fl AND 0xFFF) OR (1::u32)"
  define s3 where "s3 = set_entry pt (pti v) e s2"
  have i2: "paging_inv s2" "pd_active s2 = pd_active s" "present (tbl s2 (pd_active s2) (pdi v))"
    "table_of s2 (pdi v) = pt" "\<And>w. paging_query w s2 = paging_query w s"
    using p1 by (simp_all add: s2_def)
  note p3 = set_pte_spec [OF i2(1,3) s3_def [folded i2(4)]]
  have q3: "paging_query w s3 =
      (if unat w div 4096 = unat v div 4096 then Some (p, (fl AND 0xFFF) OR 1) else paging_query w s)" for w
    using p3(3) [of w] i2(5) or_pte(1,2) [OF al(2), of fl] or_pte(3) [of p fl] by (simp add: e_def)
  have pr3: "present (tbl s3 (pd_active s3) (pdi v))" using p3(2,4) i2(3) by simp
  have s': "s' = (if fl AND PTE_US \<noteq> 0
      then set_entry (pd_active s3) (pdi v) (tbl s3 (pd_active s3) (pdi v) OR 6) s3 else s3)"
    using assms(2) al pt
    by (simp add: paging_map_def Let_def s2_def [symmetric] e_def [symmetric] s3_def [symmetric]
        del: set_entry_simps cong: if_cong)
  show ?thesis
    using True al s' p3(1,2) q3 i2(2) pde_flags_spec [OF p3(1) pr3 refl] by auto
qed

theorem paging_unmap_spec:
  assumes "paging_inv s"
  shows "paging_inv (paging_unmap v s) \<and> pd_active (paging_unmap v s) = pd_active s \<and>
    paging_query w (paging_unmap v s) =
      (if unat w div 4096 = unat v div 4096 then None else paging_query w s)"
proof (cases "present (tbl s (pd_active s) (pdi v))")
  case True
  define s2 where "s2 = (if present (tbl s (table_of s (pdi v)) (pti v)) then s\<lparr>g_mapped := g_mapped s - 1\<rparr> else s)"
  have i2: "paging_inv s2" "pd_active s2 = pd_active s" "present (tbl s2 (pd_active s2) (pdi v))"
    "table_of s2 (pdi v) = table_of s (pdi v)" "\<And>w. paging_query w s2 = paging_query w s"
    using assms True by (simp_all add: s2_def)
  have "paging_unmap v s = set_entry (table_of s2 (pdi v)) (pti v) 0 s2"
    using True i2(4) by (simp add: paging_unmap_def pt_for_def Let_def s2_def table_of_def)
  then show ?thesis using set_pte_spec [OF i2(1,3) refl, where e = 0] i2 by simp
next
  case False
  then have u: "paging_unmap v s = s" by (simp add: paging_unmap_def pt_for_def Let_def)
  have "paging_query w s = None" if "unat w div 4096 = unat v div 4096"
    using that False same_slot_iff [of w v] by (simp add: paging_query_walk)
  then show ?thesis using u assms by simp
qed

text \<open>When a mapping succeeds, and how many pool tables it takes.\<close>

lemma paging_map_progress:
  assumes "paging_inv s" and "v AND 0xFFF = 0" and "p AND 0xFFF = 0"
    and "present (tbl s (pd_active s) (pdi v)) \<or> g_pt_used s < 16 \<and> pd_active s = PAGING_PD_ADDR"
  shows "\<exists>s'. paging_map v p fl s = (True, s') \<and> paging_ready s' = paging_ready s \<and> cr3 s' = cr3 s \<and>
    g_pt_used s' = g_pt_used s + (if present (tbl s (pd_active s) (pdi v)) then 0 else 1) \<and>
    (\<forall>i. present (tbl s' (pd_active s) i) \<longleftrightarrow> present (tbl s (pd_active s) i) \<or> i = pdi v)"
proof -
  obtain pt s1 where pt: "pt_for v True s = (Some pt, s1)" using assms(4)
    by (cases "present (tbl s (pd_active s) (pdi v))") (auto simp: pt_for_create)
  note p1 = pt_for_create_spec [OF assms(1) pt]
  have s1: "paging_ready s1 = paging_ready s" "cr3 s1 = cr3 s"
    "g_pt_used s1 = g_pt_used s + (if present (tbl s (pd_active s) (pdi v)) then 0 else 1)"
    "\<And>i. present (tbl s1 (pd_active s) i) \<longleftrightarrow> present (tbl s (pd_active s) i) \<or> i = pdi v"
  proof -
    let ?p = "present (tbl s (pd_active s) (pdi v))"
    have s1: "s1 = (if ?p then s else fresh_table v s)" and g: "\<not> ?p \<Longrightarrow> g_pt_used s < 16 \<and> pd_active s = PAGING_PD_ADDR"
      using pt by (auto simp: pt_for_create split: if_splits)
    show "paging_ready s1 = paging_ready s" "cr3 s1 = cr3 s" "g_pt_used s1 = g_pt_used s + (if ?p then 0 else 1)"
      unfolding s1 by (simp_all add: fresh_table_def Let_def)
    show "present (tbl s1 (pd_active s) i) \<longleftrightarrow> present (tbl s (pd_active s) i) \<or> i = pdi v" for i
    proof (cases ?p)
      case True
      then show ?thesis using s1 by auto
    next
      case False
      note gs = g [OF False, THEN conjunct1] g [OF False, THEN conjunct2]
      show ?thesis
        using s1 False gs(2) table_of_fresh(3) [OF gs, of v] table_of_fresh(4) [OF gs, of i v]
        by (cases "i = pdi v") simp_all
    qed
  qed
  have ne: "pt \<noteq> pd_active s" using inv_table_neq_pd [OF p1(1,3)] p1(2,4) by simp
  define s2 where "s2 = (if tbl s1 pt (pti v) AND PTE_P = 0 then s1\<lparr>g_mapped := g_mapped s1 + 1\<rparr> else s1)"
  define s3 where "s3 = set_entry pt (pti v) ((p AND 0xFFFFF000) OR (fl AND 0xFFF) OR PTE_P) s2"
  define s' where "s' = (if fl AND PTE_US \<noteq> 0
    then set_entry (pd_active s3) (pdi v) (tbl s3 (pd_active s3) (pdi v) OR (PTE_US OR PTE_RW)) s3 else s3)"
  have "paging_map v p fl s = (True, s')"
    using pt assms(2,3)
    by (simp add: paging_map_def Let_def s2_def s3_def s'_def del: set_entry_simps cong: if_cong)
  moreover have s2: "paging_ready s2 = paging_ready s1" "cr3 s2 = cr3 s1" "g_pt_used s2 = g_pt_used s1"
    "tbl s2 = tbl s1" "pd_active s2 = pd_active s1"
    by (simp_all add: s2_def)
  moreover have pd3: "pd_active s3 = pd_active s" using s2 p1(2) by (simp add: s3_def)
  moreover have t3: "tbl s3 (pd_active s) = tbl s1 (pd_active s)" using ne s2 by (simp add: s3_def)
  moreover have "present (tbl s' (pd_active s) i) = present (tbl s1 (pd_active s) i)" for i
    unfolding s'_def pd3 using t3 by (simp add: bit.conj_disj_distrib2)
  moreover have "paging_ready s' = paging_ready s2" "cr3 s' = cr3 s2" "g_pt_used s' = g_pt_used s2"
    by (simp_all add: s'_def s3_def)
  ultimately show ?thesis using s1 by (intro exI [of _ s']) simp
qed

lemma map_pages_append:
  "map_pages (xs @ ys) fl s = (case map_pages xs fl s of (False, s1) \<Rightarrow> (False, s1) | (True, s1) \<Rightarrow> map_pages ys fl s1)"
  by (induction xs fl s rule: map_pages.induct) (auto split: prod.splits bool.splits)

text \<open>Kernel mappings only: every mapped page maps to itself, writable and not for ring 3.\<close>

definition kernel_identity :: "paging \<Rightarrow> bool" where
  "kernel_identity s \<longleftrightarrow> (\<forall>w p fl. paging_query w s = Some (p, fl) \<longrightarrow>
     p = w AND 0xFFFFF000 \<and> fl AND PTE_US = 0 \<and> fl AND PTE_RW \<noteq> 0)"

lemma same_page_base: "unat w div 4096 = unat v div 4096 \<Longrightarrow> v AND 0xFFF = 0 \<Longrightarrow> w AND 0xFFFFF000 = (v::u32)"
proof -
  assume d: "unat w div 4096 = unat v div 4096" and a: "v AND 0xFFF = 0"
  have "unat (w AND 0xFFFFF000) = unat w div 4096 * 4096" by (simp add: minus_mod_eq_div_mult)
  also have "\<dots> = unat v" using a by (simp add: d page_offset_0_iff)
  finally show ?thesis by (simp only: word_unat_eq_iff)
qed

lemma map_pages_identity:
  assumes "paging_inv s" and "kernel_identity s" and "fl = 2 \<or> fl = 0x1A"
    and "\<forall>(v, p) \<in> set xs. p = v"
    and "map_pages xs fl s = (ok, s')"
  shows "paging_inv s' \<and> kernel_identity s' \<and> pd_active s' = pd_active s \<and>
    (\<forall>w. paging_query w s \<noteq> None \<longrightarrow> paging_query w s' \<noteq> None)"
  using assms
proof (induction xs fl s rule: map_pages.induct)
  case (1 fl s)
  then show ?case by simp
next
  case (2 v p xs fl s)
  obtain ok1 s1 where m: "paging_map v p fl s = (ok1, s1)" by (cases "paging_map v p fl s")
  note sp = paging_map_spec [OF "2.prems"(1) m]
  show ?case
  proof (cases ok1)
    case True
    have q: "paging_query w s1 = (if unat w div 4096 = unat v div 4096 then Some (v, (fl AND 0xFFF) OR 1)
        else paging_query w s)" for w
      using sp True "2.prems"(4) by simp
    have "v AND 0xFFF = 0" using sp True by simp
    then have "kernel_identity s1"
      using "2.prems"(2,3) unfolding kernel_identity_def q
      by (auto simp: same_page_base bit.conj_disj_distrib2 split: if_splits)
    then have "paging_inv s' \<and> kernel_identity s' \<and> pd_active s' = pd_active s1 \<and>
        (\<forall>w. paging_query w s1 \<noteq> None \<longrightarrow> paging_query w s' \<noteq> None)"
      using "2.IH" [OF m [symmetric]] "2.prems" sp True m by simp
    moreover have "pd_active s1 = pd_active s" using sp True by simp
    moreover have "\<forall>w. paging_query w s \<noteq> None \<longrightarrow> paging_query w s1 \<noteq> None" using q by simp
    ultimately show ?thesis by auto
  next
    case False
    then show ?thesis using m sp "2.prems" by simp
  qed
qed

section \<open>Initialisation\<close>

lemma map_lfb_cases:
  "\<exists>xs. (snd (map_lfb v s) = s \<or> snd (map_lfb v s) = snd (map_pages xs 0x1A s)) \<and> (\<forall>(v, p) \<in> set xs. p = v)"
  unfolding map_lfb_def Let_def
  by (rule exI [of _ "map (\<lambda>k. ((lfb v AND 0xFFFFF000) + of_nat (k * 4096),
      (lfb v AND 0xFFFFF000) + of_nat (k * 4096))) [0..<unat (lfb_need v) div 4096]"]) auto

text \<open>The state after \<open>k\<close> pages of the identity loop, from an empty directory.\<close>

definition identity_prefix :: "nat \<Rightarrow> paging \<Rightarrow> bool" where
  "identity_prefix k s \<longleftrightarrow> paging_inv s \<and> \<not> paging_ready s \<and> kernel_identity s \<and>
     unat (g_pt_used s) = (k + 1023) div 1024 \<and>
     (\<forall>i < 1024. present (tbl s PAGING_PD_ADDR i) \<longleftrightarrow> i < (k + 1023) div 1024) \<and>
     (\<forall>w. unat w div 4096 < k \<longrightarrow> paging_query w s \<noteq> None)"

lemma identity_page_facts:
  assumes "k < 8192"
  shows "unat (of_nat (k * 4096) :: u32) = k * 4096" and "pdi (of_nat (k * 4096)) = k div 1024"
    and "(of_nat (k * 4096) :: u32) AND 0xFFF = 0"
proof -
  show u: "unat (of_nat (k * 4096) :: u32) = k * 4096" using assms by (intro unat_of_nat32) simp
  then show "pdi (of_nat (k * 4096)) = k div 1024" by (simp only: pdi_eq) simp
  show "(of_nat (k * 4096) :: u32) AND 0xFFF = 0" by (simp only: page_offset_0_iff u) simp
qed

lemma identity_prefix_step:
  assumes k: "k < 8192" and s: "identity_prefix k s"
  shows "\<exists>s'. paging_map (of_nat (k * 4096)) (of_nat (k * 4096)) 2 s = (True, s') \<and> identity_prefix (Suc k) s'"
proof -
  let ?v = "of_nat (k * 4096) :: u32" and ?n = "(k + 1023) div 1024"
  have pd: "pd_active s = PAGING_PD_ADDR" and inv: "paging_inv s" and ki: "kernel_identity s"
    and used: "unat (g_pt_used s) = ?n"
    and dir: "\<forall>i < 1024. present (tbl s PAGING_PD_ADDR i) \<longleftrightarrow> i < ?n"
    using s by (simp_all add: identity_prefix_def pd_active_def)
  note f = identity_page_facts [OF k]
  have ix: "k div 1024 < 1024" "?n \<le> 8" using k by auto
  have pr: "present (tbl s PAGING_PD_ADDR (pdi ?v)) \<longleftrightarrow> k div 1024 < ?n" using dir ix f by simp
  have "g_pt_used s < 16" using used ix by (simp add: word_less_nat_alt)
  then obtain s' where s': "paging_map ?v ?v 2 s = (True, s')" "paging_ready s' = paging_ready s"
      "g_pt_used s' = g_pt_used s + (if k div 1024 < ?n then 0 else 1)"
      "\<And>i. present (tbl s' PAGING_PD_ADDR i) \<longleftrightarrow> present (tbl s PAGING_PD_ADDR i) \<or> i = k div 1024"
    using paging_map_progress [OF inv f(3) f(3), where fl = 2] pd pr f(2) by auto
  have "map_pages [(?v, ?v)] 2 s = (True, s')" using s'(1) by simp
  then have id: "paging_inv s' \<and> kernel_identity s' \<and> (\<forall>w. paging_query w s \<noteq> None \<longrightarrow> paging_query w s' \<noteq> None)"
    using map_pages_identity [OF inv ki, where fl = 2 and xs = "[(?v, ?v)]"] by simp
  have nxt: "(Suc k + 1023) div 1024 = (if k div 1024 < ?n then ?n else Suc ?n)"
    "\<not> k div 1024 < ?n \<Longrightarrow> ?n = k div 1024" by auto
  have "unat (g_pt_used s') = (Suc k + 1023) div 1024"
    using s'(3) used ix nxt by (auto simp: unat_word_ariths)
  moreover have "present (tbl s' PAGING_PD_ADDR i) \<longleftrightarrow> i < (Suc k + 1023) div 1024" if "i < 1024" for i
    using s'(4) [of i] dir that nxt by auto
  moreover have "paging_query w s' \<noteq> None" if "unat w div 4096 < Suc k" for w
  proof (cases "unat w div 4096 = k")
    case True
    then show ?thesis using paging_map_spec [OF inv s'(1)] f(1) by simp
  next
    case False
    then show ?thesis using that s id by (simp add: identity_prefix_def)
  qed
  ultimately show ?thesis using s' id s by (auto simp: identity_prefix_def)
qed

lemma identity_map_prefix:
  assumes "identity_prefix 0 s" and "k \<le> 8192"
  shows "\<exists>s'. identity_map k s = (True, s') \<and> identity_prefix k s'"
  using assms(2)
proof (induction k)
  case 0
  then show ?case using assms(1) by (simp add: identity_map_def)
next
  case (Suc k)
  then obtain s1 where s1: "identity_map k s = (True, s1)" "identity_prefix k s1" by auto
  obtain s2 where "paging_map (of_nat (k * 4096)) (of_nat (k * 4096)) 2 s1 = (True, s2)" "identity_prefix (Suc k) s2"
    using identity_prefix_step [OF _ s1(2)] Suc.prems by auto
  then show ?case using s1 by (simp add: identity_map_def map_pages_append)
qed

text \<open>C3: after \<open>paging_init\<close> the kernel keeps running and user mode sees nothing. From any
  contents of memory and any boot-time video mode, the first call succeeds, paging is
  enabled on the kernel directory, every address below 32 MB is mapped to itself and
  writable, and no mapped page anywhere is accessible from ring 3 or maps to another frame.\<close>

theorem paging_init_identity:
  assumes "\<not> paging_ready s"
  shows "\<exists>s'. paging_init v s = (True, s') \<and> paging_inv s' \<and> paging_enabled s' \<and>
    paging_cr3 s' = PAGING_PD_ADDR \<and> kernel_identity s' \<and>
    (\<forall>w. unat w < 0x2000000 \<longrightarrow> (\<exists>fl. paging_query w s' = Some (w AND 0xFFFFF000, fl)))"
proof -
  let ?s1 = "set_entry PAGING_PD_ADDR 1023 0x5A5A5A5A (set_entry PAGING_PD_ADDR 0 0xA5A5A5A5 s)"
  let ?s2 = "(fold (\<lambda>i. set_entry PAGING_PD_ADDR i 0) [0..<1024] ?s1)\<lparr>g_pt_used := 0, g_mapped := 0\<rparr>"
  have np: "tbl ?s2 PAGING_PD_ADDR i = 0" if "i < 1024" for i
    using that by (simp add: fold_set_entry_zero)
  have pd2: "pd_active ?s2 = PAGING_PD_ADDR" "\<not> paging_ready ?s2" "g_pt_used ?s2 = 0"
    using assms by (simp_all add: fold_set_entry_zero pd_active_def)
  have q2: "paging_query w ?s2 = None" for w
    unfolding paging_query_walk pd2(1) using np [OF pdi_less] by simp
  have "paging_inv ?s2" unfolding paging_inv_def pd2 using np by simp
  then have "identity_prefix 0 ?s2"
    unfolding identity_prefix_def kernel_identity_def q2 using pd2 np by simp
  then obtain s3 where s3: "identity_map 8192 ?s2 = (True, s3)" "identity_prefix 8192 s3"
    using identity_map_prefix by blast
  define s4 where "s4 = snd (map_lfb v s3)"
  have pd3: "pd_active s3 = PAGING_PD_ADDR" using s3(2) by (simp add: identity_prefix_def pd_active_def)
  have s4: "paging_inv s4 \<and> kernel_identity s4 \<and> pd_active s4 = pd_active s3 \<and>
      (\<forall>w. paging_query w s3 \<noteq> None \<longrightarrow> paging_query w s4 \<noteq> None)"
  proof -
    have base: "paging_inv s3" "kernel_identity s3" using s3(2) by (simp_all add: identity_prefix_def)
    obtain xs where "s4 = s3 \<or> s4 = snd (map_pages xs 0x1A s3)" "\<forall>(v, p) \<in> set xs. p = v"
      using map_lfb_cases [of v s3] unfolding s4_def by blast
    then show ?thesis
      using map_pages_identity [OF base, where fl = "0x1A" and xs = xs] base
      by (cases "map_pages xs 0x1A s3") auto
  qed
  define s' where "s' = s4\<lparr>cr3 := PAGING_PD_ADDR, cr0 := cr0 s4 OR 0x80000000, paging_ready := True\<rparr>"
  have "paging_init v s = (True, s')"
    using assms s3(1) by (simp add: paging_init_def Let_def s'_def s4_def)
  moreover have pd': "pd_active s' = pd_active s4" using s4 pd3 by (simp add: s'_def pd_active_def)
  moreover have tb: "tbl s' = tbl s4" "g_pt_used s' = g_pt_used s4" by (simp_all add: s'_def)
  moreover have "paging_inv s'"
    using s4 pd' tb by (intro paging_inv_cong [of s4 s']) (simp_all add: table_of_def)
  moreover have q': "paging_query w s' = paging_query w s4" for w
    unfolding paging_query_walk table_of_def pd' by (simp add: s'_def)
  moreover have "kernel_identity s'" using s4 by (simp add: kernel_identity_def q')
  moreover have "\<exists>fl. paging_query w s' = Some (w AND 0xFFFFF000, fl)" if "unat w < 0x2000000" for w
  proof -
    have "paging_query w s3 \<noteq> None"
      using s3(2) that by (simp add: identity_prefix_def less_mult_imp_div_less)
    then obtain p fl where "paging_query w s4 = Some (p, fl)" using s4 by fastforce
    then show ?thesis using s4 by (auto simp: kernel_identity_def q')
  qed
  ultimately show ?thesis
    by (auto simp: paging_enabled_def paging_cr3_def s'_def bit.conj_disj_distrib2)
qed

text \<open>An empty kernel directory before \<open>paging_init\<close>.\<close>

definition blank_paging :: paging where
  "blank_paging = \<lparr>tbl = \<lambda>_ _. 0, cr0 = 0x11, cr3 = 0, g_pt_used = 0, g_mapped = 0, paging_ready = False\<rparr>"

lemma blank_paging_facts [simp]: "paging_inv blank_paging" "\<not> paging_ready blank_paging"
  "pd_active blank_paging = PAGING_PD_ADDR" "g_pt_used blank_paging = 0" "paging_query w blank_paging = None"
  by (simp_all add: blank_paging_def paging_inv_def pd_active_def paging_query_walk)

theorem paging_init_identity_witness:
  "\<exists>s' fl. paging_init \<lparr>lfb = 0xE0000000, vxr = 1280, vyr = 1024, vbpp = 16\<rparr> blank_paging = (True, s') \<and>
     paging_query 0xB8ABC s' = Some (0xB8000, fl)"
proof -
  obtain s' where s': "paging_init \<lparr>lfb = 0xE0000000, vxr = 1280, vyr = 1024, vbpp = 16\<rparr> blank_paging = (True, s')"
      "\<forall>w. unat w < 0x2000000 \<longrightarrow> (\<exists>fl. paging_query w s' = Some (w AND 0xFFFFF000, fl))"
    using paging_init_identity [OF blank_paging_facts(2)] by blast
  have "\<exists>fl. paging_query 0xB8ABC s' = Some (0xB8000, fl)" using s'(2) [rule_format, of "0xB8ABC"] by simp
  with s'(1) show ?thesis by blast
qed

lemma paging_map_status:
  "fst (paging_map v p fl s) = (v AND 0xFFF = 0 \<and> p AND 0xFFF = 0 \<and>
     (present (tbl s (pd_active s) (pdi v)) \<or> g_pt_used s < PAGING_PT_MAX \<and> pd_active s = PAGING_PD_ADDR))"
proof -
  have st: "fst (paging_map v p fl s) = (v AND 0xFFF = 0 \<and> p AND 0xFFF = 0 \<and> fst (pt_for v True s) \<noteq> None)"
    unfolding paging_map_def Let_def by (cases "pt_for v True s"; cases "fst (pt_for v True s)") simp_all
  show ?thesis unfolding st pt_for_create by simp
qed



text \<open>Unmapping removes one page. After \<open>paging_unmap\<close> the page of \<open>virt\<close> has no
  translation, every other page keeps its own, and the tables stay disjoint.\<close>

theorem paging_unmap_exact:
  assumes "paging_inv s"
  shows "paging_inv (paging_unmap v s) \<and>
    (\<forall>w. paging_query w (paging_unmap v s) =
      (if unat w div 4096 = unat v div 4096 then None else paging_query w s))"
  using paging_unmap_spec [OF assms] by blast

theorem paging_unmap_exact_witness:
  "paging_query 0x04000000 (paging_unmap 0x04000000
     (snd (paging_map 0x04000000 0x00300000 PAGING_USR_FLAGS blank_paging))) = None"
proof -
  obtain ok s' where m: "paging_map 0x04000000 0x00300000 PAGING_USR_FLAGS blank_paging = (ok, s')"
    by (cases "paging_map 0x04000000 0x00300000 PAGING_USR_FLAGS blank_paging")
  have "paging_inv s'" using paging_map_spec [OF blank_paging_facts(1) m] by (auto split: if_splits)
  then show ?thesis using paging_unmap_exact [of s' "0x04000000"] m by simp
qed

section \<open>The interface of an address space\<close>

text \<open>
  What a client of paging relies on: translations per page, and the effect of mapping and
  unmapping one page on all of them.
\<close>

locale address_space =
  fixes ok_space :: "'s \<Rightarrow> bool"
    and query :: "u32 \<Rightarrow> 's \<Rightarrow> (u32 \<times> u32) option"
    and map1 :: "u32 \<Rightarrow> u32 \<Rightarrow> u32 \<Rightarrow> 's \<Rightarrow> bool \<times> 's"
    and unmap1 :: "u32 \<Rightarrow> 's \<Rightarrow> 's"
  assumes map1_true: "ok_space s \<Longrightarrow> map1 v p fl s = (True, s') \<Longrightarrow>
      ok_space s' \<and> query w s' =
        (if unat w div 4096 = unat v div 4096 then Some (p, (fl AND 0xFFF) OR 1) else query w s)"
    and map1_false: "ok_space s \<Longrightarrow> map1 v p fl s = (False, s') \<Longrightarrow> s' = s"
    and unmap1_ok: "ok_space s \<Longrightarrow> ok_space (unmap1 v s)"
    and unmap1_query: "ok_space s \<Longrightarrow> query w (unmap1 v s) =
        (if unat w div 4096 = unat v div 4096 then None else query w s)"
begin

lemma unmap_list:
  assumes "ok_space s"
  shows "ok_space (fold unmap1 vs s) \<and> query w (fold unmap1 vs s) =
    (if unat w div 4096 \<in> (\<lambda>v. unat v div 4096) ` set vs then None else query w s)"
  using assms by (induction vs arbitrary: s) (auto simp: unmap1_ok unmap1_query)

lemma map_then_unmap:
  assumes ok: "ok_space s" and m: "map1 v p fl s = (True, s')"
    and free: "\<And>w. unat w div 4096 = unat v div 4096 \<Longrightarrow> query w s = None"
  shows "query w (unmap1 v s') = query w s"
proof -
  have ok': "ok_space s'" using map1_true [OF ok m, of v] by blast
  show ?thesis
    unfolding unmap1_query [OF ok'] using map1_true [OF ok m, of w] free [of w] by (simp split: if_split)
qed

end

interpretation ks: address_space paging_inv paging_query paging_map paging_unmap
proof
  fix s s' v w p fl
  assume i: "paging_inv s"
  { assume m: "paging_map v p fl s = (True, s')"
    show "paging_inv s' \<and> paging_query w s' =
        (if unat w div 4096 = unat v div 4096 then Some (p, (fl AND 0xFFF) OR 1) else paging_query w s)"
      using paging_map_spec [OF i m] by simp }
  { assume m: "paging_map v p fl s = (False, s')"
    show "s' = s" using paging_map_spec [OF i m] by simp }
  show "paging_inv (paging_unmap v s)" using paging_unmap_spec [OF i] by blast
  show "paging_query w (paging_unmap v s) =
      (if unat w div 4096 = unat v div 4096 then None else paging_query w s)"
    using paging_unmap_spec [OF i] by blast
qed

end
