(* ===== verification/UserRange.thy ===== *)
theory UserRange
  imports Paging
begin

text \<open>
  The user-pointer check at the system-call boundary, \<open>user_range_ok\<close> of
  \<open>src/kernel/syscall.c\<close>: every page of [va, va+len) must be mapped with PTE_US, and
  with PTE_RW where the kernel will write.
\<close>

section \<open>The page loop\<close>

definition user_page_ok :: "paging \<Rightarrow> bool \<Rightarrow> u32 \<Rightarrow> bool" where
  "user_page_ok s writable p =
     (case paging_query p s of
        None \<Rightarrow> False
      | Some (phys, flags) \<Rightarrow> flags AND PTE_US \<noteq> 0 \<and> (writable \<longrightarrow> flags AND PTE_RW \<noteq> 0))"

text \<open>
  \<open>for (p = first; ; p += 0x1000)\<close> with the exit test \<open>p == last\<close>, on 32-bit words: started
  off a page boundary of \<open>last\<close> it could run for ever, so the result is an option.
\<close>

partial_function (option) range_loop :: "paging \<Rightarrow> bool \<Rightarrow> u32 \<Rightarrow> u32 \<Rightarrow> bool option" where
  "range_loop s writable p lastp =
     (if \<not> user_page_ok s writable p then Some False
      else if p = lastp then Some True
      else range_loop s writable (p + 0x1000) lastp)"

definition user_range_ok :: "paging \<Rightarrow> u32 \<Rightarrow> u32 \<Rightarrow> bool \<Rightarrow> bool option" where
  "user_range_ok s va len writable =
     (if len = 0 then Some True
      else if va + len < va then Some False
      else range_loop s writable (va AND NOT 0xFFF) ((va + len - 1) AND NOT 0xFFF))"

definition syscall_user_range_ok :: "paging \<Rightarrow> u32 \<Rightarrow> u32 \<Rightarrow> bool option" where
  "syscall_user_range_ok s va len = user_range_ok s va len False"

definition syscall_user_range_rw :: "paging \<Rightarrow> u32 \<Rightarrow> u32 \<Rightarrow> bool option" where
  "syscall_user_range_rw s va len = user_range_ok s va len True"

section \<open>Correctness\<close>

text \<open>From page \<open>a\<close> the loop visits the pages up to \<open>a + n\<close> and stops.\<close>

lemma range_loop_pages:
  assumes "(a + n) * 4096 < 2 ^ 32"
  shows "range_loop s w (of_nat (a * 4096)) (of_nat ((a + n) * 4096)) =
    Some (\<forall>k. a \<le> k \<and> k \<le> a + n \<longrightarrow> user_page_ok s w (of_nat (k * 4096)))"
  using assms
proof (induction n arbitrary: a)
  case 0
  have "(\<forall>k. a \<le> k \<and> k \<le> a + 0 \<longrightarrow> user_page_ok s w (of_nat (k * 4096))) = user_page_ok s w (of_nat (a * 4096))"
    by (auto simp: le_antisym)
  then show ?case by (simp add: range_loop.simps)
next
  case (Suc n)
  let ?p = "of_nat (a * 4096) :: u32" and ?l = "of_nat ((a + Suc n) * 4096) :: u32"
  have ne: "?p \<noteq> ?l"
  proof
    assume "?p = ?l"
    then have "unat ?p = unat ?l" by (rule arg_cong)
    then show False using Suc.prems by (simp add: unat_of_nat del: of_nat_mult of_nat_add)
  qed
  have nx: "?p + 0x1000 = of_nat (Suc a * 4096)" by simp
  have le: "a \<le> k \<and> k \<le> a + Suc n \<longleftrightarrow> k = a \<or> Suc a \<le> k \<and> k \<le> Suc a + n" for k by auto
  have ih: "range_loop s w (of_nat (Suc a * 4096)) ?l =
      Some (\<forall>k. Suc a \<le> k \<and> k \<le> Suc a + n \<longrightarrow> user_page_ok s w (of_nat (k * 4096)))"
    using Suc.IH [of "Suc a"] Suc.prems by simp
  show ?case
    unfolding range_loop.simps [of s w ?p ?l] nx ih le using ne by (auto simp del: of_nat_mult of_nat_Suc of_nat_add)
qed

lemma unat_page_of_nat: "unat (of_nat (unat (v::u32) div 4096 * 4096) :: u32) = unat v div 4096 * 4096"
proof -
  have "unat v div 4096 * 4096 < 2 ^ 32"
    using u32_bound [of v] div_times_less_eq_dividend [of "unat v" 4096] by simp
  then show ?thesis by (simp add: unat_of_nat del: of_nat_mult)
qed

lemma page_base_of_nat: "(v::u32) AND NOT 0xFFF = of_nat (unat v div 4096 * 4096)"
proof -
  have n: "NOT 0xFFF = (0xFFFFF000::u32)" by simp
  have "unat (of_nat (unat v div 4096 * 4096) :: u32) = unat v div 4096 * 4096"
    by (rule unat_page_of_nat)
  then show ?thesis unfolding n word_unat_eq_iff unat_page_base by (simp add: minus_mod_eq_div_mult del: of_nat_mult)
qed

text \<open>The translation and the rights are those of the page, whatever the offset.\<close>

lemma user_page_ok_page:
  assumes "unat a div 4096 = unat b div 4096"
  shows "user_page_ok s w a = user_page_ok s w b"
  using assms by (simp add: user_page_ok_def paging_query_walk same_slot_iff [of a b, symmetric])

lemma user_page_ok_base: "unat (v::u32) div 4096 = k \<Longrightarrow> user_page_ok s w (of_nat (k * 4096)) = user_page_ok s w v"
  by (rule user_page_ok_page) (use unat_page_of_nat [of v] in \<open>simp del: of_nat_mult\<close>)

lemma no_wrap_iff: "va + len < (va::u32) \<longleftrightarrow> \<not> unat va + unat len < 2 ^ 32"
proof -
  have b: "unat va < 2 ^ 32" "unat len < 2 ^ 32" using u32_bound by simp_all
  have "unat (va + len) = (if unat va + unat len < 2 ^ 32 then unat va + unat len else unat va + unat len - 2 ^ 32)"
    using b by (simp add: unat_word_ariths mod_if)
  then show ?thesis using b by (simp add: word_less_nat_alt split: if_splits)
qed

lemma range_pages_bytes:
  fixes va len :: u32
  assumes "len \<noteq> 0" and "unat va + unat len < 2 ^ 32"
  shows "(\<forall>k. unat va div 4096 \<le> k \<and> k \<le> (unat va + unat len - 1) div 4096 \<longrightarrow> user_page_ok s w (of_nat (k * 4096)))
    \<longleftrightarrow> (\<forall>b < unat len. user_page_ok s w (va + of_nat b))" (is "?pages \<longleftrightarrow> ?bytes")
proof
  have un: "unat (va + of_nat b) = unat va + b" if "b < unat len" for b
    using that assms(2) u32_bound [of len] by (simp add: unat_word_ariths unat_of_nat)
  { assume ?pages
    show ?bytes
    proof (intro allI impI)
      fix b assume b: "b < unat len"
      let ?k = "(unat va + b) div 4096"
      have "unat va div 4096 \<le> ?k" "?k \<le> (unat va + unat len - 1) div 4096"
        using b by (auto intro: div_le_mono)
      then have "user_page_ok s w (of_nat (?k * 4096))" using \<open>?pages\<close> by blast
      then show "user_page_ok s w (va + of_nat b)" using user_page_ok_base [of "va + of_nat b" ?k] un [OF b] by simp
    qed }
  assume ?bytes
  show ?pages
  proof (intro allI impI)
    fix k assume k: "unat va div 4096 \<le> k \<and> k \<le> (unat va + unat len - 1) div 4096"
    define b where "b = max (unat va) (k * 4096) - unat va"
    have pos: "0 < unat len" using assms(1) by (simp add: unat_gt_0)
    have "k * 4096 \<le> unat va + unat len - 1"
      using k by (meson div_times_less_eq_dividend le_trans mult_le_mono1)
    then have b: "b < unat len" using pos unfolding b_def max_def by (simp split: if_split) linarith
    have "(unat va + b) div 4096 = k"
    proof (cases "k * 4096 \<le> unat va")
      case True
      then have "k \<le> unat va div 4096" by (simp add: less_eq_div_iff_mult_less_eq)
      then show ?thesis using True k by (simp add: b_def max_def)
    next
      case False
      then show ?thesis by (simp add: b_def max_def)
    qed
    then have "user_page_ok s w (of_nat (k * 4096)) = user_page_ok s w (va + of_nat b)"
      using user_page_ok_base [of "va + of_nat b" k] un [OF b] by simp
    then show "user_page_ok s w (of_nat (k * 4096))" using \<open>?bytes\<close> b by blast
  qed
qed

lemma user_range_ok_bytes:
  "user_range_ok s va len w =
     Some (len = 0 \<or> unat va + unat len < 2 ^ 32 \<and> (\<forall>b < unat len. user_page_ok s w (va + of_nat b)))"
proof (cases "len = 0 \<or> \<not> unat va + unat len < 2 ^ 32")
  case True
  then show ?thesis by (auto simp: user_range_ok_def no_wrap_iff)
next
  case False
  then have nz: "len \<noteq> 0" and nw: "unat va + unat len < 2 ^ 32" by simp_all
  let ?a = "unat va div 4096" and ?l = "(unat va + unat len - 1) div 4096"
  have pos: "0 < unat len" using nz by (simp add: unat_gt_0)
  have "unat (va + len) = unat va + unat len" using nw by (simp add: unat_word_ariths)
  then have ul: "unat (va + len - 1) = unat va + unat len - 1"
    using pos by (subst unat_sub) (simp_all add: word_le_nat_alt)
  have le: "?a \<le> ?l" using pos by (intro div_le_mono) simp
  define n where "n = ?l - ?a"
  have an: "?a + n = ?l" using le by (simp add: n_def)
  have "?l * 4096 \<le> unat va + unat len - 1" by simp
  then have bd: "(?a + n) * 4096 < 2 ^ 32" using nw pos unfolding an by linarith
  have "user_range_ok s va len w = range_loop s w (of_nat (?a * 4096)) (of_nat (?l * 4096))"
    using nz nw unfolding user_range_ok_def no_wrap_iff page_base_of_nat ul by (simp del: of_nat_mult)
  also have "\<dots> = Some (\<forall>k. ?a \<le> k \<and> k \<le> ?l \<longrightarrow> user_page_ok s w (of_nat (k * 4096)))"
    using range_loop_pages [OF bd, of s w] unfolding an .
  finally show ?thesis using range_pages_bytes [OF nz nw] nz nw by simp
qed

text \<open>C5: the user-pointer check always returns, and accepts a range exactly when it is empty
  or does not reach past the end of the address space and every one of its bytes lies in a
  page mapped for user mode (and writable, where the kernel will write).\<close>

theorem user_range_ok_exact:
  "user_range_ok s va len w =
     Some (len = 0 \<or> unat va + unat len < 2 ^ 32 \<and>
       (\<forall>b < unat len. \<exists>phys flags. paging_query (va + of_nat b) s = Some (phys, flags) \<and>
          flags AND PTE_US \<noteq> 0 \<and> (w \<longrightarrow> flags AND PTE_RW \<noteq> 0)))"
proof -
  have "user_page_ok s w v \<longleftrightarrow> (\<exists>phys flags. paging_query v s = Some (phys, flags) \<and>
      flags AND PTE_US \<noteq> 0 \<and> (w \<longrightarrow> flags AND PTE_RW \<noteq> 0))" for v
    by (simp add: user_page_ok_def split: option.split)
  then show ?thesis unfolding user_range_ok_bytes by simp
qed

theorem user_range_ok_exact_witness:
  "\<exists>s. user_range_ok s 0x04000010 16 True = Some True \<and> user_range_ok s 0x04000FF8 16 True = Some False"
proof -
  obtain ok s where m: "paging_map 0x04000000 0x00300000 PAGING_USR_FLAGS blank_paging = (ok, s)"
    by (cases "paging_map 0x04000000 0x00300000 PAGING_USR_FLAGS blank_paging")
  have "ok" using paging_map_status [of "0x04000000" "0x00300000" PAGING_USR_FLAGS blank_paging] m by simp
  then have q: "paging_query w s = (if unat w div 4096 = 0x4000 then Some (0x00300000, 7) else None)" for w
    using paging_map_spec [OF blank_paging_facts(1) m] by simp
  have "unat (0x04000010 + of_nat b :: u32) div 4096 = 0x4000" if "b < 16" for b
    using that by (simp add: unat_word_ariths unat_of_nat)
  then have "user_range_ok s 0x04000010 16 True = Some True"
    by (subst user_range_ok_exact) (simp add: q)
  moreover have "user_range_ok s 0x04000FF8 16 True = Some False"
    by (subst user_range_ok_exact) (auto simp: q intro!: exI [of _ 8])
  ultimately show ?thesis by blast
qed

end
