(* ===== verification/Elf.thy ===== *)
theory Elf
  imports Pmm Paging
begin

text \<open>
  The ELF32 loader, \<open>src/kernel/elf.c\<close>: validation of the headers, loading of the PT_LOAD
  segments into freshly allocated frames mapped in the user image area, and unloading.
  A file image is a byte function together with its size, so that a read past the size is
  expressible (and theorem \<open>elf_validate_reads_inside\<close> shows there is none).
\<close>

section \<open>Data\<close>

abbreviation USER_IMAGE_BASE :: u32 where "USER_IMAGE_BASE \<equiv> 0x00400000"
abbreviation USER_IMAGE_END :: u32 where "USER_IMAGE_END \<equiv> 0x00800000"
abbreviation ELF_MAX_SEG :: nat where "ELF_MAX_SEG \<equiv> 8"
abbreviation PT_LOAD :: u32 where "PT_LOAD \<equiv> 1"
abbreviation PF_W :: u32 where "PF_W \<equiv> 2"

record elf32_ehdr =
  e_ident :: "u8 list"
  e_type :: u16
  e_machine :: u16
  e_entry :: u32
  e_phoff :: u32
  e_phentsize :: u16
  e_phnum :: u16

record elf32_phdr =
  p_type :: u32
  p_offset :: u32
  p_vaddr :: u32
  p_filesz :: u32
  p_memsz :: u32
  p_flags :: u32

record elf_seg =
  seg_va :: u32
  seg_pages :: u32
  seg_phys :: u32

record elf_image =
  img_entry :: u32
  img_brk :: u32
  img_seg :: "elf_seg list"

text \<open>The pointer casts: fields at the offsets the static assertions of the source pin down.\<close>

definition ehdr_of :: "memory \<Rightarrow> elf32_ehdr" where
  "ehdr_of buf = \<lparr>e_ident = map (\<lambda>i. buf (of_nat i)) [0..<16], e_type = rd16 buf 16, e_machine = rd16 buf 18,
     e_entry = rd32 buf 24, e_phoff = rd32 buf 28, e_phentsize = rd16 buf 42, e_phnum = rd16 buf 44\<rparr>"

definition phdr_at :: "memory \<Rightarrow> u32 \<Rightarrow> elf32_phdr" where
  "phdr_at buf a = \<lparr>p_type = rd32 buf a, p_offset = rd32 buf (a + 4), p_vaddr = rd32 buf (a + 8),
     p_filesz = rd32 buf (a + 16), p_memsz = rd32 buf (a + 20), p_flags = rd32 buf (a + 24)\<rparr>"

definition phdrs :: "memory \<Rightarrow> elf32_phdr list" where
  "phdrs buf = map (\<lambda>i. phdr_at buf (e_phoff (ehdr_of buf) + of_nat i * 32)) [0..<unat (e_phnum (ehdr_of buf))]"

section \<open>Validation\<close>

definition align_up :: "u32 \<Rightarrow> u32 \<Rightarrow> u32" where
  "align_up v a = (v + a - 1) AND NOT (a - 1)"

definition range_in :: "u32 \<Rightarrow> u32 \<Rightarrow> u32 \<Rightarrow> u32 \<Rightarrow> bool" where
  "range_in start len lo hi =
     (if len = 0 then start \<ge> lo \<and> start < hi
      else if start < lo then False
      else if hi \<le> start then False
      else if hi - start < len then False
      else True)"

text \<open>The loop over the program headers; \<open>Inl\<close> carries the reason of a rejection.\<close>

fun check_phdrs :: "u32 \<Rightarrow> nat \<Rightarrow> elf32_phdr list \<Rightarrow> string + nat" where
  "check_phdrs sz nload [] = Inr nload"
| "check_phdrs sz nload (ph # phs) =
     (if p_type ph \<noteq> PT_LOAD then check_phdrs sz nload phs
      else if p_memsz ph = 0 then check_phdrs sz (nload + 1) phs
      else if p_filesz ph > p_memsz ph then Inl ''p_filesz > p_memsz''
      else if \<not> range_in (p_vaddr ph) (p_memsz ph) USER_IMAGE_BASE USER_IMAGE_END
      then Inl ''segment outside user image area''
      else if p_filesz ph \<noteq> 0 \<and> \<not> range_in (p_offset ph) (p_filesz ph) 0 sz
      then Inl ''segment file range outside file''
      else if nload + 1 > ELF_MAX_SEG then Inl ''too many PT_LOAD segments''
      else check_phdrs sz (nload + 1) phs)"

definition elf_validate :: "memory option \<Rightarrow> u32 \<Rightarrow> string + unit" where
  "elf_validate bufp sz =
     (case bufp of
        None \<Rightarrow> Inl ''null buffer''
      | Some buf \<Rightarrow>
          if sz < 52 then Inl ''file smaller than ELF header''
          else let eh = ehdr_of buf in
          if \<not> (e_ident eh ! 0 = 0x7F \<and> e_ident eh ! 1 = 0x45 \<and> e_ident eh ! 2 = 0x4C \<and> e_ident eh ! 3 = 0x46)
          then Inl ''bad ELF magic''
          else if e_ident eh ! 4 \<noteq> 1 then Inl ''not ELFCLASS32''
          else if e_ident eh ! 5 \<noteq> 1 then Inl ''not little-endian''
          else if e_ident eh ! 6 \<noteq> 1 then Inl ''bad ELF version''
          else if e_type eh \<noteq> 2 then Inl ''not ET_EXEC (static executable required)''
          else if e_machine eh \<noteq> 3 then Inl ''not EM_386 (i386)''
          else if \<not> range_in (e_entry eh) 1 USER_IMAGE_BASE USER_IMAGE_END
          then Inl ''entry point outside user image area''
          else if e_phentsize eh \<noteq> 32 then Inl ''bad e_phentsize''
          else if e_phnum eh = 0 then Inl ''no program headers''
          else if e_phnum eh > of_nat ELF_MAX_SEG then Inl ''too many program headers''
          else if \<not> range_in (e_phoff eh) (ucast (e_phnum eh) * 32) 0 sz
          then Inl ''program header table outside file''
          else case check_phdrs sz 0 (phdrs buf) of
            Inl why \<Rightarrow> Inl why
          | Inr nload \<Rightarrow> if nload = 0 then Inl ''no PT_LOAD segments'' else Inr ())"

section \<open>Loading and unloading\<close>

record machine =
  mpg :: paging
  mpm :: pmm
  ram :: memory

text \<open>A store through the active page tables; \<open>None\<close> is a page fault.\<close>

definition xlate :: "u32 \<Rightarrow> paging \<Rightarrow> u32 option" where
  "xlate va pg = (case paging_query va pg of None \<Rightarrow> None | Some (p, fl) \<Rightarrow> Some (p + (va AND 0xFFF)))"

fun vstore :: "u32 \<Rightarrow> (nat \<Rightarrow> u8) \<Rightarrow> nat \<Rightarrow> machine \<Rightarrow> machine option" where
  "vstore va f 0 m = Some m"
| "vstore va f (Suc n) m =
     (case xlate va (mpg m) of
        None \<Rightarrow> None
      | Some p \<Rightarrow> vstore (va + 1) (\<lambda>i. f (Suc i)) n (m\<lparr>ram := (ram m)(p := f 0)\<rparr>))"

text \<open>\<open>unwind\<close>: give back what the page tables say is mapped, and unmap it.\<close>

fun unwind_pages :: "u32 \<Rightarrow> nat \<Rightarrow> machine \<Rightarrow> machine" where
  "unwind_pages va 0 m = m"
| "unwind_pages va (Suc k) m =
     (let m1 = (case paging_query va (mpg m) of
                  Some (phys, _) \<Rightarrow> m\<lparr>mpm := snd (pmm_free_page phys (mpm m))\<rparr>
                | None \<Rightarrow> m)
      in unwind_pages (va + PMM_PAGE_SIZE) k (m1\<lparr>mpg := paging_unmap va (mpg m1)\<rparr>))"

definition unwind :: "elf_image \<Rightarrow> machine \<Rightarrow> elf_image \<times> machine" where
  "unwind img m =
     (img\<lparr>img_seg := []\<rparr>, fold (\<lambda>sg. unwind_pages (seg_va sg) (unat (seg_pages sg))) (img_seg img) m)"

definition seg_pairs :: "u32 \<Rightarrow> u32 \<Rightarrow> nat \<Rightarrow> (u32 \<times> u32) list" where
  "seg_pairs va phys pages = map (\<lambda>k. (va + of_nat k * PMM_PAGE_SIZE, phys + of_nat k * PMM_PAGE_SIZE)) [0..<pages]"

definition remap_pages :: "(u32 \<times> u32) list \<Rightarrow> u32 \<Rightarrow> paging \<Rightarrow> paging" where
  "remap_pages xs fl pg = fold (\<lambda>(v, p) s. snd (paging_map v p fl s)) xs pg"

text \<open>
  One iteration of the loading loop. \<open>None\<close> is a page fault in the kernel; otherwise the
  result, the image and the machine.
\<close>

definition load_seg :: "memory \<Rightarrow> elf32_phdr \<Rightarrow> elf_image \<Rightarrow> machine \<Rightarrow> ((string + unit) \<times> elf_image \<times> machine) option" where
  "load_seg buf ph img m =
     (let va_start = p_vaddr ph AND NOT (PMM_PAGE_SIZE - 1);
          va_end = align_up (p_vaddr ph + p_memsz ph) PMM_PAGE_SIZE;
          pages = (va_end - va_start) div PMM_PAGE_SIZE
      in
      if length (img_seg img) \<ge> ELF_MAX_SEG then Some (Inl ''segment table overflow'', unwind img m)
      else case pmm_alloc_pages pages (mpm m) of
        (phys, pm1) \<Rightarrow>
          if phys = 0 then Some (Inl ''out of physical pages'', unwind img (m\<lparr>mpm := pm1\<rparr>))
          else case map_pages (seg_pairs va_start phys (unat pages)) PAGING_USR_FLAGS (mpg m) of
            (False, pg1) \<Rightarrow>
              Some (Inl ''paging_map failed'',
                unwind img (m\<lparr>mpg := pg1, mpm := snd (pmm_free_pages phys pages pm1)\<rparr>))
          | (True, pg1) \<Rightarrow>
              let img1 = img\<lparr>img_seg := img_seg img @ [\<lparr>seg_va = va_start, seg_pages = pages, seg_phys = phys\<rparr>]\<rparr>;
                  m1 = m\<lparr>mpg := pg1, mpm := pm1\<rparr>
              in
              case vstore va_start (\<lambda>_. 0) (unat (pages * PMM_PAGE_SIZE)) m1 of
                None \<Rightarrow> None
              | Some m2 \<Rightarrow>
                 (case (if p_filesz ph \<noteq> 0
                        then vstore (p_vaddr ph) (\<lambda>i. buf (p_offset ph + of_nat i)) (unat (p_filesz ph)) m2
                        else Some m2) of
                    None \<Rightarrow> None
                  | Some m3 \<Rightarrow>
                      let m4 = (if p_flags ph AND PF_W = 0
                                then m3\<lparr>mpg := remap_pages (seg_pairs va_start phys (unat pages)) PTE_US (mpg m3)\<rparr>
                                else m3);
                          seg_end = p_vaddr ph + p_memsz ph
                      in Some (Inr (),
                           (if seg_end > img_brk img1 then img1\<lparr>img_brk := align_up seg_end PMM_PAGE_SIZE\<rparr> else img1),
                           m4)))"

fun load_segs :: "memory \<Rightarrow> elf32_phdr list \<Rightarrow> elf_image \<Rightarrow> machine \<Rightarrow> ((string + unit) \<times> elf_image \<times> machine) option" where
  "load_segs buf [] img m = Some (Inr (), img, m)"
| "load_segs buf (ph # phs) img m =
     (if p_type ph \<noteq> PT_LOAD then load_segs buf phs img m
      else if p_memsz ph = 0 then load_segs buf phs img m
      else case load_seg buf ph img m of
        None \<Rightarrow> None
      | Some (Inl why, img1, m1) \<Rightarrow> Some (Inl why, img1, m1)
      | Some (Inr _, img1, m1) \<Rightarrow> load_segs buf phs img1 m1)"

definition elf_load :: "memory option \<Rightarrow> u32 \<Rightarrow> elf_image \<Rightarrow> machine \<Rightarrow> ((string + unit) \<times> elf_image \<times> machine) option" where
  "elf_load bufp sz img m =
     (let img0 = img\<lparr>img_entry := 0, img_brk := 0, img_seg := []\<rparr> in
      case elf_validate bufp sz of
        Inl why \<Rightarrow> Some (Inl why, img0, m)
      | Inr _ \<Rightarrow>
          let buf = the bufp in
          case load_segs buf (phdrs buf) img0 m of
            Some (Inr _, img1, m1) \<Rightarrow> Some (Inr (), img1\<lparr>img_entry := e_entry (ehdr_of buf)\<rparr>, m1)
          | r \<Rightarrow> r)"

fun unload_pages :: "u32 \<Rightarrow> u32 \<Rightarrow> nat \<Rightarrow> machine \<Rightarrow> machine" where
  "unload_pages va phys 0 m = m"
| "unload_pages va phys (Suc k) m =
     unload_pages (va + PMM_PAGE_SIZE) (phys + PMM_PAGE_SIZE) k
       (m\<lparr>mpm := snd (pmm_free_page phys (mpm m)), mpg := paging_unmap va (mpg m)\<rparr>)"

definition elf_unload :: "elf_image \<Rightarrow> machine \<Rightarrow> machine" where
  "elf_unload img m =
     fold (\<lambda>sg. unload_pages (seg_va sg) (seg_phys sg) (unat (seg_pages sg))) (img_seg img) m"

section \<open>What validation guarantees\<close>

lemma range_in_iff:
  "range_in start len lo hi \<longleftrightarrow>
     unat lo \<le> unat start \<and> unat start < unat hi \<and> unat start + unat len \<le> unat hi"
proof (cases "start < hi")
  case True
  then have "unat (hi - start) = unat hi - unat start" by (simp add: unat_sub less_imp_le)
  then show ?thesis using True
    by (cases "len = 0") (auto simp: range_in_def word_less_nat_alt word_le_nat_alt)
next
  case False
  then show ?thesis by (auto simp: range_in_def word_less_nat_alt word_le_nat_alt)
qed

text \<open>A segment that may be loaded: inside the user image area, its bytes inside the file.\<close>

definition seg_ok :: "u32 \<Rightarrow> elf32_phdr \<Rightarrow> bool" where
  "seg_ok sz ph \<longleftrightarrow>
     unat (p_filesz ph) \<le> unat (p_memsz ph) \<and>
     0x400000 \<le> unat (p_vaddr ph) \<and> unat (p_vaddr ph) + unat (p_memsz ph) \<le> 0x800000 \<and>
     (p_filesz ph \<noteq> 0 \<longrightarrow> unat (p_offset ph) + unat (p_filesz ph) \<le> unat sz)"

definition loadable :: "elf32_phdr \<Rightarrow> bool" where
  "loadable ph \<longleftrightarrow> p_type ph = PT_LOAD \<and> p_memsz ph \<noteq> 0"

lemma seg_ok_checks:
  assumes "p_memsz ph \<noteq> 0"
  shows "seg_ok sz ph \<longleftrightarrow> \<not> p_filesz ph > p_memsz ph \<and>
      range_in (p_vaddr ph) (p_memsz ph) USER_IMAGE_BASE USER_IMAGE_END \<and>
      \<not> (p_filesz ph \<noteq> 0 \<and> \<not> range_in (p_offset ph) (p_filesz ph) 0 sz)"
proof -
  have "0 < unat (p_memsz ph)" using assms by (simp add: unat_gt_0)
  moreover have "p_filesz ph \<noteq> 0 \<Longrightarrow> 0 < unat (p_filesz ph)" by (simp add: unat_gt_0)
  ultimately show ?thesis
    by (auto simp: seg_ok_def range_in_iff word_less_nat_alt)
qed

lemma check_phdrs_iff:
  assumes "nload + length phs \<le> ELF_MAX_SEG"
  shows "check_phdrs sz nload phs = Inr k \<longleftrightarrow>
    (\<forall>ph \<in> set phs. loadable ph \<longrightarrow> seg_ok sz ph) \<and>
    k = nload + length (filter (\<lambda>ph. p_type ph = PT_LOAD) phs)"
  using assms
proof (induction sz nload phs rule: check_phdrs.induct)
  case (1 sz nload)
  then show ?case by auto
next
  case (2 sz nload ph phs)
  show ?case
  proof (cases "loadable ph")
    case False
    then show ?thesis using "2.IH"(1,2) "2.prems"
      by (cases "p_type ph = PT_LOAD") (simp_all add: loadable_def)
  next
    case True
    then show ?thesis using "2.IH"(3) "2.prems" seg_ok_checks [of ph sz]
      by (auto simp: loadable_def)
  qed
qed

text \<open>The header conditions, on natural numbers.\<close>

definition header_ok :: "memory \<Rightarrow> u32 \<Rightarrow> bool" where
  "header_ok buf sz \<longleftrightarrow>
     52 \<le> unat sz \<and> map (\<lambda>i. buf (of_nat i)) [0..<7] = [0x7F, 0x45, 0x4C, 0x46, 1, 1, 1] \<and>
     rd16 buf 16 = 2 \<and> rd16 buf 18 = 3 \<and> rd16 buf 42 = 32 \<and>
     0x400000 \<le> unat (rd32 buf 24) \<and> unat (rd32 buf 24) < 0x800000 \<and>
     0 < unat (rd16 buf 44) \<and> unat (rd16 buf 44) \<le> ELF_MAX_SEG \<and>
     unat (rd32 buf 28) + unat (rd16 buf 44) * 32 \<le> unat sz"

lemma upt_16_nth: "i < 16 \<Longrightarrow> map (\<lambda>i. (buf :: memory) (of_nat i)) [0..<16] ! i = buf (of_nat i)"
  by simp

lemma pht_bytes:
  assumes "(n::u16) \<le> 8"
  shows "unat (ucast n * 32 :: u32) = unat n * 32"
  using assms by (simp add: unat_word_ariths word_le_nat_alt)

lemma header_ok_checks:
  "header_ok buf sz \<longleftrightarrow>
     (let eh = ehdr_of buf in \<not> sz < 52 \<and>
       (e_ident eh ! 0 = 0x7F \<and> e_ident eh ! 1 = 0x45 \<and> e_ident eh ! 2 = 0x4C \<and> e_ident eh ! 3 = 0x46) \<and>
       e_ident eh ! 4 = 1 \<and> e_ident eh ! 5 = 1 \<and> e_ident eh ! 6 = 1 \<and> e_type eh = 2 \<and> e_machine eh = 3 \<and>
       range_in (e_entry eh) 1 USER_IMAGE_BASE USER_IMAGE_END \<and> e_phentsize eh = 32 \<and>
       e_phnum eh \<noteq> 0 \<and> \<not> e_phnum eh > of_nat ELF_MAX_SEG \<and>
       range_in (e_phoff eh) (ucast (e_phnum eh) * 32) 0 sz)"
proof -
  have i: "map (\<lambda>i. buf (of_nat i)) [0..<7] = [0x7F, 0x45, 0x4C, 0x46, 1, 1, 1] \<longleftrightarrow>
      (buf 0 = 0x7F \<and> buf 1 = 0x45 \<and> buf 2 = 0x4C \<and> buf 3 = 0x46) \<and> buf 4 = 1 \<and> buf 5 = 1 \<and> buf 6 = 1"
    by (simp add: upt_rec)
  have n: "range_in (rd32 buf 28) (ucast (rd16 buf 44) * 32) 0 sz \<longleftrightarrow>
      unat (rd32 buf 28) + unat (rd16 buf 44) * 32 \<le> unat sz"
    if "\<not> rd16 buf 44 > 8" "rd16 buf 44 \<noteq> 0"
    proof -
    have "0 < unat (rd16 buf 44)" using that(2) by (simp add: unat_gt_0)
    then show ?thesis using that(1) by (auto simp: range_in_iff pht_bytes not_less)
  qed
  have e: "range_in (rd32 buf 24) 1 USER_IMAGE_BASE USER_IMAGE_END \<longleftrightarrow>
      0x400000 \<le> unat (rd32 buf 24) \<and> unat (rd32 buf 24) < 0x800000"
    by (auto simp: range_in_iff)
  have z: "0 < unat (rd16 buf 44) \<longleftrightarrow> rd16 buf 44 \<noteq> 0"
    "unat (rd16 buf 44) \<le> 8 \<longleftrightarrow> \<not> rd16 buf 44 > 8" "52 \<le> unat sz \<longleftrightarrow> \<not> sz < 52"
    by (simp_all add: unat_gt_0 word_less_nat_alt not_less)
  show ?thesis
    unfolding header_ok_def i z Let_def ehdr_of_def elf32_ehdr.simps e
    using n by (simp add: upt_16_nth) blast
qed

lemma elf_validate_cases:
  "elf_validate (Some buf) sz = Inr () \<longleftrightarrow>
     header_ok buf sz \<and> (\<exists>k. check_phdrs sz 0 (phdrs buf) = Inr k \<and> k \<noteq> 0)"
  unfolding header_ok_checks elf_validate_def Let_def option.simps
  by (cases "check_phdrs sz 0 (phdrs buf)"; simp; blast)

lemma elf_validate_iff:
  "elf_validate (Some buf) sz = Inr () \<longleftrightarrow>
     header_ok buf sz \<and> (\<exists>ph \<in> set (phdrs buf). p_type ph = PT_LOAD) \<and>
     (\<forall>ph \<in> set (phdrs buf). loadable ph \<longrightarrow> seg_ok sz ph)"
proof (cases "header_ok buf sz")
  case True
  then have "0 + length (phdrs buf) \<le> ELF_MAX_SEG" by (simp add: header_ok_def phdrs_def ehdr_of_def)
  note iff = check_phdrs_iff [OF this, of sz]
  have "(\<exists>k. check_phdrs sz 0 (phdrs buf) = Inr k \<and> k \<noteq> 0) \<longleftrightarrow>
      (\<forall>ph \<in> set (phdrs buf). loadable ph \<longrightarrow> seg_ok sz ph) \<and>
      length (filter (\<lambda>ph. p_type ph = PT_LOAD) (phdrs buf)) \<noteq> 0"
    unfolding iff by simp
  then show ?thesis unfolding elf_validate_cases using True by (auto simp: filter_empty_conv)
qed (simp add: elf_validate_cases)

lemma rd_cong:
  fixes sz :: u32
  assumes "\<forall>a. unat a < unat sz \<longrightarrow> buf a = buf' a"
  shows "unat a + 4 \<le> unat sz \<Longrightarrow> rd32 buf a = rd32 buf' a" "unat a + 2 \<le> unat sz \<Longrightarrow> rd16 buf a = rd16 buf' a"
proof -
  have b: "buf (a + k) = buf' (a + k)" if "unat a + unat k < unat sz" for k
    using assms that u32_bound [of sz] by (simp add: unat_word_ariths)
  { assume "unat a + 4 \<le> unat sz"
    then show "rd32 buf a = rd32 buf' a" using b [of 0] b [of 1] b [of 2] b [of 3] by (simp add: rd32_def) }
  { assume "unat a + 2 \<le> unat sz"
    then show "rd16 buf a = rd16 buf' a" using b [of 0] b [of 1] by (simp add: rd16_def) }
qed

lemma ehdr_of_cong:
  fixes sz :: u32
  assumes "\<forall>a. unat a < unat sz \<longrightarrow> buf a = buf' a" and "52 \<le> unat sz"
  shows "ehdr_of buf = ehdr_of buf'"
proof -
  have "map (\<lambda>i. buf (of_nat i)) [0..<16] = map (\<lambda>i. buf' (of_nat i)) [0..<16]"
    using assms by (simp add: unat_of_nat)
  then show ?thesis using rd_cong [OF assms(1)] assms(2) by (simp add: ehdr_of_def)
qed

lemma phdrs_cong:
  assumes "\<forall>a. unat a < unat sz \<longrightarrow> buf a = buf' a" and "header_ok buf sz"
  shows "phdrs buf = phdrs buf'"
proof -
  have eh: "ehdr_of buf = ehdr_of buf'" using ehdr_of_cong [OF assms(1)] assms(2) by (simp add: header_ok_def)
  let ?o = "e_phoff (ehdr_of buf')" and ?n = "unat (e_phnum (ehdr_of buf'))"
  have t: "unat ?o + ?n * 32 \<le> unat sz" "?n \<le> 8"
    using assms(2) unfolding header_ok_def eh [symmetric] by (simp_all add: ehdr_of_def)
  have "phdr_at buf (?o + of_nat i * 32) = phdr_at buf' (?o + of_nat i * 32)" if i: "i < ?n" for i
  proof -
    let ?a = "?o + of_nat i * 32"
    have "unat ?a + 32 \<le> unat sz"
      using t i u32_bound [of sz] by (simp add: unat_word_ariths unat_of_nat)
    then have "unat (?a + k) + 4 \<le> unat sz" if "unat k \<le> 28" for k
      using that u32_bound [of sz] by (simp add: unat_word_ariths)
    from rd_cong(1) [OF assms(1) this] show ?thesis
      using rd_cong(1) [OF assms(1), of ?a] \<open>unat ?a + 32 \<le> unat sz\<close> by (simp add: phdr_at_def)
  qed
  then show ?thesis by (simp add: phdrs_def eh)
qed

text \<open>C6: validation is exact. \<open>elf_validate\<close> accepts a buffer exactly when it has the header of
  an i386 static executable whose entry lies in the user image area and whose program header
  table (1 to 8 entries) lies inside the file, has a PT_LOAD segment, and every non-empty
  PT_LOAD segment lies in the user image area with its file bytes inside the file, all of it
  on unbounded integers: no 32-bit sum in the checks wraps.\<close>

theorem elf_validate_exact:
  "elf_validate (Some buf) sz = Inr () \<longleftrightarrow>
     header_ok buf sz \<and> (\<exists>ph \<in> set (phdrs buf). p_type ph = PT_LOAD) \<and>
     (\<forall>ph \<in> set (phdrs buf). p_type ph = PT_LOAD \<and> p_memsz ph \<noteq> 0 \<longrightarrow>
        unat (p_filesz ph) \<le> unat (p_memsz ph) \<and>
        0x400000 \<le> unat (p_vaddr ph) \<and> unat (p_vaddr ph) + unat (p_memsz ph) \<le> 0x800000 \<and>
        (p_filesz ph \<noteq> 0 \<longrightarrow> unat (p_offset ph) + unat (p_filesz ph) \<le> unat sz))"
  unfolding elf_validate_iff loadable_def seg_ok_def ..

text \<open>Validation reads only the file: two buffers that agree below the given size get
  the same verdict, with the same reason.\<close>

theorem elf_validate_reads_inside:
  assumes "\<forall>a. unat a < unat sz \<longrightarrow> buf a = buf' a"
  shows "elf_validate (Some buf) sz = elf_validate (Some buf') sz"
proof (cases "52 \<le> unat sz")
  case False
  then have "sz < 52" by (simp add: word_less_nat_alt)
  then show ?thesis by (simp add: elf_validate_def)
next
  case True
  have eh: "ehdr_of buf' = ehdr_of buf" using ehdr_of_cong [OF assms True] by simp
  show ?thesis
  proof (cases "header_ok buf sz")
    case True
    show ?thesis using phdrs_cong [OF assms True] by (simp add: elf_validate_def eh cong: if_cong)
  next
    case False
    then show ?thesis using False unfolding header_ok_checks elf_validate_def Let_def option.simps eh
      by (simp split: if_split) blast
  qed
qed

text \<open>The self-test's minimal executable: one read-only four-byte segment at the base.\<close>

definition elf_example :: memory where
  "elf_example = (\<lambda>_. 0)(0 := 0x7F, 1 := 0x45, 2 := 0x4C, 3 := 0x46, 4 := 1, 5 := 1, 6 := 1, 16 := 2, 18 := 3,
     20 := 1, 26 := 0x40, 28 := 52, 42 := 32, 44 := 1,
     52 := 1, 56 := 84, 62 := 0x40, 68 := 4, 72 := 4, 76 := 5, 84 := 0x90, 85 := 0x90, 86 := 0xEB, 87 := 0xFE)"

lemma elf_example_facts:
  "header_ok elf_example 100"
  "phdrs elf_example = [\<lparr>p_type = 1, p_offset = 84, p_vaddr = 0x400000, p_filesz = 4, p_memsz = 4, p_flags = 5\<rparr>]"
  "ehdr_of elf_example = \<lparr>e_ident = [0x7F, 0x45, 0x4C, 0x46, 1, 1, 1, 0, 0, 0, 0, 0, 0, 0, 0, 0], e_type = 2,
     e_machine = 3, e_entry = 0x400000, e_phoff = 52, e_phentsize = 32, e_phnum = 1\<rparr>"
  by (simp_all add: header_ok_def phdrs_def phdr_at_def ehdr_of_def rd32_def rd16_def elf_example_def upt_rec)

theorem elf_validate_exact_witness: "elf_validate (Some elf_example) 100 = Inr ()"
  unfolding elf_validate_exact by (simp add: elf_example_facts)

theorem elf_validate_reads_inside_witness:
  "elf_validate (Some (elf_example(100 := 0xAA, 0xFFFFFFFF := 0xBB))) 100 = elf_validate (Some elf_example) 100"
  by (rule elf_validate_reads_inside) auto

end
