(* ===== verification/ElfLoad.thy ===== *)
theory ElfLoad
  imports Elf
begin

text \<open>
  What loading and unloading do to the frames and to the address space: the accounting of
  \<open>elf_load\<close> and \<open>elf_unload\<close> of \<open>src/kernel/elf.c\<close>.
\<close>

section \<open>Lists of mappings\<close>

abbreviation page_of :: "u32 \<Rightarrow> nat" where "page_of v \<equiv> unat v div 4096"

lemma map_pages_spec:
  assumes "paging_inv s" and "map_pages xs fl s = (True, s')" and "distinct (map (\<lambda>(v, p). page_of v) xs)"
  shows "paging_inv s' \<and>
    (\<forall>w. page_of w \<notin> (\<lambda>(v, p). page_of v) ` set xs \<longrightarrow> paging_query w s' = paging_query w s) \<and>
    (\<forall>(v, p) \<in> set xs. \<forall>w. page_of w = page_of v \<longrightarrow> paging_query w s' = Some (p, (fl AND 0xFFF) OR 1))"
  using assms
proof (induction xs fl s rule: map_pages.induct)
  case (1 fl s)
  then show ?case by simp
next
  case (2 v p xs fl s)
  obtain ok1 s1 where m: "paging_map v p fl s = (ok1, s1)" by (cases "paging_map v p fl s")
  then have ok1: "ok1" using "2.prems"(2) by (cases ok1) simp_all
  note sp = paging_map_spec [OF "2.prems"(1) m, unfolded if_P [OF ok1]]
  have "paging_inv s' \<and>
      (\<forall>w. page_of w \<notin> (\<lambda>(v, p). page_of v) ` set xs \<longrightarrow> paging_query w s' = paging_query w s1) \<and>
      (\<forall>(v, p) \<in> set xs. \<forall>w. page_of w = page_of v \<longrightarrow> paging_query w s' = Some (p, (fl AND 0xFFF) OR 1))"
    using "2.IH" [OF m [symmetric]] "2.prems"(2,3) sp m ok1 by simp
  moreover have "page_of v \<notin> (\<lambda>(v, p). page_of v) ` set xs" using "2.prems"(3) by simp
  ultimately show ?case using sp by auto
qed

lemma map_pages_failed:
  assumes "paging_inv s" and "map_pages xs fl s = (False, s')"
  shows "paging_inv s' \<and>
    (\<forall>w. page_of w \<notin> (\<lambda>(v, p). page_of v) ` set xs \<longrightarrow> paging_query w s' = paging_query w s)"
  using assms
proof (induction xs fl s rule: map_pages.induct)
  case (1 fl s)
  then show ?case by simp
next
  case (2 v p xs fl s)
  obtain ok1 s1 where m: "paging_map v p fl s = (ok1, s1)" by (cases "paging_map v p fl s")
  note sp = paging_map_spec [OF "2.prems"(1) m]
  show ?case
  proof (cases ok1)
    case True
    then show ?thesis using "2.IH" [OF m [symmetric]] "2.prems" sp m by simp
  next
    case False
    then show ?thesis using sp m "2.prems" by simp
  qed
qed

text \<open>Mapping a page that is already mapped needs no table and cannot fail.\<close>

lemma paging_map_mapped:
  assumes "paging_query v s \<noteq> None" and "v AND 0xFFF = 0" and "p AND 0xFFF = 0"
  shows "fst (paging_map v p fl s)"
  using assms by (auto simp: paging_map_status paging_query_walk split: if_splits)

lemma remap_pages_map:
  assumes "paging_inv s" and "\<forall>(v, p) \<in> set xs. paging_query v s \<noteq> None \<and> v AND 0xFFF = 0 \<and> p AND 0xFFF = 0"
  shows "map_pages xs fl s = (True, remap_pages xs fl s)"
  using assms
proof (induction xs arbitrary: s)
  case Nil
  then show ?case by (simp add: remap_pages_def)
next
  case (Cons x xs)
  obtain v p where x: "x = (v, p)" by (cases x)
  obtain s1 where m: "paging_map v p fl s = (True, s1)"
    using paging_map_mapped [of v s p fl] Cons.prems(2) x by (cases "paging_map v p fl s") auto
  note sp = paging_map_spec [OF Cons.prems(1) m]
  have "\<forall>(v, p) \<in> set xs. paging_query v s1 \<noteq> None \<and> v AND 0xFFF = 0 \<and> p AND 0xFFF = 0"
    using Cons.prems(2) sp by auto
  then have "map_pages xs fl s1 = (True, remap_pages xs fl s1)" using Cons.IH [of s1] sp by simp
  then show ?case using m x by (simp add: remap_pages_def)
qed

section \<open>Stores through the page tables\<close>

lemma vstore_frame:
  "vstore va f n m = Some m' \<Longrightarrow> mpg m' = mpg m \<and> mpm m' = mpm m"
  by (induction va f n m rule: vstore.induct) (auto split: option.splits)

lemma vstore_total:
  assumes "\<forall>i < n. paging_query (va + of_nat i) (mpg m) \<noteq> None"
  shows "\<exists>m'. vstore va f n m = Some m'"
  using assms
proof (induction va f n m rule: vstore.induct)
  case (2 va f n m)
  have "paging_query (va + of_nat 0) (mpg m) \<noteq> None" using "2.prems" by blast
  then obtain p where p: "xlate va (mpg m) = Some p" by (auto simp: xlate_def)
  have "paging_query (va + 1 + of_nat i) (mpg m) \<noteq> None" if "i < n" for i
    using "2.prems" [rule_format, of "Suc i"] that by (simp add: add.assoc)
  then show ?case using "2.IH" [OF p] p by simp
qed simp

section \<open>The pages of a segment\<close>

definition seg_lo :: "elf32_phdr \<Rightarrow> nat" where
  "seg_lo ph = page_of (p_vaddr ph)"

definition seg_hi :: "elf32_phdr \<Rightarrow> nat" where
  "seg_hi ph = (unat (p_vaddr ph) + unat (p_memsz ph) + 4095) div 4096"

lemma page_floor: "unat ((x::u32) AND NOT (4096 - 1)) = unat x div 4096 * 4096"
proof -
  have n: "NOT (4096 - 1) = (0xFFFFF000::u32)" by simp
  show ?thesis unfolding n unat_page_base by (simp add: minus_mod_eq_div_mult)
qed

lemma seg_arith:
  assumes ok: "seg_ok sz ph" and nz: "p_memsz ph \<noteq> 0"
  shows "unat (p_vaddr ph AND NOT (4096 - 1)) = seg_lo ph * 4096"
    and "unat ((align_up (p_vaddr ph + p_memsz ph) 4096 - (p_vaddr ph AND NOT (4096 - 1))) div 4096) = seg_hi ph - seg_lo ph"
    and "0x400 \<le> seg_lo ph" and "seg_lo ph < seg_hi ph" and "seg_hi ph \<le> 0x800"
    and "seg_lo ph * 4096 \<le> unat (p_vaddr ph)" and "unat (p_vaddr ph) + unat (p_memsz ph) \<le> seg_hi ph * 4096"
proof -
  have b: "0x400000 \<le> unat (p_vaddr ph)" "unat (p_vaddr ph) + unat (p_memsz ph) \<le> 0x800000"
    using ok by (simp_all add: seg_ok_def)
  have pos: "0 < unat (p_memsz ph)" using nz by (simp add: unat_gt_0)
  show lo: "unat (p_vaddr ph AND NOT (4096 - 1)) = seg_lo ph * 4096" unfolding page_floor seg_lo_def ..
  show "0x400 \<le> seg_lo ph" using b(1) by (simp add: seg_lo_def)
  show lt: "seg_lo ph < seg_hi ph" using pos by (simp add: seg_lo_def seg_hi_def)
  show hi: "seg_hi ph \<le> 0x800" using b(2) by (simp add: seg_hi_def)
  show "seg_lo ph * 4096 \<le> unat (p_vaddr ph)" by (simp add: seg_lo_def)
  show "unat (p_vaddr ph) + unat (p_memsz ph) \<le> seg_hi ph * 4096" by (simp add: seg_hi_def)
  have s: "unat (p_vaddr ph + p_memsz ph) = unat (p_vaddr ph) + unat (p_memsz ph)"
    using b by (simp add: unat_word_ariths)
  have s2: "unat (p_vaddr ph + p_memsz ph + 4096 - 1) = unat (p_vaddr ph) + unat (p_memsz ph) + 4095"
    using b s by (subst unat_sub) (simp_all add: unat_word_ariths word_le_nat_alt)
  have e: "unat (align_up (p_vaddr ph + p_memsz ph) 4096) = seg_hi ph * 4096"
    unfolding align_up_def page_floor s2 seg_hi_def ..
  let ?a = "align_up (p_vaddr ph + p_memsz ph) 4096" and ?b = "p_vaddr ph AND NOT (4096 - 1)"
  have ba: "?b \<le> ?a" unfolding word_le_nat_alt e lo using lt by simp
  have "unat (?a - ?b) = seg_hi ph * 4096 - seg_lo ph * 4096"
    unfolding unat_sub [OF ba] e lo ..
  then have "unat (?a - ?b) = (seg_hi ph - seg_lo ph) * 4096" by (simp add: diff_mult_distrib)
  then have "unat (?a - ?b) div unat (4096::u32) = seg_hi ph - seg_lo ph" by (simp del: diff_mult_distrib)
  then show "unat ((?a - ?b) div 4096) = seg_hi ph - seg_lo ph" unfolding unat_div .
qed

lemma unat_page_step:
  assumes "unat (a::u32) + n * 4096 < 2 ^ 32" and "k \<le> n"
  shows "unat (a + of_nat k * 4096) = unat a + k * 4096"
proof -
  have "k * 4096 \<le> n * 4096" using assms(2) by simp
  then have "unat a + k * 4096 < 2 ^ 32" using assms(1) by linarith
  moreover have "k * 4096 < 2 ^ 32" using calculation by linarith
  ultimately show ?thesis
    by (simp add: unat_word_ariths unat_of_nat mod_mult_left_eq del: of_nat_mult)
qed


lemma seg_pairs_pages:
  assumes "unat va + n * 4096 < 2 ^ 32" and "4096 dvd unat va"
  shows "map (\<lambda>(v, p). page_of v) (seg_pairs va phys n) = [page_of va..<page_of va + n]"
proof (rule nth_equalityI)
  fix i assume i: "i < length (map (\<lambda>(v, p). page_of v) (seg_pairs va phys n))"
  then have "i \<le> n" by (simp add: seg_pairs_def)
  then have "page_of (va + of_nat i * 4096) = page_of va + i" using unat_page_step [OF assms(1)] by simp
  then show "map (\<lambda>(v, p). page_of v) (seg_pairs va phys n) ! i = [page_of va..<page_of va + n] ! i"
    using i by (simp add: seg_pairs_def)
qed (simp add: seg_pairs_def)

lemma seg_pairs_page_set:
  assumes "unat va + n * 4096 < 2 ^ 32" and "4096 dvd unat va"
  shows "(\<lambda>(v, p). page_of v) ` set (seg_pairs va phys n) = {page_of va..<page_of va + n}"
    and "distinct (map (\<lambda>(v, p). page_of v) (seg_pairs va phys n))"
proof -
  show "(\<lambda>(v, p). page_of v) ` set (seg_pairs va phys n) = {page_of va..<page_of va + n}"
    using arg_cong [OF seg_pairs_pages [OF assms, of phys], of set] by (simp only: set_map set_upt)
  show "distinct (map (\<lambda>(v, p). page_of v) (seg_pairs va phys n))"
    unfolding seg_pairs_pages [OF assms] by simp
qed

lemma seg_pairs_aligned:
  assumes "unat va + n * 4096 < 2 ^ 32" and "4096 dvd unat va"
    and "unat phys + n * 4096 < 2 ^ 32" and "4096 dvd unat phys"
  shows "\<forall>(v, p) \<in> set (seg_pairs va phys n). v AND 0xFFF = 0 \<and> p AND 0xFFF = 0"
  using unat_page_step [OF assms(1)] unat_page_step [OF assms(3)] assms(2,4)
  by (auto simp: seg_pairs_def page_offset_0_iff)

text \<open>The mapping loop of a segment, and its tightening pass.\<close>

lemma seg_map_spec:
  assumes inv: "paging_inv s" and va: "unat va + n * 4096 < 2 ^ 32" "4096 dvd unat va"
    and phys: "unat phys + n * 4096 < 2 ^ 32" "4096 dvd unat phys"
    and m: "map_pages (seg_pairs va phys n) fl s = (True, s')"
  shows "paging_inv s'"
    and "\<And>w. paging_query w s' =
      (if page_of va \<le> page_of w \<and> page_of w < page_of va + n
       then Some (phys + of_nat (page_of w - page_of va) * 4096, (fl AND 0xFFF) OR 1) else paging_query w s)"
proof -
  note sp = map_pages_spec [OF inv m seg_pairs_page_set(2) [OF va]]
  show "paging_inv s'" using sp by blast
  show "paging_query w s' = (if page_of va \<le> page_of w \<and> page_of w < page_of va + n
       then Some (phys + of_nat (page_of w - page_of va) * 4096, (fl AND 0xFFF) OR 1) else paging_query w s)" for w
  proof (cases "page_of va \<le> page_of w \<and> page_of w < page_of va + n")
    case True
    define k where "k = page_of w - page_of va"
    have k: "k < n" "page_of w = page_of va + k" using True by (auto simp: k_def)
    have "(va + of_nat k * 4096, phys + of_nat k * 4096) \<in> set (seg_pairs va phys n)"
      using k by (auto simp: seg_pairs_def)
    moreover have "page_of (va + of_nat k * 4096) = page_of va + k"
      using unat_page_step [OF va(1), of k] k by simp
    ultimately have "paging_query w s' = Some (phys + of_nat k * 4096, (fl AND 0xFFF) OR 1)"
      using sp k by fastforce
    then show ?thesis using True by (simp add: k_def)
  next
    case False
    then show ?thesis using sp unfolding seg_pairs_page_set(1) [OF va] by auto
  qed
qed

section \<open>Frames of the loaded segments\<close>

definition seg_frames :: "elf_seg \<Rightarrow> nat set" where
  "seg_frames sg = {unat (idx_of (seg_phys sg))..<unat (idx_of (seg_phys sg)) + unat (seg_pages sg)}"

definition seg_page_set :: "elf_seg \<Rightarrow> nat set" where
  "seg_page_set sg = {page_of (seg_va sg)..<page_of (seg_va sg) + unat (seg_pages sg)}"

text \<open>A segment record as \<open>elf_load\<close> leaves it: frames of the pool, pages of the user image area.\<close>

definition seg_wf :: "elf_seg \<Rightarrow> bool" where
  "seg_wf sg \<longleftrightarrow> pool_range (seg_phys sg) (seg_pages sg) \<and> 4096 dvd unat (seg_va sg) \<and>
     0x400000 \<le> unat (seg_va sg) \<and> unat (seg_va sg) + unat (seg_pages sg) * 4096 \<le> 0x800000"

definition machine_ok :: "machine \<Rightarrow> bool" where
  "machine_ok m \<longleftrightarrow> pmm_live (mpm m) \<and> paging_inv (mpg m)"

lemma seg_wf_pages: "seg_wf sg \<Longrightarrow> seg_page_set sg \<subseteq> {0x400..<0x800}"
  unfolding seg_wf_def seg_page_set_def by (auto elim!: dvdE)

lemma pmm_alloc_pool_range:
  assumes "pmm_live s" and "pmm_alloc_pages n s = (p, s')" and "p \<noteq> 0"
  shows "pool_range p n"
  using pmm_alloc_pages_spec [OF _ assms(2)] assms(1,3) by (auto simp: pmm_live_def Let_def split: if_splits)

text \<open>A store inside mapped pages succeeds and leaves the tables and the allocator alone.\<close>

lemma vstore_in_pages:
  assumes q: "\<And>w. lo \<le> page_of w \<and> page_of w < hi \<Longrightarrow> paging_query w (mpg m) \<noteq> None"
    and b: "lo * 4096 \<le> unat va" "unat va + n \<le> hi * 4096" "hi * 4096 < 2 ^ 32"
  shows "\<exists>m'. vstore va f n m = Some m' \<and> mpg m' = mpg m \<and> mpm m' = mpm m"
proof -
  have "paging_query (va + of_nat i) (mpg m) \<noteq> None" if i: "i < n" for i
  proof (rule q)
    have "unat (va + of_nat i) = unat va + i" using i b by (simp add: unat_word_ariths unat_of_nat)
    then show "lo \<le> page_of (va + of_nat i) \<and> page_of (va + of_nat i) < hi"
      using i b by (simp add: less_eq_div_iff_mult_less_eq div_less_iff_less_mult)
  qed
  then obtain m' where "vstore va f n m = Some m'" using vstore_total by blast
  then show ?thesis using vstore_frame by blast
qed

text \<open>What a successful iteration adds, and that it cannot fault.\<close>

lemma load_seg_spec:
  assumes ok: "machine_ok m" and sg: "seg_ok sz ph" "p_memsz ph \<noteq> 0"
  shows "\<exists>r img' m'. load_seg buf ph img m = Some (r, img', m') \<and>
    (r = Inr () \<longrightarrow> machine_ok m' \<and> (\<exists>g. img_seg img' = img_seg img @ [g] \<and> seg_wf g \<and>
       page_of (seg_va g) = seg_lo ph \<and> unat (seg_pages g) = seg_hi ph - seg_lo ph \<and>
       seg_frames g \<inter> allocated (mpm m) = {} \<and> allocated (mpm m') = allocated (mpm m) \<union> seg_frames g \<and>
       (\<forall>w. paging_query w (mpg m') = (if page_of w \<in> seg_page_set g
          then Some (seg_phys g + of_nat (page_of w - seg_lo ph) * 4096, if p_flags ph AND PF_W = 0 then 5 else 7)
          else paging_query w (mpg m)))))"
proof -
  define va where "va = p_vaddr ph AND NOT (4096 - 1)"
  define pages where "pages = (align_up (p_vaddr ph + p_memsz ph) 4096 - va) div 4096"
  note ar = seg_arith [OF sg, folded va_def, folded pages_def]
  have live: "pmm_live (mpm m)" and inv: "paging_inv (mpg m)" using ok by (simp_all add: machine_ok_def)
  obtain phys pm1 where al: "pmm_alloc_pages pages (mpm m) = (phys, pm1)" by (cases "pmm_alloc_pages pages (mpm m)")
  let ?xs = "seg_pairs va phys (unat pages)"
  obtain ok1 pg1 where mp: "map_pages ?xs PAGING_USR_FLAGS (mpg m) = (ok1, pg1)"
    by (cases "map_pages ?xs PAGING_USR_FLAGS (mpg m)")
  consider (full) "length (img_seg img) \<ge> ELF_MAX_SEG" | (nomem) "length (img_seg img) < ELF_MAX_SEG" "phys = 0"
    | (nomap) "length (img_seg img) < ELF_MAX_SEG" "phys \<noteq> 0" "\<not> ok1"
    | (good) "length (img_seg img) < ELF_MAX_SEG" "phys \<noteq> 0" "ok1" by linarith
  then show ?thesis
  proof cases
    case full
    then show ?thesis by (simp add: load_seg_def unwind_def)
  next
    case nomem
    then show ?thesis using al by (simp add: load_seg_def Let_def va_def pages_def unwind_def)
  next
    case nomap
    then show ?thesis using al mp by (simp add: load_seg_def Let_def va_def pages_def unwind_def)
  next
    case good
    note fr = pf.alloc_fresh [OF live al good(2)] and pr = pmm_alloc_pool_range [OF live al good(2)]
    have n: "unat pages = seg_hi ph - seg_lo ph" by (rule ar(2))
    have pv: "page_of va = seg_lo ph" and dv: "4096 dvd unat va" unfolding ar(1) by simp_all
    have end_va: "unat va + unat pages * 4096 = seg_hi ph * 4096"
      using ar(4) unfolding ar(1) n by (simp add: diff_mult_distrib)
    then have vb: "unat va + unat pages * 4096 < 2 ^ 32" using ar(5) by simp
    have pb: "unat phys + unat pages * 4096 < 2 ^ 32" "4096 dvd unat phys" using pr by (simp_all add: pool_range_def)
    have ends: "seg_lo ph + unat pages = seg_hi ph" using n ar(4) by simp
    define m1 where "m1 = m\<lparr>mpg := pg1, mpm := pm1\<rparr>"
    note q1 = seg_map_spec [OF inv vb dv pb mp [unfolded eqTrueI [OF good(3)]], unfolded ends pv]
    have hb: "seg_hi ph * 4096 < 2 ^ 32" using ar(5) by simp
    have nz: "paging_query w (mpg m1) \<noteq> None" if "seg_lo ph \<le> page_of w \<and> page_of w < seg_hi ph" for w
      using q1(2) that by (simp add: m1_def)
    have pl: "unat (pages * 4096) = unat pages * 4096" using vb by (simp add: unat_word_ariths)
    obtain m2 where m2: "vstore va (\<lambda>_. 0) (unat (pages * 4096)) m1 = Some m2" "mpg m2 = pg1" "mpm m2 = pm1"
      using vstore_in_pages [OF nz _ _ hb, where va = va and n = "unat (pages * 4096)" and f = "\<lambda>_. 0"] ar(1) end_va pl
      by (auto simp: m1_def)
    have fs: "unat (p_filesz ph) \<le> unat (p_memsz ph)" using sg(1) by (simp add: seg_ok_def)
    have nz2: "paging_query w (mpg m2) \<noteq> None" if "seg_lo ph \<le> page_of w \<and> page_of w < seg_hi ph" for w
      using nz [OF that] m2 by (simp add: m1_def)
    obtain m3 where m3: "(if p_filesz ph \<noteq> 0
          then vstore (p_vaddr ph) (\<lambda>i. buf (p_offset ph + of_nat i)) (unat (p_filesz ph)) m2 else Some m2) = Some m3"
        "mpg m3 = pg1" "mpm m3 = pm1"
      using vstore_in_pages [OF nz2 ar(6) _ hb, where n = "unat (p_filesz ph)" and f = "\<lambda>i. buf (p_offset ph + of_nat i)"]
        ar(7) fs m2 by (cases "p_filesz ph = 0") auto
    define m4 where "m4 = (if p_flags ph AND PF_W = 0
        then m3\<lparr>mpg := remap_pages ?xs PTE_US (mpg m3)\<rparr> else m3)"
    define g where "g = \<lparr>seg_va = va, seg_pages = pages, seg_phys = phys\<rparr>"
    have "\<forall>(v, p) \<in> set ?xs. paging_query v pg1 \<noteq> None \<and> v AND 0xFFF = 0 \<and> p AND 0xFFF = 0"
    proof -
      have "paging_query v pg1 \<noteq> None" if "(v, p) \<in> set ?xs" for v p
        using that seg_pairs_page_set(1) [OF vb dv, of phys] nz [of v] unfolding ends pv m1_def by force
      then show ?thesis using seg_pairs_aligned [OF vb dv pb] by fast
    qed
    note rm = seg_map_spec [OF q1(1) vb dv pb remap_pages_map [OF q1(1) this, of PTE_US], unfolded ends pv]
    have "machine_ok m4" using fr rm(1) q1(1) m3 by (simp add: m4_def machine_ok_def)
    moreover have "seg_wf g" using pr dv ar(1,3,5) end_va by (simp add: seg_wf_def g_def)
    moreover have "seg_frames g \<inter> allocated (mpm m) = {}" "allocated (mpm m4) = allocated (mpm m) \<union> seg_frames g"
      using fr m3 by (auto simp: m4_def g_def seg_frames_def)
    moreover have "paging_query w (mpg m4) = (if page_of w \<in> seg_page_set g
          then Some (seg_phys g + of_nat (page_of w - seg_lo ph) * 4096, if p_flags ph AND PF_W = 0 then 5 else 7)
          else paging_query w (mpg m))" for w
      using q1(2) [of w] rm(2) [of w] m3(2) ends pv by (simp add: m4_def g_def seg_page_set_def)
    moreover have "\<exists>img'. load_seg buf ph img m = Some (Inr (), img', m4) \<and> img_seg img' = img_seg img @ [g]"
      unfolding load_seg_def Let_def va_def [symmetric] pages_def [symmetric]
      using good al mp m2(1) m3(1) by (simp add: m1_def [symmetric] g_def m4_def)
    ultimately show ?thesis using pv n by (auto simp: g_def)
  qed
qed

section \<open>Releasing the pages of a segment\<close>

text \<open>One page released by its recorded frame number.\<close>

lemma free_frame:
  assumes "pmm_live s" and "pool_range p 1" and "unat (idx_of p) \<in> allocated s"
  shows "pmm_live (snd (pmm_free_page p s)) \<and>
    allocated (snd (pmm_free_page p s)) = allocated s - {unat (idx_of p)}"
proof -
  obtain ok s' where r: "pmm_free_pages p 1 s = (ok, s')" by (cases "pmm_free_pages p 1 s")
  have "pmm_inv s" "pmm_ready s" using assms(1) by (simp_all add: pmm_live_def)
  then show ?thesis
    using pmm_free_pages_spec [OF _ r] r assms(2,3)
    by (simp add: pmm_free_page_def pmm_live_def)
qed

lemma pool_range_step:
  assumes "pool_range p (of_nat (Suc k))" and "Suc k < 2 ^ 20"
  shows "pool_range p 1" and "unat (idx_of (p + 4096)) = Suc (unat (idx_of p))"
    and "0 < k \<Longrightarrow> pool_range (p + 4096) (of_nat k)"
proof -
  have k: "unat (of_nat (Suc k) :: u32) = Suc k" "unat (of_nat k :: u32) = k"
    using assms(2) by (simp_all add: unat_of_nat del: of_nat_Suc)
  have p: "4096 dvd unat p" "0xA00000 \<le> unat p" "unat p + Suc k * 4096 \<le> 0x1000000"
    using assms(1) unfolding pool_range_def k by simp_all
  have n: "unat (p + 4096) = unat p + 4096" using p(3) by (simp add: unat_word_ariths)
  show "pool_range p 1" using p by (simp add: pool_range_def)
  show "unat (idx_of (p + 4096)) = Suc (unat (idx_of p))"
    using p n by (subst (1 2) unat_idx_of) (simp_all add: word_le_nat_alt)
  show "pool_range (p + 4096) (of_nat k)" if "0 < k"
    unfolding pool_range_def k n using p that by simp
qed

lemma unload_pages_spec:
  assumes "machine_ok m" and "pool_range phys (of_nat n)" and "n < 2 ^ 20"
    and "{unat (idx_of phys)..<unat (idx_of phys) + n} \<subseteq> allocated (mpm m)"
    and "unat va + n * 4096 < 2 ^ 32"
  shows "machine_ok (unload_pages va phys n m) \<and>
    allocated (mpm (unload_pages va phys n m)) = allocated (mpm m) - {unat (idx_of phys)..<unat (idx_of phys) + n} \<and>
    (\<forall>w. paging_query w (mpg (unload_pages va phys n m)) =
      (if page_of va \<le> page_of w \<and> page_of w < page_of va + n then None else paging_query w (mpg m)))"
  using assms
proof (induction n arbitrary: va phys m)
  case 0
  then show ?case by auto
next
  case (Suc n)
  note st = pool_range_step [OF Suc.prems(2,3)]
  let ?i = "unat (idx_of phys)"
  define m1 where "m1 = m\<lparr>mpm := snd (pmm_free_page phys (mpm m)), mpg := paging_unmap va (mpg m)\<rparr>"
  have "?i \<in> allocated (mpm m)" using Suc.prems(4) by auto
  then have fr: "pmm_live (mpm m1)" "allocated (mpm m1) = allocated (mpm m) - {?i}"
    using free_frame [OF _ st(1)] Suc.prems(1) by (auto simp: m1_def machine_ok_def)
  have inv: "paging_inv (mpg m)" using Suc.prems(1) by (simp add: machine_ok_def)
  have un: "paging_inv (mpg m1)" "\<And>w. paging_query w (mpg m1) = (if page_of w = page_of va then None else paging_query w (mpg m))"
    using paging_unmap_spec [OF inv] by (simp_all add: m1_def)
  have ok1: "machine_ok m1" using fr un by (simp add: machine_ok_def)
  have va1: "unat (va + 4096) = unat va + 4096" "page_of (va + 4096) = Suc (page_of va)"
    using Suc.prems(5) by (simp_all add: unat_word_ariths)
  show ?case
  proof (cases "n = 0")
    case True
    then show ?thesis using ok1 fr(2) un(2) by (auto simp: m1_def)
  next
    case False
    have sub: "{unat (idx_of (phys + 4096))..<unat (idx_of (phys + 4096)) + n} \<subseteq> allocated (mpm m1)"
      unfolding st(2) fr(2) using Suc.prems(4) by auto
    have bd: "unat (va + 4096) + n * 4096 < 2 ^ 32" using Suc.prems(5) va1 by simp
    note ih = Suc.IH [OF ok1 st(3) _ sub bd]
    have "unload_pages va phys (Suc n) m = unload_pages (va + 4096) (phys + 4096) n m1" by (simp add: m1_def)
    moreover have "{?i..<?i + Suc n} = insert ?i {Suc ?i..<Suc ?i + n}" by auto
    moreover have "page_of va \<le> q \<and> q < page_of va + Suc n \<longleftrightarrow>
        q = page_of va \<or> Suc (page_of va) \<le> q \<and> q < Suc (page_of va) + n" for q by auto
    ultimately show ?thesis using ih False Suc.prems(3) fr(2) un(2) unfolding st(2) va1(2) by auto
  qed
qed

lemma unload_seg:
  assumes "machine_ok m" and "seg_wf g" and "seg_frames g \<subseteq> allocated (mpm m)"
  defines "m' \<equiv> unload_pages (seg_va g) (seg_phys g) (unat (seg_pages g)) m"
  shows "machine_ok m'" and "allocated (mpm m') = allocated (mpm m) - seg_frames g"
    and "paging_query w (mpg m') = (if page_of w \<in> seg_page_set g then None else paging_query w (mpg m))"
proof -
  have wf: "pool_range (seg_phys g) (of_nat (unat (seg_pages g)))" "unat (seg_pages g) < 2 ^ 20"
    "unat (seg_va g) + unat (seg_pages g) * 4096 < 2 ^ 32"
    using assms(2) by (simp_all add: seg_wf_def pool_range_def)
  note sp = unload_pages_spec [OF assms(1) wf(1,2) assms(3) [unfolded seg_frames_def] wf(3), folded m'_def]
  show "machine_ok m'" using sp by blast
  show "allocated (mpm m') = allocated (mpm m) - seg_frames g" using sp by (simp add: seg_frames_def)
  show "paging_query w (mpg m') = (if page_of w \<in> seg_page_set g then None else paging_query w (mpg m))"
    using sp by (simp add: seg_page_set_def)
qed

abbreviation disjoint_frames :: "elf_seg list \<Rightarrow> bool" where
  "disjoint_frames \<equiv> sorted_wrt (\<lambda>g h. seg_frames g \<inter> seg_frames h = {})"

lemma elf_unload_spec:
  assumes "machine_ok m" and "\<forall>g \<in> set gs. seg_wf g" and "disjoint_frames gs"
    and "\<Union> (seg_frames ` set gs) \<subseteq> allocated (mpm m)"
  defines "m' \<equiv> fold (\<lambda>sg. unload_pages (seg_va sg) (seg_phys sg) (unat (seg_pages sg))) gs m"
  shows "machine_ok m' \<and> allocated (mpm m') = allocated (mpm m) - \<Union> (seg_frames ` set gs) \<and>
    (\<forall>w. paging_query w (mpg m') = (if page_of w \<in> \<Union> (seg_page_set ` set gs) then None else paging_query w (mpg m)))"
  using assms(1-4) unfolding m'_def
proof (induction gs arbitrary: m)
  case Nil
  then show ?case by simp
next
  case (Cons g gs)
  let ?m1 = "unload_pages (seg_va g) (seg_phys g) (unat (seg_pages g)) m"
  have wf: "seg_wf g" and sub: "seg_frames g \<subseteq> allocated (mpm m)" using Cons.prems by auto
  note u = unload_seg [OF Cons.prems(1) wf sub]
  have "\<Union> (seg_frames ` set gs) \<subseteq> allocated (mpm ?m1)"
    using Cons.prems(3,4) unfolding u(2) by auto
  then show ?case using Cons.IH [OF u(1)] Cons.prems(2,3) u(2,3) by auto
qed

section \<open>The loading loop\<close>

text \<open>
  The state between two iterations: what is allocated is what was allocated before plus the
  frames of the recorded segments, and only pages of recorded segments are mapped anew.
\<close>

definition loaded :: "machine \<Rightarrow> elf_seg list \<Rightarrow> machine \<Rightarrow> bool" where
  "loaded m0 gs m \<longleftrightarrow> machine_ok m \<and> (\<forall>g \<in> set gs. seg_wf g) \<and> disjoint_frames gs \<and>
     \<Union> (seg_frames ` set gs) \<inter> allocated (mpm m0) = {} \<and>
     allocated (mpm m) = allocated (mpm m0) \<union> \<Union> (seg_frames ` set gs) \<and>
     (\<forall>w. page_of w \<notin> \<Union> (seg_page_set ` set gs) \<longrightarrow> paging_query w (mpg m) = paging_query w (mpg m0)) \<and>
     (\<forall>w. page_of w \<in> \<Union> (seg_page_set ` set gs) \<longrightarrow>
        (\<exists>p fl. paging_query w (mpg m) = Some (p, fl) \<and> (fl = 5 \<or> fl = 7)))"

lemma loaded_step:
  assumes l: "loaded m0 (img_seg img) m" and sg: "seg_ok sz ph" "p_memsz ph \<noteq> 0"
    and s: "load_seg buf ph img m = Some (Inr (), img', m')"
  shows "loaded m0 (img_seg img') m'"
proof -
  have ok: "machine_ok m" using l by (simp add: loaded_def)
  obtain g where g: "machine_ok m'" "img_seg img' = img_seg img @ [g]" "seg_wf g"
      "seg_frames g \<inter> allocated (mpm m) = {}" "allocated (mpm m') = allocated (mpm m) \<union> seg_frames g"
      "\<And>w. paging_query w (mpg m') = (if page_of w \<in> seg_page_set g
          then Some (seg_phys g + of_nat (page_of w - seg_lo ph) * 4096, if p_flags ph AND PF_W = 0 then 5 else 7)
          else paging_query w (mpg m))"
    using load_seg_spec [OF ok sg, of buf img] s by auto
  show ?thesis
    using l g(1-5) unfolding loaded_def g(2,6) by (auto simp: sorted_wrt_append)
qed

lemma load_segs_spec:
  assumes "loaded m0 (img_seg img) m" and "\<forall>ph \<in> set phs. loadable ph \<longrightarrow> seg_ok sz ph"
  shows "\<exists>r img' m'. load_segs buf phs img m = Some (r, img', m') \<and>
    (r = Inr () \<longrightarrow> loaded m0 (img_seg img') m')"
  using assms
proof (induction buf phs img m rule: load_segs.induct)
  case (1 buf img m)
  then show ?case by simp
next
  case (2 buf ph phs img m)
  show ?case
  proof (cases "loadable ph")
    case False
    then show ?thesis using "2.IH"(1,2) "2.prems" by (cases "p_type ph = PT_LOAD") (simp_all add: loadable_def)
  next
    case True
    then have t: "p_type ph = PT_LOAD" "p_memsz ph \<noteq> 0" "seg_ok sz ph" using "2.prems"(2) by (simp_all add: loadable_def)
    have ok: "machine_ok m" using "2.prems"(1) by (simp add: loaded_def)
    obtain r img1 m1 where s: "load_seg buf ph img m = Some (r, img1, m1)"
      using load_seg_spec [OF ok t(3,2), of buf img] by blast
    show ?thesis
    proof (cases r)
      case (Inl why)
      then show ?thesis using s t by simp
    next
      case (Inr u)
      then have l: "loaded m0 (img_seg img1) m1" using loaded_step [OF "2.prems"(1) t(3,2)] s by simp
      show ?thesis using "2.IH"(3) [OF _ _ s] l "2.prems"(2) t s Inr by simp
    qed
  qed
qed

lemma elf_load_spec:
  assumes ok: "machine_ok m"
  shows "\<exists>r img' m'. elf_load bufp sz img m = Some (r, img', m') \<and> (r = Inr () \<longrightarrow> loaded m (img_seg img') m')"
proof (cases "elf_validate bufp sz")
  case (Inl why)
  then show ?thesis by (simp add: elf_load_def Let_def)
next
  case (Inr u)
  then obtain buf where b: "bufp = Some buf" by (cases bufp) (simp_all add: elf_validate_def)
  let ?i = "img\<lparr>img_entry := 0, img_brk := 0, img_seg := []\<rparr>"
  have "loaded m (img_seg ?i) m" using ok by (simp add: loaded_def)
  moreover have "\<forall>ph \<in> set (phdrs buf). loadable ph \<longrightarrow> seg_ok sz ph"
    using Inr elf_validate_iff [of buf sz] unfolding b by simp
  ultimately obtain r img1 m1 where "load_segs buf (phdrs buf) ?i m = Some (r, img1, m1)"
      "r = Inr () \<longrightarrow> loaded m (img_seg img1) m1"
    using load_segs_spec by blast
  then show ?thesis using Inr b by (cases r) (auto simp: elf_load_def Let_def)
qed

section \<open>Failure and rollback\<close>

lemma load_seg_fail:
  assumes ok: "machine_ok m" and sg: "seg_ok sz ph" "p_memsz ph \<noteq> 0"
    and f: "load_seg buf ph img m = Some (Inl why, img', m')"
  shows "\<exists>m0. (img', m') = unwind img m0 \<and> machine_ok m0 \<and> allocated (mpm m0) = allocated (mpm m) \<and>
    (\<forall>w. page_of w \<notin> {seg_lo ph..<seg_hi ph} \<longrightarrow> paging_query w (mpg m0) = paging_query w (mpg m))"
proof -
  define va where "va = p_vaddr ph AND NOT (4096 - 1)"
  define pages where "pages = (align_up (p_vaddr ph + p_memsz ph) 4096 - va) div 4096"
  note ar = seg_arith [OF sg, folded va_def, folded pages_def]
  have live: "pmm_live (mpm m)" and inv: "paging_inv (mpg m)" using ok by (simp_all add: machine_ok_def)
  obtain phys pm1 where al: "pmm_alloc_pages pages (mpm m) = (phys, pm1)" by (cases "pmm_alloc_pages pages (mpm m)")
  let ?xs = "seg_pairs va phys (unat pages)"
  obtain ok1 pg1 where mp: "map_pages ?xs PAGING_USR_FLAGS (mpg m) = (ok1, pg1)"
    by (cases "map_pages ?xs PAGING_USR_FLAGS (mpg m)")
  note f' = f [unfolded load_seg_def Let_def va_def [symmetric] pages_def [symmetric] al prod.case mp]
  consider (full) "length (img_seg img) \<ge> ELF_MAX_SEG" | (nomem) "length (img_seg img) < ELF_MAX_SEG" "phys = 0"
    | (nomap) "length (img_seg img) < ELF_MAX_SEG" "phys \<noteq> 0" "\<not> ok1"
    | (good) "length (img_seg img) < ELF_MAX_SEG" "phys \<noteq> 0" "ok1" by linarith
  then show ?thesis
  proof cases
    case full
    then show ?thesis using f ok by (intro exI [of _ m]) (simp add: load_seg_def)
  next
    case nomem
    then have "pm1 = mpm m" using pf.alloc_none [OF live] al by simp
    then have "(img', m') = unwind img m" using f' nomem by simp
    then show ?thesis using ok by blast
  next
    case nomap
    obtain s'' where r: "pmm_free_pages phys pages pm1 = (True, s'')" "pmm_live s''" "allocated s'' = allocated (mpm m)"
      using pf.alloc_release_roundtrip [OF live al nomap(2)] by blast
    have vb: "unat va + unat pages * 4096 < 2 ^ 32" "4096 dvd unat va" "page_of va = seg_lo ph"
      "seg_lo ph + unat pages = seg_hi ph"
      using ar(4,5) unfolding ar(1,2) by (simp_all add: diff_mult_distrib)
    have mpf: "map_pages ?xs PAGING_USR_FLAGS (mpg m) = (False, pg1)" using mp nomap(3) by simp
    have "paging_inv pg1 \<and> (\<forall>w. page_of w \<notin> {seg_lo ph..<seg_hi ph} \<longrightarrow> paging_query w pg1 = paging_query w (mpg m))"
      using map_pages_failed [OF inv mpf]
      unfolding seg_pairs_page_set(1) [OF vb(1,2)] vb(3,4) .
    moreover have "(img', m') = unwind img (m\<lparr>mpg := pg1, mpm := s''\<rparr>)" using f' nomap r by simp
    ultimately show ?thesis using r by (intro exI [of _ "m\<lparr>mpg := pg1, mpm := s''\<rparr>"]) (simp add: machine_ok_def)
  next
    case good
    then show ?thesis using f' by (simp split: option.splits)
  qed
qed

text \<open>
  A segment owns its pages when the page tables still lead to its recorded frames. Then the
  rollback, which asks the page tables, does the same as unloading, which uses the record.
\<close>

definition owns :: "machine \<Rightarrow> elf_seg \<Rightarrow> bool" where
  "owns m g \<longleftrightarrow> (\<forall>w. page_of w \<in> seg_page_set g \<longrightarrow>
     (\<exists>fl. paging_query w (mpg m) = Some (seg_phys g + of_nat (page_of w - page_of (seg_va g)) * 4096, fl)))"

lemma unwind_pages_unload:
  assumes "paging_inv (mpg m)" and "unat va + n * 4096 < 2 ^ 32"
    and "\<forall>k < n. \<exists>fl. paging_query (va + of_nat k * 4096) (mpg m) = Some (phys + of_nat k * 4096, fl)"
  shows "unwind_pages va n m = unload_pages va phys n m"
  using assms
proof (induction n arbitrary: va phys m)
  case 0
  then show ?case by simp
next
  case (Suc n)
  obtain fl where q: "paging_query va (mpg m) = Some (phys, fl)" using Suc.prems(3) [rule_format, of 0] by auto
  define m1 where "m1 = m\<lparr>mpm := snd (pmm_free_page phys (mpm m)), mpg := paging_unmap va (mpg m)\<rparr>"
  have un: "paging_inv (mpg m1)" "\<And>w. paging_query w (mpg m1) = (if page_of w = page_of va then None else paging_query w (mpg m))"
    using paging_unmap_spec [OF Suc.prems(1)] by (simp_all add: m1_def)
  have bd: "unat (va + 4096) + n * 4096 < 2 ^ 32" using Suc.prems(2) by (simp add: unat_word_ariths)
  have "\<exists>fl. paging_query (va + 4096 + of_nat k * 4096) (mpg m1) = Some (phys + 4096 + of_nat k * 4096, fl)"
    if k: "k < n" for k
  proof -
    have s: "x + 4096 + of_nat k * 4096 = x + of_nat (Suc k) * (4096::u32)" for x by (simp add: algebra_simps)
    have "page_of (va + of_nat (Suc k) * 4096) = page_of va + Suc k"
      using unat_page_step [OF Suc.prems(2), of "Suc k"] k by (simp del: of_nat_Suc)
    then have "paging_query (va + of_nat (Suc k) * 4096) (mpg m1) = paging_query (va + of_nat (Suc k) * 4096) (mpg m)"
      by (simp add: un del: of_nat_Suc)
    then show ?thesis unfolding s using Suc.prems(3) [rule_format, of "Suc k"] k by (simp del: of_nat_Suc)
  qed
  then have "unwind_pages (va + 4096) n m1 = unload_pages (va + 4096) (phys + 4096) n m1"
    using Suc.IH [OF un(1) bd] by blast
  then show ?case using q by (simp add: m1_def)
qed

lemma unwind_seg:
  assumes "paging_inv (mpg m)" and "seg_wf g" and "owns m g"
  shows "unwind_pages (seg_va g) (unat (seg_pages g)) m = unload_pages (seg_va g) (seg_phys g) (unat (seg_pages g)) m"
proof (rule unwind_pages_unload [OF assms(1)])
  show bd: "unat (seg_va g) + unat (seg_pages g) * 4096 < 2 ^ 32" using assms(2) by (simp add: seg_wf_def)
  show "\<forall>k < unat (seg_pages g). \<exists>fl. paging_query (seg_va g + of_nat k * 4096) (mpg m) = Some (seg_phys g + of_nat k * 4096, fl)"
  proof (intro allI impI)
    fix k assume k: "k < unat (seg_pages g)"
    have p: "page_of (seg_va g + of_nat k * 4096) = page_of (seg_va g) + k" using unat_page_step [OF bd] k by simp
    then have "page_of (seg_va g + of_nat k * 4096) \<in> seg_page_set g" using k by (simp add: seg_page_set_def)
    then show "\<exists>fl. paging_query (seg_va g + of_nat k * 4096) (mpg m) = Some (seg_phys g + of_nat k * 4096, fl)"
      using assms(3) p unfolding owns_def by fastforce
  qed
qed

abbreviation disjoint_pages :: "elf_seg list \<Rightarrow> bool" where
  "disjoint_pages \<equiv> sorted_wrt (\<lambda>g h. seg_page_set g \<inter> seg_page_set h = {})"

lemma unwind_fold:
  assumes "machine_ok m" and "\<forall>g \<in> set gs. seg_wf g \<and> owns m g" and "disjoint_frames gs" and "disjoint_pages gs"
    and "\<Union> (seg_frames ` set gs) \<subseteq> allocated (mpm m)"
  shows "fold (\<lambda>sg. unwind_pages (seg_va sg) (unat (seg_pages sg))) gs m =
    fold (\<lambda>sg. unload_pages (seg_va sg) (seg_phys sg) (unat (seg_pages sg))) gs m"
  using assms
proof (induction gs arbitrary: m)
  case Nil
  then show ?case by simp
next
  case (Cons g gs)
  have g: "seg_wf g" "owns m g" "paging_inv (mpg m)" "seg_frames g \<subseteq> allocated (mpm m)"
    using Cons.prems by (auto simp: machine_ok_def)
  let ?m1 = "unload_pages (seg_va g) (seg_phys g) (unat (seg_pages g)) m"
  note u = unload_seg [OF Cons.prems(1) g(1,4)]
  have "owns ?m1 h" if "h \<in> set gs" for h
  proof -
    have "seg_page_set g \<inter> seg_page_set h = {}" "owns m h" using that Cons.prems by auto
    then show ?thesis unfolding owns_def u(3) by auto
  qed
  moreover have "\<Union> (seg_frames ` set gs) \<subseteq> allocated (mpm ?m1)"
    using Cons.prems(3,5) unfolding u(2) by auto
  ultimately show ?case using Cons.IH [OF u(1)] Cons.prems unwind_seg [OF g(3,1,2)] by simp
qed

text \<open>Rollback from a state whose segments own their pages.\<close>

lemma unwind_loaded:
  assumes ld: "loaded m0 gs m" and ow: "\<forall>g \<in> set gs. owns m g" and dj: "disjoint_pages gs"
    and n: "machine_ok n" "allocated (mpm n) = allocated (mpm m)"
      "\<forall>w. page_of w \<in> \<Union> (seg_page_set ` set gs) \<longrightarrow> paging_query w (mpg n) = paging_query w (mpg m)"
    and u: "(img', m') = unwind img n" "img_seg img = gs"
  shows "machine_ok m' \<and> allocated (mpm m') = allocated (mpm m0)"
proof -
  have own: "\<forall>g \<in> set gs. seg_wf g \<and> owns n g" using ld ow n(3) unfolding owns_def loaded_def by auto
  have al: "allocated (mpm n) = allocated (mpm m0) \<union> \<Union> (seg_frames ` set gs)"
    and dis: "\<Union> (seg_frames ` set gs) \<inter> allocated (mpm m0) = {}" and df: "disjoint_frames gs"
    using ld n(2) unfolding loaded_def by simp_all
  have sub: "\<Union> (seg_frames ` set gs) \<subseteq> allocated (mpm n)" using al by blast
  have "m' = fold (\<lambda>sg. unload_pages (seg_va sg) (seg_phys sg) (unat (seg_pages sg))) gs n"
    using u unwind_fold [OF n(1) own df dj sub] by (simp add: unwind_def)
  then have m': "machine_ok m'" "allocated (mpm m') = allocated (mpm n) - \<Union> (seg_frames ` set gs)"
    using elf_unload_spec [OF n(1) _ df sub] own by blast+
  show ?thesis using m'(1) unfolding m'(2) al using dis by blast
qed

lemma load_segs_fail:
  assumes "loaded m0 (img_seg img) m" and "\<forall>g \<in> set (img_seg img). owns m g" and "disjoint_pages (img_seg img)"
    and "\<forall>ph \<in> set phs. loadable ph \<longrightarrow> seg_ok sz ph"
    and "sorted_wrt (\<lambda>a b. {seg_lo a..<seg_hi a} \<inter> {seg_lo b..<seg_hi b} = {}) (filter loadable phs)"
    and "\<forall>ph \<in> set phs. loadable ph \<longrightarrow> {seg_lo ph..<seg_hi ph} \<inter> \<Union> (seg_page_set ` set (img_seg img)) = {}"
    and "load_segs buf phs img m = Some (Inl why, img', m')"
  shows "machine_ok m' \<and> allocated (mpm m') = allocated (mpm m0)"
  using assms
proof (induction buf phs img m rule: load_segs.induct)
  case (1 buf img m)
  then show ?case by simp
next
  case (2 buf ph phs img m)
  show ?case
  proof (cases "loadable ph")
    case False
    then show ?thesis using "2.IH"(1,2) "2.prems" by (cases "p_type ph = PT_LOAD") (simp_all add: loadable_def)
  next
    case True
    then have t: "p_type ph = PT_LOAD" "p_memsz ph \<noteq> 0" "seg_ok sz ph" using "2.prems"(4) by (simp_all add: loadable_def)
    have ok: "machine_ok m" using "2.prems"(1) by (simp add: loaded_def)
    have dph: "{seg_lo ph..<seg_hi ph} \<inter> \<Union> (seg_page_set ` set (img_seg img)) = {}" using "2.prems"(6) True by simp
    obtain r img1 m1 where s: "load_seg buf ph img m = Some (r, img1, m1)"
      using load_seg_spec [OF ok t(3,2), of buf img] by blast
    show ?thesis
    proof (cases r)
      case (Inl w)
      then have e: "img' = img1" "m' = m1" using s t "2.prems"(7) by simp_all
      obtain n where n: "(img', m') = unwind img n" "machine_ok n" "allocated (mpm n) = allocated (mpm m)"
          "\<forall>w. page_of w \<notin> {seg_lo ph..<seg_hi ph} \<longrightarrow> paging_query w (mpg n) = paging_query w (mpg m)"
        using load_seg_fail [OF ok t(3,2), of buf img w img1 m1] s Inl e by blast
      show ?thesis
        by (rule unwind_loaded [OF "2.prems"(1-3) n(2,3) _ n(1) refl]) (use n(4) dph in blast)
    next
      case (Inr u)
      then have s': "load_seg buf ph img m = Some (Inr (), img1, m1)" using s by simp
      have l: "loaded m0 (img_seg img1) m1" by (rule loaded_step [OF "2.prems"(1) t(3,2) s'])
      obtain g where g: "img_seg img1 = img_seg img @ [g]" "seg_page_set g = {seg_lo ph..<seg_hi ph}"
          "page_of (seg_va g) = seg_lo ph"
          "\<And>w. paging_query w (mpg m1) = (if page_of w \<in> seg_page_set g
            then Some (seg_phys g + of_nat (page_of w - seg_lo ph) * 4096, if p_flags ph AND PF_W = 0 then 5 else 7)
            else paging_query w (mpg m))"
        using load_seg_spec [OF ok t(3,2), of buf img] s' seg_arith(4) [OF t(3,2)]
        by (auto simp: seg_page_set_def)
      have "\<forall>h \<in> set (img_seg img1). owns m1 h"
        using "2.prems"(2) dph g(2) unfolding g(1) owns_def g(4) by (auto simp: g(3))
      moreover have "disjoint_pages (img_seg img1)"
        using "2.prems"(3) dph g(2) unfolding g(1) by (auto simp: sorted_wrt_append)
      moreover have "\<forall>q \<in> set phs. loadable q \<longrightarrow> {seg_lo q..<seg_hi q} \<inter> \<Union> (seg_page_set ` set (img_seg img1)) = {}"
      proof (intro ballI impI)
        fix q assume q: "q \<in> set phs" "loadable q"
        have d1: "{seg_lo q..<seg_hi q} \<inter> {seg_lo ph..<seg_hi ph} = {}"
          using "2.prems"(5) q True unfolding Int_commute [of "{seg_lo q..<seg_hi q}"] by (simp del: ivl_disj_int)
        have d2: "{seg_lo q..<seg_hi q} \<inter> \<Union> (seg_page_set ` set (img_seg img)) = {}" using "2.prems"(6) q by simp
        have "\<Union> (seg_page_set ` set (img_seg img1)) = \<Union> (seg_page_set ` set (img_seg img)) \<union> {seg_lo ph..<seg_hi ph}"
          unfolding g(1) using g(2) by auto
        then show "{seg_lo q..<seg_hi q} \<inter> \<Union> (seg_page_set ` set (img_seg img1)) = {}"
          by (simp only: Int_Un_distrib d1 d2 Un_empty_left)
      qed
      ultimately show ?thesis
        using "2.IH"(3) [OF _ _ s refl Inr refl] "2.prems"(4,5,7) l t s' True by simp
    qed
  qed
qed

text \<open>C7: loading never faults, and unloading undoes it. On a machine whose allocator and page
  tables are consistent \<open>elf_load\<close> returns (the kernel's own copies never hit an unmapped
  page); if it succeeds, only pages of the user image area changed their translation, each
  loaded page is a user page, and \<open>elf_unload\<close> gives back exactly the frames that
  \<open>elf_load\<close> took and leaves the loaded pages unmapped.\<close>

theorem elf_load_unload:
  assumes "machine_ok m"
  shows "\<exists>r img' m'. elf_load bufp sz img m = Some (r, img', m') \<and> (r = Inr () \<longrightarrow>
     (let P = \<Union> (seg_page_set ` set (img_seg img')); m2 = elf_unload img' m' in
       P \<subseteq> {0x400..<0x800} \<and>
       (\<forall>w. page_of w \<notin> P \<longrightarrow> paging_query w (mpg m') = paging_query w (mpg m)) \<and>
       (\<forall>w. page_of w \<in> P \<longrightarrow> (\<exists>p fl. paging_query w (mpg m') = Some (p, fl) \<and> fl AND PTE_US \<noteq> 0)) \<and>
       machine_ok m2 \<and> allocated (mpm m2) = allocated (mpm m) \<and>
       (\<forall>w. paging_query w (mpg m2) = (if page_of w \<in> P then None else paging_query w (mpg m)))))"
proof -
  obtain r img' m' where l: "elf_load bufp sz img m = Some (r, img', m')"
      "r = Inr () \<longrightarrow> loaded m (img_seg img') m'"
    using elf_load_spec [OF assms] by blast
  have "let P = \<Union> (seg_page_set ` set (img_seg img')); m2 = elf_unload img' m' in
       P \<subseteq> {0x400..<0x800} \<and>
       (\<forall>w. page_of w \<notin> P \<longrightarrow> paging_query w (mpg m') = paging_query w (mpg m)) \<and>
       (\<forall>w. page_of w \<in> P \<longrightarrow> (\<exists>p fl. paging_query w (mpg m') = Some (p, fl) \<and> fl AND PTE_US \<noteq> 0)) \<and>
       machine_ok m2 \<and> allocated (mpm m2) = allocated (mpm m) \<and>
       (\<forall>w. paging_query w (mpg m2) = (if page_of w \<in> P then None else paging_query w (mpg m)))"
    if "r = Inr ()"
  proof -
    let ?gs = "img_seg img'"
    have ld: "loaded m ?gs m'" using l(2) that by simp
    have L: "machine_ok m'" "\<forall>g \<in> set ?gs. seg_wf g" "disjoint_frames ?gs"
      "\<Union> (seg_frames ` set ?gs) \<inter> allocated (mpm m) = {}"
      "allocated (mpm m') = allocated (mpm m) \<union> \<Union> (seg_frames ` set ?gs)"
      "\<forall>w. page_of w \<notin> \<Union> (seg_page_set ` set ?gs) \<longrightarrow> paging_query w (mpg m') = paging_query w (mpg m)"
      "\<forall>w. page_of w \<in> \<Union> (seg_page_set ` set ?gs) \<longrightarrow>
        (\<exists>p fl. paging_query w (mpg m') = Some (p, fl) \<and> (fl = 5 \<or> fl = 7))"
      by (insert ld [unfolded loaded_def], elim conjE, assumption)+
    have "\<Union> (seg_page_set ` set ?gs) \<subseteq> {0x400..<0x800}" using L(2) seg_wf_pages by blast
    moreover have "\<forall>w. page_of w \<in> \<Union> (seg_page_set ` set ?gs) \<longrightarrow>
        (\<exists>p fl. paging_query w (mpg m') = Some (p, fl) \<and> fl AND PTE_US \<noteq> 0)"
    proof (intro allI impI)
      fix w assume "page_of w \<in> \<Union> (seg_page_set ` set ?gs)"
      from L(7) [rule_format, OF this] show "\<exists>p fl. paging_query w (mpg m') = Some (p, fl) \<and> fl AND PTE_US \<noteq> 0" by auto
    qed
    moreover have "\<Union> (seg_frames ` set ?gs) \<subseteq> allocated (mpm m')" using L(5) by blast
    note u = elf_unload_spec [OF L(1-3) this, folded elf_unload_def]
    have "machine_ok (elf_unload img' m')" using u by (rule conjunct1)
    moreover have "allocated (mpm (elf_unload img' m')) = allocated (mpm m)"
      unfolding conjunct1 [OF conjunct2 [OF u]] L(5) using L(4) by blast
    moreover have "\<forall>w. paging_query w (mpg (elf_unload img' m')) =
        (if page_of w \<in> \<Union> (seg_page_set ` set ?gs) then None else paging_query w (mpg m))"
    proof
      fix w
      have "paging_query w (mpg (elf_unload img' m')) =
          (if page_of w \<in> \<Union> (seg_page_set ` set ?gs) then None else paging_query w (mpg m'))"
        by (rule conjunct2 [OF conjunct2 [OF u], rule_format])
      then show "paging_query w (mpg (elf_unload img' m')) =
          (if page_of w \<in> \<Union> (seg_page_set ` set ?gs) then None else paging_query w (mpg m))"
        using L(6) [rule_format, of w] by presburger
    qed
    ultimately show ?thesis unfolding Let_def using L(6) by (intro conjI) assumption+
  qed
  then show ?thesis using l(1) by blast
qed


lemma load_seg_succeeds:
  assumes "machine_ok m" and "seg_ok sz ph" and "p_memsz ph \<noteq> 0" and "length (img_seg img) < ELF_MAX_SEG"
    and "pmm_alloc_pages (of_nat (seg_hi ph - seg_lo ph)) (mpm m) = (phys, pm1)" and "phys \<noteq> 0"
    and "fst (map_pages (seg_pairs (p_vaddr ph AND NOT (4096 - 1)) phys (seg_hi ph - seg_lo ph)) PAGING_USR_FLAGS (mpg m))"
  shows "\<exists>img' m'. load_seg buf ph img m = Some (Inr (), img', m')"
proof -
  note ar = seg_arith [OF assms(2,3)]
  obtain r img' m' where s: "load_seg buf ph img m = Some (r, img', m')"
    using load_seg_spec [OF assms(1-3)] by blast
  obtain pg1 where mp: "map_pages (seg_pairs (p_vaddr ph AND NOT (4096 - 1)) phys (seg_hi ph - seg_lo ph)) PAGING_USR_FLAGS (mpg m) = (True, pg1)"
    using assms(7) by (cases "map_pages (seg_pairs (p_vaddr ph AND NOT (4096 - 1)) phys (seg_hi ph - seg_lo ph)) PAGING_USR_FLAGS (mpg m)") simp
  have n: "(align_up (p_vaddr ph + p_memsz ph) 4096 - (p_vaddr ph AND NOT (4096 - 1))) div 4096 = of_nat (seg_hi ph - seg_lo ph)"
    using ar(2) by (simp flip: ar(2))
  have u: "unat (of_nat (seg_hi ph - seg_lo ph) :: u32) = seg_hi ph - seg_lo ph" using ar(2) n by simp
  have "r \<noteq> Inl why" for why
    using s unfolding load_seg_def Let_def n assms(5) prod.case u mp if_not_P [OF assms(6)]
    using assms(4) by (auto split: option.splits)
  then show ?thesis using s by (cases r) auto
qed

text \<open>C8: a failed load leaks nothing. When the pages of the loadable segments do not overlap
  and \<open>elf_load\<close> fails (at validation, for want of frames or of a page table), every frame
  it took has been given back and the allocator and the page tables are consistent.\<close>

theorem elf_load_failure_releases:
  assumes "machine_ok m" and "elf_load (Some buf) sz img m = Some (Inl why, img', m')"
    and "sorted_wrt (\<lambda>a b. {seg_lo a..<seg_hi a} \<inter> {seg_lo b..<seg_hi b} = {}) (filter loadable (phdrs buf))"
  shows "machine_ok m' \<and> allocated (mpm m') = allocated (mpm m)"
proof (cases "elf_validate (Some buf) sz")
  case (Inl w)
  then show ?thesis using assms(1,2) by (simp add: elf_load_def Let_def)
next
  case (Inr u)
  let ?i = "img\<lparr>img_entry := 0, img_brk := 0, img_seg := []\<rparr>"
  have l: "loaded m (img_seg ?i) m" using assms(1) by (simp add: loaded_def)
  have ok: "\<forall>ph \<in> set (phdrs buf). loadable ph \<longrightarrow> seg_ok sz ph" using Inr elf_validate_iff [of buf sz] by simp
  have f: "load_segs buf (phdrs buf) ?i m = Some (Inl why, img', m')"
    using assms(2) Inr by (simp add: elf_load_def Let_def split: option.splits sum.splits prod.splits)
  show ?thesis by (rule load_segs_fail [OF l _ _ ok assms(3) _ f]) simp_all
qed

section \<open>Concrete loads\<close>

definition empty_image :: elf_image where
  "empty_image = \<lparr>img_entry = 0, img_brk = 0, img_seg = []\<rparr>"

definition boot_machine :: machine where
  "boot_machine = \<lparr>mpg = blank_paging, mpm = fresh_pmm, ram = \<lambda>_. 0\<rparr>"

definition full_pmm :: pmm where
  "full_pmm = \<lparr>g_bitmap = replicate BITMAP_WORDS (-1), g_used = of_nat PMM_POOL_PAGES, pmm_ready = True\<rparr>"

lemma full_pmm_facts: "allocated full_pmm = {..<PMM_POOL_PAGES}" "pmm_live full_pmm"
proof -
  have "bit_get full_pmm i" if "i < PMM_POOL_PAGES" for i
    using that by (simp add: bit_get_bit full_pmm_def)
  then show a: "allocated full_pmm = {..<PMM_POOL_PAGES}" by (auto simp: allocated_def)
  show "pmm_live full_pmm" unfolding pmm_live_def pmm_inv_def a by (simp add: full_pmm_def)
qed

abbreviation example_phdr :: elf32_phdr where
  "example_phdr \<equiv> \<lparr>p_type = 1, p_offset = 84, p_vaddr = 0x400000, p_filesz = 4, p_memsz = 4, p_flags = 5\<rparr>"

lemma example_phdr_facts:
  "seg_ok 100 example_phdr" "seg_lo example_phdr = 0x400" "seg_hi example_phdr = 0x401" "loadable example_phdr"
  "elf_validate (Some elf_example) 100 = Inr ()"
  by (simp_all add: seg_ok_def seg_lo_def seg_hi_def loadable_def elf_validate_iff elf_example_facts)

lemma example_loads:
  "\<exists>img m. elf_load (Some elf_example) 100 empty_image boot_machine = Some (Inr (), img, m)"
proof -
  have ok: "machine_ok boot_machine" by (simp add: machine_ok_def boot_machine_def)
  obtain phys pm1 where al: "pmm_alloc_pages 1 fresh_pmm = (phys, pm1)" by (cases "pmm_alloc_pages 1 fresh_pmm")
  have "free_run fresh_pmm (unat (1::u32)) 0" by (simp add: free_run_def)
  then have nz: "phys \<noteq> 0" and pr: "pool_range phys 1"
    using pmm_alloc_pages_spec [OF fresh_pmm_facts(1) al] by (auto simp: Let_def split: if_splits)
  then have "phys AND 0xFFF = 0" by (simp add: page_offset_0_iff pool_range_def)
  then have "fst (paging_map 0x400000 phys PAGING_USR_FLAGS blank_paging)" by (simp add: paging_map_status blank_paging_def pd_active_def)
  then have mp: "fst (map_pages (seg_pairs (p_vaddr example_phdr AND NOT (4096 - 1)) phys 1) PAGING_USR_FLAGS blank_paging)"
    by (cases "paging_map 0x400000 phys PAGING_USR_FLAGS blank_paging") (simp add: seg_pairs_def)
  obtain img m where "load_seg elf_example example_phdr empty_image boot_machine = Some (Inr (), img, m)"
    using load_seg_succeeds [OF ok example_phdr_facts(1), of empty_image phys pm1 elf_example] al nz mp
    by (auto simp: example_phdr_facts boot_machine_def empty_image_def)
  then show ?thesis
    by (simp add: elf_load_def Let_def example_phdr_facts elf_example_facts(2) empty_image_def)
qed

lemma boot_machine_ok: "machine_ok boot_machine" "allocated (mpm boot_machine) = {}"
  by (simp_all add: machine_ok_def boot_machine_def)

theorem elf_load_unload_witness:
  "\<exists>img m. elf_load (Some elf_example) 100 empty_image boot_machine = Some (Inr (), img, m) \<and>
    allocated (mpm (elf_unload img m)) = {}"
proof -
  obtain img m where l: "elf_load (Some elf_example) 100 empty_image boot_machine = Some (Inr (), img, m)"
    using example_loads by blast
  have "allocated (mpm (elf_unload img m)) = allocated (mpm boot_machine)"
    using elf_load_unload [OF boot_machine_ok(1), of "Some elf_example" 100 empty_image] unfolding l Let_def by auto
  then show ?thesis using l boot_machine_ok(2) by blast
qed

theorem elf_load_failure_releases_witness:
  "\<exists>img m. elf_load (Some elf_example) 100 empty_image (boot_machine\<lparr>mpm := full_pmm\<rparr>) =
      Some (Inl ''out of physical pages'', img, m) \<and> allocated (mpm m) = {..<PMM_POOL_PAGES}"
proof -
  let ?m = "boot_machine\<lparr>mpm := full_pmm\<rparr>"
  have ok: "machine_ok ?m" using full_pmm_facts by (simp add: machine_ok_def boot_machine_def)
  have "\<not> free_run full_pmm (unat (1::u32)) f" for f by (auto simp: free_run_def full_pmm_facts)
  then have al: "pmm_alloc_pages 1 full_pmm = (0, full_pmm)"
    using pmm_alloc_pages_spec [of full_pmm 1] full_pmm_facts(2) by (cases "pmm_alloc_pages 1 full_pmm") (auto simp: pmm_live_def)
  then have "\<exists>img m. load_seg elf_example example_phdr empty_image ?m = Some (Inl ''out of physical pages'', img, m)"
    by (simp add: load_seg_def align_up_def boot_machine_def empty_image_def unwind_def)
  then obtain img m where l: "elf_load (Some elf_example) 100 empty_image ?m = Some (Inl ''out of physical pages'', img, m)"
    by (auto simp: elf_load_def Let_def example_phdr_facts elf_example_facts(2) empty_image_def)
  have "allocated (mpm m) = allocated (mpm ?m)"
    using elf_load_failure_releases [OF ok l] by (simp add: elf_example_facts(2))
  then show ?thesis using l full_pmm_facts(1) by simp
qed

end
