(* ===== verification/Kmalloc.thy ===== *)
theory Kmalloc
  imports EzPrelude
begin

text \<open>
  The kernel heap, \<open>src/kernel/kmalloc.c\<close>: a static pool of 384 KB tiled by blocks, with
  an address-ordered first-fit free list threaded through the free blocks.

  The heap is an explicit store of 32-bit cells (\<open>km_mem\<close>, indexed by the byte address of the
  cell; every access of the code is to a word-aligned cell of the pool). Addresses and cell
  contents are natural numbers: the pool lies below 2^32, so address arithmetic inside it does
  not wrap, and the one computation that could wrap (the rounding of the requested size) has
  the wrap-around written out. The second word of a block is the link of a free block and the
  requested size of an allocated one, as in the code. A null pointer is 0.
\<close>

section \<open>State\<close>

abbreviation KM_POOL_SIZE :: nat where "KM_POOL_SIZE \<equiv> 393216"
abbreviation KM_ALIGN :: nat where "KM_ALIGN \<equiv> 16"
abbreviation KM_HDR :: nat where "KM_HDR \<equiv> 16"
abbreviation KM_TAIL :: nat where "KM_TAIL \<equiv> 4"
abbreviation KM_MIN_SPLIT :: nat where "KM_MIN_SPLIT \<equiv> 32"
abbreviation KM_MAGIC :: nat where "KM_MAGIC \<equiv> 0x4B4D4150"
abbreviation KM_TAIL_MAGIC :: nat where "KM_TAIL_MAGIC \<equiv> 0x5A5A5A5A"

record kheap =
  km_pool :: nat
  km_mem :: "nat \<Rightarrow> nat"
  km_head :: nat
  km_used_bytes :: nat

definition st :: "nat \<Rightarrow> nat \<Rightarrow> kheap \<Rightarrow> kheap" where
  "st a v s = s\<lparr>km_mem := (km_mem s)(a := v)\<rparr>"

definition blk_size :: "kheap \<Rightarrow> nat \<Rightarrow> nat" where
  "blk_size s b = km_mem s b div 2 * 2"

definition blk_is_free :: "kheap \<Rightarrow> nat \<Rightarrow> bool" where
  "blk_is_free s b = even (km_mem s b)"

definition blk_next :: "kheap \<Rightarrow> nat \<Rightarrow> nat" where
  "blk_next s b = km_mem s (b + 4)"

text \<open>\<open>(v + a - 1) & ~(a - 1)\<close> on 32 bits, for a power of two \<open>a\<close>.\<close>

definition round_up :: "nat \<Rightarrow> nat \<Rightarrow> nat" where
  "round_up v a = ((v + a - 1) mod 2 ^ 32) div a * a"

definition km_magic_of :: "nat \<Rightarrow> nat" where "km_magic_of b = b + 8"

definition km_req_of :: "nat \<Rightarrow> nat" where "km_req_of b = b + 4"

definition km_tail_of :: "nat \<Rightarrow> nat \<Rightarrow> nat" where "km_tail_of user req = user + round_up req 4"

definition km_arm :: "nat \<Rightarrow> nat \<Rightarrow> nat \<Rightarrow> kheap \<Rightarrow> kheap" where
  "km_arm b req tot s =
     st b (tot div 2 * 2 + 1) (st (km_tail_of (b + KM_HDR) req) KM_TAIL_MAGIC
       (st (km_magic_of b) KM_MAGIC (st (km_req_of b) req s)))"

definition kmalloc_init :: "kheap \<Rightarrow> kheap" where
  "kmalloc_init s = (st (km_pool s + 4) 0 (st (km_pool s) KM_POOL_SIZE s))
     \<lparr>km_head := km_pool s, km_used_bytes := 0\<rparr>"

text \<open>\<open>if (prev) prev->next = v; else km_head = v;\<close>\<close>

definition set_link :: "nat \<Rightarrow> nat \<Rightarrow> kheap \<Rightarrow> kheap" where
  "set_link prev v s = (if prev \<noteq> 0 then st (prev + 4) v s else s\<lparr>km_head := v\<rparr>)"

section \<open>Allocation\<close>

text \<open>
  The walk of the free list; on a damaged list it might not end, so it is a partial function.
  The result is \<open>(prev, b)\<close>, with \<open>b = 0\<close> when the list is exhausted.
\<close>

partial_function (option) km_find :: "kheap \<Rightarrow> nat \<Rightarrow> nat \<Rightarrow> nat \<Rightarrow> (nat \<times> nat) option" where
  "km_find s need prev b =
     (if b = 0 then Some (prev, 0)
      else if \<not> blk_is_free s b then km_find s need b (blk_next s b)
      else if blk_size s b < need then km_find s need b (blk_next s b)
      else Some (prev, b))"

text \<open>The body of the loop for the block that fits.\<close>

definition km_take :: "nat \<Rightarrow> nat \<Rightarrow> nat \<Rightarrow> nat \<Rightarrow> kheap \<Rightarrow> kheap" where
  "km_take sz need prev b s =
     (let bs = blk_size s b in
      if bs - need \<ge> KM_MIN_SPLIT then
        let rest = b + need;
            s1 = st rest (bs - need) s;
            s2 = st (rest + 4) (blk_next s1 b) s1;
            s3 = km_arm b sz need s2;
            s4 = set_link prev rest s3
        in s4\<lparr>km_used_bytes := km_used_bytes s4 + need\<rparr>
      else
        let nx = blk_next s b;
            s1 = km_arm b sz bs s;
            s2 = set_link prev nx s1
        in s2\<lparr>km_used_bytes := km_used_bytes s2 + bs\<rparr>)"

definition km_need :: "nat \<Rightarrow> nat" where
  "km_need sz = round_up ((sz + KM_HDR + KM_TAIL) mod 2 ^ 32) KM_ALIGN"

text \<open>The result is the pointer (0 for NULL) and the heap.\<close>

definition kmalloc :: "nat \<Rightarrow> kheap \<Rightarrow> (nat \<times> kheap) option" where
  "kmalloc sz s =
     (if sz = 0 then Some (0, s)
      else if sz > KM_POOL_SIZE then Some (0, s)
      else case km_find s (km_need sz) 0 (km_head s) of
        None \<Rightarrow> None
      | Some (prev, b) \<Rightarrow>
          if b = 0 then Some (0, s)
          else Some (b + KM_HDR, km_take sz (km_need sz) prev b s))"

section \<open>Release\<close>

partial_function (option) km_insert_pos :: "kheap \<Rightarrow> nat \<Rightarrow> nat \<Rightarrow> nat \<Rightarrow> (nat \<times> nat) option" where
  "km_insert_pos s b prev cur =
     (if cur \<noteq> 0 \<and> cur < b then km_insert_pos s b cur (blk_next s cur) else Some (prev, cur))"

definition km_insert :: "nat \<Rightarrow> nat \<Rightarrow> nat \<Rightarrow> nat \<Rightarrow> kheap \<Rightarrow> kheap" where
  "km_insert b bs prev cur s = set_link prev b (st (b + 4) cur (st b bs s))"

definition merge_prev :: "nat \<Rightarrow> nat \<Rightarrow> nat \<Rightarrow> kheap \<Rightarrow> nat \<times> kheap" where
  "merge_prev b bs prev s =
     (if prev \<noteq> 0 \<and> prev + blk_size s prev = b then
        let s1 = st prev (blk_size s prev + bs) s in (prev, st (prev + 4) (blk_next s1 b) s1)
      else (b, s))"

definition merge_next :: "nat \<Rightarrow> kheap \<Rightarrow> kheap" where
  "merge_next b s =
     (if blk_next s b \<noteq> 0 \<and> b + blk_size s b = blk_next s b then
        let s1 = st b (blk_size s b + blk_size s (blk_next s b)) s
        in st (b + 4) (blk_next s1 (blk_next s1 b)) s1
      else s)"

text \<open>The checks of \<open>kfree\<close>, in their order; \<open>Some why\<close> is the panic context.\<close>

definition kfree_check :: "nat \<Rightarrow> kheap \<Rightarrow> string option" where
  "kfree_check b s =
     (if b < km_pool s \<or> b \<ge> km_pool s + KM_POOL_SIZE then Some ''kfree: pointer outside heap''
      else if blk_is_free s b then Some ''kfree: double free''
      else if km_mem s (km_magic_of b) \<noteq> KM_MAGIC then Some ''kfree: heap corruption (header smashed)''
      else let bs = blk_size s b in
      if bs < KM_HDR \<or> bs > KM_POOL_SIZE \<or> b + bs > km_pool s + KM_POOL_SIZE
      then Some ''kfree: corrupt block size''
      else let req = km_mem s (km_req_of b) in
      if req = 0 \<or> req > KM_POOL_SIZE then Some ''kfree: corrupt request size''
      else let tail = km_tail_of (b + KM_HDR) req in
      if tail + KM_TAIL > b + bs then Some ''kfree: canary outside block''
      else if km_mem s tail \<noteq> KM_TAIL_MAGIC then Some ''kfree: heap overflow (tail canary smashed)''
      else None)"

text \<open>
  \<open>Inl\<close> is a panic; the subtraction that finds the header is taken for pointers at or above
  \<open>KM_HDR\<close> (below that the 32-bit difference wraps to an address far above the pool and the
  first check rejects it, as it does here for the address 0).
\<close>

definition kfree :: "nat \<Rightarrow> kheap \<Rightarrow> (string + kheap) option" where
  "kfree ptr s =
     (if ptr = 0 then Some (Inr s)
      else let b = ptr - KM_HDR in
      case kfree_check b s of
        Some why \<Rightarrow> Some (Inl why)
      | None \<Rightarrow>
          let bs = blk_size s b;
              s1 = s\<lparr>km_used_bytes := km_used_bytes s - bs\<rparr>
          in case km_insert_pos s1 b 0 (km_head s1) of
               None \<Rightarrow> None
             | Some (prev, cur) \<Rightarrow>
                 let (b', s2) = merge_prev b bs prev (km_insert b bs prev cur s1)
                 in Some (Inr (merge_next b' s2)))"

section \<open>Queries and the audit\<close>

definition kmalloc_total :: nat where "kmalloc_total = KM_POOL_SIZE"

definition kmalloc_used :: "kheap \<Rightarrow> nat" where "kmalloc_used s = km_used_bytes s"

partial_function (option) largest_loop :: "kheap \<Rightarrow> nat \<Rightarrow> nat \<Rightarrow> nat option" where
  "largest_loop s b mx =
     (if b = 0 then Some mx
      else largest_loop s (blk_next s b) (if blk_is_free s b \<and> blk_size s b > mx then blk_size s b else mx))"

definition kmalloc_largest_free :: "kheap \<Rightarrow> nat option" where
  "kmalloc_largest_free s = largest_loop s (km_head s) 0"

text \<open>Whether an allocated block is damaged, as \<open>kmalloc_audit\<close> decides it.\<close>

definition block_bad :: "kheap \<Rightarrow> nat \<Rightarrow> bool" where
  "block_bad s p =
     (let bs = blk_size s p; req = km_mem s (km_req_of p); tail = km_tail_of (p + KM_HDR) req in
      if km_mem s (km_magic_of p) \<noteq> KM_MAGIC then True
      else if req = 0 \<or> req > KM_POOL_SIZE then True
      else if tail + KM_TAIL > p + bs then True
      else km_mem s tail \<noteq> KM_TAIL_MAGIC)"

function audit_loop :: "kheap \<Rightarrow> nat \<Rightarrow> nat \<Rightarrow> nat" where
  "audit_loop s p bad =
     (if p + KM_HDR \<le> km_pool s + KM_POOL_SIZE then
        let bs = blk_size s p in
        if bs < KM_HDR \<or> bs > KM_POOL_SIZE \<or> p + bs > km_pool s + KM_POOL_SIZE then bad + 1
        else audit_loop s (p + bs) (if \<not> blk_is_free s p \<and> block_bad s p then bad + 1 else bad)
      else bad)"
  by pat_completeness auto
termination
  by (relation "measure (\<lambda>(s, p, bad). km_pool s + KM_POOL_SIZE - p)") (auto simp: Let_def)

declare audit_loop.simps [simp del]

definition kmalloc_audit :: "kheap \<Rightarrow> nat" where
  "kmalloc_audit s = audit_loop s (km_pool s) 0"

definition kmalloc_repair_tail :: "nat \<Rightarrow> kheap \<Rightarrow> kheap" where
  "kmalloc_repair_tail ptr s =
     (if ptr = 0 then s
      else let b = ptr - KM_HDR in
      if km_mem s (km_magic_of b) = KM_MAGIC
      then st (km_tail_of ptr (km_mem s (km_req_of b))) KM_TAIL_MAGIC s else s)"

end
