(* ===== verification/KmallocSpec.thy ===== *)
theory KmallocSpec
  imports Kmalloc
begin

text \<open>
  Correctness of the kernel heap: the store of \<open>Kmalloc\<close> represents a tiling of the pool by
  free and used blocks, \<open>kmalloc\<close> and \<open>kfree\<close> refine first-fit allocation and coalescing
  release on such tilings, and the audit counts the damaged blocks.
\<close>

section \<open>Tilings\<close>

datatype blk = is_Free: Free nat | Used nat nat

fun bsize :: "blk \<Rightarrow> nat" where
  "bsize (Free n) = n"
| "bsize (Used n req) = n"

abbreviation span :: "blk list \<Rightarrow> nat" where "span bs \<equiv> sum_list (map bsize bs)"

fun used_bytes :: "blk list \<Rightarrow> nat" where
  "used_bytes [] = 0"
| "used_bytes (Free n # bs) = used_bytes bs"
| "used_bytes (Used n req # bs) = n + used_bytes bs"

text \<open>The addresses of the free blocks, in order.\<close>

fun frees :: "nat \<Rightarrow> blk list \<Rightarrow> nat list" where
  "frees a [] = []"
| "frees a (Free n # bs) = a # frees (a + n) bs"
| "frees a (Used n req # bs) = frees (a + n) bs"

text \<open>How a block at address \<open>a\<close> looks in the store.\<close>

fun block_ok :: "(nat \<Rightarrow> nat) \<Rightarrow> nat \<Rightarrow> blk \<Rightarrow> bool" where
  "block_ok mem a (Free n) \<longleftrightarrow> 16 dvd n \<and> 32 \<le> n \<and> mem a = n"
| "block_ok mem a (Used n req) \<longleftrightarrow> 16 dvd n \<and> 32 \<le> n \<and> mem a = n + 1 \<and> mem (a + 4) = req \<and>
     mem (a + 8) = KM_MAGIC \<and> mem (a + 16 + round_up req 4) = KM_TAIL_MAGIC \<and>
     0 < req \<and> req \<le> KM_POOL_SIZE \<and> 16 + round_up req 4 + 4 \<le> n"

fun blocks_ok :: "(nat \<Rightarrow> nat) \<Rightarrow> nat \<Rightarrow> blk list \<Rightarrow> bool" where
  "blocks_ok mem a [] \<longleftrightarrow> True"
| "blocks_ok mem a (b # bs) \<longleftrightarrow> block_ok mem a b \<and> blocks_ok mem (a + bsize b) bs"

text \<open>The free list from \<open>h\<close> through \<open>xs\<close>, ending in the pointer \<open>t\<close>.\<close>

fun lseg :: "(nat \<Rightarrow> nat) \<Rightarrow> nat \<Rightarrow> nat list \<Rightarrow> nat \<Rightarrow> bool" where
  "lseg mem h [] t \<longleftrightarrow> h = t"
| "lseg mem h (x # xs) t \<longleftrightarrow> h = x \<and> lseg mem (mem (x + 4)) xs t"

definition coalesced :: "blk list \<Rightarrow> bool" where
  "coalesced = successively (\<lambda>b c. \<not> (is_Free b \<and> is_Free c))"

text \<open>
  \<open>tiled\<close> is what holds between any two stores to the list; \<open>represents\<close> adds that no two free
  blocks are adjacent and that the counter is right.
\<close>

definition tiled :: "kheap \<Rightarrow> blk list \<Rightarrow> bool" where
  "tiled s bs \<longleftrightarrow> 0 < km_pool s \<and> 16 dvd km_pool s \<and> km_pool s + KM_POOL_SIZE < 2 ^ 32 \<and>
     span bs = KM_POOL_SIZE \<and> blocks_ok (km_mem s) (km_pool s) bs \<and>
     lseg (km_mem s) (km_head s) (frees (km_pool s) bs) 0"

definition represents :: "kheap \<Rightarrow> blk list \<Rightarrow> bool" where
  "represents s bs \<longleftrightarrow> tiled s bs \<and> coalesced bs \<and> km_used_bytes s = used_bytes bs"

section \<open>Abstract operations\<close>

text \<open>First fit with splitting: the offset of the chosen block and the new tiling.\<close>

fun alloc_blk :: "nat \<Rightarrow> nat \<Rightarrow> blk list \<Rightarrow> (nat \<times> blk list) option" where
  "alloc_blk need req [] = None"
| "alloc_blk need req (Used n r # bs) = map_option (\<lambda>(o', bs'). (n + o', Used n r # bs')) (alloc_blk need req bs)"
| "alloc_blk need req (Free n # bs) =
     (if n < need then map_option (\<lambda>(o', bs'). (n + o', Free n # bs')) (alloc_blk need req bs)
      else if n - need \<ge> 32 then Some (0, Used need req # Free (n - need) # bs)
      else Some (0, Used n req # bs))"

text \<open>Release of a block between two parts of the tiling, merging with free neighbours.\<close>

fun cons_free :: "nat \<Rightarrow> blk list \<Rightarrow> blk list" where
  "cons_free n (Free m # bs) = Free (n + m) # bs"
| "cons_free n bs = Free n # bs"

definition release_blk :: "blk list \<Rightarrow> nat \<Rightarrow> blk list \<Rightarrow> blk list" where
  "release_blk pre n post =
     (case rev pre of
        Free m # r \<Rightarrow> rev r @ cons_free (m + n) post
      | _ \<Rightarrow> pre @ cons_free n post)"

section \<open>Tilings and lists\<close>

lemma frees_append: "frees a (xs @ ys) = frees a xs @ frees (a + span xs) ys"
  by (induction a xs rule: frees.induct) (simp_all add: add.assoc)

lemma blocks_ok_append: "blocks_ok mem a (xs @ ys) \<longleftrightarrow> blocks_ok mem a xs \<and> blocks_ok mem (a + span xs) ys"
  by (induction xs arbitrary: a) (simp_all add: add.assoc)

lemma used_bytes_append: "used_bytes (xs @ ys) = used_bytes xs + used_bytes ys"
  by (induction xs rule: used_bytes.induct) simp_all

lemma lseg_append: "lseg mem h (xs @ ys) t \<longleftrightarrow> (\<exists>m. lseg mem h xs m \<and> lseg mem m ys t)"
  by (induction xs arbitrary: h) simp_all

lemma blocks_ok_size: "blocks_ok mem a bs \<Longrightarrow> b \<in> set bs \<Longrightarrow> 16 dvd bsize b \<and> 32 \<le> bsize b"
proof (induction bs arbitrary: a)
  case (Cons c bs)
  then show ?case by (cases c) auto
qed simp

text \<open>Free blocks lie inside the tiling and do not overlap.\<close>

lemma frees_range: "blocks_ok mem a bs \<Longrightarrow> x \<in> set (frees a bs) \<Longrightarrow> a \<le> x \<and> x + 32 \<le> a + span bs"
  by (induction a bs rule: frees.induct) auto

lemma frees_sorted: "blocks_ok mem a bs \<Longrightarrow> sorted_wrt (\<lambda>x y. x + 32 \<le> y) (frees a bs)"
  by (induction a bs rule: frees.induct) (auto dest!: frees_range)

lemma frees_mem: "blocks_ok mem a bs \<Longrightarrow> x \<in> set (frees a bs) \<Longrightarrow> 16 dvd mem x \<and> 32 \<le> mem x"
  by (induction a bs rule: frees.induct) auto

lemma frees_distinct: "blocks_ok mem a bs \<Longrightarrow> distinct (frees a bs)"
  using frees_sorted [of mem a bs] by (auto simp: distinct_conv_nth sorted_wrt_iff_nth_less nat_neq_iff) fastforce+

lemma blocks_ok_frame:
  assumes "blocks_ok mem a bs"
    and "\<forall>x. a \<le> x \<and> x < a + span bs \<and> x \<notin> (\<lambda>y. y + 4) ` set (frees a bs) \<longrightarrow> mem' x = mem x"
  shows "blocks_ok mem' a bs"
  using assms
proof (induction a bs rule: frees.induct)
  case (1 a)
  then show ?case by simp
next
  case (2 a n bs)
  have r: "y \<ge> a + n" if "y \<in> set (frees (a + n) bs)" for y using frees_range [of mem "a + n" bs y] "2.prems" that by simp
  have "a \<notin> (\<lambda>y. y + 4) ` set (frees a (Free n # bs))" using r "2.prems"(1) by force
  then have "mem' a = mem a" using "2.prems" by simp
  moreover have "mem' x = mem x" if "a + n \<le> x" "x < a + n + span bs" "x \<notin> (\<lambda>y. y + 4) ` set (frees (a + n) bs)" for x
    using "2.prems" that by auto
  ultimately show ?case using "2.IH" "2.prems"(1) by auto
next
  case (3 a n req bs)
  have r: "y \<ge> a + n" if "y \<in> set (frees (a + n) bs)" for y using frees_range [of mem "a + n" bs y] "3.prems" that by simp
  have eq: "mem' x = mem x" if "a \<le> x" "x < a + n" for x
  proof -
    have "x \<notin> (\<lambda>y. y + 4) ` set (frees a (Used n req # bs))" using r that by force
    then show ?thesis using "3.prems"(2) that by simp
  qed
  have "mem' x = mem x" if "a + n \<le> x" "x < a + n + span bs" "x \<notin> (\<lambda>y. y + 4) ` set (frees (a + n) bs)" for x
    using "3.prems" that by auto
  then have "blocks_ok mem' (a + n) bs" using "3.IH" "3.prems"(1) by auto
  then show ?case using "3.prems"(1) eq by simp
qed

lemma lseg_frame:
  assumes "lseg mem h xs t" and "\<forall>x \<in> set xs. mem' (x + 4) = mem (x + 4)"
  shows "lseg mem' h xs t"
  using assms by (induction xs arbitrary: h) auto

lemma st_simps [simp]:
  "km_mem (st a v s) = (km_mem s)(a := v)" "km_pool (st a v s) = km_pool s" "km_head (st a v s) = km_head s"
  "km_used_bytes (st a v s) = km_used_bytes s"
  by (simp_all add: st_def)

lemma set_link_lseg:
  assumes "lseg (km_mem s) (km_head s) xs t" and "prev = last (0 # xs)" and "distinct xs" and "0 \<notin> set xs"
  shows "lseg (km_mem (set_link prev v s)) (km_head (set_link prev v s)) xs v"
proof (cases xs rule: rev_cases)
  case Nil
  then show ?thesis using assms by (simp add: set_link_def)
next
  case (snoc ys y)
  then have p: "prev = y" "y \<noteq> 0" "y \<notin> set ys" using assms by auto
  have l: "lseg (km_mem s) (km_head s) ys y" using assms(1) snoc by (auto simp: lseg_append)
  have "lseg ((km_mem s)(y + 4 := v)) (km_head s) ys y"
    by (rule lseg_frame [OF l]) (use p(3) in auto)
  moreover have "set_link prev v s = st (y + 4) v s" using p by (simp add: set_link_def)
  ultimately show ?thesis using snoc by (simp add: lseg_append)
qed

lemma set_link_simps [simp]:
  "km_pool (set_link p v s) = km_pool s" "km_used_bytes (set_link p v s) = km_used_bytes s"
  "x \<noteq> p + 4 \<Longrightarrow> km_mem (set_link p v s) x = km_mem s x"
  by (simp_all add: set_link_def st_def)

section \<open>Searching the free list\<close>

lemma km_find_first:
  assumes "lseg (km_mem s) b (ys @ x # zs) 0" and "\<forall>y \<in> set (ys @ [x]). y \<noteq> 0 \<and> even (km_mem s y)"
    and "\<forall>y \<in> set ys. km_mem s y < need" and "need \<le> km_mem s x"
  shows "km_find s need prev b = Some (last (prev # ys), x)"
  using assms
proof (induction ys arbitrary: b prev)
  case Nil
  then show ?case by (subst km_find.simps) (auto simp: blk_is_free_def blk_size_def)
next
  case (Cons y ys)
  have "km_find s need y (km_mem s (y + 4)) = Some (last (y # ys), x)"
    using Cons.IH [of "km_mem s (y + 4)" y] Cons.prems by simp
  then show ?case using Cons.prems by (subst km_find.simps) (auto simp: blk_is_free_def blk_size_def blk_next_def)
qed

lemma km_find_none:
  assumes "lseg (km_mem s) b ys 0" and "\<forall>y \<in> set ys. y \<noteq> 0 \<and> even (km_mem s y) \<and> km_mem s y < need"
  shows "km_find s need prev b = Some (last (prev # ys), 0)"
  using assms
proof (induction ys arbitrary: b prev)
  case Nil
  then show ?case by (subst km_find.simps) simp
next
  case (Cons y ys)
  have "km_find s need y (km_mem s (y + 4)) = Some (last (y # ys), 0)"
    using Cons.IH [of "km_mem s (y + 4)" y] Cons.prems by simp
  then show ?case using Cons.prems by (subst km_find.simps) (auto simp: blk_is_free_def blk_size_def blk_next_def)
qed

lemma alloc_blk_cases:
  "case alloc_blk need req bs of
     None \<Rightarrow> \<forall>n. Free n \<in> set bs \<longrightarrow> n < need
   | Some (off, bs') \<Rightarrow> \<exists>pre n post. bs = pre @ Free n # post \<and> off = span pre \<and>
       (\<forall>m. Free m \<in> set pre \<longrightarrow> m < need) \<and> need \<le> n \<and>
       bs' = pre @ (if n - need \<ge> 32 then [Used need req, Free (n - need)] else [Used n req]) @ post"
proof (induction need req bs rule: alloc_blk.induct)
  case (1 need req)
  then show ?case by simp
next
  case (2 need req n r bs)
  show ?case
  proof (cases "alloc_blk need req bs")
    case None
    then show ?thesis using 2 by auto
  next
    case (Some p)
    obtain off bs' where p: "p = (off, bs')" by (cases p)
    obtain pre k post where "bs = pre @ Free k # post" "off = span pre" "\<forall>m. Free m \<in> set pre \<longrightarrow> m < need"
        "need \<le> k" "bs' = pre @ (if k - need \<ge> 32 then [Used need req, Free (k - need)] else [Used k req]) @ post"
      using 2 Some p by auto
    note h = this
    have "alloc_blk need req (Used n r # bs) = Some (n + off, Used n r # bs')" using Some p by simp
    then show ?thesis using h
      by (simp only: option.case prod.case)
        (rule exI [of _ "Used n r # pre"], rule exI [of _ k], rule exI [of _ post], simp)
  qed
next
  case (3 need req n bs)
  show ?case
  proof (cases "n < need")
    case True
    show ?thesis
    proof (cases "alloc_blk need req bs")
      case None
      then show ?thesis using 3 True by auto
    next
      case (Some p)
      obtain off bs' where p: "p = (off, bs')" by (cases p)
      obtain pre k post where "bs = pre @ Free k # post" "off = span pre" "\<forall>m. Free m \<in> set pre \<longrightarrow> m < need"
          "need \<le> k" "bs' = pre @ (if k - need \<ge> 32 then [Used need req, Free (k - need)] else [Used k req]) @ post"
        using 3 True Some p by auto
      note h = this
      have "alloc_blk need req (Free n # bs) = Some (n + off, Free n # bs')" using Some p True by simp
      then show ?thesis using h True
        by (simp only: option.case prod.case)
          (rule exI [of _ "Free n # pre"], rule exI [of _ k], rule exI [of _ post], auto)
    qed
  next
    case False
    then have "alloc_blk need req (Free n # bs) =
        Some (0, (if n - need \<ge> 32 then [Used need req, Free (n - need)] else [Used n req]) @ bs)" by simp
    then show ?thesis using False
      by (simp only: option.case prod.case)
        (rule exI [of _ "[]"], rule exI [of _ n], rule exI [of _ bs], simp)
  qed
qed

section \<open>Replacing a part of the tiling\<close>

abbreviation links :: "nat \<Rightarrow> blk list \<Rightarrow> nat set" where
  "links a bs \<equiv> (\<lambda>y. y + 4) ` set (frees a bs)"

lemma tiled_splice:
  assumes t: "tiled s (pre @ old @ post)" and a: "a = km_pool s + span pre" and sp: "span new = span old"
    and pool: "km_pool s' = km_pool s"
    and fr: "\<forall>x. \<not> (a \<le> x \<and> x < a + span old) \<and> x \<notin> links (km_pool s) pre \<longrightarrow> km_mem s' x = km_mem s x"
    and new: "blocks_ok (km_mem s') a new"
    and l1: "lseg (km_mem s') (km_head s') (frees (km_pool s) pre) v"
    and l2: "lseg (km_mem s') v (frees a new @ frees (a + span old) post) 0"
  shows "tiled s' (pre @ new @ post)"
proof -
  have ok: "blocks_ok (km_mem s) (km_pool s) pre" "blocks_ok (km_mem s) a old" "blocks_ok (km_mem s) (a + span old) post"
    using t a by (simp_all add: tiled_def blocks_ok_append add.assoc)
  have below: "x < a" if "x \<in> links (km_pool s) pre" for x using frees_range [OF ok(1)] that a by force
  have "blocks_ok (km_mem s') (km_pool s) pre"
  proof (rule blocks_ok_frame [OF ok(1)], intro allI impI, elim conjE)
    fix x assume "km_pool s \<le> x" "x < km_pool s + span pre" "x \<notin> links (km_pool s) pre"
    then show "km_mem s' x = km_mem s x" using fr a by simp
  qed
  moreover have "blocks_ok (km_mem s') (a + span old) post"
  proof (rule blocks_ok_frame [OF ok(3)], intro allI impI, elim conjE)
    fix x assume "a + span old \<le> x"
    then have "\<not> (a \<le> x \<and> x < a + span old)" "x \<notin> links (km_pool s) pre" using below [of x] by auto
    then show "km_mem s' x = km_mem s x" using fr by blast
  qed
  ultimately show ?thesis
    using t a sp pool new l1 l2 by (auto simp: tiled_def blocks_ok_append frees_append lseg_append add.assoc)
qed

text \<open>The common shape of the code: rebuild the middle, then hook it in behind \<open>prev\<close>.\<close>

lemma tiled_relink:
  assumes t: "tiled s (pre @ old @ post)" and a: "a = km_pool s + span pre" and sp: "span new = span old"
    and s3: "km_pool s3 = km_pool s" "km_head s3 = km_head s"
    and fr: "\<forall>x. \<not> (a \<le> x \<and> x < a + span old) \<longrightarrow> km_mem s3 x = km_mem s x"
    and new: "blocks_ok (km_mem s3) a new"
    and l2: "lseg (km_mem s3) v (frees a new @ frees (a + span old) post) 0"
    and prev: "prev = last (0 # frees (km_pool s) pre)"
  shows "tiled (set_link prev v s3) (pre @ new @ post)"
    and "\<forall>x. \<not> (a \<le> x \<and> x < a + span old) \<and> x \<notin> links (km_pool s) pre \<longrightarrow>
      km_mem (set_link prev v s3) x = km_mem s x"
proof -
  let ?F = "frees (km_pool s) pre"
  have ok: "blocks_ok (km_mem s) (km_pool s) pre" "blocks_ok (km_mem s) (a + span old) post" "0 < km_pool s"
    using t a by (simp_all add: tiled_def blocks_ok_append add.assoc)
  have rng: "km_pool s \<le> x" "x + 32 \<le> a" if "x \<in> set ?F" for x using frees_range [OF ok(1) that] a by auto
  have F: "distinct ?F" "0 \<notin> set ?F" using frees_distinct [OF ok(1)] rng(1) [of 0] ok(3) by auto
  have "\<exists>w. lseg (km_mem s) (km_head s) ?F w" using t by (auto simp: tiled_def frees_append lseg_append)
  then obtain w where w: "lseg (km_mem s) (km_head s) ?F w" by blast
  have "lseg (km_mem s3) (km_head s3) ?F w"
    unfolding s3(2) by (rule lseg_frame [OF w]) (use fr rng in fastforce)
  note l1 = set_link_lseg [OF this prev F, of v]
  have pin: "prev \<noteq> 0 \<Longrightarrow> prev \<in> set ?F" using prev by (auto split: if_splits)
  have keep: "km_mem (set_link prev v s3) x = km_mem s3 x" if "x \<notin> links (km_pool s) pre" for x
    using that pin by (cases "prev = 0") (auto simp: set_link_def)
  have up: "x \<notin> links (km_pool s) pre" if "a \<le> x" for x using rng(2) that by force
  show fr': "\<forall>x. \<not> (a \<le> x \<and> x < a + span old) \<and> x \<notin> links (km_pool s) pre \<longrightarrow>
      km_mem (set_link prev v s3) x = km_mem s x"
    using keep fr by simp
  have "blocks_ok (km_mem (set_link prev v s3)) a new" by (rule blocks_ok_frame [OF new]) (use keep up in auto)
  moreover have "lseg (km_mem (set_link prev v s3)) v (frees a new @ frees (a + span old) post) 0"
  proof (rule lseg_frame [OF l2], rule ballI)
    fix x assume "x \<in> set (frees a new @ frees (a + span old) post)"
    then have "a \<le> x" using frees_range [OF new] frees_range [OF ok(2)] by force
    then show "km_mem (set_link prev v s3) (x + 4) = km_mem s3 (x + 4)" by (intro keep up) simp
  qed
  ultimately show "tiled (set_link prev v s3) (pre @ new @ post)"
    using tiled_splice [OF t a sp _ fr' _ l1] s3(1) by simp
qed

section \<open>Allocation refines first fit\<close>

lemma round_up_4: "r \<le> KM_POOL_SIZE \<Longrightarrow> round_up r 4 = (r + 3) div 4 * 4"
  by (simp add: round_up_def)

lemma km_need_facts:
  assumes "0 < sz" and "sz \<le> KM_POOL_SIZE"
  shows "16 dvd km_need sz" and "32 \<le> km_need sz" and "16 + round_up sz 4 + 4 \<le> km_need sz"
    and "km_need sz \<le> sz + 35" and "sz \<le> round_up sz 4"
proof -
  have n: "km_need sz = (sz + 35) div 16 * 16" using assms(2) by (simp add: km_need_def round_up_def add.commute)
  show "16 dvd km_need sz" unfolding n by simp
  show "32 \<le> km_need sz" unfolding n using assms(1) by (simp add: less_eq_div_iff_mult_less_eq mult.commute)
  show "16 + round_up sz 4 + 4 \<le> km_need sz" unfolding n round_up_4 [OF assms(2)] by presburger
  show "km_need sz \<le> sz + 35" unfolding n by simp
  show "sz \<le> round_up sz 4" unfolding round_up_4 [OF assms(2)] by presburger
qed

lemma km_arm_simps [simp]:
  "km_pool (km_arm b r n s) = km_pool s" "km_head (km_arm b r n s) = km_head s"
  "km_used_bytes (km_arm b r n s) = km_used_bytes s"
  "km_mem (km_arm b r n s) = (km_mem s)(b + 4 := r, b + 8 := KM_MAGIC, b + 16 + round_up r 4 := KM_TAIL_MAGIC,
     b := n div 2 * 2 + 1)"
  by (simp_all add: km_arm_def km_tail_of_def km_magic_of_def km_req_of_def)

lemma tiled_used_update [simp]: "tiled (s\<lparr>km_used_bytes := u\<rparr>) bs = tiled s bs"
  by (simp add: tiled_def)

definition taken :: "nat \<Rightarrow> nat \<Rightarrow> nat \<Rightarrow> blk list" where
  "taken sz need n = (if n - need \<ge> 32 then [Used need sz, Free (n - need)] else [Used n sz])"

lemma km_take_tiled:
  assumes t: "tiled s (pre @ [Free n] @ post)" and a: "a = km_pool s + span pre"
    and sz: "0 < sz" "sz \<le> KM_POOL_SIZE" and need: "need = km_need sz" "need \<le> n"
    and prev: "prev = last (0 # frees (km_pool s) pre)"
  defines "s' \<equiv> km_take sz need prev a s"
  shows "tiled s' (pre @ taken sz need n @ post)" and "km_pool s' = km_pool s"
    and "km_used_bytes s' = km_used_bytes s + used_bytes (taken sz need n)"
    and "\<forall>x. \<not> (a \<le> x \<and> x < a + n) \<and> x \<notin> links (km_pool s) pre \<longrightarrow> km_mem s' x = km_mem s x"
proof -
  note nf = km_need_facts [OF sz, folded need(1)]
  let ?m = "km_mem s" and ?r = "round_up sz 4"
  have n: "16 dvd n" "32 \<le> n" "?m a = n" using t a by (simp_all add: tiled_def blocks_ok_append)
  have ev: "even need" "even n" using nf(1) n(1) by (auto elim!: dvdE)
  have bs: "blk_size s a = n" using ev(2) n(3) by (simp add: blk_size_def)
  have post: "blocks_ok ?m (a + n) post" using t a by (simp add: tiled_def blocks_ok_append add.assoc)
  have l: "lseg ?m (?m (a + 4)) (frees (a + n) post) 0"
    using t a by (auto simp: tiled_def frees_append lseg_append add.assoc)
  have sp1: "span [Free n] = n" by simp
  have "tiled s' (pre @ taken sz need n @ post) \<and> km_pool s' = km_pool s \<and>
      km_used_bytes s' = km_used_bytes s + used_bytes (taken sz need n) \<and>
      (\<forall>x. \<not> (a \<le> x \<and> x < a + n) \<and> x \<notin> links (km_pool s) pre \<longrightarrow> km_mem s' x = km_mem s x)"
  proof (cases "n - need \<ge> 32")
    case True
    define s3 where "s3 = km_arm a sz need (st (a + need + 4) (?m (a + 4)) (st (a + need) (n - need) s))"
    have m3: "km_mem s3 = ?m(a + need := n - need, a + need + 4 := ?m (a + 4), a + 4 := sz, a + 8 := KM_MAGIC,
        a + 16 + ?r := KM_TAIL_MAGIC, a := need + 1)"
      using ev by (simp add: s3_def)
    have s': "s' = (set_link prev (a + need) s3)\<lparr>km_used_bytes := km_used_bytes s + need\<rparr>"
      unfolding s'_def km_take_def Let_def bs using True nf(2)
      by (simp add: s3_def blk_next_def fun_upd_def)
    have tk: "taken sz need n = [Used need sz, Free (n - need)]" using True by (simp add: taken_def)
    have fr: "\<forall>x. \<not> (a \<le> x \<and> x < a + span [Free n]) \<longrightarrow> km_mem s3 x = ?m x"
      unfolding m3 sp1 using True nf(2,3) by auto
    have ok: "blocks_ok (km_mem s3) a [Used need sz, Free (n - need)]"
      unfolding m3 using nf(1-3) n(1) True sz by simp
    have l2: "lseg (km_mem s3) (a + need) (frees a [Used need sz, Free (n - need)] @ frees (a + span [Free n]) post) 0"
    proof -
      have "lseg (km_mem s3) (?m (a + 4)) (frees (a + n) post) 0"
        by (rule lseg_frame [OF l]) (use fr frees_range [OF post] in force)
      moreover have "km_mem s3 (a + need + 4) = ?m (a + 4)" unfolding m3 using nf(2,3) by simp
      ultimately show ?thesis by simp
    qed
    have ss: "span [Used need sz, Free (n - need)] = span [Free n]" using need(2) by simp
    note re = tiled_relink [OF t a ss _ _ fr ok l2 prev]
    show ?thesis using re by (simp add: s' tk s3_def)
  next
    case False
    define s3 where "s3 = km_arm a sz n s"
    have m3: "km_mem s3 = ?m(a + 4 := sz, a + 8 := KM_MAGIC, a + 16 + ?r := KM_TAIL_MAGIC, a := n + 1)"
      using ev by (simp add: s3_def)
    have s': "s' = (set_link prev (?m (a + 4)) s3)\<lparr>km_used_bytes := km_used_bytes s + n\<rparr>"
      unfolding s'_def km_take_def Let_def bs using False by (simp add: s3_def blk_next_def)
    have tk: "taken sz need n = [Used n sz]" using False by (simp add: taken_def)
    have fr: "\<forall>x. \<not> (a \<le> x \<and> x < a + span [Free n]) \<longrightarrow> km_mem s3 x = ?m x"
      unfolding m3 sp1 using need(2) nf(2,3) by auto
    have ok: "blocks_ok (km_mem s3) a [Used n sz]"
      unfolding m3 using nf(1-3) n need(2) sz by simp
    have l2: "lseg (km_mem s3) (?m (a + 4)) (frees a [Used n sz] @ frees (a + span [Free n]) post) 0"
      using lseg_frame [OF l, of "km_mem s3"] fr frees_range [OF post] by force
    have ss: "span [Used n sz] = span [Free n]" by simp
    note re = tiled_relink [OF t a ss _ _ fr ok l2 prev]
    show ?thesis using re by (simp add: s' tk s3_def)
  qed
  then show "tiled s' (pre @ taken sz need n @ post)" "km_pool s' = km_pool s"
    "km_used_bytes s' = km_used_bytes s + used_bytes (taken sz need n)"
    "\<forall>x. \<not> (a \<le> x \<and> x < a + n) \<and> x \<notin> links (km_pool s) pre \<longrightarrow> km_mem s' x = km_mem s x"
    by blast+
qed

lemma coalesced_taken:
  assumes "coalesced (pre @ [Free n] @ post)"
  shows "coalesced (pre @ taken sz need n @ post)"
  using assms by (cases post) (auto simp: coalesced_def successively_append_iff successively_Cons taken_def)

lemma small_frees:
  "blocks_ok mem a bs \<Longrightarrow> \<forall>n. Free n \<in> set bs \<longrightarrow> n < k \<Longrightarrow> x \<in> set (frees a bs) \<Longrightarrow> mem x < k"
  by (induction a bs rule: frees.induct) auto

lemma kmalloc_refines:
  assumes r: "represents s bs" and sz: "0 < sz" "sz \<le> KM_POOL_SIZE"
  shows "case alloc_blk (km_need sz) sz bs of
      None \<Rightarrow> kmalloc sz s = Some (0, s)
    | Some (off, bs') \<Rightarrow> \<exists>s'. kmalloc sz s = Some (km_pool s + off + 16, s') \<and> represents s' bs' \<and>
        km_pool s' = km_pool s"
proof -
  let ?need = "km_need sz" and ?p = "km_pool s"
  have t: "tiled s bs" and co: "coalesced bs" and us: "km_used_bytes s = used_bytes bs"
    using r by (simp_all add: represents_def)
  have ok: "blocks_ok (km_mem s) ?p bs" and ls: "lseg (km_mem s) (km_head s) (frees ?p bs) 0" and pos: "0 < ?p"
    using t by (simp_all add: tiled_def)
  have fz: "x \<noteq> 0 \<and> even (km_mem s x)" if "x \<in> set (frees ?p bs)" for x
    using frees_range [OF ok that] frees_mem [OF ok that] pos by (auto elim!: dvdE)
  show ?thesis
  proof (cases "alloc_blk ?need sz bs")
    case None
    have small: "\<forall>n. Free n \<in> set bs \<longrightarrow> n < ?need" using alloc_blk_cases [where need = ?need and req = sz and bs = bs] None by simp
    have "km_mem s x < ?need" if "x \<in> set (frees ?p bs)" for x
      using small_frees [OF ok small that] .
    then have "km_find s ?need 0 (km_head s) = Some (last (0 # frees ?p bs), 0)"
      using km_find_none [OF ls] fz by blast
    then show ?thesis using None sz by (simp add: kmalloc_def)
  next
    case (Some q)
    obtain off bs' where q: "q = (off, bs')" by (cases q)
    obtain pre n post where d: "bs = pre @ [Free n] @ post" "off = span pre" "\<forall>m. Free m \<in> set pre \<longrightarrow> m < ?need"
        "?need \<le> n" "bs' = pre @ taken sz ?need n @ post"
      using alloc_blk_cases [where need = ?need and req = sz and bs = bs] Some q by (auto simp: taken_def)
    define a where "a = ?p + span pre"
    have okp: "blocks_ok (km_mem s) ?p pre" and an: "km_mem s a = n"
      using ok by (simp_all add: d(1) blocks_ok_append a_def)
    have f: "frees ?p bs = frees ?p pre @ a # frees (a + n) post" by (simp add: d(1) frees_append a_def add.assoc)
    have "km_find s ?need 0 (km_head s) = Some (last (0 # frees ?p pre), a)"
      by (rule km_find_first [OF ls [unfolded f]]) (use fz f small_frees [OF okp d(3)] an d(4) in auto)
    moreover have "a \<noteq> 0" using pos by (simp add: a_def)
    ultimately have k: "kmalloc sz s = Some (a + 16, km_take sz ?need (last (0 # frees ?p pre)) a s)"
      using sz by (simp add: kmalloc_def)
    note tk = km_take_tiled [OF t [unfolded d(1)] a_def sz refl d(4) refl]
    have "used_bytes bs' = used_bytes bs + used_bytes (taken sz ?need n)"
      by (simp add: d(1,5) used_bytes_append)
    then have "represents (km_take sz ?need (last (0 # frees ?p pre)) a s) bs'"
      using tk(1,3) coalesced_taken [OF co [unfolded d(1)]] us d(5) by (simp add: represents_def)
    then show ?thesis using Some q k tk(2) d(2) by (simp add: a_def)
  qed
qed

section \<open>Release refines coalescing release\<close>

lemma merge_tiled:
  assumes t: "tiled s (pre @ [Free m, Free n] @ post)" and p: "p = km_pool s + span pre"
  shows "tiled (st (p + 4) (km_mem s (p + m + 4)) (st p (m + n) s)) (pre @ [Free (m + n)] @ post)"
proof -
  let ?s' = "st (p + 4) (km_mem s (p + m + 4)) (st p (m + n) s)"
  have ok: "blocks_ok (km_mem s) (km_pool s) pre" "16 dvd m" "16 dvd n" "32 \<le> m" "32 \<le> n"
      "blocks_ok (km_mem s) (p + m + n) post"
    using t p by (auto simp: tiled_def blocks_ok_append add.assoc)
  have l: "lseg (km_mem s) (km_head s) (frees (km_pool s) pre) p"
      "lseg (km_mem s) (km_mem s (p + m + 4)) (frees (p + m + n) post) 0"
    using t p by (auto simp: tiled_def frees_append lseg_append add.assoc)
  have ss: "span [Free (m + n)] = span [Free m, Free n]" by simp
  have bl: "blocks_ok (km_mem ?s') p [Free (m + n)]" using ok by simp
  have "lseg (km_mem ?s') (km_head s) (frees (km_pool s) pre) p"
    by (rule lseg_frame [OF l(1)]) (use frees_range [OF ok(1)] p in force)
  moreover have "lseg (km_mem ?s') (km_mem s (p + m + 4)) (frees (p + m + n) post) 0"
    by (rule lseg_frame [OF l(2)]) (use frees_range [OF ok(6)] ok(4,5) in force)
  ultimately show ?thesis
    using tiled_splice [OF t p ss, of ?s' p] bl ok(4,5) by (simp add: add.assoc)
qed

text \<open>What precedes a block in the free list touches it exactly when the block before it is free.\<close>

lemma last_free_adjacent:
  assumes "blocks_ok mem a pre" and "frees a pre \<noteq> []"
  shows "last (frees a pre) + mem (last (frees a pre)) = a + span pre \<longleftrightarrow> pre \<noteq> [] \<and> is_Free (last pre)"
    and "last (frees a pre) + mem (last (frees a pre)) \<le> a + span pre"
proof -
  have "(last (frees a pre) + mem (last (frees a pre)) = a + span pre \<longleftrightarrow> pre \<noteq> [] \<and> is_Free (last pre)) \<and>
      last (frees a pre) + mem (last (frees a pre)) \<le> a + span pre"
    using assms
  proof (induction pre rule: rev_induct)
    case Nil
    then show ?case by simp
  next
    case (snoc b pre)
    show ?case
    proof (cases b)
      case (Free n)
      then show ?thesis using snoc.prems by (simp add: frees_append blocks_ok_append)
    next
      case (Used n r)
      then have "last (frees a pre) + mem (last (frees a pre)) \<le> a + span pre" "32 \<le> n"
        using snoc by (simp_all add: frees_append blocks_ok_append)
      then show ?thesis using Used snoc.prems by (simp add: frees_append)
    qed
  qed
  then show "last (frees a pre) + mem (last (frees a pre)) = a + span pre \<longleftrightarrow> pre \<noteq> [] \<and> is_Free (last pre)"
    "last (frees a pre) + mem (last (frees a pre)) \<le> a + span pre" by blast+
qed

lemma free_cell:
  assumes "tiled s (pre @ Free n # post)" and "a = km_pool s + span pre"
  shows "km_mem s a = n" and "blk_size s a = n" and "32 \<le> n" and "0 < a"
    and "lseg (km_mem s) (blk_next s a) (frees (a + n) post) 0"
proof -
  show n: "km_mem s a = n" "32 \<le> n" "0 < a" using assms by (auto simp: tiled_def blocks_ok_append)
  have "16 dvd n" using assms by (auto simp: tiled_def blocks_ok_append)
  then show "blk_size s a = n" using n by (auto simp: blk_size_def elim!: dvdE)
  show "lseg (km_mem s) (blk_next s a) (frees (a + n) post) 0"
    using assms by (auto simp: tiled_def frees_append lseg_append blk_next_def add.assoc)
qed

lemma merge_next_tiled:
  assumes t: "tiled s (pre @ Free k # post)" and a: "a = km_pool s + span pre"
  shows "tiled (merge_next a s) (pre @ cons_free k post)"
    and "km_pool (merge_next a s) = km_pool s" and "km_used_bytes (merge_next a s) = km_used_bytes s"
proof -
  note fc = free_cell [OF t a]
  show "tiled (merge_next a s) (pre @ cons_free k post)"
  proof (cases "\<exists>j post'. post = Free j # post'")
    case True
    then obtain j post' where post: "post = Free j # post'" by blast
    have nx: "blk_next s a = a + k" using fc(5) post by simp
    have t2: "tiled s ((pre @ [Free k]) @ Free j # post')" using t post by simp
    have j: "blk_size s (a + k) = j" "32 \<le> j" using free_cell [OF t2, of "a + k"] a by (simp_all add: add.assoc)
    have "merge_next a s = st (a + 4) (km_mem s (a + k + 4)) (st a (k + j) s)"
      using fc nx j by (simp add: merge_next_def Let_def blk_next_def)
    then show ?thesis using merge_tiled [of s pre k j post'] t a post by simp
  next
    case False
    have "blk_next s a = 0 \<or> a + k < blk_next s a"
    proof (cases "frees (a + k) post")
      case Nil
      then show ?thesis using fc(5) by simp
    next
      case (Cons x xs)
      then have nx: "blk_next s a = x" using fc(5) by simp
      have ok: "blocks_ok (km_mem s) (a + k) post" using t a by (simp add: tiled_def blocks_ok_append add.assoc)
      obtain n r post' where post: "post = Used n r # post'" using False Cons by (cases post; cases "hd post") auto
      then have "x \<in> set (frees (a + k + n) post')" "blocks_ok (km_mem s) (a + k + n) post'" "32 \<le> n"
        using Cons ok by auto
      then show ?thesis using frees_range nx by fastforce
    qed
    then have "merge_next a s = s" using fc(2) by (auto simp: merge_next_def)
    moreover have "cons_free k post = Free k # post" using False by (cases post; cases "hd post") auto
    ultimately show ?thesis using t by simp
  qed
  show "km_pool (merge_next a s) = km_pool s" "km_used_bytes (merge_next a s) = km_used_bytes s"
    by (simp_all add: merge_next_def Let_def)
qed

lemma merge_prev_tiled:
  assumes t: "tiled s (pre @ Free n # post)" and a: "a = km_pool s + span pre"
    and prev: "prev = last (0 # frees (km_pool s) pre)"
  shows "\<exists>pre' k s'. merge_prev a n prev s = (km_pool s + span pre', s') \<and> tiled s' (pre' @ Free k # post) \<and>
    km_pool s' = km_pool s \<and> km_used_bytes s' = km_used_bytes s \<and> release_blk pre n post = pre' @ cons_free k post"
proof (cases "\<exists>m pre0. pre = pre0 @ [Free m]")
  case True
  then obtain m pre0 where pre: "pre = pre0 @ [Free m]" by blast
  define p where "p = km_pool s + span pre0"
  have pv: "prev = p" using prev by (simp add: pre frees_append p_def)
  have t1: "tiled s (pre0 @ Free m # Free n # post)" using t by (simp add: pre)
  note fc = free_cell [OF t1 p_def]
  have am: "a = p + m" using a by (simp add: pre p_def)
  have n: "0 < n" using free_cell(3) [OF t a] by simp
  have "merge_prev a n prev s = (p, st (p + 4) (km_mem s (p + m + 4)) (st p (m + n) s))"
    using pv fc am by (simp add: merge_prev_def Let_def blk_next_def)
  moreover have "tiled (st (p + 4) (km_mem s (p + m + 4)) (st p (m + n) s)) (pre0 @ Free (m + n) # post)"
    using merge_tiled [of s pre0 m n post p] t1 p_def by simp
  ultimately show ?thesis
    by (intro exI [of _ pre0] exI [of _ "m + n"]) (simp add: pre release_blk_def p_def)
next
  case False
  have ok: "blocks_ok (km_mem s) (km_pool s) pre" using t by (simp add: tiled_def blocks_ok_append)
  have "merge_prev a n prev s = (a, s)"
  proof (cases "frees (km_pool s) pre = []")
    case True
    then show ?thesis using prev by (simp add: merge_prev_def)
  next
    case ne: False
    then have pv: "prev = last (frees (km_pool s) pre)" using prev by simp
    have "\<not> (pre \<noteq> [] \<and> is_Free (last pre))"
      using False by (metis append_butlast_last_id blk.collapse(1))
    then have "prev + km_mem s prev \<noteq> a" using last_free_adjacent(1) [OF ok ne] pv a by simp
    moreover have "16 dvd km_mem s prev" using frees_mem [OF ok, of prev] ne pv by simp
    ultimately show ?thesis by (auto simp: merge_prev_def blk_size_def elim!: dvdE)
  qed
  moreover have "release_blk pre n post = pre @ cons_free n post"
    using False by (cases pre rule: rev_cases) (auto simp: release_blk_def split: blk.splits)
  ultimately show ?thesis using t a by auto
qed

lemma km_insert_pos_lseg:
  assumes "lseg (km_mem s) cur xs c" and "\<forall>x \<in> set xs. x \<noteq> 0 \<and> x < b" and "c = 0 \<or> b \<le> c"
  shows "km_insert_pos s b prev cur = Some (last (prev # xs), c)"
  using assms
proof (induction xs arbitrary: cur prev)
  case Nil
  then show ?case by (subst km_insert_pos.simps) auto
next
  case (Cons x xs)
  have "km_insert_pos s b x (km_mem s (x + 4)) = Some (last (x # xs), c)"
    using Cons.IH [of "km_mem s (x + 4)" x] Cons.prems by simp
  then show ?case using Cons.prems by (subst km_insert_pos.simps) (simp add: blk_next_def)
qed

lemma coalesced_cons_free:
  "coalesced post \<Longrightarrow> coalesced pre \<Longrightarrow> pre = [] \<or> \<not> is_Free (last pre) \<Longrightarrow> coalesced (pre @ cons_free k post)"
  by (cases "(k, post)" rule: cons_free.cases)
    (auto simp: coalesced_def successively_append_iff successively_Cons)

lemma coalesced_release:
  assumes "coalesced (pre @ Used n r # post)"
  shows "coalesced (release_blk pre n post)"
proof -
  have c: "coalesced pre" "coalesced post"
    using assms by (auto simp: coalesced_def successively_append_iff successively_Cons)
  show ?thesis
  proof (cases "\<exists>m pre0. pre = pre0 @ [Free m]")
    case True
    then obtain m pre0 where pre: "pre = pre0 @ [Free m]" by blast
    then have "coalesced pre0" "pre0 = [] \<or> \<not> is_Free (last pre0)"
      using c(1) by (auto simp: coalesced_def successively_append_iff)
    then show ?thesis using coalesced_cons_free [OF c(2)] by (simp add: pre release_blk_def)
  next
    case False
    then have "pre = [] \<or> \<not> is_Free (last pre)" by (metis append_butlast_last_id blk.collapse(1))
    moreover have "release_blk pre n post = pre @ cons_free n post"
      using False by (cases pre rule: rev_cases) (auto simp: release_blk_def split: blk.splits)
    ultimately show ?thesis using coalesced_cons_free [OF c(2,1)] by simp
  qed
qed

lemma used_bytes_release: "used_bytes (release_blk pre n post) = used_bytes pre + used_bytes post"
proof -
  have c: "used_bytes (cons_free k post) = used_bytes post" for k by (cases "(k, post)" rule: cons_free.cases) simp_all
  show ?thesis
    by (cases pre rule: rev_cases) (auto simp: release_blk_def used_bytes_append c split: blk.splits)
qed

lemma kfree_check_passes:
  assumes t: "tiled s (pre @ Used n req # post)" and a: "a = km_pool s + span pre"
  shows "kfree_check a s = None" and "blk_size s a = n"
proof -
  have b: "16 dvd n" "32 \<le> n" "km_mem s a = n + 1" "km_mem s (a + 4) = req" "km_mem s (a + 8) = KM_MAGIC"
      "km_mem s (a + 16 + round_up req 4) = KM_TAIL_MAGIC" "0 < req" "req \<le> KM_POOL_SIZE" "16 + round_up req 4 + 4 \<le> n"
      "span pre + n + span post = KM_POOL_SIZE"
    using t a by (auto simp: tiled_def blocks_ok_append)
  show bs: "blk_size s a = n" using b(1,3) by (auto simp: blk_size_def elim!: dvdE)
  have nf: "\<not> blk_is_free s a" using b(1,3) by (auto simp: blk_is_free_def elim!: dvdE)
  have in_pool: "\<not> (a < km_pool s \<or> a \<ge> km_pool s + KM_POOL_SIZE)" "\<not> (n < 16 \<or> n > KM_POOL_SIZE \<or> a + n > km_pool s + KM_POOL_SIZE)"
    using b(2,10) unfolding a by linarith+
  show "kfree_check a s = None"
    unfolding kfree_check_def Let_def bs km_magic_of_def km_req_of_def km_tail_of_def b(4,5) if_not_P [OF in_pool(1)]
      if_not_P [OF in_pool(2)] using nf b by simp
qed

lemma kfree_refines:
  assumes r: "represents s (pre @ Used n req # post)" and a: "a = km_pool s + span pre"
  shows "\<exists>s'. kfree (a + 16) s = Some (Inr s') \<and> represents s' (release_blk pre n post) \<and> km_pool s' = km_pool s"
proof -
  have t: "tiled s (pre @ [Used n req] @ post)" and co: "coalesced (pre @ Used n req # post)"
    and us: "km_used_bytes s = used_bytes pre + n + used_bytes post"
    using r by (simp_all add: represents_def used_bytes_append)
  have ok: "blocks_ok (km_mem s) (km_pool s) pre" "blocks_ok (km_mem s) (a + n) post" "16 dvd n" "32 \<le> n" "0 < km_pool s"
    using t a by (auto simp: tiled_def blocks_ok_append add.assoc)
  define s1 where "s1 = s\<lparr>km_used_bytes := km_used_bytes s - n\<rparr>"
  have t1: "tiled s1 (pre @ [Used n req] @ post)" using t by (simp add: s1_def)
  obtain c where c: "lseg (km_mem s1) (km_head s1) (frees (km_pool s) pre) c" "lseg (km_mem s1) c (frees (a + n) post) 0"
    using t a by (auto simp: tiled_def frees_append lseg_append add.assoc s1_def)
  have cc: "c = 0 \<or> a \<le> c"
    using c(2) frees_range [OF ok(2)] by (cases "frees (a + n) post") fastforce+
  define prev where "prev = last (0 # frees (km_pool s) pre)"
  have pos: "km_insert_pos s1 a 0 (km_head s1) = Some (prev, c)"
    unfolding prev_def
    by (rule km_insert_pos_lseg [OF c(1) _ cc]) (use frees_range [OF ok(1)] a ok(5) in fastforce)
  then have pos': "km_insert_pos s1 a 0 (km_head s) = Some (prev, c)" by (simp add: s1_def)
  define s3 where "s3 = st (a + 4) c (st a n s1)"
  have s2: "km_insert a n prev c s1 = set_link prev a s3" by (simp add: km_insert_def s3_def)
  have fr: "\<forall>x. \<not> (a \<le> x \<and> x < a + span [Used n req]) \<longrightarrow> km_mem s3 x = km_mem s1 x"
    using ok(4) by (simp add: s3_def)
  have l2: "lseg (km_mem s3) a (frees a [Free n] @ frees (a + span [Used n req]) post) 0"
    using lseg_frame [OF c(2), of "km_mem s3"] frees_range [OF ok(2)] ok(4) by (fastforce simp: s3_def)
  have t2: "tiled (set_link prev a s3) (pre @ [Free n] @ post)"
    by (rule tiled_relink(1) [OF t1 _ _ _ _ fr _ l2])
      (use ok a in \<open>simp_all add: s3_def s1_def prev_def\<close>)
  have p2: "km_pool (set_link prev a s3) = km_pool s" "km_used_bytes (set_link prev a s3) = km_used_bytes s - n"
    by (simp_all add: s3_def s1_def)
  obtain pre' k s4 where m: "merge_prev a n prev (set_link prev a s3) = (km_pool s + span pre', s4)"
      "tiled s4 (pre' @ Free k # post)" "km_pool s4 = km_pool s" "km_used_bytes s4 = km_used_bytes s - n"
      "release_blk pre n post = pre' @ cons_free k post"
    using merge_prev_tiled [OF t2 [unfolded append_Cons append_Nil], unfolded p2, OF a prev_def] by blast
  note mn = merge_next_tiled [OF m(2), of "km_pool s + span pre'", unfolded m(3)]
  have "kfree (a + 16) s = Some (Inr (merge_next (km_pool s + span pre') s4))"
    using kfree_check_passes [OF t [unfolded append_Cons append_Nil] a] pos' m(1)
    by (simp add: kfree_def Let_def s1_def [symmetric] s2)
  moreover have "represents (merge_next (km_pool s + span pre') s4) (release_blk pre n post)"
    using mn m(4,5) us coalesced_release [OF co] used_bytes_release [of pre n post] by (simp add: represents_def)
  ultimately show ?thesis using mn(2) m(3) by auto
qed

section \<open>The audit\<close>

lemma block_bad_used:
  assumes "block_ok (km_mem s) a (Used n req)"
  shows "\<not> block_bad s a" and "\<not> blk_is_free s a" and "blk_size s a = n"
proof -
  have b: "16 dvd n" "32 \<le> n" "km_mem s a = n + 1" "km_mem s (a + 4) = req" "km_mem s (a + 8) = KM_MAGIC"
      "km_mem s (a + 16 + round_up req 4) = KM_TAIL_MAGIC" "0 < req" "req \<le> KM_POOL_SIZE" "16 + round_up req 4 + 4 \<le> n"
    using assms by simp_all
  show bs: "blk_size s a = n" using b(1,3) by (auto simp: blk_size_def elim!: dvdE)
  show "\<not> blk_is_free s a" using b(1,3) by (auto simp: blk_is_free_def elim!: dvdE)
  show "\<not> block_bad s a"
    unfolding block_bad_def Let_def bs km_magic_of_def km_req_of_def km_tail_of_def b(4,5) using b(6-9) by simp
qed

lemma block_ok_step:
  assumes "block_ok (km_mem s) a b"
  shows "blk_size s a = bsize b" and "16 \<le> bsize b" and "\<not> (\<not> blk_is_free s a \<and> block_bad s a)"
proof -
  have "blk_size s a = bsize b \<and> 16 \<le> bsize b \<and> \<not> (\<not> blk_is_free s a \<and> block_bad s a)"
  proof (cases b)
    case (Free n)
    then show ?thesis using assms by (auto simp: blk_size_def blk_is_free_def elim!: dvdE)
  next
    case (Used n req)
    then show ?thesis using assms block_bad_used [of s a n req] by simp
  qed
  then show "blk_size s a = bsize b" "16 \<le> bsize b" "\<not> (\<not> blk_is_free s a \<and> block_bad s a)" by blast+
qed

text \<open>Well-formed blocks are passed over without a complaint.\<close>

lemma audit_skip:
  assumes "blocks_ok (km_mem s) a bs" and "a + span bs \<le> km_pool s + KM_POOL_SIZE" and "km_pool s \<le> a"
  shows "audit_loop s a bad = audit_loop s (a + span bs) bad"
  using assms
proof (induction bs arbitrary: a)
  case Nil
  then show ?case by simp
next
  case (Cons b bs)
  note st = block_ok_step [of s a b]
  have "audit_loop s a bad = audit_loop s (a + bsize b) bad"
    using st Cons.prems by (subst audit_loop.simps) (auto simp: Let_def)
  then show ?case using Cons.IH [of "a + bsize b"] Cons.prems by (simp add: add.assoc)
qed

lemma audit_end: "audit_loop s (km_pool s + KM_POOL_SIZE) bad = bad"
  by (subst audit_loop.simps) simp

section \<open>The interface of a heap\<close>

text \<open>The live allocations of a tiling: pointer and requested size.\<close>

fun live_at :: "nat \<Rightarrow> blk list \<Rightarrow> (nat \<times> nat) set" where
  "live_at a [] = {}"
| "live_at a (Free n # bs) = live_at (a + n) bs"
| "live_at a (Used n req # bs) = insert (a + 16, req) (live_at (a + n) bs)"

lemma live_at_append: "live_at a (xs @ ys) = live_at a xs \<union> live_at (a + span xs) ys"
  by (induction a xs rule: live_at.induct) (simp_all add: add.assoc)

lemma live_at_range: "blocks_ok mem a bs \<Longrightarrow> (p, r) \<in> live_at a bs \<Longrightarrow> a + 16 \<le> p \<and> p < a + span bs"
proof (induction a bs rule: live_at.induct)
  case (3 a n req bs)
  then show ?case by (cases "(p, r) = (a + 16, req)") auto
qed auto

lemma live_at_split: "(p, r) \<in> live_at a bs \<Longrightarrow> \<exists>pre n post. bs = pre @ Used n r # post \<and> p = a + span pre + 16"
proof (induction a bs rule: live_at.induct)
  case (2 a n bs)
  then obtain pre k post where "bs = pre @ Used k r # post" "p = a + n + span pre + 16" by auto
  then show ?case by (intro exI [of _ "Free n # pre"] exI [of _ k] exI [of _ post]) (simp add: add.assoc)
next
  case (3 a n req bs)
  show ?case
  proof (cases "(p, r) = (a + 16, req)")
    case True
    then show ?thesis by (intro exI [of _ "[]"] exI [of _ n] exI [of _ bs]) simp
  next
    case False
    then obtain pre k post where "bs = pre @ Used k r # post" "p = a + n + span pre + 16" using 3 by auto
    then show ?thesis by (intro exI [of _ "Used n req # pre"] exI [of _ k] exI [of _ post]) (simp add: add.assoc)
  qed
qed simp

lemma live_at_cons_free: "live_at a (cons_free k post) = live_at (a + k) post"
  by (cases "(k, post)" rule: cons_free.cases) (simp_all add: add.assoc)

lemma live_at_release: "live_at a (release_blk pre n post) = live_at a pre \<union> live_at (a + span pre + n) post"
  by (cases pre rule: rev_cases) (auto simp: release_blk_def live_at_append live_at_cons_free add.assoc split: blk.splits)

locale heap =
  fixes rep :: "'s \<Rightarrow> 'b \<Rightarrow> bool"
    and live :: "'s \<Rightarrow> 'b \<Rightarrow> (nat \<times> nat) set"
    and alloc :: "nat \<Rightarrow> 's \<Rightarrow> (nat \<times> 's) option"
    and release :: "nat \<Rightarrow> 's \<Rightarrow> (string + 's) option"
  assumes alloc_returns: "rep s b \<Longrightarrow> \<exists>p s' b'. alloc n s = Some (p, s') \<and> rep s' b' \<and>
      (if p = 0 then s' = s \<and> b' = b
       else live s' b' = insert (p, n) (live s b) \<and> p \<notin> fst ` live s b)"
    and release_live: "rep s b \<Longrightarrow> (p, n) \<in> live s b \<Longrightarrow>
      \<exists>s' b'. release p s = Some (Inr s') \<and> rep s' b' \<and> live s' b' = live s b - {(p, n)}"
begin

text \<open>Any number of live pointers can be released, in any order.\<close>

fun release_all :: "nat list \<Rightarrow> 's \<Rightarrow> 's option" where
  "release_all [] s = Some s"
| "release_all (p # ps) s = (case release p s of Some (Inr s') \<Rightarrow> release_all ps s' | _ \<Rightarrow> None)"

lemma release_all_live:
  assumes "rep s b" and "set qs \<subseteq> live s b" and "distinct (map fst qs)"
  shows "\<exists>s' b'. release_all (map fst qs) s = Some s' \<and> rep s' b' \<and> live s' b' = live s b - set qs"
  using assms
proof (induction qs arbitrary: s b)
  case Nil
  then show ?case by auto
next
  case (Cons q qs)
  obtain p n where q: "q = (p, n)" by (cases q)
  obtain s1 b1 where r: "release p s = Some (Inr s1)" "rep s1 b1" "live s1 b1 = live s b - {(p, n)}"
    using release_live [OF Cons.prems(1), of p n] Cons.prems(2) q by auto
  have "set qs \<subseteq> live s1 b1" using r(3) Cons.prems(2,3) q by force
  then obtain s' b' where "release_all (map fst qs) s1 = Some s'" "rep s' b'" "live s' b' = live s1 b1 - set qs"
    using Cons.IH [OF r(2)] Cons.prems(3) by auto
  then show ?case using r q by auto
qed

end

lemma kmalloc_rejects: "sz = 0 \<or> sz > KM_POOL_SIZE \<Longrightarrow> kmalloc sz s = Some (0, s)"
  by (auto simp: kmalloc_def)

interpretation kh: heap represents "\<lambda>s bs. live_at (km_pool s) bs" kmalloc kfree
proof
  fix s bs n
  assume r: "represents s bs"
  show "\<exists>p s' b'. kmalloc n s = Some (p, s') \<and> represents s' b' \<and>
      (if p = 0 then s' = s \<and> b' = bs
       else live_at (km_pool s') b' = insert (p, n) (live_at (km_pool s) bs) \<and> p \<notin> fst ` live_at (km_pool s) bs)"
  proof (cases "n = 0 \<or> n > KM_POOL_SIZE")
    case True
    then show ?thesis using kmalloc_rejects r by auto
  next
    case False
    then have n: "0 < n" "n \<le> KM_POOL_SIZE" by simp_all
    note k = kmalloc_refines [OF r n]
    show ?thesis
    proof (cases "alloc_blk (km_need n) n bs")
      case None
      then show ?thesis using k r by auto
    next
      case (Some q)
      obtain off bs' where q: "q = (off, bs')" by (cases q)
      obtain s' where s': "kmalloc n s = Some (km_pool s + off + 16, s')" "represents s' bs'" "km_pool s' = km_pool s"
        using k Some q by auto
      obtain pre m post where d: "bs = pre @ [Free m] @ post" "off = span pre" "km_need n \<le> m" "bs' = pre @ taken n (km_need n) m @ post"
        using alloc_blk_cases [where need = "km_need n" and req = n and bs = bs] Some q by (auto simp: taken_def)
      let ?a = "km_pool s + span pre"
      have ok: "blocks_ok (km_mem s) (km_pool s) pre" "blocks_ok (km_mem s) (?a + m) post" "32 \<le> m"
        using r by (auto simp: represents_def tiled_def d(1) blocks_ok_append add.assoc)
      have "live_at (km_pool s') bs' = insert (?a + 16, n) (live_at (km_pool s) bs)"
        using d(3) by (simp add: s'(3) d(1,4) live_at_append taken_def add.assoc)
      moreover have "?a + 16 \<notin> fst ` live_at (km_pool s) bs"
        using live_at_range [OF ok(1)] live_at_range [OF ok(2)] ok(3) by (fastforce simp: d(1) live_at_append)
      ultimately show ?thesis using s' d(2) by auto
    qed
  qed
next
  fix s bs p n
  assume r: "represents s bs" and l: "(p, n) \<in> live_at (km_pool s) bs"
  obtain pre k post where d: "bs = pre @ Used k n # post" "p = km_pool s + span pre + 16" using live_at_split [OF l] by blast
  let ?a = "km_pool s + span pre"
  obtain s' where s': "kfree (?a + 16) s = Some (Inr s')" "represents s' (release_blk pre k post)" "km_pool s' = km_pool s"
    using kfree_refines [OF r [unfolded d(1)] refl] by blast
  have ok: "blocks_ok (km_mem s) (km_pool s) pre" "blocks_ok (km_mem s) (?a + k) post" "32 \<le> k"
    using r by (auto simp: represents_def tiled_def d(1) blocks_ok_append add.assoc)
  have "(p, n) \<notin> live_at (km_pool s) pre" "(p, n) \<notin> live_at (?a + k) post"
    using live_at_range [OF ok(1), of p n] live_at_range [OF ok(2), of p n] d(2) ok(3) by auto
  then have "live_at (km_pool s') (release_blk pre k post) = live_at (km_pool s) bs - {(p, n)}"
    by (auto simp: s'(3) live_at_release d live_at_append add.assoc)
  then show "\<exists>s' b'. kfree p s = Some (Inr s') \<and> represents s' b' \<and> live_at (km_pool s') b' = live_at (km_pool s) bs - {(p, n)}"
    using s' d(2) by auto
qed

section \<open>Properties of the heap\<close>

lemma span_dvd: "blocks_ok mem a bs \<Longrightarrow> 16 dvd span bs"
proof (induction bs arbitrary: a)
  case (Cons b bs)
  then show ?case using blocks_ok_size [OF Cons.prems, of b] by (auto intro!: dvd_add)
qed simp

text \<open>C9: \<open>kmalloc\<close> always returns, and allocates first fit. On a well-formed heap it returns
  NULL and changes nothing when the request is 0, exceeds the pool or no free block is large
  enough; otherwise it takes the first free block that holds the request with its header and
  canary, returns a 16-byte aligned pointer whose \<open>sz\<close> bytes and canary lie inside that block,
  splits off the rest when it is worth it, and leaves a well-formed heap.\<close>

theorem kmalloc_first_fit:
  assumes "represents s bs"
  shows "\<exists>p s'. kmalloc sz s = Some (p, s') \<and>
    (if sz = 0 \<or> sz > KM_POOL_SIZE \<or> (\<forall>n. Free n \<in> set bs \<longrightarrow> n < km_need sz) then p = 0 \<and> s' = s
     else \<exists>pre n post. bs = pre @ [Free n] @ post \<and> (\<forall>m. Free m \<in> set pre \<longrightarrow> m < km_need sz) \<and>
       sz + 20 \<le> km_need sz \<and> km_need sz \<le> n \<and>
       p = km_pool s + span pre + 16 \<and> 16 dvd p \<and>
       represents s' (pre @ (if n - km_need sz \<ge> 32 then [Used (km_need sz) sz, Free (n - km_need sz)] else [Used n sz]) @ post))"
proof (cases "sz = 0 \<or> sz > KM_POOL_SIZE")
  case True
  then show ?thesis using kmalloc_rejects by auto
next
  case False
  then have sz: "0 < sz" "sz \<le> KM_POOL_SIZE" by simp_all
  note k = kmalloc_refines [OF assms sz] and c = alloc_blk_cases [where need = "km_need sz" and req = sz and bs = bs]
  show ?thesis
  proof (cases "alloc_blk (km_need sz) sz bs")
    case None
    then show ?thesis using k c by auto
  next
    case (Some q)
    obtain off bs' where q: "q = (off, bs')" by (cases q)
    obtain s' where s': "kmalloc sz s = Some (km_pool s + off + 16, s')" "represents s' bs'" using k Some q by auto
    obtain pre n post where d: "bs = pre @ [Free n] @ post" "off = span pre" "\<forall>m. Free m \<in> set pre \<longrightarrow> m < km_need sz"
        "km_need sz \<le> n" "bs' = pre @ (if n - km_need sz \<ge> 32 then [Used (km_need sz) sz, Free (n - km_need sz)] else [Used n sz]) @ post"
      using c Some q by auto
    have ok: "blocks_ok (km_mem s) (km_pool s) pre" "16 dvd km_pool s"
      using assms by (simp_all add: represents_def tiled_def d(1) blocks_ok_append)
    have "16 dvd span pre" by (rule span_dvd [OF ok(1)])
    then have al: "16 dvd km_pool s + span pre + 16" using ok(2) by simp
    have nf: "sz + 20 \<le> km_need sz" using km_need_facts(3,5) [OF sz] by simp
    have "\<not> (sz = 0 \<or> sz > KM_POOL_SIZE \<or> (\<forall>m. Free m \<in> set bs \<longrightarrow> m < km_need sz))"
      using False d(1,4) by (auto simp: not_less)
    then show ?thesis
      by (intro exI [of _ "km_pool s + off + 16"] exI [of _ s'] conjI [OF s'(1)])
        (simp only: if_False,
         rule exI [of _ pre], rule exI [of _ n], rule exI [of _ post], use s'(2) d al nf in blast)
  qed
qed

definition heap0 :: kheap where
  "heap0 = kmalloc_init \<lparr>km_pool = 0x100000, km_mem = \<lambda>_. 0, km_head = 0, km_used_bytes = 0\<rparr>"

lemma init_represents:
  assumes "0 < km_pool s" and "16 dvd km_pool s" and "km_pool s + KM_POOL_SIZE < 2 ^ 32"
  shows "represents (kmalloc_init s) [Free KM_POOL_SIZE]"
  using assms by (simp add: represents_def tiled_def kmalloc_init_def coalesced_def)

lemma heap0_represents: "represents heap0 [Free KM_POOL_SIZE]" "km_pool heap0 = 0x100000"
  unfolding heap0_def by (rule init_represents) (simp_all add: kmalloc_init_def)

theorem kmalloc_first_fit_witness:
  "\<exists>s'. kmalloc 100 heap0 = Some (0x100010, s') \<and> represents s' [Used 128 100, Free 393088] \<and>
    kmalloc 0xFFFFFFF0 heap0 = Some (0, heap0)"
proof -
  have n: "km_need 100 = 128" by (simp add: km_need_def round_up_def)
  obtain p s' where k: "kmalloc 100 heap0 = Some (p, s')"
      "p = 0x100010 \<and> represents s' [Used 128 100, Free 393088]"
    using kmalloc_first_fit [OF heap0_represents(1), of 100] by (auto simp: n heap0_represents(2) Cons_eq_append_conv)
  moreover have "kmalloc 0xFFFFFFF0 heap0 = Some (0, heap0)"
    using kmalloc_first_fit [OF heap0_represents(1), of "0xFFFFFFF0"] by auto
  ultimately show ?thesis by auto
qed

text \<open>C10: releasing what was just allocated restores the heap: the same tiling of the pool, the
  remainder merged back.\<close>

theorem kmalloc_kfree_roundtrip:
  assumes "represents s bs" and "kmalloc sz s = Some (p, s1)" and "p \<noteq> 0"
  shows "\<exists>s2. kfree p s1 = Some (Inr s2) \<and> represents s2 bs"
proof -
  have sz: "0 < sz" "sz \<le> KM_POOL_SIZE" using assms(2,3) kmalloc_rejects [of sz s] by (auto simp: not_less intro: ccontr)
  note k = kmalloc_refines [OF assms(1) sz]
  obtain off bs' where al: "alloc_blk (km_need sz) sz bs = Some (off, bs')"
    using k assms(2,3) by (cases "alloc_blk (km_need sz) sz bs") auto
  obtain pre n post where d: "bs = pre @ [Free n] @ post" "off = span pre" "km_need sz \<le> n" "bs' = pre @ taken sz (km_need sz) n @ post"
    using alloc_blk_cases [where need = "km_need sz" and req = sz and bs = bs] al by (auto simp: taken_def)
  have s1: "p = km_pool s + span pre + 16" "represents s1 bs'" "km_pool s1 = km_pool s" using k al assms(2) d(2) by auto
  have co: "pre = [] \<or> \<not> is_Free (last pre)" "post = [] \<or> \<not> is_Free (hd post)"
    using assms(1) by (auto simp: represents_def coalesced_def d(1) successively_append_iff successively_Cons)
  obtain k' post' where t: "taken sz (km_need sz) n @ post = Used k' sz # post'" "cons_free k' post' = Free n # post"
  proof (cases "n - km_need sz \<ge> 32")
    case True
    then show ?thesis using that [of "km_need sz" "Free (n - km_need sz) # post"] d(3) by (simp add: taken_def)
  next
    case False
    have "cons_free n post = Free n # post" using co(2) by (cases "(n, post)" rule: cons_free.cases) auto
    then show ?thesis using that [of n post] False by (simp add: taken_def)
  qed
  have "release_blk pre k' post' = bs"
    using co(1) t(2) d(1) by (cases pre rule: rev_cases) (auto simp: release_blk_def split: blk.splits)
  then show ?thesis using kfree_refines [of s1 pre k' sz post'] s1 d(4) t(1) by auto
qed

theorem kmalloc_kfree_roundtrip_witness:
  "\<exists>p s1 s2. kmalloc 100 heap0 = Some (p, s1) \<and> p \<noteq> 0 \<and> kfree p s1 = Some (Inr s2) \<and> represents s2 [Free KM_POOL_SIZE]"
proof -
  have n: "km_need 100 = 128" by (simp add: km_need_def round_up_def)
  obtain p s1 where k: "kmalloc 100 heap0 = Some (p, s1)" "p \<noteq> 0"
    using kmalloc_refines [OF heap0_represents(1), of 100] by (auto simp: n)
  then show ?thesis using kmalloc_kfree_roundtrip [OF heap0_represents(1) k] by blast
qed

text \<open>C11: the canary catches an overrun. The audit of a well-formed heap finds nothing; when a
  client of one live allocation has overwritten the word behind its (rounded) user area, the
  audit reports exactly one damaged block and \<open>kfree\<close> of that pointer panics.\<close>

theorem canary_detects_overrun:
  assumes "represents s (pre @ Used n req # post)" and "a = km_pool s + span pre" and "v \<noteq> KM_TAIL_MAGIC"
  defines "s' \<equiv> st (a + 16 + round_up req 4) v s"
  shows "kmalloc_audit s = 0 \<and> kmalloc_audit s' = 1 \<and>
    kfree (a + 16) s' = Some (Inl ''kfree: heap overflow (tail canary smashed)'')"
proof -
  have t: "tiled s (pre @ Used n req # post)" using assms(1) by (simp add: represents_def)
  have ok: "blocks_ok (km_mem s) (km_pool s) pre" "block_ok (km_mem s) a (Used n req)" "blocks_ok (km_mem s) (a + n) post"
    and sp: "span pre + n + span post = KM_POOL_SIZE"
    using t assms(2) by (auto simp: tiled_def blocks_ok_append add.assoc)
  have b: "32 \<le> n" "16 + round_up req 4 + 4 \<le> n" "0 < req" "req \<le> KM_POOL_SIZE" "km_mem s (a + 4) = req" "km_mem s (a + 8) = KM_MAGIC"
    using ok(2) by simp_all
  have nw: "round_up req 4 \<noteq> 0" using b(3,4) by (simp add: round_up_4)
  have "kmalloc_audit s = audit_loop s (km_pool s + KM_POOL_SIZE) 0"
    using audit_skip [of s "km_pool s" "pre @ Used n req # post" 0] t by (simp add: kmalloc_audit_def tiled_def)
  then have g: "kmalloc_audit s = 0" by (simp add: audit_end)
  have ok1: "blocks_ok (km_mem s') (km_pool s) pre"
    by (rule blocks_ok_frame [OF ok(1)]) (auto simp: s'_def assms(2))
  have ok2: "blocks_ok (km_mem s') (a + n) post"
    by (rule blocks_ok_frame [OF ok(3)]) (use b(2) in \<open>auto simp: s'_def\<close>)
  have cells: "km_mem s' a = km_mem s a" "km_mem s' (a + 4) = req" "km_mem s' (a + 8) = KM_MAGIC"
      "km_mem s' (a + 16 + round_up req 4) = v" "km_pool s' = km_pool s"
    using b by (simp_all add: s'_def)
  have fs: "blk_size s' a = n" "\<not> blk_is_free s' a"
    using block_bad_used(2,3) [OF ok(2)] cells(1) by (simp_all add: blk_size_def blk_is_free_def)
  have bad: "block_bad s' a"
    unfolding block_bad_def Let_def km_magic_of_def km_req_of_def km_tail_of_def cells fs using assms(3) by simp
  have "audit_loop s' (km_pool s') 0 = audit_loop s' a 0"
    using audit_skip [of s' "km_pool s'" pre 0] ok1 sp cells(5) assms(2) by simp
  also have "\<dots> = audit_loop s' (a + n) 1"
    using fs bad sp b(1) cells(5) assms(2) by (subst audit_loop.simps) (simp add: Let_def)
  also have "\<dots> = audit_loop s' (km_pool s' + KM_POOL_SIZE) 1"
  proof -
    have "a + n + span post = km_pool s' + KM_POOL_SIZE" using sp cells(5) assms(2) by simp
    moreover have "audit_loop s' (a + n) 1 = audit_loop s' (a + n + span post) 1"
      by (rule audit_skip [OF ok2]) (use calculation cells(5) assms(2) in simp_all)
    ultimately show ?thesis by metis
  qed
  finally have "kmalloc_audit s' = 1" by (simp add: kmalloc_audit_def audit_end)
  moreover have "kfree_check a s' = Some ''kfree: heap overflow (tail canary smashed)''"
  proof -
    have r: "\<not> (a < km_pool s \<or> a \<ge> km_pool s + KM_POOL_SIZE)" "\<not> (n < 16 \<or> n > KM_POOL_SIZE \<or> a + n > km_pool s + KM_POOL_SIZE)"
      using b(1) sp unfolding assms(2) by linarith+
    show ?thesis
      unfolding kfree_check_def Let_def km_magic_of_def km_req_of_def km_tail_of_def cells(2-5) fs(1)
        if_not_P [OF r(1)] if_not_P [OF fs(2)] if_not_P [OF r(2)] using b assms(3) by simp
  qed
  ultimately show ?thesis using g by (simp add: kfree_def)
qed

theorem canary_detects_overrun_witness:
  "\<exists>s. represents s [Used 128 100, Free 393088] \<and>
     kfree 0x100010 (st (0x100010 + 100) 0 s) = Some (Inl ''kfree: heap overflow (tail canary smashed)'')"
proof -
  have n: "km_need 100 = 128" by (simp add: km_need_def round_up_def)
  obtain s where s: "represents s [Used 128 100, Free 393088]" "km_pool s = 0x100000"
    using kmalloc_refines [OF heap0_represents(1), of 100] by (auto simp: n heap0_represents(2))
  show ?thesis
    using canary_detects_overrun [of s "[]" 128 100 "[Free 393088]" "0x100000" 0] s by (auto simp: round_up_def)
qed

end
