(* ===== verification/Fd.thy ===== *)
theory Fd
  imports EzPrelude
begin

text \<open>
  File descriptors and anonymous pipes, \<open>src/kernel/fd.c\<close>.

  An entry owns its file buffer (\<open>Buf\<close>) or points into the static pipe pool (\<open>PipeP\<close>); the
  lists are the C arrays, so an access outside a buffer or through a null pointer is visible
  and is the outcome \<open>Fault\<close>. What \<open>kmalloc\<close> answers is an argument (\<open>km\<close>: no buffer, or one with
  whatever it holds); the number
  of live heap buffers is counted in \<open>kbufs\<close>. Calls into the file system, the terminal, the
  keyboard and the scheduler's wait queues are recorded as events, and what the file system
  answers is an argument (\<open>fsx\<close>). The loop of a pipe operation runs with interrupts off up to
  \<open>task_sleep\<close>: one pass through it is atomic, and \<open>Sleeps\<close> is the outcome that the task
  went to sleep on the pipe's wait queue, to run the operation again when it is woken.
  Table and name pointers are not null.
\<close>

section \<open>Data\<close>

abbreviation MAX_OPEN_FDS :: nat where "MAX_OPEN_FDS \<equiv> 16"
abbreviation MAX_FD_FILE :: u32 where "MAX_FD_FILE \<equiv> 65536"
abbreviation FD_MAX_NAME :: nat where "FD_MAX_NAME \<equiv> 64"
abbreviation PIPE_MAX :: nat where "PIPE_MAX \<equiv> 16"
abbreviation PIPE_BUF :: nat where "PIPE_BUF \<equiv> 4096"
abbreviation O_ACCMODE :: u32 where "O_ACCMODE \<equiv> 3"
abbreviation O_CREAT :: u32 where "O_CREAT \<equiv> 0x40"
abbreviation O_EXCL :: u32 where "O_EXCL \<equiv> 0x80"
abbreviation O_TRUNC :: u32 where "O_TRUNC \<equiv> 0x200"
abbreviation O_APPEND :: u32 where "O_APPEND \<equiv> 0x400"

datatype fd_type = FD_TYPE_FREE | FD_TYPE_STDIN | FD_TYPE_STDOUT | FD_TYPE_STDERR | FD_TYPE_FILE | FD_TYPE_PIPE

datatype fd_data = NoData | Buf "u8 list" | PipeP nat

record fd_entry =
  ftype :: fd_type
  writable :: bool
  dirty :: bool
  append :: bool
  fsize :: u32
  offset :: u32
  data :: fd_data
  name :: string

type_synonym fd_table = "fd_entry list"

record pipe =
  p_used :: bool
  ref_r :: nat
  ref_w :: nat
  head :: nat
  tail :: nat
  count :: nat
  pbuf :: "u8 list option"
  wq_head :: int

datatype event = Wake nat | Term "u8 list" | KbdBlock | FsDelete string | FsCreate string "u8 list"

record fdsys =
  pipes :: "pipe list"
  kbufs :: nat
  events :: "event list"

record fsx =
  get_file_size :: "string \<Rightarrow> u32"
  read_file :: "string \<Rightarrow> u32 \<Rightarrow> u8 list option"
  create_rc :: "string \<Rightarrow> u8 list \<Rightarrow> int"

datatype 'a outcome = Ret int 'a | Sleeps | Fault

definition emit :: "event \<Rightarrow> fdsys \<Rightarrow> fdsys" where
  "emit ev k = k\<lparr>events := events k @ [ev]\<rparr>"

section \<open>Pipes\<close>

definition set_pipe :: "nat \<Rightarrow> pipe \<Rightarrow> fdsys \<Rightarrow> fdsys" where
  "set_pipe i p k = k\<lparr>pipes := (pipes k)[i := p]\<rparr>"

text \<open>\<open>None\<close> is the result -1.\<close>

fun find_free_pipe :: "pipe list \<Rightarrow> nat \<Rightarrow> nat option" where
  "find_free_pipe [] i = None"
| "find_free_pipe (p # ps) i = (if \<not> p_used p then Some i else find_free_pipe ps (Suc i))"

definition pipe_alloc :: "(u32 \<Rightarrow> u8 list option) \<Rightarrow> fdsys \<Rightarrow> nat option \<times> fdsys" where
  "pipe_alloc km k =
     (case find_free_pipe (pipes k) 0 of
        None \<Rightarrow> (None, k)
      | Some i \<Rightarrow>
          if km (of_nat PIPE_BUF) = None then (None, k)
          else (Some i, (set_pipe i \<lparr>p_used = True, ref_r = 0, ref_w = 0, head = 0, tail = 0, count = 0,
                 pbuf = Some (replicate PIPE_BUF 0), wq_head = 0\<rparr> k)\<lparr>kbufs := kbufs k + 1\<rparr>))"

definition pipe_free :: "nat \<Rightarrow> fdsys \<Rightarrow> fdsys" where
  "pipe_free i k =
     (let p = pipes k ! i;
          k1 = (if pbuf p \<noteq> None then k\<lparr>kbufs := kbufs k - 1\<rparr> else k)
      in set_pipe i (p\<lparr>pbuf := None, head := 0, tail := 0, count := 0, ref_r := 0, ref_w := 0, p_used := False\<rparr>) k1)"

section \<open>Helpers\<close>

text \<open>The copy loops \<open>for (i = 0; i < n; i++) dst[i] = ...\<close>: \<open>None\<close> when an index is out of range.\<close>

definition buf_read :: "u8 list \<Rightarrow> nat \<Rightarrow> nat \<Rightarrow> u8 list option" where
  "buf_read d off n = (if n = 0 then Some [] else if off + n \<le> length d then Some (take n (drop off d)) else None)"

definition buf_write :: "u8 list \<Rightarrow> nat \<Rightarrow> u8 list \<Rightarrow> u8 list option" where
  "buf_write d off bs =
     (if bs = [] then Some d else if off + length bs \<le> length d then Some (take off d @ bs @ drop (off + length bs) d) else None)"

definition fd_grow :: "(u32 \<Rightarrow> u8 list option) \<Rightarrow> u32 \<Rightarrow> fd_entry \<Rightarrow> fdsys \<Rightarrow> (bool \<times> fd_entry \<times> fdsys) option" where
  "fd_grow km newsize e k =
     (if newsize > MAX_FD_FILE then Some (False, e, k)
      else case km newsize of
        None \<Rightarrow> Some (False, e, k)
      | Some g \<Rightarrow>
          (case (case data e of
                   Buf d \<Rightarrow> if fsize e > 0 then map_option (\<lambda>bs. bs @ drop (unat (fsize e)) g) (buf_read d 0 (unat (fsize e))) else Some g
                 | _ \<Rightarrow> Some g) of
             None \<Rightarrow> None
           | Some nd \<Rightarrow>
               Some (True,
                 e\<lparr>data := Buf (take (unat (fsize e)) nd @ replicate (unat newsize - unat (fsize e)) 0), fsize := newsize\<rparr>,
                 k\<lparr>kbufs := (if data e \<noteq> NoData then kbufs k else kbufs k + 1)\<rparr>)))"

section \<open>Life cycle\<close>

definition free_entry :: fd_entry where
  "free_entry = \<lparr>ftype = FD_TYPE_FREE, writable = False, dirty = False, append = False, fsize = 0, offset = 0,
     data = NoData, name = []\<rparr>"

definition fd_table_init :: fd_table where
  "fd_table_init = (replicate MAX_OPEN_FDS free_entry)
     [0 := free_entry\<lparr>ftype := FD_TYPE_STDIN\<rparr>, 1 := free_entry\<lparr>ftype := FD_TYPE_STDOUT\<rparr>,
      2 := free_entry\<lparr>ftype := FD_TYPE_STDERR\<rparr>]"

text \<open>The first free slot from 3 on.\<close>

definition free_slots :: "fd_table \<Rightarrow> nat list" where
  "free_slots t = filter (\<lambda>i. ftype (t ! i) = FD_TYPE_FREE) [3..<MAX_OPEN_FDS]"

definition fd_open :: "fsx \<Rightarrow> (u32 \<Rightarrow> u8 list option) \<Rightarrow> string \<Rightarrow> u32 \<Rightarrow> fd_table \<Rightarrow> fdsys \<Rightarrow> int \<times> fd_table \<times> fdsys" where
  "fd_open fs km nm f t k =
     (if nm = [] then (-1, t, k)
      else if f AND O_ACCMODE \<noteq> 0 \<and> f AND O_ACCMODE \<noteq> 1 \<and> f AND O_ACCMODE \<noteq> 2 then (-1, t, k)
      else if f AND NOT (O_ACCMODE OR O_CREAT OR O_EXCL OR O_TRUNC OR O_APPEND) \<noteq> 0 then (-1, t, k)
      else
        let writing = (f AND O_ACCMODE \<noteq> 0); sz0 = get_file_size fs nm; exists' = (sz0 > 0) in
        if length nm \<ge> FD_MAX_NAME then (-1, t, k)
        else if \<not> exists' \<and> f AND O_CREAT = 0 then (-1, t, k)
        else if \<not> exists' \<and> \<not> writing then (-1, t, k)
        else if exists' \<and> f AND O_CREAT \<noteq> 0 \<and> f AND O_EXCL \<noteq> 0 then (-1, t, k)
        else if sz0 > MAX_FD_FILE then (-1, t, k)
        else
          let sz = (if f AND O_TRUNC \<noteq> 0 \<and> writing then 0 else sz0) in
          case free_slots t of
            [] \<Rightarrow> (-1, t, k)
          | slot # _ \<Rightarrow>
              let entry = (\<lambda>d. \<lparr>ftype = FD_TYPE_FILE, writable = writing, dirty = False, append = (f AND O_APPEND \<noteq> 0),
                            fsize = sz, offset = 0, data = d, name = nm\<rparr>)
              in if sz > 0 then
                   if km sz = None then (-1, t, k)
                   else case read_file fs nm sz of
                     None \<Rightarrow> (-1, t, k)
                   | Some d \<Rightarrow> (int slot, t[slot := entry (Buf d)], k\<lparr>kbufs := kbufs k + 1\<rparr>)
                 else (int slot, t[slot := entry NoData], k))"

definition valid_fd :: "int \<Rightarrow> bool" where
  "valid_fd fd \<longleftrightarrow> 0 \<le> fd \<and> fd < int MAX_OPEN_FDS"

definition close_pipe_end :: "fd_entry \<Rightarrow> nat \<Rightarrow> fdsys \<Rightarrow> fdsys" where
  "close_pipe_end e i k =
     (let p = pipes k ! i;
          p1 = (if writable e then (if ref_w p > 0 then p\<lparr>ref_w := ref_w p - 1\<rparr> else p)
                else (if ref_r p > 0 then p\<lparr>ref_r := ref_r p - 1\<rparr> else p));
          k1 = set_pipe i p1 k;
          k2 = (if ref_r p1 = 0 \<and> ref_w p1 = 0 then pipe_free i k1 else k1)
      in emit (Wake i) k2)"

text \<open>Neither path of \<open>fd_close\<close> resets \<open>append\<close>.\<close>

definition closed_entry :: "fd_entry \<Rightarrow> fd_entry" where
  "closed_entry e = free_entry\<lparr>append := append e\<rparr>"

definition fd_close :: "fsx \<Rightarrow> int \<Rightarrow> fd_table \<Rightarrow> fdsys \<Rightarrow> int \<times> fd_table \<times> fdsys" where
  "fd_close fs fd t k =
     (if \<not> valid_fd fd then (-1, t, k)
      else let i = nat fd; e = t ! i in
      case ftype e of
        FD_TYPE_FREE \<Rightarrow> (-1, t, k)
      | FD_TYPE_PIPE \<Rightarrow>
          (0, t[i := closed_entry e], case data e of PipeP pi \<Rightarrow> close_pipe_end e pi k | _ \<Rightarrow> k)
      | FD_TYPE_FILE \<Rightarrow>
          let content = (case data e of Buf d \<Rightarrow> take (unat (fsize e)) d | _ \<Rightarrow> []);
              flush = dirty e \<and> name e \<noteq> [];
              k1 = (if flush then emit (FsCreate (name e) content) (emit (FsDelete (name e)) k) else k);
              rc = (if flush then create_rc fs (name e) content else 0);
              k2 = (if data e \<noteq> NoData then k1\<lparr>kbufs := kbufs k1 - 1\<rparr> else k1)
          in (rc, t[i := closed_entry e], k2)
      | _ \<Rightarrow> (-1, t, k))"

text \<open>The result, and the two descriptors written to the user.\<close>

definition fd_pipe :: "(u32 \<Rightarrow> u8 list option) \<Rightarrow> fd_table \<Rightarrow> fdsys \<Rightarrow> int \<times> (nat \<times> nat) option \<times> fd_table \<times> fdsys" where
  "fd_pipe km t k =
     (case pipe_alloc km k of
        (None, k1) \<Rightarrow> (-1, None, t, k1)
      | (Some i, k1) \<Rightarrow>
          (case free_slots t of
             rfd # wfd # _ \<Rightarrow>
               let k2 = set_pipe i ((pipes k1 ! i)\<lparr>p_used := True, ref_r := 1, ref_w := 1, head := 0, tail := 0,
                          count := 0, wq_head := -1\<rparr>) k1;
                   end' = (\<lambda>e w. e\<lparr>ftype := FD_TYPE_PIPE, writable := w, dirty := False, fsize := 0, offset := 0,
                            data := PipeP i, name := []\<rparr>);
                   t1 = t[rfd := end' (t ! rfd) False];
                   t2 = t1[wfd := end' (t1 ! wfd) True]
               in (0, Some (rfd, wfd), t2, k2)
           | _ \<Rightarrow> (-1, None, t, pipe_free i k1)))"

section \<open>Reading and writing\<close>

text \<open>
  The keyboard loop: \<open>keys\<close> are the successive results of \<open>keyboard_getchar\<close>; when they run
  out the task is still blocked. The result is the bytes read and how often it blocked.
\<close>

fun stdin_loop :: "int list \<Rightarrow> nat \<Rightarrow> u8 list \<Rightarrow> nat \<Rightarrow> (u8 list \<times> nat) option" where
  "stdin_loop keys n acc blocks =
     (if length acc \<ge> n then Some (acc, blocks)
      else case keys of
        [] \<Rightarrow> None
      | c # cs \<Rightarrow>
          if c = 0 then (if acc \<noteq> [] then Some (acc, blocks) else stdin_loop cs n acc (blocks + 1))
          else stdin_loop cs n (acc @ [word_of_int c]) blocks)"

text \<open>One pass of the pipe read loop with interrupts off.\<close>

definition pipe_read_step :: "nat \<Rightarrow> nat \<Rightarrow> fdsys \<Rightarrow> (u8 list \<times> fdsys) outcome" where
  "pipe_read_step i n k =
     (let p = pipes k ! i in
      if count p > 0 then
        let m = (if n < count p then n else count p) in
        case pbuf p of
          None \<Rightarrow> Fault
        | Some b \<Rightarrow>
            let bs = map (\<lambda>j. b ! ((tail p + j) mod PIPE_BUF)) [0..<m];
                p1 = p\<lparr>tail := (tail p + m) mod PIPE_BUF, count := count p - m\<rparr>
            in Ret (int m) (bs, emit (Wake i) (set_pipe i p1 k))
      else if ref_w p = 0 then Ret 0 ([], k)
      else Sleeps)"

fun ring_store :: "u8 list \<Rightarrow> nat \<Rightarrow> u8 list \<Rightarrow> u8 list" where
  "ring_store b h [] = b"
| "ring_store b h (x # xs) = ring_store (b[h mod PIPE_BUF := x]) (h + 1) xs"

definition pipe_write_step :: "nat \<Rightarrow> u8 list \<Rightarrow> fdsys \<Rightarrow> fdsys outcome" where
  "pipe_write_step i bs k =
     (let p = pipes k ! i; n = length bs in
      if ref_r p = 0 then Ret (-1) k
      else if count p < PIPE_BUF then
        let room = PIPE_BUF - count p; m = (if n < room then n else room) in
        case pbuf p of
          None \<Rightarrow> Fault
        | Some b \<Rightarrow>
            let p1 = p\<lparr>pbuf := Some (ring_store b (head p) (take m bs)), head := (head p + m) mod PIPE_BUF, count := count p + m\<rparr>
            in Ret (int m) (emit (Wake i) (set_pipe i p1 k))
      else Sleeps)"

definition fd_read :: "int list \<Rightarrow> int \<Rightarrow> u32 \<Rightarrow> fd_table \<Rightarrow> fdsys \<Rightarrow> (u8 list \<times> fd_table \<times> fdsys) outcome" where
  "fd_read keys fd n t k =
     (if \<not> valid_fd fd then Ret (-1) ([], t, k)
      else let e = t ! nat fd in
      case ftype e of
        FD_TYPE_STDIN \<Rightarrow>
          (case stdin_loop keys (unat n) [] 0 of
             None \<Rightarrow> Sleeps
           | Some (bs, blocks) \<Rightarrow> Ret (int (length bs)) (bs, t, (emit KbdBlock ^^ blocks) k))
      | FD_TYPE_PIPE \<Rightarrow>
          (case data e of
             PipeP i \<Rightarrow>
               if writable e then Ret (-1) ([], t, k)
               else if n = 0 then Ret 0 ([], t, k)
               else (case pipe_read_step i (unat n) k of
                       Ret r (bs, k1) \<Rightarrow> Ret r (bs, t, k1) | Sleeps \<Rightarrow> Sleeps | Fault \<Rightarrow> Fault)
           | _ \<Rightarrow> Ret (-1) ([], t, k))
      | FD_TYPE_FILE \<Rightarrow>
          if offset e \<ge> fsize e then Ret 0 ([], t, k)
          else
            let avail = fsize e - offset e; m = (if n < avail then n else avail) in
            (case (case data e of Buf d \<Rightarrow> buf_read d (unat (offset e)) (unat m)
                   | _ \<Rightarrow> if m = 0 then Some [] else None) of
               None \<Rightarrow> Fault
             | Some bs \<Rightarrow> Ret (int (unat m)) (bs, t[nat fd := e\<lparr>offset := offset e + m\<rparr>], k))
      | _ \<Rightarrow> Ret (-1) ([], t, k))"

text \<open>The user buffer is \<open>bs\<close>; its length is the argument \<open>n\<close>.\<close>

definition fd_write :: "(u32 \<Rightarrow> u8 list option) \<Rightarrow> int \<Rightarrow> u8 list \<Rightarrow> fd_table \<Rightarrow> fdsys \<Rightarrow> (fd_table \<times> fdsys) outcome" where
  "fd_write km fd bs t k =
     (if \<not> valid_fd fd then Ret (-1) (t, k)
      else let i = nat fd; e = t ! i; n = of_nat (length bs) :: u32 in
      case ftype e of
        FD_TYPE_STDOUT \<Rightarrow> Ret (int (length bs)) (t, emit (Term bs) k)
      | FD_TYPE_STDERR \<Rightarrow> Ret (int (length bs)) (t, emit (Term bs) k)
      | FD_TYPE_PIPE \<Rightarrow>
          (case data e of
             PipeP pi \<Rightarrow>
               if \<not> writable e then Ret (-1) (t, k)
               else if n = 0 then Ret 0 (t, k)
               else (case pipe_write_step pi bs k of
                       Ret r k1 \<Rightarrow> Ret r (t, k1) | Sleeps \<Rightarrow> Sleeps | Fault \<Rightarrow> Fault)
           | _ \<Rightarrow> Ret (-1) (t, k))
      | FD_TYPE_FILE \<Rightarrow>
          if \<not> writable e then Ret (-1) (t, k)
          else if n = 0 then Ret 0 (t, k)
          else
            let e1 = (if append e then e\<lparr>offset := fsize e\<rparr> else e) in
            (case (if offset e1 + n > fsize e1 then fd_grow km (offset e1 + n) e1 k else Some (True, e1, k)) of
               None \<Rightarrow> Fault
             | Some (ok, e2, k1) \<Rightarrow>
                 if \<not> ok then Ret (-1) (t[i := e2], k1)
                 else
                   (case (case data e2 of Buf d \<Rightarrow> buf_write d (unat (offset e2)) bs | _ \<Rightarrow> None) of
                      None \<Rightarrow> Fault
                    | Some d \<Rightarrow> Ret (int (length bs))
                        (t[i := e2\<lparr>data := Buf d, offset := offset e2 + n, dirty := True\<rparr>], k1)))
      | _ \<Rightarrow> Ret (-1) (t, k))"

section \<open>Copying a table\<close>

text \<open>One entry of \<open>fd_table_dup\<close>; the destination starts as a fresh table.\<close>

definition dup_entry :: "(u32 \<Rightarrow> u8 list option) \<Rightarrow> fd_entry \<Rightarrow> fd_entry \<Rightarrow> fdsys \<Rightarrow> fd_entry \<times> fdsys" where
  "dup_entry km s d k =
     (case ftype s of
        FD_TYPE_FREE \<Rightarrow> (d, k)
      | FD_TYPE_PIPE \<Rightarrow>
          (s, case data s of
                PipeP i \<Rightarrow>
                  let p = pipes k ! i in
                  set_pipe i (if writable s then (if ref_w p < 0xFFFF then p\<lparr>ref_w := ref_w p + 1\<rparr> else p)
                              else (if ref_r p < 0xFFFF then p\<lparr>ref_r := ref_r p + 1\<rparr> else p)) k
              | _ \<Rightarrow> k)
      | FD_TYPE_FILE \<Rightarrow>
          (case data s of
             Buf b \<Rightarrow>
               if fsize s > 0 \<and> km (fsize s) \<noteq> None then (s\<lparr>data := Buf (take (unat (fsize s)) b)\<rparr>, k\<lparr>kbufs := kbufs k + 1\<rparr>)
               else (s\<lparr>data := NoData\<rparr>, k)
           | _ \<Rightarrow> (s\<lparr>data := NoData\<rparr>, k))
      | _ \<Rightarrow> (s, k))"

fun dup_entries :: "(u32 \<Rightarrow> u8 list option) \<Rightarrow> fd_entry list \<Rightarrow> fd_entry list \<Rightarrow> fdsys \<Rightarrow> fd_entry list \<times> fdsys" where
  "dup_entries km [] ds k = ([], k)"
| "dup_entries km (s # ss) ds k =
     (let (d, k1) = dup_entry km s (hd ds) k; (ds', k2) = dup_entries km ss (tl ds) k1 in (d # ds', k2))"

definition fd_table_dup :: "(u32 \<Rightarrow> u8 list option) \<Rightarrow> fd_table \<Rightarrow> fdsys \<Rightarrow> fd_table \<times> fdsys" where
  "fd_table_dup km src k = dup_entries km src fd_table_init k"

text \<open>\<open>base + offset\<close> is a 32-bit signed sum; an offset word is read as signed.\<close>

definition fd_lseek :: "int \<Rightarrow> u32 \<Rightarrow> int \<Rightarrow> fd_table \<Rightarrow> int \<times> fd_table" where
  "fd_lseek fd off whence t =
     (if \<not> valid_fd fd then (-1, t)
      else let e = t ! nat fd in
      if ftype e \<noteq> FD_TYPE_FILE then (-1, t)
      else case (if whence = 0 then Some 0 else if whence = 1 then Some (offset e)
                 else if whence = 2 then Some (fsize e) else None) of
        None \<Rightarrow> (-1, t)
      | Some base \<Rightarrow>
          let newoff = base + off in
          if sint newoff < 0 then (-1, t)
          else if newoff > MAX_FD_FILE then (-1, t)
          else (sint newoff, t[nat fd := e\<lparr>offset := newoff\<rparr>]))"

end
