(* ===== verification/Stackchk.thy ===== *)
theory Stackchk
  imports EzPrelude
begin

text \<open>
  The guard of the kernel stacks, \<open>src/kernel/stackchk.c\<close>: 64 guard bytes below the stack, a
  16-byte canary at its base, and a fill pattern above for the high-water mark.
\<close>

section \<open>Operations\<close>

abbreviation KS_GUARD :: nat where "KS_GUARD \<equiv> 64"
abbreviation KS_CANARY :: nat where "KS_CANARY \<equiv> 16"
abbreviation KS_FILL :: u8 where "KS_FILL \<equiv> 0xA5"
abbreviation KS_GUARD_BYTE :: u8 where "KS_GUARD_BYTE \<equiv> 0x5A"

definition KS_CANARY_PAT :: "u8 list" where
  "KS_CANARY_PAT = [0xE7, 0x3C, 0x9A, 0x51, 0xC4, 0x2D, 0x8B, 0x66, 0x1F, 0xD8, 0x45, 0xA2, 0x7E, 0x0B, 0xF3, 0x59]"

definition guard_area :: "u32 \<Rightarrow> u32" where "guard_area base = base - of_nat KS_GUARD"

definition canary_area :: "u32 \<Rightarrow> u32" where "canary_area base = base"

text \<open>A loop that stores \<open>f i\<close> at \<open>a + i\<close> for \<open>i < n\<close>.\<close>

fun store_bytes :: "u32 \<Rightarrow> (nat \<Rightarrow> u8) \<Rightarrow> nat \<Rightarrow> memory \<Rightarrow> memory" where
  "store_bytes a f 0 m = m"
| "store_bytes a f (Suc n) m = (store_bytes a f n m)(a + of_nat n := f n)"

definition stackchk_arm :: "u32 \<Rightarrow> nat \<Rightarrow> memory \<Rightarrow> memory" where
  "stackchk_arm base sz m =
     (if sz \<le> KS_CANARY then m
      else
        let m1 = store_bytes (guard_area base) (\<lambda>_. KS_GUARD_BYTE) KS_GUARD m;
            m2 = store_bytes (canary_area base) (\<lambda>i. KS_CANARY_PAT ! i) KS_CANARY m1
        in store_bytes (base + of_nat KS_CANARY) (\<lambda>_. KS_FILL) (sz - KS_CANARY) m2)"

definition stackchk_broken_layer :: "u32 \<Rightarrow> nat \<Rightarrow> memory \<Rightarrow> int" where
  "stackchk_broken_layer base sz m =
     (if sz \<le> KS_CANARY then 0
      else if list_ex (\<lambda>i. m (guard_area base + of_nat i) \<noteq> KS_GUARD_BYTE) [0..<KS_GUARD] then 1
      else if list_ex (\<lambda>i. m (canary_area base + of_nat i) \<noteq> KS_CANARY_PAT ! i) [0..<KS_CANARY] then 0
      else -1)"

definition stackchk_ok :: "u32 \<Rightarrow> nat \<Rightarrow> memory \<Rightarrow> bool" where
  "stackchk_ok base sz m = (stackchk_broken_layer base sz m = -1)"

text \<open>\<open>while (untouched < n && p[untouched] == KS_FILL) untouched++;\<close>\<close>

function untouched_from :: "memory \<Rightarrow> u32 \<Rightarrow> nat \<Rightarrow> nat \<Rightarrow> nat" where
  "untouched_from m p n u = (if u < n \<and> m (p + of_nat u) = KS_FILL then untouched_from m p n (u + 1) else u)"
  by pat_completeness auto
termination by (relation "measure (\<lambda>(m, p, n, u). n - u)") auto

declare untouched_from.simps [simp del]

definition stackchk_peak :: "u32 \<Rightarrow> nat \<Rightarrow> memory \<Rightarrow> nat" where
  "stackchk_peak base sz m =
     (if sz \<le> KS_CANARY then sz
      else (sz - KS_CANARY) - untouched_from m (base + of_nat KS_CANARY) (sz - KS_CANARY) 0)"

section \<open>Correctness\<close>

lemma store_bytes_out:
  "(\<forall>i < n. x \<noteq> a + of_nat i) \<Longrightarrow> store_bytes a f n m x = m x"
  by (induction a f n m rule: store_bytes.induct) auto

lemma of_nat32_inj: "(of_nat i :: u32) = of_nat j \<Longrightarrow> i < 2 ^ 32 \<Longrightarrow> j < 2 ^ 32 \<Longrightarrow> i = j"
  by (metis unat_of_nat32)

lemma store_bytes_in:
  assumes "n \<le> 2 ^ 32" and "i < n"
  shows "store_bytes a f n m (a + of_nat i) = f i"
  using assms
proof (induction a f n m rule: store_bytes.induct)
  case (2 a f n m)
  then show ?case using of_nat32_inj [of i n] by (cases "i = n") auto
qed simp

text \<open>The three areas of a stack of at least one byte above the canary do not overlap.\<close>

lemma area_disjoint:
  assumes "sz + KS_GUARD < 2 ^ 32"
  shows "i < KS_GUARD \<Longrightarrow> j < sz \<Longrightarrow> guard_area base + of_nat i \<noteq> base + of_nat j"
    and "i < sz \<Longrightarrow> j < sz \<Longrightarrow> base + of_nat i = base + of_nat j \<Longrightarrow> i = j"
proof -
  show "i = j" if "i < sz" "j < sz" "base + of_nat i = base + (of_nat j :: u32)"
    using that assms of_nat32_inj [of i j] by simp
  show "guard_area base + of_nat i \<noteq> base + of_nat j" if "i < KS_GUARD" "j < sz"
  proof
    assume e: "guard_area base + of_nat i = base + of_nat j"
    have "base + of_nat i = guard_area base + of_nat i + 64" by (simp add: guard_area_def)
    also have "\<dots> = base + of_nat j + 64" unfolding e ..
    finally have "(of_nat i :: u32) = of_nat (j + 64)" by (simp add: add.assoc)
    then have "i = j + 64" using of_nat32_inj [of i "j + 64"] that assms by simp
    then show False using that by simp
  qed
qed

lemma armed_cells:
  assumes "KS_CANARY < sz" and "sz + KS_GUARD < 2 ^ 32"
  shows "i < KS_GUARD \<Longrightarrow> stackchk_arm base sz m (guard_area base + of_nat i) = KS_GUARD_BYTE"
    and "i < KS_CANARY \<Longrightarrow> stackchk_arm base sz m (base + of_nat i) = KS_CANARY_PAT ! i"
    and "KS_CANARY \<le> i \<Longrightarrow> i < sz \<Longrightarrow> stackchk_arm base sz m (base + of_nat i) = KS_FILL"
proof -
  note d = area_disjoint [OF assms(2), of _ _ base]
  have sh: "base + of_nat KS_CANARY + of_nat j = base + of_nat (j + KS_CANARY)" for j by (simp add: add.commute)
  show "stackchk_arm base sz m (guard_area base + of_nat i) = KS_GUARD_BYTE" if i: "i < KS_GUARD"
  proof -
    have "\<forall>j < sz - KS_CANARY. guard_area base + of_nat i \<noteq> base + of_nat KS_CANARY + of_nat j"
    proof (intro allI impI)
      fix j assume "j < sz - KS_CANARY"
      then show "guard_area base + of_nat i \<noteq> base + of_nat KS_CANARY + of_nat j" unfolding sh by (intro d(1) [OF i]) simp
    qed
    moreover have "\<forall>j < KS_CANARY. guard_area base + of_nat i \<noteq> canary_area base + of_nat j"
      unfolding canary_area_def using d(1) [OF i] assms(1) by simp
    ultimately show ?thesis using assms i
      by (simp add: stackchk_arm_def Let_def store_bytes_out store_bytes_in del: store_bytes.simps)
  qed
  show "stackchk_arm base sz m (base + of_nat i) = KS_CANARY_PAT ! i" if i: "i < KS_CANARY"
  proof -
    have "\<forall>j < sz - KS_CANARY. base + of_nat i \<noteq> base + of_nat KS_CANARY + of_nat j"
    proof (intro allI impI notI)
      fix j assume j: "j < sz - KS_CANARY" and e: "base + of_nat i = base + of_nat KS_CANARY + of_nat j"
      then have "i = j + KS_CANARY" unfolding sh by (intro d(2)) (use i assms(1) in auto)
      then show False using i by simp
    qed
    then show ?thesis using assms i
      by (simp add: stackchk_arm_def Let_def store_bytes_out store_bytes_in canary_area_def del: store_bytes.simps)
  qed
  show "stackchk_arm base sz m (base + of_nat i) = KS_FILL" if i: "KS_CANARY \<le> i" "i < sz"
  proof -
    have e: "base + of_nat i = base + of_nat KS_CANARY + of_nat (i - KS_CANARY)" unfolding sh using i by simp
    have b: "sz - KS_CANARY \<le> 2 ^ 32" "i - KS_CANARY < sz - KS_CANARY" using i assms by simp_all
    have "\<not> sz \<le> KS_CANARY" using assms(1) by simp
    then show ?thesis
      unfolding stackchk_arm_def Let_def e if_not_P [OF \<open>\<not> sz \<le> KS_CANARY\<close>] by (intro store_bytes_in b)
  qed
qed

lemma untouched_spec:
  assumes "u \<le> n"
  shows "untouched_from m p n u \<le> n \<and> u \<le> untouched_from m p n u \<and>
    (\<forall>i. u \<le> i \<and> i < untouched_from m p n u \<longrightarrow> m (p + of_nat i) = KS_FILL) \<and>
    (untouched_from m p n u < n \<longrightarrow> m (p + of_nat (untouched_from m p n u)) \<noteq> KS_FILL)"
  using assms
proof (induction m p n u rule: untouched_from.induct)
  case (1 m p n u)
  show ?case
  proof (cases "u < n \<and> m (p + of_nat u) = KS_FILL")
    case True
    then have e: "untouched_from m p n u = untouched_from m p n (u + 1)" by (subst untouched_from.simps) simp
    have "m (p + of_nat i) = KS_FILL" if "u \<le> i" "i < untouched_from m p n (u + 1)" for i
      using "1.IH" [OF True] True that by (cases "i = u") auto
    then show ?thesis unfolding e using "1.IH" [OF True] True by auto
  next
    case False
    then show ?thesis using "1.prems" by (subst (1 2 3 4 5) untouched_from.simps) auto
  qed
qed

text \<open>The stack guard tells the truth. On an armed stack whose memory has since changed,
  the check reports layer 1 exactly when a guard byte below the stack changed, layer 0 exactly
  when the guard is intact and a canary byte changed, and intact otherwise; and when the stack
  has been used down to \<open>used\<close> bytes from its top (the deepest one no longer the fill value)
  without reaching the canary, the high-water mark is exactly \<open>used\<close>.\<close>

theorem stackchk_exact:
  assumes "KS_CANARY < sz" and "sz + KS_GUARD < 2 ^ 32" and "a = stackchk_arm base sz m0"
  shows "stackchk_broken_layer base sz m =
      (if \<exists>i < KS_GUARD. m (guard_area base + of_nat i) \<noteq> a (guard_area base + of_nat i) then 1
       else if \<exists>i < KS_CANARY. m (base + of_nat i) \<noteq> a (base + of_nat i) then 0 else -1) \<and>
    (\<forall>used. used \<le> sz - KS_CANARY \<and> (\<forall>i. KS_CANARY \<le> i \<and> i < sz - used \<longrightarrow> m (base + of_nat i) = a (base + of_nat i)) \<and>
       (0 < used \<longrightarrow> m (base + of_nat (sz - used)) \<noteq> KS_FILL) \<longrightarrow> stackchk_peak base sz m = used)"
proof (intro conjI allI impI)
  note c = armed_cells [OF assms(1,2), of _ base m0, folded assms(3)]
  have "(\<exists>i < KS_GUARD. m (guard_area base + of_nat i) \<noteq> a (guard_area base + of_nat i)) \<longleftrightarrow>
      list_ex (\<lambda>i. m (guard_area base + of_nat i) \<noteq> KS_GUARD_BYTE) [0..<KS_GUARD]"
    using c(1) by (auto simp: list_ex_iff)
  moreover have "(\<exists>i < KS_CANARY. m (base + of_nat i) \<noteq> a (base + of_nat i)) \<longleftrightarrow>
      list_ex (\<lambda>i. m (canary_area base + of_nat i) \<noteq> KS_CANARY_PAT ! i) [0..<KS_CANARY]"
    using c(2) by (auto simp: list_ex_iff canary_area_def)
  ultimately show "stackchk_broken_layer base sz m =
      (if \<exists>i < KS_GUARD. m (guard_area base + of_nat i) \<noteq> a (guard_area base + of_nat i) then 1
       else if \<exists>i < KS_CANARY. m (base + of_nat i) \<noteq> a (base + of_nat i) then 0 else -1)"
    unfolding stackchk_broken_layer_def using assms(1) by simp
  fix used
  assume u: "used \<le> sz - KS_CANARY \<and> (\<forall>i. KS_CANARY \<le> i \<and> i < sz - used \<longrightarrow> m (base + of_nat i) = a (base + of_nat i)) \<and>
       (0 < used \<longrightarrow> m (base + of_nat (sz - used)) \<noteq> KS_FILL)"
  let ?n = "sz - KS_CANARY" and ?p = "base + of_nat KS_CANARY"
  define t where "t = untouched_from m ?p ?n 0"
  have sh: "?p + of_nat j = base + of_nat (j + KS_CANARY)" for j by (simp add: add.commute)
  have sp: "t \<le> ?n" "\<And>i. i < t \<Longrightarrow> m (?p + of_nat i) = KS_FILL" "t < ?n \<Longrightarrow> m (?p + of_nat t) \<noteq> KS_FILL"
    using untouched_spec [of 0 ?n m ?p] by (simp_all add: t_def)
  have "t = ?n - used"
  proof (rule antisym)
    show "t \<le> ?n - used"
    proof (rule ccontr)
      assume "\<not> t \<le> ?n - used"
      then have lt: "?n - used < t" "0 < used" using sp(1) by auto
      have "?n - used + KS_CANARY = sz - used" using u assms(1) by auto
      then show False using sp(2) [OF lt(1)] u lt(2) unfolding sh by simp
    qed
    show "?n - used \<le> t"
    proof (rule ccontr)
      assume "\<not> ?n - used \<le> t"
      then have lt: "t < ?n - used" by simp
      then have k: "KS_CANARY \<le> t + KS_CANARY" "t + KS_CANARY < sz - used" "t + KS_CANARY < sz" "t < ?n" by auto
      then have "m (base + of_nat (t + KS_CANARY)) = KS_FILL" using u c(3) [OF k(1,3)] by metis
      then show False using sp(3) [OF k(4)] unfolding sh by blast
    qed
  qed
  moreover have "used \<le> ?n" using u by blast
  ultimately have "?n - t = used" by simp
  then show "stackchk_peak base sz m = used" using assms(1) by (simp add: stackchk_peak_def t_def)
qed

theorem stackchk_exact_witness:
  "stackchk_broken_layer 0x1000 1024 ((stackchk_arm 0x1000 1024 (\<lambda>_. 0))(0xFC3 := 0)) = 1 \<and>
   stackchk_peak 0x1000 1024 ((stackchk_arm 0x1000 1024 (\<lambda>_. 0))(0x1300 := 0x11)) = 256"
proof -
  let ?a = "stackchk_arm 0x1000 1024 (\<lambda>_. 0)"
  have g: "(0x1000::u32) + of_nat i \<noteq> 0x1300" if "i < 768" for i
  proof
    assume e: "(0x1000::u32) + of_nat i = 0x1300"
    have "unat ((0x1000::u32) + of_nat i) = 0x1300" unfolding e by simp
    then show False using that by (simp add: unat_word_ariths unat_of_nat)
  qed
  have "?a 0xFC3 = KS_GUARD_BYTE"
    using armed_cells(1) [of 1024 3 "0x1000" "\<lambda>_. 0"] by (simp add: guard_area_def)
  then have "\<exists>i < KS_GUARD. (?a(0xFC3 := 0)) (guard_area 0x1000 + of_nat i) \<noteq> ?a (guard_area 0x1000 + of_nat i)"
    by (intro exI [of _ 3]) (simp add: guard_area_def)
  then have 1: "stackchk_broken_layer 0x1000 1024 (?a(0xFC3 := 0)) = 1"
    using stackchk_exact [of 1024 ?a "0x1000" "\<lambda>_. 0" "?a(0xFC3 := 0)"] by simp
  have 2: "stackchk_peak 0x1000 1024 (?a(0x1300 := 0x11)) = 256"
    using stackchk_exact [of 1024 ?a "0x1000" "\<lambda>_. 0" "?a(0x1300 := 0x11)"] g by simp
  show ?thesis using 1 2 by simp
qed

end
