(* ===== verification/Task.thy ===== *)
theory Task
  imports Fd ElfLoad Stackchk
begin

text \<open>
  Tasks, the scheduler, wait queues and processes, \<open>src/kernel/task.c\<close>.

  The task table is a list of eight records. The words that a new task's kernel stack holds
  between its saved stack pointer and its top are the list \<open>t_frame\<close>, lowest address first.
  A wait queue is a head index in \<open>wq\<close> (-1 when empty) and a chain through \<open>wait_next\<close>;
  queue 0 is \<open>g_wq_reap\<close>. \<open>mach\<close> is the memory, page tables and frame allocator of the loader,
  \<open>fsys\<close> the pipes and file calls of the descriptors. Symbol addresses (\<open>task_exit\<close>, the
  interrupt trampoline, the stack area) are fields, because the linker decides them.

  \<open>schedule\<close> is split where \<open>switch_to\<close> changes stacks: \<open>schedule_switch\<close> is everything
  before, and \<open>task_reap_zombies\<close> is what the task that is switched back in runs after.
\<close>

section \<open>Data\<close>

abbreviation MAX_TASKS :: nat where "MAX_TASKS \<equiv> 8"
abbreviation TASK_KSIZE :: nat where "TASK_KSIZE \<equiv> 0x4000"
abbreviation TASK_TIMESLICE :: u32 where "TASK_TIMESLICE \<equiv> 10"
abbreviation USER_STACK_TOP :: u32 where "USER_STACK_TOP \<equiv> 0x00800000"
abbreviation REAP :: nat where "REAP \<equiv> 0"
abbreviation STACKCHK_TICK_MS :: u32 where "STACKCHK_TICK_MS \<equiv> 1000"

datatype task_state = TASK_UNUSED | TASK_READY | TASK_RUNNING | TASK_BLOCKED | TASK_ZOMBIE

record task =
  t_esp :: u32
  t_frame :: "u32 list"
  kstack :: u32
  kstack_top :: u32
  pid :: u32
  tstate :: task_state
  ticks :: u32
  switches :: u32
  t_name :: string
  fds :: fd_table
  t_cr3 :: u32
  is_user :: bool
  exit_code :: int
  user_stack_phys :: u32
  user_stack_pages :: u32
  t_pd_phys :: u32
  t_pt_phys :: u32
  t_img :: elf_image
  wait_next :: int
  wake_tick :: u32
  wait_q :: "nat option"

record tsys =
  tasks :: "task list"
  g_current :: nat
  g_next_pid :: u32
  g_sched_count :: u32
  g_lock_depth :: nat
  t_ready :: bool
  iflag :: bool
  g_pit_ticks :: u32
  wq :: "nat \<Rightarrow> int"
  mach :: machine
  fsys :: fdsys
  esp0 :: u32
  g_stackchk_tick :: u32
  g_reported :: "bool list"
  t_log :: "string list"
  sym_task_exit :: u32
  sym_trampoline :: u32
  ks_area :: u32

definition upd :: "nat \<Rightarrow> (task \<Rightarrow> task) \<Rightarrow> tsys \<Rightarrow> tsys" where
  "upd i f s = s\<lparr>tasks := (tasks s)[i := f (tasks s ! i)]\<rparr>"

definition ks_base :: "tsys \<Rightarrow> nat \<Rightarrow> u32" where
  "ks_base s slot = ks_area s + of_nat (slot * (KS_GUARD + TASK_KSIZE)) + of_nat KS_GUARD"

definition set_mach :: "machine \<Rightarrow> tsys \<Rightarrow> tsys" where
  "set_mach m s = s\<lparr>mach := m\<rparr>"

section \<open>Initial stack frames\<close>

definition stack_init :: "u32 \<Rightarrow> u32 \<Rightarrow> tsys \<Rightarrow> task \<Rightarrow> task" where
  "stack_init fn arg s t =
     (let frame = [0, 0, 0, 0, 0x0002, sym_trampoline s, 0, 0, 0, 0, 0, 0, 0, 0, fn, 0x08, 0x202, sym_task_exit s, arg]
      in t\<lparr>t_frame := frame, t_esp := kstack_top t - 4 * of_nat (length frame)\<rparr>)"

text \<open>The ring 3 frame of a new process.\<close>

definition process_frame :: "u32 \<Rightarrow> u32 \<Rightarrow> tsys \<Rightarrow> u32 list" where
  "process_frame entry user_esp s =
     [0, 0, 0, 0, 0x0002, sym_trampoline s, 0, 0, 0, 0, 0, 0, 0, 0, entry, 0x1B, 0x202, user_esp, 0x23]"

text \<open>
  The frame of a forked child; \<open>fr\<close> is the register frame that \<open>syscall_entry\<close> saved
  (\<open>fr ! i\<close> the word at offset 4 i).
\<close>

definition fork_frame :: "u32 list \<Rightarrow> tsys \<Rightarrow> u32 list" where
  "fork_frame fr s =
     [0, 0, 0, 0, 0x0002, sym_trampoline s, fr ! 4, fr ! 5, fr ! 6, 0, fr ! 8, fr ! 9, fr ! 10, 0,
      fr ! 16, fr ! 17, fr ! 18, fr ! 19, fr ! 20]"

section \<open>Life cycle\<close>

definition blank_task :: task where
  "blank_task = \<lparr>t_esp = 0, t_frame = [], kstack = 0, kstack_top = 0, pid = 0, tstate = TASK_UNUSED, ticks = 0,
     switches = 0, t_name = [], fds = [], t_cr3 = 0, is_user = False, exit_code = 0, user_stack_phys = 0,
     user_stack_pages = 0, t_pd_phys = 0, t_pt_phys = 0, t_img = \<lparr>img_entry = 0, img_brk = 0, img_seg = []\<rparr>,
     wait_next = -1, wake_tick = 0, wait_q = None\<rparr>"

text \<open>\<open>SYSCALL_TRAP_STACK_TOP\<close> is an argument; the descriptor table of an unused slot is not read.\<close>

definition task_init :: "u32 \<Rightarrow> tsys \<Rightarrow> tsys" where
  "task_init trap_top s =
     s\<lparr>tasks := (replicate MAX_TASKS blank_task)
         [0 := blank_task\<lparr>tstate := TASK_RUNNING, ticks := TASK_TIMESLICE, switches := 1, kstack_top := trap_top,
                 t_name := ''idle/shell'', fds := fd_table_init\<rparr>],
       g_current := 0, g_sched_count := 0, g_lock_depth := 0, t_ready := True\<rparr>"

definition find_slot :: "tsys \<Rightarrow> nat option" where
  "find_slot s = (case filter (\<lambda>i. tstate (tasks s ! i) = TASK_UNUSED) [0..<MAX_TASKS] of [] \<Rightarrow> None | i # _ \<Rightarrow> Some i)"

definition clip_name :: "string \<Rightarrow> string" where
  "clip_name nm = take 15 nm"

text \<open>What the three creators set in common, and the arming of the stack guard.\<close>

definition claim_slot :: "nat \<Rightarrow> u32 \<Rightarrow> bool \<Rightarrow> string \<Rightarrow> tsys \<Rightarrow> tsys" where
  "claim_slot slot cr usr nm s =
     (let base = ks_base s slot;
          s1 = s\<lparr>mach := (mach s)\<lparr>ram := stackchk_arm base TASK_KSIZE (ram (mach s))\<rparr>,
                 g_reported := (g_reported s)[slot := False], g_next_pid := g_next_pid s + 1\<rparr>
      in upd slot (\<lambda>t. t\<lparr>kstack := base, kstack_top := base + of_nat TASK_KSIZE, pid := g_next_pid s, tstate := TASK_READY,
           ticks := TASK_TIMESLICE, switches := 0, t_cr3 := cr, is_user := usr, exit_code := 0,
           user_stack_phys := 0, user_stack_pages := 0, t_pd_phys := cr, t_pt_phys := 0, t_img := (t_img t)\<lparr>img_seg := []\<rparr>,
           wait_next := -1, wake_tick := 0, wait_q := None, t_name := clip_name nm, fds := fd_table_init\<rparr>) s1)"

definition task_create :: "string \<Rightarrow> u32 \<Rightarrow> u32 \<Rightarrow> tsys \<Rightarrow> int \<times> tsys" where
  "task_create nm fn arg s =
     (if \<not> t_ready s \<or> fn = 0 then (-1, s)
      else case find_slot s of
        None \<Rightarrow> (-1, s)
      | Some slot \<Rightarrow>
          let s1 = claim_slot slot 0 False nm s; s2 = upd slot (stack_init fn arg s1) s1
          in (sint (g_next_pid s), s2))"

definition task_create_process :: "string \<Rightarrow> u32 \<Rightarrow> u32 \<Rightarrow> u32 \<Rightarrow> tsys \<Rightarrow> int \<times> tsys" where
  "task_create_process nm entry user_esp pd s =
     (if \<not> t_ready s \<or> pd = 0 then (-1, s)
      else case find_slot s of
        None \<Rightarrow> (-1, s)
      | Some slot \<Rightarrow>
          let s1 = claim_slot slot pd True nm s;
              fr = process_frame entry user_esp s1;
              s2 = upd slot (\<lambda>t. t\<lparr>t_frame := fr, t_esp := kstack_top t - 4 * of_nat (length fr)\<rparr>) s1
          in (sint (g_next_pid s), s2))"

definition task_find :: "int \<Rightarrow> tsys \<Rightarrow> nat option" where
  "task_find p s =
     (if \<not> t_ready s \<or> p \<le> 0 then None
      else case filter (\<lambda>i. tstate (tasks s ! i) \<noteq> TASK_UNUSED \<and> pid (tasks s ! i) = word_of_int p) [0..<MAX_TASKS] of
        [] \<Rightarrow> None | i # _ \<Rightarrow> Some i)"

section \<open>Wait queues\<close>

definition wq_push :: "nat \<Rightarrow> nat \<Rightarrow> tsys \<Rightarrow> tsys" where
  "wq_push q i s = (upd i (\<lambda>t. t\<lparr>wait_next := wq s q, wait_q := Some q\<rparr>) s)\<lparr>wq := (wq s)(q := int i)\<rparr>"

text \<open>
  The unlinking walk: the pointer \<open>p\<close> is the head of the queue (\<open>None\<close>) or the link of a
  task. A chain of the table has at most \<open>MAX_TASKS\<close> links unless it is damaged, so the walk
  is a partial function.
\<close>

definition link_of :: "nat \<Rightarrow> nat option \<Rightarrow> tsys \<Rightarrow> int" where
  "link_of q p s = (case p of None \<Rightarrow> wq s q | Some j \<Rightarrow> wait_next (tasks s ! j))"

definition set_wlink :: "nat \<Rightarrow> nat option \<Rightarrow> int \<Rightarrow> tsys \<Rightarrow> tsys" where
  "set_wlink q p v s = (case p of None \<Rightarrow> s\<lparr>wq := (wq s)(q := v)\<rparr> | Some j \<Rightarrow> upd j (\<lambda>t. t\<lparr>wait_next := v\<rparr>) s)"

partial_function (option) wq_remove_from :: "nat \<Rightarrow> nat \<Rightarrow> nat option \<Rightarrow> tsys \<Rightarrow> tsys option" where
  "wq_remove_from q i p s =
     (if link_of q p s = -1 then Some s
      else if link_of q p s = int i then
        let s1 = set_wlink q p (wait_next (tasks s ! i)) s
        in Some (upd i (\<lambda>t. t\<lparr>wait_next := -1, wait_q := None\<rparr>) s1)
      else wq_remove_from q i (Some (nat (link_of q p s))) s)"

definition wq_remove :: "nat \<Rightarrow> nat \<Rightarrow> tsys \<Rightarrow> tsys option" where
  "wq_remove q i s = wq_remove_from q i None s"

partial_function (option) wake_chain :: "int \<Rightarrow> tsys \<Rightarrow> tsys option" where
  "wake_chain i s =
     (if i = -1 then Some s
      else
        let nx = wait_next (tasks s ! nat i);
            s1 = upd (nat i) (\<lambda>t. t\<lparr>wait_next := -1, wait_q := None, wake_tick := 0,
                   tstate := (if tstate t = TASK_BLOCKED then TASK_READY else tstate t)\<rparr>) s
        in wake_chain nx s1)"

definition task_wake_all :: "nat \<Rightarrow> tsys \<Rightarrow> tsys option" where
  "task_wake_all q s =
     (if \<not> t_ready s then Some s
      else map_option (\<lambda>s1. s1\<lparr>wq := (wq s1)(q := -1)\<rparr>) (wake_chain (wq s q) s))"

text \<open>One slot of the timer loop.\<close>

definition timer_slot :: "nat \<Rightarrow> tsys \<Rightarrow> tsys option" where
  "timer_slot i s =
     (let t = tasks s ! i; now = g_pit_ticks s in
      if tstate t \<noteq> TASK_BLOCKED \<or> wake_tick t = 0 then Some s
      else if sint (now - wake_tick t) < 0 then Some s
      else map_option (\<lambda>s1. upd i (\<lambda>t. t\<lparr>wake_tick := 0, tstate := TASK_READY\<rparr>) s1)
             (case wait_q t of None \<Rightarrow> Some s | Some q \<Rightarrow> wq_remove q i s))"

fun timer_slots :: "nat list \<Rightarrow> tsys \<Rightarrow> tsys option" where
  "timer_slots [] s = Some s"
| "timer_slots (i # is) s = (case timer_slot i s of None \<Rightarrow> None | Some s1 \<Rightarrow> timer_slots is s1)"

definition patrol_slot :: "nat \<Rightarrow> tsys \<Rightarrow> tsys" where
  "patrol_slot i s =
     (if kstack (tasks s ! i) = 0 \<or> g_reported s ! i then s
      else let layer = stackchk_broken_layer (kstack (tasks s ! i)) TASK_KSIZE (ram (mach s)) in
      if layer = -1 then s
      else s\<lparr>g_reported := (g_reported s)[i := True], t_log := t_log s @
        [if layer = 1 then ''STACKCHK: guard broken (a task wrote past its kernel stack base)''
         else ''STACKCHK: canary broken (a task kernel stack is nearly exhausted)'']\<rparr>)"

definition task_timer_tick :: "tsys \<Rightarrow> tsys option" where
  "task_timer_tick s =
     (if \<not> t_ready s then Some s
      else case timer_slots [0..<MAX_TASKS] s of
        None \<Rightarrow> None
      | Some s1 \<Rightarrow>
          Some (if g_pit_ticks s - g_stackchk_tick s1 \<ge> STACKCHK_TICK_MS
            then fold patrol_slot [0..<MAX_TASKS] (s1\<lparr>g_stackchk_tick := g_pit_ticks s\<rparr>) else s1))"

definition task_stack_first_bad :: "tsys \<Rightarrow> nat" where
  "task_stack_first_bad s =
     (case filter (\<lambda>i. kstack (tasks s ! i) \<noteq> 0 \<and>
             stackchk_broken_layer (kstack (tasks s ! i)) TASK_KSIZE (ram (mach s)) \<noteq> -1) [0..<MAX_TASKS] of
        [] \<Rightarrow> 0 | i # _ \<Rightarrow> i + 1)"

section \<open>The scheduler\<close>

definition runnable :: "task \<Rightarrow> bool" where
  "runnable t \<longleftrightarrow> tstate t = TASK_READY \<or> tstate t = TASK_RUNNING"

text \<open>The first runnable slot after the current one, in cyclic order; the current slot if none.\<close>

definition pick_next :: "tsys \<Rightarrow> nat" where
  "pick_next s =
     (case filter (\<lambda>c. runnable (tasks s ! c)) (map (\<lambda>i. (g_current s + i) mod MAX_TASKS) [1..<Suc MAX_TASKS]) of
        [] \<Rightarrow> g_current s | c # _ \<Rightarrow> c)"

definition set_state :: "nat \<Rightarrow> task_state \<Rightarrow> tsys \<Rightarrow> tsys" where
  "set_state i st s = upd i (\<lambda>t. t\<lparr>tstate := st\<rparr>) s"

text \<open>The hand-over of the processor to slot \<open>nx\<close>: states, counters, trap stack, page directory.\<close>

definition load_cr3 :: "u32 \<Rightarrow> u32 \<Rightarrow> tsys \<Rightarrow> tsys" where
  "load_cr3 cr_cur cr_new s =
     (let old = (if cr_cur \<noteq> 0 then cr_cur else PAGING_PD_ADDR); new = (if cr_new \<noteq> 0 then cr_new else PAGING_PD_ADDR)
      in if new \<noteq> old then s\<lparr>mach := (mach s)\<lparr>mpg := paging_switch_cr3 new (mpg (mach s))\<rparr>\<rparr> else s)"

definition dispatch :: "nat \<Rightarrow> tsys \<Rightarrow> tsys" where
  "dispatch nx s =
     (let c = g_current s; cur = tasks s ! c;
          s2 = (if tstate cur = TASK_RUNNING then set_state c TASK_READY s else s);
          s3 = upd nx (\<lambda>t. t\<lparr>tstate := TASK_RUNNING, ticks := TASK_TIMESLICE, switches := switches t + 1\<rparr>)
                 (s2\<lparr>g_current := nx, g_sched_count := g_sched_count s2 + 1\<rparr>);
          n = tasks s3 ! nx
      in load_cr3 (t_cr3 cur) (t_cr3 n) (s3\<lparr>esp0 := (if kstack_top n \<noteq> 0 then kstack_top n else esp0 s3)\<rparr>))"

definition use_tick :: "tsys \<Rightarrow> tsys" where
  "use_tick s = (if ticks (tasks s ! g_current s) > 0 then upd (g_current s) (\<lambda>t. t\<lparr>ticks := ticks t - 1\<rparr>) s else s)"

text \<open>Result: whether a switch takes place.\<close>

definition schedule_switch :: "tsys \<Rightarrow> bool \<times> tsys" where
  "schedule_switch s =
     (if \<not> t_ready s \<or> g_lock_depth s \<noteq> 0 then (False, s)
      else
        let s1 = use_tick s; c = g_current s; cur = tasks s1 ! c in
        if tstate cur = TASK_RUNNING \<and> ticks cur > 0 then (False, s1)
        else
          let nx = pick_next s1 in
          if nx = c then (False, upd c (\<lambda>t. t\<lparr>ticks := TASK_TIMESLICE\<rparr>) s1)
          else (True, dispatch nx s1))"

definition task_yield :: "tsys \<Rightarrow> bool \<times> tsys" where
  "task_yield s =
     (if \<not> t_ready s then (False, s)
      else schedule_switch (upd (g_current s) (\<lambda>t. t\<lparr>ticks := 0\<rparr>) s))"

text \<open>\<open>for (f = 3; f < MAX_OPEN_FDS; f++) fd_close(&t->fds, f);\<close>\<close>

definition close_all :: "fsx \<Rightarrow> fd_table \<Rightarrow> fdsys \<Rightarrow> fd_table \<times> fdsys" where
  "close_all fs t k = fold (\<lambda>f (t, k). let (_, t', k') = fd_close fs (int f) t k in (t', k')) [3..<MAX_OPEN_FDS] (t, k)"

definition reap_slot :: "fsx \<Rightarrow> nat \<Rightarrow> tsys \<Rightarrow> tsys" where
  "reap_slot fs i s =
     (let t = tasks s ! i in
      if tstate t \<noteq> TASK_ZOMBIE \<or> is_user t then s
      else let (ft, k) = close_all fs (fds t) (fsys s) in
      upd i (\<lambda>t. t\<lparr>fds := ft, pid := 0, t_esp := 0, tstate := TASK_UNUSED, t_name := []\<rparr>) (s\<lparr>fsys := k\<rparr>))"

definition task_reap_zombies :: "fsx \<Rightarrow> tsys \<Rightarrow> tsys" where
  "task_reap_zombies fs s = fold (reap_slot fs) [0..<MAX_TASKS] s"

text \<open>
  \<open>task_sleep\<close> up to the switch; the flag says whether the task was switched out. When no
  other task can run (the flag is false) it halts until an interrupt and then runs
  \<open>sleep_normalize\<close>.
\<close>

definition task_sleep :: "nat \<Rightarrow> u32 \<Rightarrow> tsys \<Rightarrow> bool \<times> tsys" where
  "task_sleep q timeout_ms s =
     (if \<not> t_ready s \<or> g_lock_depth s \<noteq> 0 then (False, s)
      else
        let me = g_current s;
            s1 = s\<lparr>iflag := False\<rparr>;
            s2 = upd me (\<lambda>t. t\<lparr>wake_tick := (if timeout_ms \<noteq> 0 then g_pit_ticks s + timeout_ms else 0),
                   tstate := TASK_BLOCKED\<rparr>) s1
        in schedule_switch (wq_push q me s2))"

definition sleep_normalize :: "nat \<Rightarrow> tsys \<Rightarrow> tsys option" where
  "sleep_normalize q s =
     (let me = g_current s in
      map_option (\<lambda>s1. upd me (\<lambda>t. t\<lparr>wake_tick := 0, tstate := TASK_RUNNING\<rparr>) (s1\<lparr>iflag := True\<rparr>))
        (if wait_q (tasks s ! me) = Some q then wq_remove q me s else Some s))"

section \<open>Critical sections and queries\<close>

definition task_lock :: "tsys \<Rightarrow> tsys" where
  "task_lock s = s\<lparr>iflag := False, g_lock_depth := g_lock_depth s + 1\<rparr>"

definition task_unlock :: "tsys \<Rightarrow> tsys" where
  "task_unlock s =
     (let s1 = (if g_lock_depth s \<noteq> 0 then s\<lparr>g_lock_depth := g_lock_depth s - 1\<rparr> else s)
      in if g_lock_depth s1 = 0 then s1\<lparr>iflag := True\<rparr> else s1)"

definition task_current :: "tsys \<Rightarrow> nat option" where
  "task_current s = (if t_ready s then Some (g_current s) else None)"

definition task_count_running :: "tsys \<Rightarrow> nat" where
  "task_count_running s = length (filter (\<lambda>i. runnable (tasks s ! i)) [0..<MAX_TASKS])"

definition schedule_count :: "tsys \<Rightarrow> u32" where
  "schedule_count s = g_sched_count s"

section \<open>Exit and wait\<close>

definition task_exit :: "tsys \<Rightarrow> bool \<times> tsys" where
  "task_exit s = (if \<not> t_ready s then (False, s) else task_yield (set_state (g_current s) TASK_ZOMBIE s))"

definition free_segs :: "elf_seg list \<Rightarrow> pmm \<Rightarrow> pmm" where
  "free_segs gs pm = fold (\<lambda>g p. snd (pmm_free_pages (seg_phys g) (seg_pages g) p)) gs pm"

definition free_stack :: "u32 \<Rightarrow> u32 \<Rightarrow> pmm \<Rightarrow> pmm" where
  "free_stack phys pages pm = fold (\<lambda>k p. snd (pmm_free_page (phys + of_nat k * PMM_PAGE_SIZE) p)) [0..<unat pages] pm"

definition free_opt :: "u32 \<Rightarrow> pmm \<Rightarrow> pmm" where
  "free_opt phys pm = (if phys \<noteq> 0 then snd (pmm_free_page phys pm) else pm)"

text \<open>The release of a process's frames, by its records.\<close>

definition release_space :: "task \<Rightarrow> pmm \<Rightarrow> pmm" where
  "release_space t pm =
     free_opt (t_pd_phys t) (free_opt (t_pt_phys t)
       (free_stack (user_stack_phys t) (user_stack_pages t) (free_segs (img_seg (t_img t)) pm)))"

text \<open>\<open>process_exit\<close> up to its last call of \<open>schedule\<close>; \<open>None\<close> is a damaged wait queue.\<close>

definition process_exit :: "fsx \<Rightarrow> int \<Rightarrow> tsys \<Rightarrow> (bool \<times> tsys) option" where
  "process_exit fs code s =
     (if \<not> t_ready s then Some (False, s)
      else let me = g_current s in
      if \<not> is_user (tasks s ! me) then Some (task_exit s)
      else
        let s1 = upd me (\<lambda>t. t\<lparr>exit_code := code, tstate := TASK_ZOMBIE\<rparr>) s in
        case task_wake_all REAP s1 of
          None \<Rightarrow> None
        | Some s2 \<Rightarrow>
            (case (case wait_q (tasks s2 ! me) of None \<Rightarrow> Some s2 | Some q \<Rightarrow> task_wake_all q s2) of
               None \<Rightarrow> None
             | Some s3 \<Rightarrow>
                 let t = tasks s3 ! me;
                     m3 = mach s3;
                     m4 = m3\<lparr>mpg := paging_switch_cr3 PAGING_PD_ADDR (mpg m3), mpm := release_space t (mpm m3)\<rparr>;
                     s4 = upd me (\<lambda>t. t\<lparr>t_cr3 := 0, t_img := (t_img t)\<lparr>img_seg := []\<rparr>, user_stack_phys := 0,
                            user_stack_pages := 0, t_pt_phys := 0, t_pd_phys := 0\<rparr>) (s3\<lparr>mach := m4\<rparr>);
                     (ft, k) = close_all fs (fds (tasks s4 ! me)) (fsys s4);
                     s5 = upd me (\<lambda>t. t\<lparr>fds := ft\<rparr>) (s4\<lparr>fsys := k\<rparr>)
                 in Some (schedule_switch s5)))"

datatype wait_result = Exited int | NoProcess | StillRunning | MustSleep

text \<open>One pass of the loop of \<open>task_wait_pid_opt\<close>: the look at the process, and, after \<open>MustSleep\<close>,
  the call of \<open>task_sleep\<close>. The two are separate steps: other tasks may run in between.\<close>

definition task_wait_step :: "int \<Rightarrow> bool \<Rightarrow> tsys \<Rightarrow> wait_result \<times> tsys" where
  "task_wait_step p wnohang s =
     (case task_find p s of
        None \<Rightarrow> (NoProcess, s)
      | Some i \<Rightarrow>
          if tstate (tasks s ! i) = TASK_ZOMBIE then
            (Exited (exit_code (tasks s ! i)),
             upd i (\<lambda>t. t\<lparr>tstate := TASK_UNUSED, pid := 0, is_user := False, t_cr3 := 0, t_name := []\<rparr>) s)
          else if wnohang then (StillRunning, s)
          else (MustSleep, s))"

definition task_wait_sleep :: "tsys \<Rightarrow> bool \<times> tsys" where
  "task_wait_sleep s = task_sleep REAP 0 s"

section \<open>Fork\<close>

definition child_pt_set :: "u32 \<Rightarrow> u32 \<Rightarrow> u32 \<Rightarrow> u32 \<Rightarrow> paging \<Rightarrow> paging" where
  "child_pt_set pt va phys flags pg = set_entry pt (pti va) ((phys AND 0xFFFFF000) OR (flags AND 0xFFF) OR PTE_P) pg"

text \<open>\<open>memcpy\<close> of one page, from the frame the parent's page maps to, to a frame.\<close>

definition copy_page :: "u32 \<Rightarrow> u32 \<Rightarrow> memory \<Rightarrow> memory" where
  "copy_page dst src m = (\<lambda>a. if unat (a - dst) < 4096 then m (src + (a - dst)) else m a)"

fun fork_pages :: "u32 \<Rightarrow> u32 \<Rightarrow> u32 \<Rightarrow> nat \<Rightarrow> machine \<Rightarrow> bool \<times> machine" where
  "fork_pages pt va cphys 0 m = (True, m)"
| "fork_pages pt va cphys (Suc n) m =
     (case paging_query va (mpg m) of
        None \<Rightarrow> (False, m)
      | Some (phys, flags) \<Rightarrow>
          fork_pages pt (va + PMM_PAGE_SIZE) (cphys + PMM_PAGE_SIZE) n
            (m\<lparr>ram := copy_page cphys phys (ram m), mpg := child_pt_set pt va cphys flags (mpg m)\<rparr>))"

text \<open>The new directory and table: kernel entries shared, entry 1 private and empty.\<close>

definition fork_tables :: "u32 \<Rightarrow> u32 \<Rightarrow> u32 \<Rightarrow> paging \<Rightarrow> paging" where
  "fork_tables pd pt parent_cr3 pg =
     (let pg1 = fold (\<lambda>i s. if i = 1 then s else set_entry pd i (tbl s parent_cr3 i) s) [0..<1024] pg;
          pg2 = set_entry pd 1 (pt OR PTE_P OR PTE_RW OR PTE_US) pg1
      in fold (\<lambda>i. set_entry pt i 0) [0..<1024] pg2)"

text \<open>
  A contiguous block for \<open>n\<close> pages of the parent at \<open>va\<close>: 0 with the block given back when a
  page of the parent is missing, or when nothing could be allocated.
\<close>

definition fork_block :: "u32 \<Rightarrow> u32 \<Rightarrow> u32 \<Rightarrow> machine \<Rightarrow> u32 \<times> machine" where
  "fork_block pt va pages m =
     (case pmm_alloc_pages pages (mpm m) of
        (cphys, pm1) \<Rightarrow>
          if cphys = 0 then (0, m\<lparr>mpm := pm1\<rparr>)
          else case fork_pages pt va cphys (unat pages) (m\<lparr>mpm := pm1\<rparr>) of (ok, m1) \<Rightarrow>
            if ok then (cphys, m1) else (0, m1\<lparr>mpm := snd (pmm_free_pages cphys pages (mpm m1))\<rparr>))"

text \<open>The segments; the list of the children's blocks stops at the first failure.\<close>

fun fork_segs :: "u32 \<Rightarrow> elf_seg list \<Rightarrow> machine \<Rightarrow> u32 list \<times> bool \<times> machine" where
  "fork_segs pt [] m = ([], True, m)"
| "fork_segs pt (g # gs) m =
     (case fork_block pt (seg_va g) (seg_pages g) m of
        (cphys, m1) \<Rightarrow>
          if cphys = 0 then ([], False, m1)
          else let (cs, ok, m2) = fork_segs pt gs m1 in (cphys # cs, ok, m2))"

definition fork_rollback :: "u32 \<Rightarrow> u32 \<Rightarrow> (u32 \<times> elf_seg) list \<Rightarrow> machine \<Rightarrow> machine" where
  "fork_rollback pd pt done' m =
     m\<lparr>mpm := snd (pmm_free_page pd (snd (pmm_free_page pt
        (fold (\<lambda>(c, g) p. snd (pmm_free_pages c (seg_pages g) p)) done' (mpm m)))))\<rparr>"

text \<open>
  The copy of the address space: \<open>Inl\<close> is the machine after a failure, \<open>Inr\<close> the directory,
  the table, the segment blocks, the stack block and the machine.
\<close>

definition fork_space :: "task \<Rightarrow> machine \<Rightarrow> machine + (u32 \<times> u32 \<times> u32 list \<times> u32 \<times> machine)" where
  "fork_space parent m =
     (let (pd, pm1) = pmm_alloc_page (mpm m); (pt, pm2) = pmm_alloc_page pm1 in
      if pd = 0 \<or> pt = 0 then Inl (m\<lparr>mpm := free_opt pt (free_opt pd pm2)\<rparr>)
      else
        let m1 = m\<lparr>mpm := pm2, mpg := fork_tables pd pt (t_cr3 parent) (mpg m)\<rparr>;
            gs = img_seg (t_img parent);
            (cs, ok, m2) = fork_segs pt gs m1
        in
        if \<not> ok then Inl (fork_rollback pd pt (zip cs gs) m2)
        else
          let pages = user_stack_pages parent; (st', m3) = fork_block pt (USER_STACK_TOP - pages * PMM_PAGE_SIZE) pages m2
          in if st' = 0 then Inl (fork_rollback pd pt (zip cs gs) m3)
             else Inr (pd, pt, cs, st', m3))"

definition with_phys :: "u32 list \<Rightarrow> elf_image \<Rightarrow> elf_image" where
  "with_phys cs im = im\<lparr>img_seg := map (\<lambda>(c, g). g\<lparr>seg_phys := c\<rparr>) (zip cs (img_seg im))\<rparr>"

definition task_fork :: "(u32 \<Rightarrow> u8 list option) \<Rightarrow> u32 list \<Rightarrow> tsys \<Rightarrow> int \<times> tsys" where
  "task_fork km fr s =
     (if \<not> t_ready s then (-1, s)
      else let parent = tasks s ! g_current s in
      if \<not> is_user parent \<or> t_cr3 parent = 0 then (-1, s)
      else
        let s0 = task_lock s in
        case find_slot s0 of
          None \<Rightarrow> (-1, task_unlock s0)
        | Some slot \<Rightarrow>
            (case fork_space parent (mach s0) of
               Inl m \<Rightarrow> (-1, task_unlock (s0\<lparr>mach := m\<rparr>))
             | Inr (pd, pt, cs, st', m) \<Rightarrow>
                 let s1 = claim_slot slot pd True (t_name parent) (s0\<lparr>mach := m\<rparr>);
                     (ft, k) = fd_table_dup km (fds parent) (fsys s1);
                     frm = fork_frame fr s1;
                     s2 = upd slot (\<lambda>t. t\<lparr>user_stack_phys := st', user_stack_pages := user_stack_pages parent,
                            t_pt_phys := pt, t_img := with_phys cs (t_img parent), fds := ft, t_frame := frm,
                            t_esp := kstack_top t - 4 * of_nat (length frm)\<rparr>) (s1\<lparr>fsys := k\<rparr>)
                 in (sint (g_next_pid s), task_unlock s2)))"

end
