(* ===== verification/FdSpec.thy ===== *)
theory FdSpec
  imports Fd
begin

text \<open>
  Correctness of descriptors and pipes: a file handle is a byte sequence with an offset, a
  pipe is a FIFO queue under any interleaving of its readers and writers, and the reference
  counts of the pipes count the descriptors that point to them.
\<close>

section \<open>Well-formed tables\<close>

definition entry_ok :: "fd_entry \<Rightarrow> bool" where
  "entry_ok e \<longleftrightarrow>
     (case ftype e of
        FD_TYPE_FILE \<Rightarrow>
          fsize e \<le> MAX_FD_FILE \<and> offset e \<le> MAX_FD_FILE \<and>
          (case data e of Buf d \<Rightarrow> length d = unat (fsize e) \<and> 0 < fsize e | NoData \<Rightarrow> fsize e = 0 | PipeP i \<Rightarrow> False)
      | FD_TYPE_PIPE \<Rightarrow> (\<exists>i < PIPE_MAX. data e = PipeP i)
      | _ \<Rightarrow> data e = NoData)"

definition table_ok :: "fd_table \<Rightarrow> bool" where
  "table_ok t \<longleftrightarrow> length t = MAX_OPEN_FDS \<and> (\<forall>e \<in> set t. entry_ok e)"

text \<open>What \<open>kmalloc\<close> promises: a buffer of the requested size.\<close>

definition km_ok :: "(u32 \<Rightarrow> u8 list option) \<Rightarrow> bool" where
  "km_ok km \<longleftrightarrow> (\<forall>n g. km n = Some g \<longrightarrow> length g = unat n)"

definition content :: "fd_entry \<Rightarrow> u8 list" where
  "content e = (case data e of Buf d \<Rightarrow> d | _ \<Rightarrow> [])"

text \<open>Overwriting a byte sequence at an offset, with zeros in the hole.\<close>

definition file_write :: "u8 list \<Rightarrow> nat \<Rightarrow> u8 list \<Rightarrow> u8 list" where
  "file_write c off bs = take off (c @ replicate (off - length c) 0) @ bs @ drop (off + length bs) c"

lemma length_file_write: "length (file_write c off bs) = max (length c) (off + length bs)"
  by (simp add: file_write_def)

lemma file_write_read: "take (length bs) (drop off (file_write c off bs)) = bs"
  by (simp add: file_write_def)

lemma table_okD: "table_ok t \<Longrightarrow> valid_fd fd \<Longrightarrow> nat fd < length t \<and> entry_ok (t ! nat fd)"
  by (auto simp: table_ok_def valid_fd_def)

lemma table_ok_update: "table_ok t \<Longrightarrow> entry_ok e \<Longrightarrow> table_ok (t[i := e])"
  by (auto simp: table_ok_def dest!: set_update_subset_insert [THEN subsetD])

lemma file_entry_facts:
  assumes "entry_ok e" and "ftype e = FD_TYPE_FILE"
  shows "length (content e) = unat (fsize e)" and "fsize e \<le> MAX_FD_FILE" and "offset e \<le> MAX_FD_FILE"
    and "fsize e = 0 \<Longrightarrow> data e = NoData" and "0 < fsize e \<Longrightarrow> data e = Buf (content e)"
  using assms by (auto simp: entry_ok_def content_def split: fd_data.splits)

lemma buf_write_file_write:
  "off + length bs \<le> length d \<Longrightarrow> bs \<noteq> [] \<Longrightarrow> buf_write d off bs = Some (file_write d off bs)"
  by (simp add: buf_write_def file_write_def)

lemma file_write_pad:
  "length c \<le> off + length bs \<Longrightarrow> bs \<noteq> [] \<Longrightarrow>
   buf_write (c @ replicate (off + length bs - length c) 0) off bs = Some (file_write c off bs)"
proof -
  assume a: "length c \<le> off + length bs" "bs \<noteq> []"
  let ?d = "c @ replicate (off + length bs - length c) 0"
  have "buf_write ?d off bs = Some (take off ?d @ bs)" using a by (simp add: buf_write_def)
  moreover have "take off ?d = take off (c @ replicate (off - length c) 0)" by (simp add: min_def)
  ultimately show ?thesis using a(1) by (simp add: file_write_def)
qed

section \<open>Writing a file handle\<close>

lemma fd_grow_spec:
  assumes e: "entry_ok e" "ftype e = FD_TYPE_FILE" and km: "km_ok km" and n: "fsize e < newsize"
  shows "fd_grow km newsize e k =
    (if newsize \<le> MAX_FD_FILE \<and> km newsize \<noteq> None
     then Some (True, e\<lparr>data := Buf (content e @ replicate (unat newsize - unat (fsize e)) 0), fsize := newsize\<rparr>,
       k\<lparr>kbufs := (if data e \<noteq> NoData then kbufs k else kbufs k + 1)\<rparr>)
     else Some (False, e, k))"
proof (cases "newsize \<le> MAX_FD_FILE \<and> km newsize \<noteq> None")
  case True
  then obtain g where g: "km newsize = Some g" by auto
  note fe = file_entry_facts [OF e]
  show ?thesis
  proof (cases "fsize e = 0")
    case True
    then show ?thesis using \<open>newsize \<le> MAX_FD_FILE \<and> km newsize \<noteq> None\<close> fe(4) g
      by (simp add: fd_grow_def not_less content_def)
  next
    case False
    then have d: "data e = Buf (content e)" "0 < fsize e" using fe(5) by (simp_all add: word_gt_0)
    then have "buf_read (content e) 0 (unat (fsize e)) = Some (content e)"
      using fe(1) d(2) by (simp add: buf_read_def word_less_nat_alt)
    then show ?thesis using True g d fe(1) by (simp add: fd_grow_def not_less)
  qed
next
  case False
  then show ?thesis by (auto simp: fd_grow_def not_le split: option.split)
qed

text \<open>The entry and the heap counter after a write of \<open>bs\<close> at \<open>off\<close>.\<close>

definition written :: "fd_entry \<Rightarrow> u32 \<Rightarrow> u8 list \<Rightarrow> fd_entry" where
  "written e off bs =
     (let c = file_write (content e) (unat off) bs in
      e\<lparr>fsize := of_nat (length c), data := Buf c, offset := off + of_nat (length bs), dirty := True\<rparr>)"

lemma fd_write_unfold:
  assumes v: "valid_fd fd" and e: "e = t ! nat fd" "ftype e = FD_TYPE_FILE" "writable e" and n: "n' = of_nat (length bs)" "n' \<noteq> 0"
    and off: "off = (if append e then fsize e else offset e)"
  shows "fd_write km fd bs t k =
      (case (if off + n' > fsize e then fd_grow km (off + n') (e\<lparr>offset := off\<rparr>) k else Some (True, e\<lparr>offset := off\<rparr>, k)) of
         None \<Rightarrow> Fault
       | Some (ok, e2, k1) \<Rightarrow>
           if \<not> ok then Ret (-1) (t[nat fd := e2], k1)
           else (case (case data e2 of Buf d \<Rightarrow> buf_write d (unat (offset e2)) bs | _ \<Rightarrow> None) of
                None \<Rightarrow> Fault
              | Some d \<Rightarrow> Ret (int (length bs)) (t[nat fd := e2\<lparr>data := Buf d, offset := offset e2 + n', dirty := True\<rparr>], k1)))"
proof -
  have e1: "(if append e then e\<lparr>offset := fsize e\<rparr> else e) = e\<lparr>offset := off\<rparr>" using off by simp
  show ?thesis unfolding fd_write_def Let_def e(1) [symmetric] n(1) [symmetric] e1 using v e(2,3) n(2) by simp
qed

lemma fd_write_file:
  assumes t: "table_ok t" and v: "valid_fd fd" and e: "e = t ! nat fd" "ftype e = FD_TYPE_FILE" "writable e"
    and km: "km_ok km" and n: "bs \<noteq> []"
    and off: "off = (if append e then fsize e else offset e)" "unat off + length bs < 2 ^ 32"
  shows "fd_write km fd bs t k =
    (if unat off + length bs \<le> unat (fsize e) \<or>
        unat off + length bs \<le> 65536 \<and> km (off + of_nat (length bs)) \<noteq> None
     then Ret (int (length bs)) (t[nat fd := written e off bs],
       k\<lparr>kbufs := (if data e = NoData then kbufs k + 1 else kbufs k)\<rparr>)
     else Ret (-1) (t[nat fd := e\<lparr>offset := off\<rparr>], k))"
proof -
  have ok: "entry_ok e" using table_okD [OF t v] e(1) by simp
  note fe = file_entry_facts [OF ok e(2)]
  define e1 where e1: "e1 = e\<lparr>offset := off\<rparr>"
  have ok1: "entry_ok e1" "ftype e1 = FD_TYPE_FILE" using ok e(2) off(1) by (auto simp: e1 entry_ok_def split: fd_data.splits)
  have c1: "content e1 = content e" "fsize e1 = fsize e" "offset e1 = off" "data e1 = data e" by (simp_all add: e1 content_def)
  have ob: "unat off \<le> 65536" using fe(2,3) off(1) by (simp add: word_le_nat_alt)
  define n' where "n' = (of_nat (length bs) :: u32)"
  have nn: "unat n' = length bs" "n' \<noteq> 0" "0 < n'"
    using n off(2) by (simp_all add: n'_def unat_of_nat word_unat_eq_iff word_less_nat_alt)
  have sum: "unat (off + n') = unat off + length bs" using off(2) nn(1) by (simp add: unat_word_ariths)
  note unf = fd_write_unfold [OF v e n'_def nn(2) off(1), folded e1]
  show ?thesis
  proof (cases "unat off + length bs \<le> unat (fsize e)")
    case True
    then have le: "\<not> off + n' > fsize e" using sum by (simp add: word_less_nat_alt)
    have pos: "0 < fsize e" using True n by (cases "fsize e = 0") (auto simp: word_gt_0)
    then have d: "data e1 = Buf (content e)" using fe(5) c1 by simp
    have w: "buf_write (content e) (unat off) bs = Some (file_write (content e) (unat off) bs)"
      using True fe(1) n by (intro buf_write_file_write) simp_all
    have len: "of_nat (length (file_write (content e) (unat off) bs)) = fsize e"
      using True fe(1) by (simp add: length_file_write max_def word_unat_eq_iff)
    show ?thesis unfolding unf using True le d w len pos fe(4,5)
      by (simp add: written_def Let_def e1 n'_def)
  next
    case False
    then have gt: "off + n' > fsize e" using sum by (simp add: word_less_nat_alt)
    note gr = fd_grow_spec [OF ok1 km, unfolded c1, OF gt, of k]
    have le: "off + n' \<le> MAX_FD_FILE \<longleftrightarrow> unat off + length bs \<le> 65536" using sum by (simp add: word_le_nat_alt)
    have w: "buf_write (content e @ replicate (unat (off + n') - unat (fsize e)) 0) (unat off) bs =
        Some (file_write (content e) (unat off) bs)"
      using file_write_pad [of "content e" "unat off" bs] False fe(1) n sum by simp
    have len: "of_nat (length (file_write (content e) (unat off) bs)) = off + n'"
      using False fe(1) sum by (simp add: length_file_write max_def word_unat_eq_iff unat_of_nat n'_def)
    show ?thesis unfolding unf using False gt gr le w len e1
      by (cases "unat off + length bs \<le> 65536 \<and> km (off + n') \<noteq> None") (auto simp: written_def Let_def n'_def [symmetric])
  qed
qed

lemma fd_write_wraps:
  assumes t: "table_ok t" and v: "valid_fd fd" and e: "e = t ! nat fd" "ftype e = FD_TYPE_FILE" "writable e"
    and km: "km_ok km" and n: "length bs < 2 ^ 32" and off: "off = (if append e then fsize e else offset e)" "2 ^ 32 \<le> unat off + length bs"
  shows "fd_write km fd bs t k =
    (if off + of_nat (length bs) > fsize e \<and> km (off + of_nat (length bs)) = None then Ret (-1) (t[nat fd := e\<lparr>offset := off\<rparr>], k) else Fault)"
proof -
  have ok: "entry_ok e" using table_okD [OF t v] e(1) by simp
  note fe = file_entry_facts [OF ok e(2)]
  define e1 where e1: "e1 = e\<lparr>offset := off\<rparr>"
  have ok1: "entry_ok e1" "ftype e1 = FD_TYPE_FILE" using ok e(2) off(1) by (auto simp: e1 entry_ok_def split: fd_data.splits)
  have c1: "content e1 = content e" "fsize e1 = fsize e" "offset e1 = off" "data e1 = data e" by (simp_all add: e1 content_def)
  have ob: "unat off \<le> 65536" using fe(2,3) off(1) by (simp add: word_le_nat_alt)
  define n' where "n' = (of_nat (length bs) :: u32)"
  have nn: "unat n' = length bs" "n' \<noteq> 0" using n off(2) ob by (auto simp: n'_def unat_of_nat word_unat_eq_iff)
  have sum: "unat (off + n') \<le> 65536" using off(2) nn(1) ob n by (simp add: unat_word_ariths mod_if) linarith
  note unf = fd_write_unfold [OF v e n'_def nn(2) off(1), folded e1]
  have out: "buf_write d (unat off) bs = None" if "length d \<le> 65536" for d
    using that off(2) ob by (cases "bs = []") (simp_all add: buf_write_def)
  have l: "length (content e) \<le> 65536" using fe(1,2) by (simp add: word_le_nat_alt)
  show ?thesis
  proof (cases "off + n' > fsize e")
    case True
    note gr = fd_grow_spec [OF ok1 km, unfolded c1, OF True, of k]
    have "length (content e @ replicate (unat (off + n') - unat (fsize e)) 0) \<le> 65536" using True fe(1) sum by (simp add: word_less_nat_alt)
    then show ?thesis unfolding unf using True gr sum out by (simp add: n'_def [symmetric] word_le_nat_alt e1)
  next
    case False
    have "(case data e of Buf d \<Rightarrow> buf_write d (unat (offset e1)) bs | _ \<Rightarrow> None) = None"
      using out l c1(3) by (auto simp: content_def split: fd_data.split)
    then show ?thesis unfolding unf using False by (simp add: n'_def [symmetric] c1)
  qed
qed

lemma written_ok:
  assumes "entry_ok e" and "ftype e = FD_TYPE_FILE" and "bs \<noteq> []"
    and "unat off + length bs \<le> unat (fsize e) \<or> unat off + length bs \<le> 65536"
  shows "entry_ok (written e off bs)" and "content (written e off bs) = file_write (content e) (unat off) bs"
proof -
  note fe = file_entry_facts [OF assms(1,2)]
  let ?c = "file_write (content e) (unat off) bs"
  have sz: "unat (fsize e) \<le> 65536" using fe(2) by (simp add: word_le_nat_alt)
  then have len: "length ?c \<le> 65536" "0 < length ?c" "unat off + length bs \<le> 65536"
    using assms(3,4) fe(1) by (auto simp: length_file_write less_max_iff_disj)
  then have "unat (of_nat (length ?c) :: u32) = length ?c" by (simp add: unat_of_nat)
  moreover have "unat (off + of_nat (length bs)) = unat off + length bs"
    using len(3) by (simp add: unat_word_ariths unat_of_nat)
  ultimately show "entry_ok (written e off bs)"
    using assms(2) len by (simp add: entry_ok_def written_def Let_def word_le_nat_alt word_less_nat_alt)
  show "content (written e off bs) = ?c" by (simp add: content_def written_def Let_def)
qed

lemma fd_read_file:
  fixes n :: u32
  assumes t: "table_ok t" and v: "valid_fd fd" and e: "e = t ! nat fd" "ftype e = FD_TYPE_FILE"
  defines "m \<equiv> min (unat n) (unat (fsize e) - unat (offset e))"
  shows "\<exists>t'. fd_read keys fd n t k = Ret (int m) (take m (drop (unat (offset e)) (content e)), t', k) \<and> table_ok t' \<and>
    (0 < m \<longrightarrow> t' = t[nat fd := e\<lparr>offset := offset e + of_nat m\<rparr>]) \<and> (m = 0 \<longrightarrow> t' = t)"
proof -
  have ok: "entry_ok e" and i: "nat fd < length t" using table_okD [OF t v] e(1) by simp_all
  note fe = file_entry_facts [OF ok e(2)]
  show ?thesis
  proof (cases "offset e \<ge> fsize e")
    case True
    then have "m = 0" by (simp add: m_def word_le_nat_alt)
    then show ?thesis using True v e t by (simp add: fd_read_def Let_def)
  next
    case False
    then have lt: "unat (offset e) < unat (fsize e)" by (simp add: word_le_nat_alt not_le)
    define av where "av = fsize e - offset e"
    have av: "unat av = unat (fsize e) - unat (offset e)" using lt by (simp add: av_def unat_sub word_le_nat_alt)
    define mm where "mm = (if n < av then n else av)"
    have mm: "unat mm = m" using av by (simp add: mm_def m_def word_less_nat_alt min_def)
    have d: "data e = Buf (content e)" using fe(5) lt by (simp add: word_less_nat_alt)
    have "buf_read (content e) (unat (offset e)) (unat mm) = Some (take m (drop (unat (offset e)) (content e)))"
      using fe(1) lt mm by (auto simp: buf_read_def m_def)
    then have r: "fd_read keys fd n t k =
        Ret (int m) (take m (drop (unat (offset e)) (content e)), t[nat fd := e\<lparr>offset := offset e + mm\<rparr>], k)"
      unfolding fd_read_def Let_def e(1) [symmetric] av_def [symmetric] mm_def [symmetric]
      using v e(2) d False mm by simp
    have mw: "mm = of_nat m" by (simp flip: mm)
    have "unat (offset e + mm) = unat (offset e) + m"
      using lt mm fe(2) by (simp add: unat_word_ariths m_def word_le_nat_alt)
    then have "entry_ok (e\<lparr>offset := offset e + mm\<rparr>)"
      using ok e(2) lt fe(2) by (auto simp: entry_ok_def word_le_nat_alt m_def split: fd_data.splits)
    then show ?thesis using r mw t table_ok_update [OF t] e by (cases "m = 0") auto
  qed
qed


definition file_table :: "u8 list \<Rightarrow> u32 \<Rightarrow> fd_table" where
  "file_table c off = fd_table_init[3 := \<lparr>ftype = FD_TYPE_FILE, writable = True, dirty = False, append = False,
     fsize = of_nat (length c), offset = off, data = (if c = [] then NoData else Buf c), name = ''F''\<rparr>]"

definition idle :: fdsys where
  "idle = \<lparr>pipes = replicate PIPE_MAX \<lparr>p_used = False, ref_r = 0, ref_w = 0, head = 0, tail = 0, count = 0,
     pbuf = None, wq_head = 0\<rparr>, kbufs = 0, events = []\<rparr>"

lemma entry_ok_free [simp]: "entry_ok free_entry" "entry_ok (free_entry\<lparr>ftype := FD_TYPE_STDIN\<rparr>)"
  "entry_ok (free_entry\<lparr>ftype := FD_TYPE_STDOUT\<rparr>)" "entry_ok (free_entry\<lparr>ftype := FD_TYPE_STDERR\<rparr>)"
  by (simp_all add: entry_ok_def free_entry_def)

lemma table_ok_init: "table_ok fd_table_init"
  unfolding fd_table_init_def by (intro table_ok_update) (auto simp: table_ok_def)

lemma file_table_ok:
  assumes "length c \<le> 65536" and "off \<le> MAX_FD_FILE"
  shows "table_ok (file_table c off)"
  unfolding file_table_def
  by (rule table_ok_update [OF table_ok_init])
    (use assms in \<open>auto simp: entry_ok_def word_le_nat_alt word_less_nat_alt unat_of_nat\<close>)

lemma file_table_entry:
  "file_table c off ! 3 = \<lparr>ftype = FD_TYPE_FILE, writable = True, dirty = False, append = False,
     fsize = of_nat (length c), offset = off, data = (if c = [] then NoData else Buf c), name = ''F''\<rparr>"
  by (simp add: file_table_def fd_table_init_def)

abbreviation km_fresh :: "u32 \<Rightarrow> u8 list option" where
  "km_fresh \<equiv> \<lambda>n. Some (replicate (unat n) 0xCC)"


text \<open>What was written is read back: after a successful write at an offset, seeking back to
  it and reading as many bytes returns exactly the bytes written.\<close>

theorem fd_write_seek_read:
  assumes t: "table_ok t" and v: "valid_fd fd" and f: "ftype (t ! nat fd) = FD_TYPE_FILE" "writable (t ! nat fd)"
    and "\<not> append (t ! nat fd)" and km: "km_ok km" and bs: "bs \<noteq> []" "length bs < 2 ^ 31"
    and w: "fd_write km fd bs t k = Ret (int (length bs)) (t1, k1)"
  shows "\<exists>t2 t3. fd_lseek fd (offset (t ! nat fd)) 0 t1 = (int (unat (offset (t ! nat fd))), t2) \<and>
    fd_read keys fd (of_nat (length bs)) t2 k1 = Ret (int (length bs)) (bs, t3, k1)"
proof -
  define e where "e = t ! nat fd"
  define off where "off = offset e"
  have e: "entry_ok e" "nat fd < length t" using table_okD [OF t v] by (simp_all add: e_def)
  have fe: "ftype e = FD_TYPE_FILE" using f by (simp add: e_def)
  have offe: "off = (if append e then fsize e else offset e)" using assms(5) by (simp add: off_def e_def)
  have ob: "unat off \<le> 65536" using file_entry_facts(3) [OF e(1) fe] by (simp add: off_def word_le_nat_alt)
  have nw: "unat off + length bs < 2 ^ 32" using ob bs(2) by simp
  define fits where "fits \<longleftrightarrow> unat off + length bs \<le> unat (fsize e) \<or>
      unat off + length bs \<le> 65536 \<and> km (off + of_nat (length bs)) \<noteq> None"
  note fw = fd_write_file [OF t v e_def fe f(2) [folded e_def] km bs(1) offe nw, of k, folded fits_def]
  have "fits"
  proof (rule ccontr)
    assume "\<not> fits"
    then have "Ret (int (length bs)) (t1, k1) = Ret (-1) (t[nat fd := e\<lparr>offset := off\<rparr>], k)" using w fw by simp
    then show False by simp
  qed
  then have b: "unat off + length bs \<le> unat (fsize e) \<or> unat off + length bs \<le> 65536"
    unfolding fits_def by blast
  have t1: "t1 = t[nat fd := written e off bs]" using w fw \<open>fits\<close> by simp
  note wo = written_ok [OF e(1) fe bs(1) b]
  define e2 where "e2 = (written e off bs)\<lparr>offset := off\<rparr>"
  define t2 where "t2 = t1[nat fd := e2]"
  have s0: "sint off = int (unat off)"
    by (rule sint_small) (use ob in simp)
  have ft: "ftype (written e off bs) = FD_TYPE_FILE" using fe by (simp add: written_def Let_def)
  have seek: "fd_lseek fd off 0 t1 = (int (unat off), t2)"
    using v e(2) ft ob s0 by (simp add: fd_lseek_def Let_def t1 t2_def e2_def word_less_nat_alt)
  have ok2: "entry_ok e2" using wo(1) ft ob by (auto simp: e2_def entry_ok_def word_le_nat_alt split: fd_data.splits)
  have tt: "table_ok t2" unfolding t2_def t1 by (intro table_ok_update t wo(1) ok2)
  have n2: "t2 ! nat fd = e2" using e(2) by (simp add: t2_def t1)
  have c2: "content e2 = file_write (content e) (unat off) bs" "offset e2 = off" "ftype e2 = FD_TYPE_FILE"
    using wo(2) ft by (simp_all add: e2_def content_def)
  have sz: "unat (fsize e2) = length (content e2)" using file_entry_facts(1) [OF ok2 c2(3)] by simp
  have m: "min (unat (of_nat (length bs) :: u32)) (unat (fsize e2) - unat (offset e2)) = length bs"
    using bs(2) by (simp add: sz c2 length_file_write unat_of_nat)
  note rd = fd_read_file [OF tt v n2 [symmetric] c2(3), where n = "of_nat (length bs)" and keys = keys and k = k1, unfolded m]
  have "\<exists>t3. fd_read keys fd (of_nat (length bs)) t2 k1 = Ret (int (length bs)) (bs, t3, k1)"
    using rd unfolding c2(1,2) file_write_read by blast
  then show ?thesis using seek unfolding off_def e_def by blast
qed

theorem fd_write_seek_read_witness:
  "\<exists>t1 k1 t2 t3. fd_write km_fresh 3 [7, 8] (file_table [1, 2] 4) idle = Ret 2 (t1, k1) \<and>
     fd_lseek 3 4 0 t1 = (4, t2) \<and> fd_read [] 3 2 t2 k1 = Ret 2 ([7, 8], t3, k1)"
proof -
  let ?t = "file_table [1, 2] 4"
  have t: "table_ok ?t" by (rule file_table_ok) simp_all
  have v: "valid_fd 3" by (simp add: valid_fd_def)
  have e: "?t ! nat 3 = \<lparr>ftype = FD_TYPE_FILE, writable = True, dirty = False, append = False,
     fsize = 2, offset = 4, data = Buf [1, 2], name = ''F''\<rparr>" using file_table_entry [of "[1, 2]" 4] by simp
  have km: "km_ok km_fresh" by (simp add: km_ok_def)
  obtain t1 k1 where w: "fd_write km_fresh 3 [7, 8] ?t idle = Ret (int (length [7::u8, 8])) (t1, k1)"
    using fd_write_file [OF t v refl, of km_fresh "[7, 8]" 4 idle, unfolded e] km by simp
  have "\<exists>t2 t3. fd_lseek 3 4 0 t1 = (4, t2) \<and> fd_read [] 3 2 t2 k1 = Ret 2 ([7, 8], t3, k1)"
    using fd_write_seek_read [OF t v _ _ _ km _ _ w, of "[]", unfolded e] by simp
  then show ?thesis using w by auto
qed

lemma dup_entry_no_memory:
  fixes d :: fd_entry and k :: fdsys
  assumes "ftype s = FD_TYPE_FILE"
  defines "e \<equiv> fst (dup_entry (\<lambda>_. None) s d k)"
  shows "ftype e = FD_TYPE_FILE" "data e = NoData" "fsize e = fsize s" "offset e = offset s"
  using assms by (auto simp: dup_entry_def split: fd_data.splits)

lemma dup_entries_no_memory:
  assumes "i < length ss" and "ftype (ss ! i) = FD_TYPE_FILE"
  shows "ftype (fst (dup_entries (\<lambda>_. None) ss ds k) ! i) = FD_TYPE_FILE"
    and "data (fst (dup_entries (\<lambda>_. None) ss ds k) ! i) = NoData"
    and "fsize (fst (dup_entries (\<lambda>_. None) ss ds k) ! i) = fsize (ss ! i)"
    and "offset (fst (dup_entries (\<lambda>_. None) ss ds k) ! i) = offset (ss ! i)"
proof -
  have "fst (dup_entries (\<lambda>_. None) ss ds k) ! i \<in> {fst (dup_entry (\<lambda>_. None) (ss ! i) d k') | d k'. True}"
    using assms(1)
  proof (induction ss arbitrary: i ds k)
    case (Cons s ss)
    obtain d k1 where d: "dup_entry (\<lambda>_. None) s (hd ds) k = (d, k1)" by (cases "dup_entry (\<lambda>_. None) s (hd ds) k")
    obtain ds' k2 where r: "dup_entries (\<lambda>_. None) ss (tl ds) k1 = (ds', k2)" by (cases "dup_entries (\<lambda>_. None) ss (tl ds) k1")
    show ?case
    proof (cases i)
      case 0
      have "\<exists>x y. d = fst (dup_entry (\<lambda>_. None) s x y)" using d by (metis fst_conv)
      then show ?thesis using 0 d r by simp
    next
      case (Suc j)
      then show ?thesis using Cons.IH [of j "tl ds" k1] Cons.prems d r by simp
    qed
  qed simp
  then obtain d k' where e: "fst (dup_entries (\<lambda>_. None) ss ds k) ! i = fst (dup_entry (\<lambda>_. None) (ss ! i) d k')" by blast
  show "ftype (fst (dup_entries (\<lambda>_. None) ss ds k) ! i) = FD_TYPE_FILE"
    "data (fst (dup_entries (\<lambda>_. None) ss ds k) ! i) = NoData"
    "fsize (fst (dup_entries (\<lambda>_. None) ss ds k) ! i) = fsize (ss ! i)"
    "offset (fst (dup_entries (\<lambda>_. None) ss ds k) ! i) = offset (ss ! i)"
    unfolding e using dup_entry_no_memory [OF assms(2)] by simp_all
qed

text \<open>A fork under memory pressure leaves a broken handle. When \<open>kmalloc\<close> fails while a
  table is copied, the copy of a non-empty file handle has a null buffer but keeps its size, so
  the first read of at least one byte at an offset inside the file goes through a null pointer.\<close>

theorem dup_without_memory_faults:
  assumes "table_ok t" and "valid_fd fd" and "ftype (t ! nat fd) = FD_TYPE_FILE"
    and "offset (t ! nat fd) < fsize (t ! nat fd)" and "n \<noteq> 0" and "fd_table_dup (\<lambda>_. None) t k = (t', k')"
  shows "fd_read keys fd n t' k'' = Fault"
proof -
  have i: "nat fd < length t" using table_okD [OF assms(1,2)] by simp
  have t': "t' = fst (dup_entries (\<lambda>_. None) t fd_table_init k)" using assms(6) by (simp add: fd_table_dup_def)
  note e = dup_entries_no_memory [OF i assms(3), of fd_table_init k, folded t']
  have "fsize (t ! nat fd) - offset (t ! nat fd) \<noteq> 0" using assms(4) by auto
  then show ?thesis using assms(2,4,5) e by (simp add: fd_read_def Let_def)
qed

theorem dup_without_memory_faults_witness:
  "fd_read [] 3 1 (fst (fd_table_dup (\<lambda>_. None) (file_table [1, 2] 0) idle)) idle = Fault"
proof -
  have t: "table_ok (file_table [1, 2] 0)" by (rule file_table_ok) simp_all
  obtain t' k' where d: "fd_table_dup (\<lambda>_. None) (file_table [1, 2] 0) idle = (t', k')" by fastforce
  show ?thesis
    using dup_without_memory_faults [OF t _ _ _ _ d, of 3 1 "[]" idle] file_table_entry [of "[1, 2]" 0] d
    by (simp add: valid_fd_def)
qed

section \<open>Pipes are queues\<close>

definition pipe_ok :: "pipe \<Rightarrow> bool" where
  "pipe_ok p \<longleftrightarrow> (\<exists>b. pbuf p = Some b \<and> length b = PIPE_BUF) \<and> tail p < PIPE_BUF \<and> count p \<le> PIPE_BUF \<and>
     head p = (tail p + count p) mod PIPE_BUF"

definition queue :: "pipe \<Rightarrow> u8 list" where
  "queue p = map (\<lambda>j. the (pbuf p) ! ((tail p + j) mod PIPE_BUF)) [0..<count p]"

lemma length_ring_store [simp]: "length (ring_store b h xs) = length b"
  by (induction b h xs rule: ring_store.induct) simp_all

text \<open>The slots of a ring are distinct within one turn.\<close>

lemma ring_inj:
  assumes "(t + i) mod PIPE_BUF = (t + j) mod PIPE_BUF" and "i < PIPE_BUF" and "j < PIPE_BUF"
  shows "i = j"
  using ring_window_inj [OF assms] .

lemma ring_store_get:
  assumes "length b = PIPE_BUF" and "c + length xs \<le> PIPE_BUF" and "h mod PIPE_BUF = (t + c) mod PIPE_BUF"
    and "j < c + length xs"
  shows "ring_store b h xs ! ((t + j) mod PIPE_BUF) = (if j < c then b ! ((t + j) mod PIPE_BUF) else xs ! (j - c))"
  using assms
proof (induction xs arbitrary: b h c)
  case Nil
  then show ?case by simp
next
  case (Cons x xs)
  let ?b = "b[h mod PIPE_BUF := x]"
  have h1: "(h + 1) mod PIPE_BUF = (t + Suc c) mod PIPE_BUF"
    using mod_add_cong [OF Cons.prems(3) refl, of 1] by simp
  have "ring_store b h (x # xs) ! ((t + j) mod PIPE_BUF) =
      (if j < Suc c then ?b ! ((t + j) mod PIPE_BUF) else xs ! (j - Suc c))"
    using Cons.IH [of ?b "Suc c" "h + 1"] Cons.prems h1 by simp
  also have "\<dots> = (if j < c then b ! ((t + j) mod PIPE_BUF) else (x # xs) ! (j - c))"
  proof (cases "j < c")
    case True
    then have "(t + j) mod PIPE_BUF \<noteq> h mod PIPE_BUF" using ring_inj [of t j c] Cons.prems by auto
    then show ?thesis using True by simp
  next
    case False
    then show ?thesis using Cons.prems by (cases "j = c") auto
  qed
  finally show ?case .
qed

text \<open>A pass of the writer appends what fits; a pass of the reader takes from the front.\<close>

lemma pipe_write_spec:
  assumes ok: "pipe_ok (pipes k ! i)" and i: "i < length (pipes k)"
  shows "pipe_write_step i bs k \<noteq> Fault"
    and "pipe_write_step i bs k = Ret r k' \<Longrightarrow> r = -1 \<and> k' = k \<or>
      r = int (min (length bs) (PIPE_BUF - count (pipes k ! i))) \<and> pipe_ok (pipes k' ! i) \<and>
      queue (pipes k' ! i) = queue (pipes k ! i) @ take (nat r) bs \<and> length (pipes k') = length (pipes k) \<and>
      ref_r (pipes k' ! i) = ref_r (pipes k ! i) \<and> ref_w (pipes k' ! i) = ref_w (pipes k ! i)"
proof -
  define p where "p = pipes k ! i"
  obtain b where b: "pbuf p = Some b" "length b = PIPE_BUF" using ok by (auto simp: pipe_ok_def p_def)
  have pk: "tail p < PIPE_BUF" "count p \<le> PIPE_BUF" "head p = (tail p + count p) mod PIPE_BUF"
    using ok by (simp_all add: pipe_ok_def p_def)
  show "pipe_write_step i bs k \<noteq> Fault" using b by (simp add: pipe_write_step_def Let_def p_def)
  assume w: "pipe_write_step i bs k = Ret r k'"
  show "r = -1 \<and> k' = k \<or>
      r = int (min (length bs) (PIPE_BUF - count (pipes k ! i))) \<and> pipe_ok (pipes k' ! i) \<and>
      queue (pipes k' ! i) = queue (pipes k ! i) @ take (nat r) bs \<and> length (pipes k') = length (pipes k) \<and>
      ref_r (pipes k' ! i) = ref_r (pipes k ! i) \<and> ref_w (pipes k' ! i) = ref_w (pipes k ! i)"
  proof (cases "ref_r p = 0")
    case True
    then show ?thesis using w by (simp add: pipe_write_step_def Let_def p_def)
  next
    case False
    define m where "m = min (length bs) (PIPE_BUF - count p)"
    define p1 where "p1 = p\<lparr>pbuf := Some (ring_store b (head p) (take m bs)), head := (head p + m) mod PIPE_BUF, count := count p + m\<rparr>"
    have room: "count p < PIPE_BUF" using w False by (auto simp: pipe_write_step_def Let_def p_def split: if_splits)
    have mm: "(if length bs < PIPE_BUF - count p then length bs else PIPE_BUF - count p) = m" by (simp add: m_def)
    have "r = int m" "k' = emit (Wake i) (set_pipe i p1 k)"
      using w False room b unfolding pipe_write_step_def Let_def p_def [symmetric] mm by (simp_all add: p1_def)
    then have r: "r = int m" and k': "pipes k' ! i = p1" "length (pipes k') = length (pipes k)"
      using i by (simp_all add: emit_def set_pipe_def)
    have ml: "m \<le> length bs" "count p + m \<le> PIPE_BUF" using pk(2) by (auto simp: m_def)
    have "pipe_ok p1"
      using b pk ml by (simp add: pipe_ok_def p1_def mod_add_left_eq add.assoc)
    moreover have "queue p1 = queue p @ take m bs"
    proof (rule nth_equalityI)
      show "length (queue p1) = length (queue p @ take m bs)" using ml by (simp add: queue_def p1_def)
      fix j assume "j < length (queue p1)"
      then have j: "j < count p + m" by (simp add: queue_def p1_def)
      have "queue p1 ! j = ring_store b (head p) (take m bs) ! ((tail p + j) mod PIPE_BUF)"
        using j by (simp add: queue_def p1_def)
      also have "\<dots> = (if j < count p then b ! ((tail p + j) mod PIPE_BUF) else take m bs ! (j - count p))"
        using ring_store_get [OF b(2), of "count p" "take m bs" "head p" "tail p" j] pk ml j by simp
      finally show "queue p1 ! j = (queue p @ take m bs) ! j"
        using b(1) by (simp add: queue_def nth_append)
    qed
    ultimately show ?thesis using r k' by (simp add: m_def p_def p1_def)
  qed
qed

lemma pipe_read_spec:
  assumes ok: "pipe_ok (pipes k ! i)" and i: "i < length (pipes k)"
  shows "pipe_read_step i n k \<noteq> Fault"
    and "pipe_read_step i n k = Ret r (bs, k') \<Longrightarrow> pipe_ok (pipes k' ! i) \<and>
      r = int (min n (count (pipes k ! i))) \<and> bs = take (nat r) (queue (pipes k ! i)) \<and>
      queue (pipes k' ! i) = drop (nat r) (queue (pipes k ! i)) \<and> length (pipes k') = length (pipes k) \<and>
      ref_r (pipes k' ! i) = ref_r (pipes k ! i) \<and> ref_w (pipes k' ! i) = ref_w (pipes k ! i)"
proof -
  define p where "p = pipes k ! i"
  obtain b where b: "pbuf p = Some b" "length b = PIPE_BUF" using ok by (auto simp: pipe_ok_def p_def)
  have pk: "tail p < PIPE_BUF" "count p \<le> PIPE_BUF" "head p = (tail p + count p) mod PIPE_BUF"
    using ok by (simp_all add: pipe_ok_def p_def)
  show "pipe_read_step i n k \<noteq> Fault" using b by (simp add: pipe_read_step_def Let_def p_def)
  assume w: "pipe_read_step i n k = Ret r (bs, k')"
  show "pipe_ok (pipes k' ! i) \<and>
      r = int (min n (count (pipes k ! i))) \<and> bs = take (nat r) (queue (pipes k ! i)) \<and>
      queue (pipes k' ! i) = drop (nat r) (queue (pipes k ! i)) \<and> length (pipes k') = length (pipes k) \<and>
      ref_r (pipes k' ! i) = ref_r (pipes k ! i) \<and> ref_w (pipes k' ! i) = ref_w (pipes k ! i)"
  proof (cases "count p = 0")
    case True
    then have "r = 0" "bs = []" "k' = k" using w by (auto simp: pipe_read_step_def Let_def p_def split: if_splits)
    then show ?thesis using True ok by (simp add: p_def queue_def)
  next
    case False
    define m where "m = min n (count p)"
    define p1 where "p1 = p\<lparr>tail := (tail p + m) mod PIPE_BUF, count := count p - m\<rparr>"
    have mm: "(if n < count p then n else count p) = m" by (simp add: m_def)
    have "r = int m" "bs = map (\<lambda>j. b ! ((tail p + j) mod PIPE_BUF)) [0..<m]" "k' = emit (Wake i) (set_pipe i p1 k)"
      using w False b unfolding pipe_read_step_def Let_def p_def [symmetric] mm by (simp_all add: p1_def)
    then have r: "r = int m" "bs = map (\<lambda>j. b ! ((tail p + j) mod PIPE_BUF)) [0..<m]"
      and k': "pipes k' ! i = p1" "length (pipes k') = length (pipes k)"
      using i by (simp_all add: emit_def set_pipe_def)
    have ml: "m \<le> count p" by (simp add: m_def)
    obtain c where c: "count p = m + c" using ml by (metis le_Suc_ex)
    have "pipe_ok p1" using b pk unfolding pipe_ok_def p1_def by (simp add: c mod_add_left_eq add.assoc)
    moreover have "bs = take m (queue p)" using r(2) b(1) ml by (simp add: queue_def take_map min_def)
    moreover have "queue p1 = drop m (queue p)"
      by (rule nth_equalityI) (simp_all add: queue_def p1_def mod_add_left_eq add.assoc c del: upt_Suc)
    ultimately show ?thesis using r k' by (simp add: m_def p_def p1_def)
  qed
qed

section \<open>The interface of a byte channel\<close>

text \<open>
  What pipe clients rely on: a put appends a prefix of what was offered, a get removes a
  prefix of the queue. The lemma of the locale is about any interleaving of the two.
\<close>

datatype chan_op = Put "u8 list" | Get nat

locale byte_channel =
  fixes chan_ok :: "'s \<Rightarrow> bool"
    and q :: "'s \<Rightarrow> u8 list"
    and put :: "u8 list \<Rightarrow> 's \<Rightarrow> nat \<times> 's"
    and get :: "nat \<Rightarrow> 's \<Rightarrow> u8 list \<times> 's"
  assumes put_q: "chan_ok s \<Longrightarrow> put bs s = (m, s') \<Longrightarrow> chan_ok s' \<and> q s' = q s @ take m bs"
    and get_q: "chan_ok s \<Longrightarrow> get n s = (bs, s') \<Longrightarrow> chan_ok s' \<and> q s = bs @ q s'"
begin

text \<open>Run a sequence of operations; the accumulators are the bytes accepted and delivered.\<close>

fun run :: "chan_op list \<Rightarrow> 's \<Rightarrow> u8 list \<times> u8 list \<times> 's" where
  "run [] s = ([], [], s)"
| "run (Put bs # ops) s = (let (m, s1) = put bs s; (i, out, s2) = run ops s1 in (take m bs @ i, out, s2))"
| "run (Get n # ops) s = (let (bs, s1) = get n s; (i, out, s2) = run ops s1 in (i, bs @ out, s2))"

lemma run_fifo:
  assumes "chan_ok s" and "run ops s = (ins, outs, s')"
  shows "chan_ok s' \<and> q s @ ins = outs @ q s'"
  using assms
proof (induction ops s arbitrary: ins outs rule: run.induct)
  case (1 s)
  then show ?case by simp
next
  case (2 bs ops s)
  obtain m s1 where p: "put bs s = (m, s1)" by (cases "put bs s")
  obtain i out s2 where r: "run ops s1 = (i, out, s2)" by (cases "run ops s1")
  have "chan_ok s1" "q s1 = q s @ take m bs" using put_q [OF "2.prems"(1) p] by simp_all
  then show ?case using "2.IH" [OF p [symmetric] refl, of i out] "2.prems"(2) p r by auto
next
  case (3 n ops s)
  obtain bs s1 where p: "get n s = (bs, s1)" by (cases "get n s")
  obtain i out s2 where r: "run ops s1 = (i, out, s2)" by (cases "run ops s1")
  have "chan_ok s1" "q s = bs @ q s1" using get_q [OF "3.prems"(1) p] by simp_all
  then show ?case using "3.IH" [OF p [symmetric] refl, of i out] "3.prems"(2) p r by auto
qed

end

text \<open>An attempt on pipe \<open>i\<close>: what sleeps or is refused transfers nothing.\<close>

definition pipe_put :: "nat \<Rightarrow> u8 list \<Rightarrow> fdsys \<Rightarrow> nat \<times> fdsys" where
  "pipe_put i bs k = (case pipe_write_step i bs k of Ret r k' \<Rightarrow> (nat r, k') | _ \<Rightarrow> (0, k))"

definition pipe_get :: "nat \<Rightarrow> nat \<Rightarrow> fdsys \<Rightarrow> u8 list \<times> fdsys" where
  "pipe_get i n k = (case pipe_read_step i n k of Ret r (bs, k') \<Rightarrow> (bs, k') | _ \<Rightarrow> ([], k))"

interpretation pc: byte_channel "\<lambda>k. i < length (pipes k) \<and> pipe_ok (pipes k ! i)" "\<lambda>k. queue (pipes k ! i)"
  "pipe_put i" "pipe_get i" for i
proof
  fix k k' bs m
  assume ok: "i < length (pipes k) \<and> pipe_ok (pipes k ! i)" and p: "pipe_put i bs k = (m, k')"
  show "(i < length (pipes k') \<and> pipe_ok (pipes k' ! i)) \<and> queue (pipes k' ! i) = queue (pipes k ! i) @ take m bs"
  proof (cases "pipe_write_step i bs k")
    case (Ret r k1)
    then show ?thesis using pipe_write_spec(2) [of k i bs r k1] ok p by (auto simp: pipe_put_def)
  qed (use ok p in \<open>simp_all add: pipe_put_def\<close>)
next
  fix k k' n bs
  assume ok: "i < length (pipes k) \<and> pipe_ok (pipes k ! i)" and p: "pipe_get i n k = (bs, k')"
  show "(i < length (pipes k') \<and> pipe_ok (pipes k' ! i)) \<and> queue (pipes k ! i) = bs @ queue (pipes k' ! i)"
  proof (cases "pipe_read_step i n k")
    case (Ret r x)
    then show ?thesis using pipe_read_spec(2) [of k i n r "fst x" "snd x"] ok p
      by (cases x) (auto simp: pipe_get_def)
  qed (use ok p in \<open>simp_all add: pipe_get_def\<close>)
qed

text \<open>C13: a pipe is a FIFO. Take any interleaving of write and read attempts on a pipe (attempts
  that sleep included): the bytes delivered to the readers followed by those still buffered are
  the bytes that were buffered before followed by those accepted from the writers, in order,
  and at most 4096 bytes are ever buffered.\<close>

theorem pipe_fifo:
  assumes "i < length (pipes k)" and "pipe_ok (pipes k ! i)" and "pc.run i ops k = (ins, outs, k')"
  shows "queue (pipes k ! i) @ ins = outs @ queue (pipes k' ! i) \<and> length (queue (pipes k' ! i)) \<le> PIPE_BUF"
  using pc.run_fifo [of i k ops ins outs k'] assms by (auto simp: pipe_ok_def queue_def)

theorem pipe_fifo_witness:
  "\<exists>k outs k'. pc.run 0 [Put [1, 2, 3], Get 2, Put [4], Get 9] k = ([1, 2, 3, 4], outs, k') \<and>
     outs @ queue (pipes k' ! 0) = [1, 2, 3, 4]"
proof -
  define p where "p = \<lparr>p_used = True, ref_r = 1, ref_w = 1, head = 0, tail = 0, count = 0,
     pbuf = Some (replicate PIPE_BUF 0), wq_head = -1\<rparr>"
  define k where "k = idle\<lparr>pipes := [p]\<rparr>"
  have k: "0 < length (pipes k)" "pipe_ok (pipes k ! 0)" "queue (pipes k ! 0) = []"
    by (simp_all add: k_def p_def pipe_ok_def queue_def)
  obtain ins outs k' where r: "pc.run 0 [Put [1, 2, 3], Get 2, Put [4], Get 9] k = (ins, outs, k')"
    by (cases "pc.run 0 [Put [1, 2, 3], Get 2, Put [4], Get 9] k")
  then have "ins = [1, 2, 3, 4]"
    by (auto simp: pipe_put_def pipe_get_def pipe_write_step_def pipe_read_step_def k_def p_def emit_def set_pipe_def Let_def)
  then show ?thesis using pipe_fifo [OF k(1,2) r] r k(3) by auto
qed

end
