(* ===== verification/WaitQ.thy ===== *)
theory WaitQ
  imports Task FdSpec
begin

text \<open>
  Correctness of the wait queues of \<open>src/kernel/task.c\<close>. The intrusive chains represent one
  list of task indices per queue: \<open>wq_push\<close>, \<open>wq_remove\<close> and \<open>task_wake_all\<close> refine the
  list operations, the timer interrupt wakes exactly the sleepers whose deadline is over, and
  the two ways in which a sleeper is lost are shown as they are in the code.
\<close>

section \<open>Chains\<close>

primrec seg :: "task list \<Rightarrow> int \<Rightarrow> nat list \<Rightarrow> int \<Rightarrow> bool" where
  "seg ts h [] e \<longleftrightarrow> h = e"
| "seg ts h (x # xs) e \<longleftrightarrow> h = int x \<and> seg ts (wait_next (ts ! x)) xs e"

lemma seg_append: "seg ts h (xs @ ys) e \<longleftrightarrow> (\<exists>m. seg ts h xs m \<and> seg ts m ys e)"
  by (induction xs arbitrary: h) auto

lemma seg_cong:
  assumes "\<And>x. x \<in> set xs \<Longrightarrow> wait_next (ts' ! x) = wait_next (ts ! x)" and "seg ts h xs e"
  shows "seg ts' h xs e"
  using assms by (induction xs arbitrary: h) auto

text \<open>The list of tasks each queue stands for.\<close>

definition wq_rep :: "tsys \<Rightarrow> (nat \<Rightarrow> nat list) \<Rightarrow> bool" where
  "wq_rep s ch \<longleftrightarrow> length (tasks s) = MAX_TASKS \<and>
     (\<forall>q. seg (tasks s) (wq s q) (ch q) (-1) \<and> distinct (ch q)) \<and>
     (\<forall>q i. i \<in> set (ch q) \<longleftrightarrow> i < MAX_TASKS \<and> wait_q (tasks s ! i) = Some q)"

lemma wq_repD:
  assumes "wq_rep s ch"
  shows "length (tasks s) = MAX_TASKS" "seg (tasks s) (wq s q) (ch q) (-1)" "distinct (ch q)"
    "i \<in> set (ch q) \<longleftrightarrow> i < MAX_TASKS \<and> wait_q (tasks s ! i) = Some q"
  using assms unfolding wq_rep_def by blast+

lemma upd_simps [simp]:
  "length (tasks (upd i f s)) = length (tasks s)" "wq (upd i f s) = wq s" "t_ready (upd i f s) = t_ready s"
  "g_pit_ticks (upd i f s) = g_pit_ticks s" "g_current (upd i f s) = g_current s"
  "g_lock_depth (upd i f s) = g_lock_depth s" "mach (upd i f s) = mach s" "g_stackchk_tick (upd i f s) = g_stackchk_tick s"
  "fsys (upd i f s) = fsys s" "g_next_pid (upd i f s) = g_next_pid s" "iflag (upd i f s) = iflag s"
  by (simp_all add: upd_def)

lemma upd_nth [simp]:
  "j < length (tasks s) \<Longrightarrow> tasks (upd i f s) ! j = (if i = j then f (tasks s ! j) else tasks s ! j)"
  by (simp add: upd_def nth_list_update)

lemma wq_rep_disjoint:
  assumes "wq_rep s ch" and "i \<in> set (ch q)"
  shows "i \<in> set (ch r) \<longleftrightarrow> r = q"
  using assms by (auto simp: wq_repD(4) [OF assms(1)])

text \<open>A change of the table that keeps every link and queue field keeps the queues.\<close>

lemma wq_rep_cong:
  assumes "wq_rep s ch" and "length (tasks s') = length (tasks s)" and "wq s' = wq s"
    and "\<And>i. i < MAX_TASKS \<Longrightarrow> wait_next (tasks s' ! i) = wait_next (tasks s ! i) \<and> wait_q (tasks s' ! i) = wait_q (tasks s ! i)"
  shows "wq_rep s' ch"
proof -
  note r = wq_repD [OF assms(1)]
  have "seg (tasks s') (wq s' q) (ch q) (-1)" for q
    by (rule seg_cong [where ts = "tasks s"]) (use r(2,4) assms(3,4) in auto)
  moreover have "i \<in> set (ch q) \<longleftrightarrow> i < MAX_TASKS \<and> wait_q (tasks s' ! i) = Some q" for i q
    using r(4) assms(4) by auto
  ultimately show ?thesis using r(1,3) assms(2) unfolding wq_rep_def by auto
qed

section \<open>The operations refine list operations\<close>

lemma wq_push_rep:
  assumes r: "wq_rep s ch" and i: "i < MAX_TASKS" "wait_q (tasks s ! i) = None"
  shows "wq_rep (wq_push q i s) (ch(q := i # ch q))"
proof -
  note d = wq_repD [OF r]
  let ?s = "wq_push q i s"
  have n: "i \<notin> set (ch p)" for p using d(4) [of i p] i by simp
  have t: "j < MAX_TASKS \<Longrightarrow> tasks ?s ! j = (if j = i then (tasks s ! i)\<lparr>wait_next := wq s q, wait_q := Some q\<rparr> else tasks s ! j)" for j
    using d(1) by (auto simp: wq_push_def)
  have l: "length (tasks ?s) = MAX_TASKS" using d(1) by (simp add: wq_push_def)
  have sg: "seg (tasks ?s) (wq s p) (ch p) (-1)" for p
    by (rule seg_cong [OF _ d(2)]) (use d(4) n t in auto)
  have hd: "wq ?s = (wq s)(q := int i)" by (simp add: wq_push_def)
  have "seg (tasks ?s) (wq ?s p) ((ch(q := i # ch q)) p) (-1)" for p
    using sg [of p] sg [of q] t [OF i(1)] by (simp add: hd)
  moreover have "distinct ((ch(q := i # ch q)) p)" for p using d(3) n by simp
  moreover have "j \<in> set ((ch(q := i # ch q)) p) \<longleftrightarrow> j < MAX_TASKS \<and> wait_q (tasks ?s ! j) = Some p" for j p
    using d(4) [of j p] d(4) [of j q] t [of j] i n [of p] by (cases "j = i") auto
  ultimately show ?thesis using l unfolding wq_rep_def by blast
qed

lemma remove_from_absent:
  assumes "seg (tasks s) (link_of q p s) xs (-1)" and "i \<notin> set xs"
  shows "wq_remove_from q i p s = Some s"
  using assms
proof (induction xs arbitrary: p)
  case Nil
  then show ?case by (subst wq_remove_from.simps) simp
next
  case (Cons x xs)
  then have "wq_remove_from q i (Some x) s = Some s" by (simp add: link_of_def)
  then show ?case using Cons.prems by (subst wq_remove_from.simps) simp
qed

definition unlinked :: "nat \<Rightarrow> nat \<Rightarrow> nat option \<Rightarrow> tsys \<Rightarrow> tsys" where
  "unlinked q i p s = upd i (\<lambda>t. t\<lparr>wait_next := -1, wait_q := None\<rparr>) (set_wlink q p (wait_next (tasks s ! i)) s)"

lemma remove_from_present:
  assumes "seg (tasks s) (link_of q p s) (xs @ i # ys) (-1)" and "i \<notin> set xs"
  shows "wq_remove_from q i p s = Some (unlinked q i (if xs = [] then p else Some (last xs)) s)"
  using assms
proof (induction xs arbitrary: p)
  case Nil
  then show ?case by (subst wq_remove_from.simps) (simp add: unlinked_def)
next
  case (Cons x xs)
  then have "wq_remove_from q i (Some x) s = Some (unlinked q i (if xs = [] then Some x else Some (last xs)) s)"
    by (simp add: link_of_def)
  then show ?case using Cons.prems by (subst wq_remove_from.simps) (auto split: if_splits)
qed

lemma unlinked_rep:
  assumes r: "wq_rep s ch" and c: "ch q = xs @ i # ys"
  shows "wq_rep (unlinked q i (if xs = [] then None else Some (last xs)) s) (ch(q := xs @ ys))"
proof -
  note d = wq_repD [OF r]
  let ?p = "if xs = [] then None else Some (last xs)"
  let ?s = "unlinked q i ?p s"
  have dq: "distinct (xs @ i # ys)" using d(3) [of q] c by simp
  have b: "\<And>x. x \<in> set (ch p) \<Longrightarrow> x < MAX_TASKS" for p using d(4) by blast
  have i8: "i < MAX_TASKS" and iq: "wait_q (tasks s ! i) = Some q" using d(4) [of i q] c by auto
  have l: "length (tasks ?s) = MAX_TASKS" using d(1) by (simp add: unlinked_def set_wlink_def)
  have t: "tasks ?s ! j = (if j = i then (tasks s ! j)\<lparr>wait_next := -1, wait_q := None\<rparr>
      else if xs \<noteq> [] \<and> j = last xs then (tasks s ! j)\<lparr>wait_next := wait_next (tasks s ! i)\<rparr> else tasks s ! j)"
    if "j < MAX_TASKS" for j
    using that d(1) dq by (auto simp: unlinked_def set_wlink_def dest: last_in_set)
  have hd: "wq ?s = (if xs = [] then (wq s)(q := wait_next (tasks s ! i)) else wq s)"
    by (simp add: unlinked_def set_wlink_def)
  have lx: "xs \<noteq> [] \<Longrightarrow> last xs \<in> set (ch q)" using c by simp
  have other: "seg (tasks ?s) (wq ?s p) (ch p) (-1)" if "p \<noteq> q" for p
  proof -
    have "seg (tasks ?s) (wq s p) (ch p) (-1)"
    proof (rule seg_cong [OF _ d(2)])
      fix x assume x: "x \<in> set (ch p)"
      have "x \<notin> set (ch q)" using wq_rep_disjoint [OF r x, of q] that by simp
      then have "x \<noteq> i" "xs \<noteq> [] \<Longrightarrow> x \<noteq> last xs" using lx c by auto
      then show "wait_next (tasks ?s ! x) = wait_next (tasks s ! x)" using t [OF b [OF x]] by auto
    qed
    then show ?thesis using that by (auto simp: hd)
  qed
  have mid: "seg (tasks ?s) (wait_next (tasks s ! i)) ys (-1)"
  proof (rule seg_cong)
    show "seg (tasks s) (wait_next (tasks s ! i)) ys (-1)"
      using d(2) [of q] by (auto simp: c seg_append)
    fix x assume x: "x \<in> set ys"
    then have "x \<noteq> i" "xs \<noteq> [] \<Longrightarrow> x \<noteq> last xs" using dq by (auto dest!: last_in_set)
    moreover have "x < MAX_TASKS" using b [of x q] c x by simp
    ultimately show "wait_next (tasks ?s ! x) = wait_next (tasks s ! x)" using t by auto
  qed
  have this_q: "seg (tasks ?s) (wq ?s q) (xs @ ys) (-1)"
  proof (cases xs rule: rev_cases)
    case Nil
    then show ?thesis using mid hd by simp
  next
    case (snoc zs z)
    have z: "z < MAX_TASKS" using b [of z q] c snoc by simp
    have "seg (tasks s) (wq s q) zs (int z)" using d(2) [of q] by (auto simp: c snoc seg_append)
    moreover have "wait_next (tasks ?s ! x) = wait_next (tasks s ! x)" if "x \<in> set zs" for x
    proof -
      have "x \<noteq> i" "x \<noteq> z" using dq that snoc by auto
      moreover have "x < MAX_TASKS" using b [of x q] c snoc that by simp
      ultimately show ?thesis using t snoc by simp
    qed
    ultimately have "seg (tasks ?s) (wq s q) zs (int z)" by (blast intro: seg_cong)
    moreover have "wait_next (tasks ?s ! z) = wait_next (tasks s ! i)" using t [OF z] dq snoc by auto
    ultimately show ?thesis using mid snoc hd by (auto simp: seg_append)
  qed
  have "j \<in> set ((ch(q := xs @ ys)) p) \<longleftrightarrow> j < MAX_TASKS \<and> wait_q (tasks ?s ! j) = Some p" for j p
  proof (cases "j < MAX_TASKS")
    case True
    have "j \<in> set ((ch(q := xs @ ys)) p) \<longleftrightarrow> j \<in> set (ch p) \<and> j \<noteq> i"
      using c dq wq_rep_disjoint [OF r, of i q p] by auto
    then show ?thesis using t [OF True] d(4) [of j p] True by auto
  next
    case False
    then show ?thesis using b [of j p] b [of j q] c by auto
  qed
  moreover have "seg (tasks ?s) (wq ?s p) ((ch(q := xs @ ys)) p) (-1) \<and> distinct ((ch(q := xs @ ys)) p)" for p
    using other [of p] this_q d(3) [of p] dq by (cases "p = q") simp_all
  ultimately show ?thesis using l unfolding wq_rep_def by blast
qed

text \<open>Two table entries that differ at most in their link.\<close>

definition same_but_link :: "task \<Rightarrow> task \<Rightarrow> bool" where
  "same_but_link t u \<longleftrightarrow> t\<lparr>wait_next := 0\<rparr> = u\<lparr>wait_next := 0\<rparr>"

lemma same_but_link_refl [simp]: "same_but_link t t"
  by (simp add: same_but_link_def)

lemma same_but_link_trans: "same_but_link t u \<Longrightarrow> same_but_link u v \<Longrightarrow> same_but_link t v"
  by (simp add: same_but_link_def)

lemma same_but_link_upd [simp]: "same_but_link (t\<lparr>wait_next := n\<rparr>) u = same_but_link t u"
  "same_but_link t (u\<lparr>wait_next := n\<rparr>) = same_but_link t u"
  by (simp_all add: same_but_link_def)

lemma same_but_linkD:
  assumes "same_but_link t u"
  shows "tstate t = tstate u" "wake_tick t = wake_tick u" "wait_q t = wait_q u" "pid t = pid u"
    "exit_code t = exit_code u" "is_user t = is_user u"
proof -
  have e: "t\<lparr>wait_next := 0\<rparr> = u\<lparr>wait_next := 0\<rparr>" using assms by (simp add: same_but_link_def)
  show "tstate t = tstate u" using arg_cong [OF e, of tstate] by simp
  show "wake_tick t = wake_tick u" using arg_cong [OF e, of wake_tick] by simp
  show "wait_q t = wait_q u" using arg_cong [OF e, of wait_q] by simp
  show "pid t = pid u" using arg_cong [OF e, of pid] by simp
  show "exit_code t = exit_code u" using arg_cong [OF e, of exit_code] by simp
  show "is_user t = is_user u" using arg_cong [OF e, of is_user] by simp
qed

lemma same_but_link_more:
  assumes "same_but_link t u"
  shows "same_but_link (t\<lparr>wait_q := w\<rparr>) (u\<lparr>wait_q := w\<rparr>)" "same_but_link (t\<lparr>tstate := st\<rparr>) (u\<lparr>tstate := st\<rparr>)"
    "same_but_link (t\<lparr>wake_tick := k\<rparr>) (u\<lparr>wake_tick := k\<rparr>)"
  using assms by (cases t; cases u; simp add: same_but_link_def)+

text \<open>
  Everything but the task table and the queue heads is left alone; \<open>f\<close> says what happens to
  each table entry, up to its link.
\<close>

definition frame_rest :: "tsys \<Rightarrow> tsys \<Rightarrow> bool" where
  "frame_rest s s' \<longleftrightarrow> s'\<lparr>tasks := [], wq := \<lambda>_. 0\<rparr> = s\<lparr>tasks := [], wq := \<lambda>_. 0\<rparr>"

lemma frame_restD:
  assumes "frame_rest s s'"
  shows "g_current s' = g_current s" "t_ready s' = t_ready s" "g_pit_ticks s' = g_pit_ticks s" "mach s' = mach s"
    "fsys s' = fsys s" "g_lock_depth s' = g_lock_depth s" "g_stackchk_tick s' = g_stackchk_tick s"
proof -
  have e: "s'\<lparr>tasks := [], wq := \<lambda>_. 0\<rparr> = s\<lparr>tasks := [], wq := \<lambda>_. 0\<rparr>" using assms by (simp add: frame_rest_def)
  show "g_current s' = g_current s" using arg_cong [OF e, of g_current] by simp
  show "t_ready s' = t_ready s" using arg_cong [OF e, of t_ready] by simp
  show "g_pit_ticks s' = g_pit_ticks s" using arg_cong [OF e, of g_pit_ticks] by simp
  show "mach s' = mach s" using arg_cong [OF e, of mach] by simp
  show "fsys s' = fsys s" using arg_cong [OF e, of fsys] by simp
  show "g_lock_depth s' = g_lock_depth s" using arg_cong [OF e, of g_lock_depth] by simp
  show "g_stackchk_tick s' = g_stackchk_tick s" using arg_cong [OF e, of g_stackchk_tick] by simp
qed

lemma frame_rest_upd [simp]: "frame_rest s (upd i f s') = frame_rest s s'" "frame_rest s (s'\<lparr>wq := w\<rparr>) = frame_rest s s'"
  "frame_rest s s"
  by (simp_all add: frame_rest_def upd_def)

lemma frame_rest_trans: "frame_rest s t \<Longrightarrow> frame_rest t u \<Longrightarrow> frame_rest s u"
  by (simp add: frame_rest_def)

lemma wq_remove_rep:
  assumes r: "wq_rep s ch"
  shows "\<exists>s'. wq_remove q i s = Some s' \<and> wq_rep s' (ch(q := remove1 i (ch q))) \<and> frame_rest s s' \<and>
    (\<forall>j < MAX_TASKS. same_but_link (tasks s' ! j)
       (if j = i \<and> i \<in> set (ch q) then (tasks s ! j)\<lparr>wait_q := None\<rparr> else tasks s ! j))"
proof (cases "i \<in> set (ch q)")
  case True
  obtain xs ys where c: "ch q = xs @ i # ys" and n: "i \<notin> set xs" using split_list_first [OF True] by blast
  let ?p = "if xs = [] then None else Some (last xs)"
  have "seg (tasks s) (link_of q None s) (xs @ i # ys) (-1)"
    using wq_repD(2) [OF r, of q] c by (simp add: link_of_def)
  then have e: "wq_remove q i s = Some (unlinked q i ?p s)"
    unfolding wq_remove_def by (rule remove_from_present [OF _ n])
  have rep: "wq_rep (unlinked q i ?p s) (ch(q := remove1 i (ch q)))"
    using unlinked_rep [OF r c] n by (simp add: c remove1_append)
  have t: "\<forall>j < MAX_TASKS. same_but_link (tasks (unlinked q i ?p s) ! j)
       (if j = i \<and> i \<in> set (ch q) then (tasks s ! j)\<lparr>wait_q := None\<rparr> else tasks s ! j)"
    using True wq_repD(1) [OF r] n last_in_set [of xs]
    by (auto simp: unlinked_def set_wlink_def same_but_link_def)
  have "frame_rest s (unlinked q i ?p s)" by (simp add: unlinked_def set_wlink_def)
  then show ?thesis using e rep t by blast
next
  case False
  then have "wq_remove q i s = Some s" using remove_from_absent [of s q None "ch q" i] wq_repD(2) [OF r, of q]
    by (simp add: wq_remove_def link_of_def)
  then show ?thesis using False r by (auto simp: remove1_idem)
qed

text \<open>What \<open>task_wake_all\<close> does to a member of the queue.\<close>

definition woken :: "task \<Rightarrow> task" where
  "woken t = t\<lparr>wait_q := None, wake_tick := 0, tstate := (if tstate t = TASK_BLOCKED then TASK_READY else tstate t)\<rparr>"

lemma wake_chain_spec:
  assumes "seg (tasks s) h xs (-1)" and "distinct xs" and "\<forall>x \<in> set xs. x < length (tasks s)"
  shows "\<exists>s'. wake_chain h s = Some s' \<and> length (tasks s') = length (tasks s) \<and> wq s' = wq s \<and> frame_rest s s' \<and>
    (\<forall>j < length (tasks s). tasks s' ! j =
       (if j \<in> set xs then (woken (tasks s ! j))\<lparr>wait_next := -1\<rparr> else tasks s ! j))"
  using assms
proof (induction xs arbitrary: h s)
  case Nil
  then show ?case by (subst wake_chain.simps) simp
next
  case (Cons x xs)
  let ?f = "\<lambda>t. t\<lparr>wait_next := -1, wait_q := None, wake_tick := 0,
                   tstate := (if tstate t = TASK_BLOCKED then TASK_READY else tstate t)\<rparr>"
  let ?s = "upd x ?f s"
  have h: "h = int x" "x \<notin> set xs" "x < length (tasks s)" using Cons.prems by simp_all
  have "seg (tasks ?s) (wait_next (tasks s ! x)) xs (-1)"
    by (rule seg_cong [where ts = "tasks s"]) (use Cons.prems in auto)
  then have "\<exists>s'. wake_chain (wait_next (tasks s ! x)) ?s = Some s' \<and> length (tasks s') = length (tasks ?s) \<and>
      wq s' = wq ?s \<and> frame_rest ?s s' \<and> (\<forall>j < length (tasks ?s). tasks s' ! j =
       (if j \<in> set xs then (woken (tasks ?s ! j))\<lparr>wait_next := -1\<rparr> else tasks ?s ! j))"
    by (rule Cons.IH) (use Cons.prems in auto)
  then obtain s' where
    s': "wake_chain (wait_next (tasks s ! x)) ?s = Some s'" "length (tasks s') = length (tasks s)" "wq s' = wq s"
      "frame_rest ?s s'" "\<forall>j < length (tasks s). tasks s' ! j =
       (if j \<in> set xs then (woken (tasks ?s ! j))\<lparr>wait_next := -1\<rparr> else tasks ?s ! j)"
    unfolding upd_simps by blast
  have w: "wake_chain h s = Some s'" using s'(1) h(1) by (subst wake_chain.simps) (simp add: Let_def)
  have "frame_rest s s'" using s'(4) frame_rest_trans [of s ?s s'] by simp
  moreover have "\<forall>j < length (tasks s). tasks s' ! j =
       (if j \<in> set (x # xs) then (woken (tasks s ! j))\<lparr>wait_next := -1\<rparr> else tasks s ! j)"
    using s'(5) h(2) by (auto simp: woken_def)
  ultimately show ?case using w s'(2,3) by blast
qed

lemma task_wake_all_rep:
  assumes r: "wq_rep s ch" and rd: "t_ready s"
  shows "\<exists>s'. task_wake_all q s = Some s' \<and> wq_rep s' (ch(q := [])) \<and> frame_rest s s' \<and>
    (\<forall>j < MAX_TASKS. same_but_link (tasks s' ! j) (if j \<in> set (ch q) then woken (tasks s ! j) else tasks s ! j))"
proof -
  note d = wq_repD [OF r]
  obtain s1 where s1: "wake_chain (wq s q) s = Some s1" "length (tasks s1) = length (tasks s)" "wq s1 = wq s"
      "frame_rest s s1" and t: "\<And>j. j < MAX_TASKS \<Longrightarrow> tasks s1 ! j =
       (if j \<in> set (ch q) then (woken (tasks s ! j))\<lparr>wait_next := -1\<rparr> else tasks s ! j)"
    using wake_chain_spec [OF d(2) [of q] d(3)] d(1,4) by auto
  let ?s = "s1\<lparr>wq := (wq s1)(q := -1)\<rparr>"
  have "seg (tasks ?s) (wq ?s p) ((ch(q := [])) p) (-1)" for p
  proof (cases "p = q")
    case False
    have "seg (tasks s1) (wq s p) (ch p) (-1)"
    proof (rule seg_cong [OF _ d(2)])
      fix x assume x: "x \<in> set (ch p)"
      then have "x \<notin> set (ch q)" "x < MAX_TASKS" using wq_rep_disjoint [OF r x, of q] False d(4) [of x p] by simp_all
      then show "wait_next (tasks s1 ! x) = wait_next (tasks s ! x)" using t by simp
    qed
    then show ?thesis using False s1(3) by simp
  qed simp
  moreover have "j \<in> set ((ch(q := [])) p) \<longleftrightarrow> j < MAX_TASKS \<and> wait_q (tasks ?s ! j) = Some p" for j p
    using d(4) [of j p] d(4) [of j q] t [of j] by (cases "j < MAX_TASKS") (auto simp: woken_def)
  ultimately have "wq_rep ?s (ch(q := []))" using d(1,3) s1(2) unfolding wq_rep_def by simp
  moreover have "task_wake_all q s = Some ?s" using rd s1(1) by (simp add: task_wake_all_def)
  moreover have "frame_rest s ?s" using s1(4) by simp
  ultimately show ?thesis using t by auto
qed

section \<open>The interface of the wait queues\<close>

text \<open>
  What the scheduler and the processes rely on: a queue behaves as a list without duplicates,
  a task waits on one queue at a time, and no operation can fail.
\<close>

locale wait_queues =
  fixes rep :: "'s \<Rightarrow> (nat \<Rightarrow> nat list) \<Rightarrow> bool"
    and slots :: nat
    and push :: "nat \<Rightarrow> nat \<Rightarrow> 's \<Rightarrow> 's"
    and unlink :: "nat \<Rightarrow> nat \<Rightarrow> 's \<Rightarrow> 's option"
    and wake :: "nat \<Rightarrow> 's \<Rightarrow> 's option"
  assumes rep_distinct: "rep s ch \<Longrightarrow> distinct (ch q)"
    and rep_slots: "rep s ch \<Longrightarrow> set (ch q) \<subseteq> {..<slots}"
    and rep_one_queue: "rep s ch \<Longrightarrow> p \<noteq> q \<Longrightarrow> set (ch p) \<inter> set (ch q) = {}"
    and push_rep: "rep s ch \<Longrightarrow> i < slots \<Longrightarrow> (\<And>p. i \<notin> set (ch p)) \<Longrightarrow> rep (push q i s) (ch(q := i # ch q))"
    and unlink_rep: "rep s ch \<Longrightarrow> \<exists>s'. unlink q i s = Some s' \<and> rep s' (ch(q := remove1 i (ch q)))"
    and wake_rep: "rep s ch \<Longrightarrow> \<exists>s'. wake q s = Some s' \<and> rep s' (ch(q := []))"
begin

lemma chain_bounded:
  assumes "rep s ch"
  shows "length (ch q) \<le> slots"
proof -
  have "length (ch q) = card (set (ch q))" using rep_distinct [OF assms] by (simp add: distinct_card)
  also have "\<dots> \<le> card {..<slots}" by (rule card_mono) (use rep_slots [OF assms] in auto)
  finally show ?thesis by simp
qed

lemma push_unlink:
  assumes "rep s ch" and "i < slots" and "\<And>p. i \<notin> set (ch p)"
  shows "\<exists>s'. unlink q i (push q i s) = Some s' \<and> rep s' ch"
  using unlink_rep [OF push_rep [OF assms], of q i q] by simp

lemma unlink_gone:
  assumes "rep s ch" and "unlink q i s = Some s'" and "rep s' ch'" and "ch' = ch(q := remove1 i (ch q))"
  shows "i \<notin> set (ch' q)"
  using rep_distinct [OF assms(1), of q] assms(4) by simp

end

interpretation wqs: wait_queues "\<lambda>s ch. wq_rep s ch \<and> t_ready s" MAX_TASKS wq_push wq_remove task_wake_all
proof (unfold_locales, goal_cases)
  case (1 s ch q)
  then show ?case using wq_repD(3) by blast
next
  case (2 s ch q)
  then show ?case using wq_repD(4) [of s ch] by auto
next
  case (3 s ch p q)
  then show ?case using wq_repD(4) [of s ch] by auto
next
  case (4 s ch i q)
  then have "wait_q (tasks s ! i) = None"
    using wq_repD(4) [of s ch i] by (cases "wait_q (tasks s ! i)") auto
  then show ?case using 4 wq_push_rep [of s ch i q] by (simp add: wq_push_def)
next
  case (5 s ch q i)
  then show ?case using wq_remove_rep [of s ch q i] frame_restD(2) by blast
next
  case (6 s ch q)
  then show ?case using task_wake_all_rep [of s ch q] frame_restD(2) by blast
qed

section \<open>The timer interrupt\<close>

definition expired :: "u32 \<Rightarrow> task \<Rightarrow> bool" where
  "expired now t \<longleftrightarrow> tstate t = TASK_BLOCKED \<and> wake_tick t \<noteq> 0 \<and> 0 \<le> sint (now - wake_tick t)"

definition timed_out :: "task \<Rightarrow> task" where
  "timed_out t = t\<lparr>wait_q := None, wake_tick := 0, tstate := TASK_READY\<rparr>"

lemma timer_slot_spec:
  assumes r: "wq_rep s ch" and i: "i < MAX_TASKS"
  shows "\<exists>s'. timer_slot i s = Some s' \<and> frame_rest s s' \<and>
    wq_rep s' (if expired (g_pit_ticks s) (tasks s ! i) then \<lambda>q. remove1 i (ch q) else ch) \<and>
    (\<forall>j < MAX_TASKS. same_but_link (tasks s' ! j)
       (if j = i \<and> expired (g_pit_ticks s) (tasks s ! i) then timed_out (tasks s ! j) else tasks s ! j))"
proof (cases "expired (g_pit_ticks s) (tasks s ! i)")
  case False
  then have "timer_slot i s = Some s" by (auto simp: timer_slot_def expired_def Let_def)
  then show ?thesis using False r by simp
next
  case ex: True
  let ?g = "\<lambda>t. t\<lparr>wake_tick := 0, tstate := TASK_READY\<rparr>"
  have e: "timer_slot i s = map_option (upd i ?g)
      (case wait_q (tasks s ! i) of None \<Rightarrow> Some s | Some q \<Rightarrow> wq_remove q i s)"
    using ex by (auto simp: timer_slot_def expired_def Let_def)
  have "\<exists>s1. (case wait_q (tasks s ! i) of None \<Rightarrow> Some s | Some q \<Rightarrow> wq_remove q i s) = Some s1 \<and>
      frame_rest s s1 \<and> wq_rep s1 (\<lambda>q. remove1 i (ch q)) \<and>
      (\<forall>j < MAX_TASKS. same_but_link (tasks s1 ! j) (if j = i then (tasks s ! j)\<lparr>wait_q := None\<rparr> else tasks s ! j))"
  proof (cases "wait_q (tasks s ! i)")
    case None
    then have "i \<notin> set (ch q)" for q using wq_repD(4) [OF r, of i q] by simp
    then have "(\<lambda>q. remove1 i (ch q)) = ch" by (simp add: remove1_idem)
    moreover have "same_but_link (tasks s ! i) ((tasks s ! i)\<lparr>wait_q := None\<rparr>)"
      using None by (cases "tasks s ! i") (simp add: same_but_link_def)
    ultimately show ?thesis using None r by simp
  next
    case (Some q)
    have iq: "i \<in> set (ch q)" using wq_repD(4) [OF r, of i q] Some i by simp
    have "remove1 i (ch p) = ch p" if "p \<noteq> q" for p
      using wq_rep_disjoint [OF r iq, of p] that by (simp add: remove1_idem)
    then have "ch(q := remove1 i (ch q)) = (\<lambda>p. remove1 i (ch p))" by auto
    then show ?thesis using wq_remove_rep [OF r, of q i] iq Some by (auto split: if_splits)
  qed
  then obtain s1 where s1: "(case wait_q (tasks s ! i) of None \<Rightarrow> Some s | Some q \<Rightarrow> wq_remove q i s) = Some s1"
      "frame_rest s s1" "wq_rep s1 (\<lambda>q. remove1 i (ch q))"
    and t: "\<And>j. j < MAX_TASKS \<Longrightarrow> same_but_link (tasks s1 ! j) (if j = i then (tasks s ! j)\<lparr>wait_q := None\<rparr> else tasks s ! j)"
    by blast
  have l: "length (tasks s1) = MAX_TASKS" by (rule wq_repD(1) [OF s1(3)])
  have "wq_rep (upd i ?g s1) (\<lambda>q. remove1 i (ch q))"
    by (rule wq_rep_cong [OF s1(3)]) (simp_all add: l)
  moreover have "same_but_link (tasks (upd i ?g s1) ! j) (if j = i then timed_out (tasks s ! j) else tasks s ! j)"
    if "j < MAX_TASKS" for j
    using t [OF that] that l same_but_link_more(2) [OF same_but_link_more(3)] by (auto simp: timed_out_def)
  ultimately show ?thesis using e s1(1,2) ex by simp
qed

lemma expired_link: "same_but_link t u \<Longrightarrow> expired now t = expired now u"
  by (simp add: expired_def same_but_linkD(1,2))

lemma remove1_filter_distinct:
  "distinct xs \<Longrightarrow> filter P (remove1 i xs) = filter (\<lambda>x. x \<noteq> i \<and> P x) xs"
  by (induction xs) (auto intro: filter_cong)

lemma timed_out_link: "same_but_link t u \<Longrightarrow> same_but_link (timed_out t) (timed_out u)"
  unfolding timed_out_def by (intro same_but_link_more)

lemma timer_slots_spec:
  assumes "wq_rep s ch" and "distinct is" and "set is \<subseteq> {..<MAX_TASKS}"
  shows "\<exists>s'. timer_slots is s = Some s' \<and> frame_rest s s' \<and>
    wq_rep s' (\<lambda>q. filter (\<lambda>i. \<not> (i \<in> set is \<and> expired (g_pit_ticks s) (tasks s ! i))) (ch q)) \<and>
    (\<forall>j < MAX_TASKS. same_but_link (tasks s' ! j)
       (if j \<in> set is \<and> expired (g_pit_ticks s) (tasks s ! j) then timed_out (tasks s ! j) else tasks s ! j))"
  using assms
proof (induction "is" arbitrary: s ch)
  case Nil
  then show ?case by simp
next
  case (Cons i "is")
  let ?now = "g_pit_ticks s"
  have i: "i < MAX_TASKS" "i \<notin> set is" using Cons.prems by simp_all
  let ?ch = "if expired ?now (tasks s ! i) then \<lambda>q. remove1 i (ch q) else ch"
  obtain s1 where s1: "timer_slot i s = Some s1" "frame_rest s s1" "wq_rep s1 ?ch"
    and t: "\<And>j. j < MAX_TASKS \<Longrightarrow> same_but_link (tasks s1 ! j)
       (if j = i \<and> expired ?now (tasks s ! i) then timed_out (tasks s ! j) else tasks s ! j)"
    using timer_slot_spec [OF Cons.prems(1) i(1)] by blast
  have now: "g_pit_ticks s1 = ?now" by (rule frame_restD(3) [OF s1(2)])
  have ex: "expired ?now (tasks s1 ! j) = expired ?now (tasks s ! j)" if "j \<in> set is" for j
  proof -
    have "j < MAX_TASKS" "j \<noteq> i" using that Cons.prems(2,3) by auto
    then show ?thesis using expired_link [OF t [of j]] by simp
  qed
  obtain s' where s': "timer_slots is s1 = Some s'" "frame_rest s1 s'"
      "wq_rep s' (\<lambda>q. filter (\<lambda>i. \<not> (i \<in> set is \<and> expired ?now (tasks s1 ! i))) (?ch q))"
    and t': "\<And>j. j < MAX_TASKS \<Longrightarrow> same_but_link (tasks s' ! j)
       (if j \<in> set is \<and> expired ?now (tasks s1 ! j) then timed_out (tasks s1 ! j) else tasks s1 ! j)"
    using Cons.IH [OF s1(3)] Cons.prems(2,3) unfolding now by auto
  have chq: "filter (\<lambda>i. \<not> (i \<in> set is \<and> expired ?now (tasks s1 ! i))) (?ch q) =
      filter (\<lambda>j. \<not> (j \<in> set (i # is) \<and> expired ?now (tasks s ! j))) (ch q)" for q
  proof -
    have "filter (\<lambda>i. \<not> (i \<in> set is \<and> expired ?now (tasks s1 ! i))) (?ch q) =
        filter (\<lambda>i. \<not> (i \<in> set is \<and> expired ?now (tasks s ! i))) (?ch q)"
      using ex by (auto intro: filter_cong)
    also have "\<dots> = filter (\<lambda>j. \<not> (j \<in> set (i # is) \<and> expired ?now (tasks s ! j))) (ch q)"
      using wq_repD(3) [OF Cons.prems(1), of q]
      by (cases "expired ?now (tasks s ! i)") (auto simp: remove1_filter_distinct intro: filter_cong)
    finally show ?thesis .
  qed
  have "same_but_link (tasks s' ! j)
     (if j \<in> set (i # is) \<and> expired ?now (tasks s ! j) then timed_out (tasks s ! j) else tasks s ! j)"
    if j: "j < MAX_TASKS" for j
  proof (cases "j \<in> set is")
    case True
    then have "j \<noteq> i" using i(2) by auto
    then show ?thesis using t' [OF j] t [OF j] ex [OF True] True
      by (auto intro: same_but_link_trans timed_out_link)
  next
    case False
    then show ?thesis using t' [OF j] t [OF j] by (auto intro: same_but_link_trans)
  qed
  moreover have "timer_slots (i # is) s = Some s'" using s1(1) s'(1) by simp
  moreover have "frame_rest s s'" by (rule frame_rest_trans [OF s1(2) s'(2)])
  ultimately show ?case using s'(3) unfolding chq by blast
qed

lemma patrol_frame [simp]:
  "tasks (fold patrol_slot is s) = tasks s" "wq (fold patrol_slot is s) = wq s" "t_ready (fold patrol_slot is s) = t_ready s"
  by (induction "is" arbitrary: s) (simp_all add: patrol_slot_def Let_def)

lemma task_timer_tick_spec:
  assumes r: "wq_rep s ch" and rd: "t_ready s"
  shows "\<exists>s'. task_timer_tick s = Some s' \<and> t_ready s' \<and>
    wq_rep s' (\<lambda>q. filter (\<lambda>i. \<not> expired (g_pit_ticks s) (tasks s ! i)) (ch q)) \<and>
    (\<forall>j < MAX_TASKS. same_but_link (tasks s' ! j)
       (if expired (g_pit_ticks s) (tasks s ! j) then timed_out (tasks s ! j) else tasks s ! j))"
proof -
  let ?ex = "\<lambda>i. expired (g_pit_ticks s) (tasks s ! i)"
  have sub: "set [0..<MAX_TASKS] \<subseteq> {..<MAX_TASKS}" and mem: "j \<in> set [0..<MAX_TASKS] \<longleftrightarrow> j < MAX_TASKS" for j by auto
  obtain s1 where s1: "timer_slots [0..<MAX_TASKS] s = Some s1" "frame_rest s s1"
      "wq_rep s1 (\<lambda>q. filter (\<lambda>i. \<not> (i \<in> set [0..<MAX_TASKS] \<and> ?ex i)) (ch q))"
    and t0: "\<forall>j < MAX_TASKS. same_but_link (tasks s1 ! j)
       (if j \<in> set [0..<MAX_TASKS] \<and> ?ex j then timed_out (tasks s ! j) else tasks s ! j)"
    using timer_slots_spec [OF r distinct_upt sub] by blast
  have t: "same_but_link (tasks s1 ! j) (if ?ex j then timed_out (tasks s ! j) else tasks s ! j)" if "j < MAX_TASKS" for j
    using t0 that mem [of j] by (auto split: if_splits)
  define s' where "s' = (if g_pit_ticks s - g_stackchk_tick s1 \<ge> STACKCHK_TICK_MS
            then fold patrol_slot [0..<MAX_TASKS] (s1\<lparr>g_stackchk_tick := g_pit_ticks s\<rparr>) else s1)"
  have e: "task_timer_tick s = Some s'" using rd s1(1) by (simp add: task_timer_tick_def s'_def del: upt.simps)
  have q: "filter (\<lambda>i. \<not> (i \<in> set [0..<MAX_TASKS] \<and> ?ex i)) (ch q) = filter (\<lambda>i. \<not> ?ex i) (ch q)" for q
    using wq_repD(4) [OF r, of _ q] by (auto intro!: filter_cong simp del: upt.simps)
  have tw: "tasks s' = tasks s1" "wq s' = wq s1" "t_ready s' = t_ready s1"
    by (simp_all add: s'_def del: upt.simps)
  have "wq_rep s' (\<lambda>q. filter (\<lambda>i. \<not> ?ex i) (ch q))"
    using s1(3) unfolding q wq_rep_def tw .
  moreover have "\<forall>j < MAX_TASKS. same_but_link (tasks s' ! j) (if ?ex j then timed_out (tasks s ! j) else tasks s ! j)"
    using t by (simp only: tw) blast
  moreover have "t_ready s'" using frame_restD(2) [OF s1(2)] rd tw(3) by simp
  ultimately show ?thesis using e by blast
qed

lemma patrol_current: "g_current (fold patrol_slot is s) = g_current s"
  by (induction "is" arbitrary: s) (simp_all add: patrol_slot_def Let_def)

lemma task_timer_tick_current:
  assumes "wq_rep s ch" and "t_ready s" and "task_timer_tick s = Some s'"
  shows "g_current s' = g_current s"
proof -
  have "set [0..<MAX_TASKS] \<subseteq> {..<MAX_TASKS}" by auto
  then obtain s1 where "timer_slots [0..<MAX_TASKS] s = Some s1" "frame_rest s s1"
    using timer_slots_spec [OF assms(1) distinct_upt] by blast
  then show ?thesis using assms(2,3) frame_restD(1) [of s s1]
    by (auto simp: task_timer_tick_def patrol_current simp del: upt.simps split: if_splits)
qed

section \<open>Runs of queue operations\<close>

datatype wop = Push nat nat | Unlink nat nat | WakeAll nat

fun do_op :: "wop \<Rightarrow> tsys \<Rightarrow> tsys option" where
  "do_op (Push q i) s = Some (wq_push q i s)"
| "do_op (Unlink q i) s = wq_remove q i s"
| "do_op (WakeAll q) s = task_wake_all q s"

fun run_ops :: "wop list \<Rightarrow> tsys \<Rightarrow> tsys option" where
  "run_ops [] s = Some s"
| "run_ops (p # ps) s = (case do_op p s of None \<Rightarrow> None | Some s' \<Rightarrow> run_ops ps s')"

fun spec_op :: "wop \<Rightarrow> (nat \<Rightarrow> nat list) \<Rightarrow> (nat \<Rightarrow> nat list)" where
  "spec_op (Push q i) ch = ch(q := i # ch q)"
| "spec_op (Unlink q i) ch = ch(q := remove1 i (ch q))"
| "spec_op (WakeAll q) ch = ch(q := [])"

text \<open>A task goes to sleep only when it waits nowhere.\<close>

fun op_ok :: "wop \<Rightarrow> (nat \<Rightarrow> nat list) \<Rightarrow> bool" where
  "op_ok (Push q i) ch \<longleftrightarrow> i < MAX_TASKS \<and> (\<forall>p. i \<notin> set (ch p))"
| "op_ok (Unlink q i) ch \<longleftrightarrow> True"
| "op_ok (WakeAll q) ch \<longleftrightarrow> True"

fun ops_ok :: "wop list \<Rightarrow> (nat \<Rightarrow> nat list) \<Rightarrow> bool" where
  "ops_ok [] ch \<longleftrightarrow> True"
| "ops_ok (p # ps) ch \<longleftrightarrow> op_ok p ch \<and> ops_ok ps (spec_op p ch)"

lemma do_op_rep:
  assumes "wq_rep s ch \<and> t_ready s" and "op_ok p ch"
  shows "\<exists>s'. do_op p s = Some s' \<and> wq_rep s' (spec_op p ch) \<and> t_ready s'"
proof (cases p)
  case (Push q i)
  then show ?thesis using wqs.push_rep [OF assms(1), of i q] assms(2) by simp
next
  case (Unlink q i)
  then show ?thesis using wqs.unlink_rep [OF assms(1)] by simp
next
  case (WakeAll q)
  then show ?thesis using wqs.wake_rep [OF assms(1)] by simp
qed

text \<open>C14: Any sequence of pushes (of tasks that wait nowhere), unlinkings and wake-ups of the
  wait queues returns, and the chains it leaves stand for exactly the lists that the same
  operations on lists give; in particular every chain stays finite and free of cycles, with at
  most MAX_TASKS members.\<close>
theorem wait_queues_refine_lists:
  assumes "wq_rep s ch" and "t_ready s" and "ops_ok ops ch"
  shows "\<exists>s'. run_ops ops s = Some s' \<and> wq_rep s' (fold spec_op ops ch) \<and> length (fold spec_op ops ch q) \<le> MAX_TASKS"
  using assms
proof (induction ops arbitrary: s ch)
  case Nil
  then show ?case using wqs.chain_bounded [of s ch q] by simp
next
  case (Cons p ps)
  then obtain s1 where "do_op p s = Some s1" "wq_rep s1 (spec_op p ch)" "t_ready s1"
    using do_op_rep [of s ch p] by auto
  then show ?case using Cons.IH [of s1 "spec_op p ch"] Cons.prems by simp
qed

text \<open>A system with eight tasks, the first running and the rest ready, and empty queues.\<close>

definition example_tasks :: tsys where
  "example_tasks = \<lparr>tasks = map (\<lambda>i. blank_task\<lparr>tstate := (if i = 0 then TASK_RUNNING else TASK_READY)\<rparr>) [0..<MAX_TASKS],
     g_current = 0, g_next_pid = 8, g_sched_count = 0, g_lock_depth = 0, t_ready = True, iflag = True, g_pit_ticks = 100,
     wq = \<lambda>_. -1, mach = boot_machine, fsys = idle, esp0 = 0, g_stackchk_tick = 100, g_reported = replicate 8 False,
     t_log = [], sym_task_exit = 0, sym_trampoline = 0, ks_area = 0\<rparr>"

lemma example_tasks_rep: "wq_rep example_tasks (\<lambda>_. [])" "t_ready example_tasks"
  by (simp_all add: wq_rep_def example_tasks_def blank_task_def cong: conj_cong del: upt.simps upt_rec_numeral)

theorem wait_queues_refine_lists_witness:
  "\<exists>s'. run_ops [Push 0 3, Push 0 5, Push 1 2, Unlink 0 3, WakeAll 1] example_tasks = Some s' \<and>
     wq_rep s' (((\<lambda>_. [])(0 := [5]))(1 := []))"
proof -
  have ok: "ops_ok [Push 0 3, Push 0 5, Push 1 2, Unlink 0 3, WakeAll 1] (\<lambda>_. [])" by simp
  have "fold spec_op [Push 0 3, Push 0 5, Push 1 2, Unlink 0 3, WakeAll 1] (\<lambda>_. []) = ((\<lambda>_. [])(0 := [5]))(1 := [])"
    by (auto simp: fun_eq_iff)
  then show ?thesis using wait_queues_refine_lists [OF example_tasks_rep ok] by auto
qed

section \<open>Timeouts\<close>

text \<open>C15: A timer interrupt returns and wakes exactly the sleepers with a deadline that is not in
  the future (by the signed difference of the 32-bit counters): each of them leaves its queue,
  has no deadline any more and is ready; every other task and the order of every queue stay as
  they were.\<close>
theorem task_timer_tick_exact:
  assumes "wq_rep s ch" and "t_ready s"
  shows "\<exists>s'. task_timer_tick s = Some s' \<and>
    wq_rep s' (\<lambda>q. filter (\<lambda>i. \<not> expired (g_pit_ticks s) (tasks s ! i)) (ch q)) \<and>
    (\<forall>j < MAX_TASKS. same_but_link (tasks s' ! j)
       (if expired (g_pit_ticks s) (tasks s ! j) then timed_out (tasks s ! j) else tasks s ! j))"
  using task_timer_tick_spec [OF assms] by blast

text \<open>Two sleepers on queue 1, the second one's deadline still ahead.\<close>

definition example_sleepers :: tsys where
  "example_sleepers = example_tasks\<lparr>wq := (\<lambda>_. -1)(1 := 2),
     tasks := (tasks example_tasks)[2 := blank_task\<lparr>tstate := TASK_BLOCKED, wait_next := 5, wait_q := Some 1, wake_tick := 100\<rparr>,
       5 := blank_task\<lparr>tstate := TASK_BLOCKED, wait_q := Some 1, wake_tick := 101\<rparr>]\<rparr>"

lemma example_sleepers_rep: "wq_rep example_sleepers ((\<lambda>_. [])(1 := [2, 5]))" "t_ready example_sleepers"
  by (auto simp: wq_rep_def example_sleepers_def example_tasks_def blank_task_def nth_list_update split: if_splits
      simp del: upt.simps upt_rec_numeral)

theorem task_timer_tick_exact_witness:
  "\<exists>s'. task_timer_tick example_sleepers = Some s' \<and> tstate (tasks s' ! 2) = TASK_READY \<and> tstate (tasks s' ! 5) = TASK_BLOCKED"
proof -
  obtain s' where s': "task_timer_tick example_sleepers = Some s'"
    and t: "\<And>j. j < MAX_TASKS \<Longrightarrow> same_but_link (tasks s' ! j)
       (if expired (g_pit_ticks example_sleepers) (tasks example_sleepers ! j) then timed_out (tasks example_sleepers ! j)
        else tasks example_sleepers ! j)"
    using task_timer_tick_exact [OF example_sleepers_rep] by blast
  have "expired (g_pit_ticks example_sleepers) (tasks example_sleepers ! 2)"
    by (simp add: expired_def example_sleepers_def example_tasks_def blank_task_def)
  then have "tstate (tasks s' ! 2) = TASK_READY" using same_but_linkD(1) [OF t [of 2]] by (simp add: timed_out_def)
  moreover have "\<not> expired (g_pit_ticks example_sleepers) (tasks example_sleepers ! 5)"
    "tstate (tasks example_sleepers ! 5) = TASK_BLOCKED"
    by (simp_all add: expired_def example_sleepers_def example_tasks_def blank_task_def)
  then have "tstate (tasks s' ! 5) = TASK_BLOCKED" using same_but_linkD(1) [OF t [of 5]] by simp
  ultimately show ?thesis using s' by blast
qed

text \<open>A switch keeps the queue fields of every task, and the state of a blocked task.\<close>

definition keeps_waits :: "tsys \<Rightarrow> tsys \<Rightarrow> bool" where
  "keeps_waits s s' \<longleftrightarrow> length (tasks s') = length (tasks s) \<and> wq s' = wq s \<and> t_ready s' = t_ready s \<and>
     (\<forall>j < length (tasks s). wake_tick (tasks s' ! j) = wake_tick (tasks s ! j) \<and>
        wait_q (tasks s' ! j) = wait_q (tasks s ! j) \<and> wait_next (tasks s' ! j) = wait_next (tasks s ! j))"

lemma keeps_waits_upd:
  assumes "keeps_waits s s'" and "\<And>t. wake_tick (f t) = wake_tick t \<and> wait_q (f t) = wait_q t \<and> wait_next (f t) = wait_next t"
  shows "keeps_waits s (upd i f s')"
  using assms by (simp add: keeps_waits_def)

lemma keeps_waits_others:
  "keeps_waits s s" "keeps_waits s s' \<Longrightarrow> keeps_waits s (s'\<lparr>g_current := n, g_sched_count := c\<rparr>)"
  "keeps_waits s s' \<Longrightarrow> keeps_waits s (s'\<lparr>esp0 := e\<rparr>)" "keeps_waits s s' \<Longrightarrow> keeps_waits s (load_cr3 a b s')"
  by (simp_all add: keeps_waits_def load_cr3_def Let_def)

lemma use_tick_keeps: "keeps_waits s (use_tick s)"
  by (simp add: use_tick_def keeps_waits_others(1) keeps_waits_upd)

lemma dispatch_keeps: "keeps_waits s s' \<Longrightarrow> keeps_waits s (dispatch nx s')"
  unfolding dispatch_def set_state_def Let_def
  by (intro keeps_waits_others(3,4) keeps_waits_upd keeps_waits_others(2))
    (simp_all add: keeps_waits_upd)

lemma schedule_switch_keeps: "keeps_waits s (snd (schedule_switch s))"
  using use_tick_keeps [of s] by (simp add: schedule_switch_def Let_def keeps_waits_others(1) keeps_waits_upd dispatch_keeps)

lemma schedule_switch_waits:
  assumes "schedule_switch s = (b, s')" and "length (tasks s) = MAX_TASKS" and "j < MAX_TASKS"
  shows "wake_tick (tasks s' ! j) = wake_tick (tasks s ! j)" "wait_q (tasks s' ! j) = wait_q (tasks s ! j)"
    "wait_next (tasks s' ! j) = wait_next (tasks s ! j)" "wq s' = wq s" "t_ready s' = t_ready s"
    "length (tasks s') = MAX_TASKS"
  using schedule_switch_keeps [of s] assms by (simp_all add: keeps_waits_def)

lemma keeps_waits_rep: "keeps_waits s s' \<Longrightarrow> wq_rep s ch \<Longrightarrow> wq_rep s' ch"
  by (rule wq_rep_cong) (auto simp: keeps_waits_def wq_repD(1))

lemma schedule_switch_rep:
  assumes "schedule_switch s = (b, s')" and "wq_rep s ch"
  shows "wq_rep s' ch" and "t_ready s' = t_ready s"
  using schedule_switch_keeps [of s] keeps_waits_rep [OF _ assms(2)] assms(1) by (simp_all add: keeps_waits_def)

lemma pick_next_cases:
  "pick_next s = g_current s \<or> runnable (tasks s ! pick_next s)"
proof -
  let ?cs = "filter (\<lambda>c. runnable (tasks s ! c)) (map (\<lambda>i. (g_current s + i) mod MAX_TASKS) [1..<Suc MAX_TASKS])"
  show ?thesis
  proof (cases ?cs)
    case Nil
    then show ?thesis by (simp add: pick_next_def del: upt_Suc upt.simps upt_rec_numeral)
  next
    case (Cons c cs)
    then have "c \<in> set ?cs" by (metis list.set_intros(1))
    then have "runnable (tasks s ! c)" by (simp only: set_filter mem_Collect_eq)
    moreover have "pick_next s = c" unfolding pick_next_def Cons by simp
    ultimately show ?thesis by simp
  qed
qed

lemma load_cr3_simps [simp]:
  "tasks (load_cr3 a b s) = tasks s" "g_current (load_cr3 a b s) = g_current s" "t_ready (load_cr3 a b s) = t_ready s"
  "g_lock_depth (load_cr3 a b s) = g_lock_depth s" "wq (load_cr3 a b s) = wq s" "fsys (load_cr3 a b s) = fsys s"
  by (simp_all add: load_cr3_def Let_def)

lemma use_tick_simps [simp]:
  "length (tasks (use_tick s)) = length (tasks s)" "g_current (use_tick s) = g_current s" "t_ready (use_tick s) = t_ready s"
  "g_lock_depth (use_tick s) = g_lock_depth s"
  by (simp_all add: use_tick_def)

lemma use_tick_tstate [simp]: "j < length (tasks s) \<Longrightarrow> tstate (tasks (use_tick s) ! j) = tstate (tasks s ! j)"
  by (simp add: use_tick_def)

lemma dispatch_simps [simp]:
  "length (tasks (dispatch nx s)) = length (tasks s)" "g_current (dispatch nx s) = nx" "t_ready (dispatch nx s) = t_ready s"
  "g_lock_depth (dispatch nx s) = g_lock_depth s"
  by (simp_all add: dispatch_def set_state_def Let_def)

lemma dispatch_tstate:
  assumes "j < length (tasks s)"
  shows "tstate (tasks (dispatch nx s) ! j) = (if j = nx then TASK_RUNNING
     else if j = g_current s \<and> tstate (tasks s ! j) = TASK_RUNNING then TASK_READY else tstate (tasks s ! j))"
  using assms by (auto simp: dispatch_def set_state_def Let_def)

lemma candidates: "[1..<Suc MAX_TASKS] = [1, 2, 3, 4, 5, 6, 7, 8]"
  by (simp add: upt_rec)

lemma schedule_switch_blocked:
  assumes "schedule_switch s = (b, s')" and l: "length (tasks s) = MAX_TASKS" and c: "g_current s < MAX_TASKS"
    and st: "tstate (tasks s ! g_current s) = TASK_BLOCKED"
  shows "tstate (tasks s' ! g_current s) = TASK_BLOCKED"
  using assms by (auto simp: schedule_switch_def Let_def dispatch_tstate split: if_splits)

lemma task_sleep_registers:
  assumes "task_sleep q d s = (b, s1)" and "t_ready s" and "g_lock_depth s = 0" and "length (tasks s) = MAX_TASKS"
    and "g_current s < MAX_TASKS" and "d \<noteq> 0"
  shows "tstate (tasks s1 ! g_current s) = TASK_BLOCKED" "wake_tick (tasks s1 ! g_current s) = g_pit_ticks s + d"
    "wait_q (tasks s1 ! g_current s) = Some q"
proof -
  let ?me = "g_current s"
  let ?s = "wq_push q ?me (upd ?me (\<lambda>t. t\<lparr>wake_tick := g_pit_ticks s + d, tstate := TASK_BLOCKED\<rparr>) (s\<lparr>iflag := False\<rparr>))"
  have e: "schedule_switch ?s = (b, s1)" using assms by (simp add: task_sleep_def Let_def)
  have l: "length (tasks ?s) = MAX_TASKS" and c: "g_current ?s = ?me" using assms(4) by (simp_all add: wq_push_def)
  have t: "tasks ?s ! ?me = (tasks s ! ?me)\<lparr>wake_tick := g_pit_ticks s + d, tstate := TASK_BLOCKED, wait_next := wq s q, wait_q := Some q\<rparr>"
    using assms(4,5) by (simp add: wq_push_def upd_def)
  note w = schedule_switch_waits [OF e l assms(5)]
  show "wake_tick (tasks s1 ! ?me) = g_pit_ticks s + d" "wait_q (tasks s1 ! ?me) = Some q"
    using w(1,2) t by simp_all
  show "tstate (tasks s1 ! ?me) = TASK_BLOCKED"
    using schedule_switch_blocked [OF e l] assms(5) t unfolding c by simp
qed

text \<open>The timer at a later moment, seen from a sleeper.\<close>

lemma timer_tick_at:
  assumes "wq_rep s ch" and "t_ready s" and "i < MAX_TASKS" and "tstate (tasks s ! i) = TASK_BLOCKED"
  shows "\<exists>s'. task_timer_tick s = Some s' \<and>
    tstate (tasks s' ! i) = (if expired (g_pit_ticks s) (tasks s ! i) then TASK_READY else TASK_BLOCKED)"
proof -
  obtain s' where s': "task_timer_tick s = Some s'" and t: "same_but_link (tasks s' ! i)
       (if expired (g_pit_ticks s) (tasks s ! i) then timed_out (tasks s ! i) else tasks s ! i)"
    using task_timer_tick_spec [OF assms(1,2)] assms(3) by blast
  show ?thesis using s' same_but_linkD(1) [OF t] assms(4) by (auto simp: timed_out_def)
qed

lemma signed_elapsed:
  fixes d :: u32
  assumes "unat d < 2 ^ 31" and "k < unat d + 2 ^ 31"
  shows "0 \<le> sint (of_nat k - d) \<longleftrightarrow> unat d \<le> k"
proof (cases "unat d \<le> k")
  case True
  define v :: u32 where "v = of_nat (k - unat d)"
  have e: "of_nat k - d = v" using True by (simp add: v_def of_nat_diff)
  have b: "k - unat d < 2 ^ 31" "k - unat d < 2 ^ 32" using assms(2) True by simp_all
  have "unat v = k - unat d" using b(2) unfolding v_def by (rule unat_of_nat32)
  then have "unat v < 2 ^ 31" using b(1) by simp
  then have "sint v = int (unat v)" by (rule sint_small)
  then have "0 \<le> sint v" by linarith
  then show ?thesis using True unfolding e by blast
next
  case False
  have b: "unat d - k \<noteq> 0" "unat d - k \<le> 2 ^ 31" "unat d - k < 2 ^ 32" using False assms(1) by simp_all
  define w :: u32 where "w = of_nat (2 ^ 32 - (unat d - k))"
  have "of_nat (2 ^ 32 - (unat d - k)) = (of_nat (2 ^ 32) - of_nat (unat d - k) :: u32)" using b(3) by (simp only: of_nat_diff less_imp_le)
  then have e: "of_nat k - d = w" using False by (simp add: w_def of_nat_diff)
  have "unat w = 2 ^ 32 - (unat d - k)" unfolding w_def by (rule unat_of_nat32) (use b(1) in simp)
  then have "2 ^ 31 \<le> unat w" using b(2) by simp
  then have "sint w < 0" by (rule sint_big)
  then show ?thesis using False unfolding e by simp
qed

lemma task_sleep_lone: "task_sleep q d s = (b, s1) \<Longrightarrow> \<not> b \<longrightarrow> g_current s1 = g_current s"
  by (auto simp: task_sleep_def schedule_switch_def Let_def wq_push_def use_tick_def upd_def split: if_splits)

text \<open>What a lone sleeper does when it comes out of the halt, whatever interrupt ended it.\<close>

lemma sleep_normalize_runs:
  assumes r: "wq_rep s ch" and c: "g_current s < MAX_TASKS"
  shows "\<exists>s'. sleep_normalize q s = Some s' \<and> tstate (tasks s' ! g_current s) = TASK_RUNNING \<and>
    wake_tick (tasks s' ! g_current s) = 0 \<and> wait_q (tasks s' ! g_current s) \<noteq> Some q"
proof (cases "wait_q (tasks s ! g_current s) = Some q")
  case True
  let ?me = "g_current s"
  have m: "?me \<in> set (ch q)" using wq_repD(4) [OF r] c True by auto
  obtain s' where s': "wq_remove q ?me s = Some s'" "wq_rep s' (ch(q := remove1 ?me (ch q)))"
      "same_but_link (tasks s' ! ?me) ((tasks s ! ?me)\<lparr>wait_q := None\<rparr>)"
    using wq_remove_rep [OF r, of q ?me] c m by auto
  have "length (tasks s') = MAX_TASKS" using wq_repD(1) [OF s'(2)] by simp
  then show ?thesis using True s'(1) same_but_linkD(3) [OF s'(3)] c by (simp add: sleep_normalize_def Let_def)
next
  case False
  then show ?thesis using wq_repD(1) [OF r] c by (simp add: sleep_normalize_def Let_def)
qed

text \<open>C16: A task goes to sleep on a queue at time t0 with a timeout of d ms, d not 0. (1) While it
  is on the queue, a timer interrupt k ms later returns and makes it ready if and only if the
  deadline t0 + d is not 0 as a 32-bit number and k - d is not negative as a signed 32-bit
  number; else it stays blocked. A deadline that wraps to 0 is thus never met. (2) For d below
  2^31 and k below d + 2^31 the signed test is exactly \<open>d \<le> k\<close>, also across the wrap-around of
  the tick counter. (3) When no other task could run, \<open>task_sleep\<close> halts with the sleeper as the
  current task, and after the interrupt that ends the halt - the timer, before or after the
  deadline, or any other one - it leaves the queue, clears the deadline and runs: the timeout
  is only an upper bound there, and the callers look at their condition again.\<close>
theorem sleep_wakes_on_time:
  assumes "task_sleep q d s = (b, s1)" and "t_ready s" and "g_lock_depth s = 0" and "length (tasks s) = MAX_TASKS"
    and "g_current s < MAX_TASKS" and "d \<noteq> 0"
    and "same_but_link (tasks s2 ! g_current s) (tasks s1 ! g_current s)" and "wq_rep s2 ch" and "t_ready s2"
    and "g_pit_ticks s2 = g_pit_ticks s + of_nat k"
  shows "\<exists>s3. task_timer_tick s2 = Some s3 \<and>
      tstate (tasks s3 ! g_current s) =
        (if g_pit_ticks s + d \<noteq> 0 \<and> 0 \<le> sint (of_nat k - d) then TASK_READY else TASK_BLOCKED) \<and>
      (unat d < 2 ^ 31 \<and> k < unat d + 2 ^ 31 \<longrightarrow> (0 \<le> sint (of_nat k - d) \<longleftrightarrow> unat d \<le> k)) \<and>
      (\<not> b \<longrightarrow> g_current s1 = g_current s) \<and>
      (g_current s2 = g_current s \<longrightarrow> (\<forall>s' \<in> {s2, s3}. \<exists>s4. sleep_normalize q s' = Some s4 \<and>
         tstate (tasks s4 ! g_current s) = TASK_RUNNING \<and> wake_tick (tasks s4 ! g_current s) = 0 \<and>
         wait_q (tasks s4 ! g_current s) \<noteq> Some q))"
proof -
  note r = task_sleep_registers [OF assms(1-6)] and l = same_but_linkD [OF assms(7)]
  have e: "g_pit_ticks s2 - wake_tick (tasks s2 ! g_current s) = of_nat k - d" using r(2) l(2) assms(10) by simp
  have x: "expired (g_pit_ticks s2) (tasks s2 ! g_current s) \<longleftrightarrow> g_pit_ticks s + d \<noteq> 0 \<and> 0 \<le> sint (of_nat k - d)"
    unfolding expired_def e using r(1,2) l(1,2) by simp
  obtain s3 where s3: "task_timer_tick s2 = Some s3" "tstate (tasks s3 ! g_current s) =
      (if expired (g_pit_ticks s2) (tasks s2 ! g_current s) then TASK_READY else TASK_BLOCKED)"
    using timer_tick_at [OF assms(8,9,5)] r(1) l(1) by auto
  obtain ch3 where s3': "wq_rep s3 ch3" "g_current s3 = g_current s2"
    using task_timer_tick_spec [OF assms(8,9)] task_timer_tick_current [OF assms(8,9)] s3(1) by auto
  have lone: "\<not> b \<longrightarrow> g_current s1 = g_current s" by (rule task_sleep_lone [OF assms(1)])
  have n: "\<exists>s4. sleep_normalize q s' = Some s4 \<and> tstate (tasks s4 ! g_current s) = TASK_RUNNING \<and>
      wake_tick (tasks s4 ! g_current s) = 0 \<and> wait_q (tasks s4 ! g_current s) \<noteq> Some q"
    if "g_current s2 = g_current s" "s' \<in> {s2, s3}" for s'
    using sleep_normalize_runs [OF assms(8), of q] sleep_normalize_runs [OF s3'(1), of q] s3'(2) assms(5) that by auto
  show ?thesis using s3 x lone n signed_elapsed [of d k] by (intro exI [of _ s3]) simp
qed

text \<open>When the deadline t0 + d comes out as 0 in 32 bits, it is taken for "no deadline": the
  timer never wakes that sleeper, at whatever time it runs.\<close>
theorem sleep_deadline_zero_is_forever:
  assumes "task_sleep q d s = (b, s1)" and "t_ready s" and "g_lock_depth s = 0" and "length (tasks s) = MAX_TASKS"
    and "g_current s < MAX_TASKS" and "d \<noteq> 0" and "g_pit_ticks s + d = 0"
    and "same_but_link (tasks s2 ! g_current s) (tasks s1 ! g_current s)" and "wq_rep s2 ch" and "t_ready s2"
  shows "\<exists>s3. task_timer_tick s2 = Some s3 \<and> tstate (tasks s3 ! g_current s) = TASK_BLOCKED"
proof -
  note r = task_sleep_registers [OF assms(1-6)] and l = same_but_linkD [OF assms(8)]
  have "\<not> expired (g_pit_ticks s2) (tasks s2 ! g_current s)" using r(2) l(2) assms(7) by (simp add: expired_def)
  then show ?thesis using timer_tick_at [OF assms(9,10,5)] r(1) l(1) by simp
qed

text \<open>The first task sleeps on queue 1 at time 100 for 50 ms.\<close>

lemma example_sleep:
  assumes "d \<noteq> 0" and "t0 \<noteq> 0"
  shows "\<exists>s1. task_sleep 1 d (example_tasks\<lparr>g_pit_ticks := t0\<rparr>) = (True, s1) \<and> wq_rep s1 ((\<lambda>_. [])(1 := [0])) \<and> t_ready s1"
proof -
  let ?s = "upd 0 (\<lambda>t. t\<lparr>wake_tick := t0 + d, tstate := TASK_BLOCKED\<rparr>) (example_tasks\<lparr>g_pit_ticks := t0, iflag := False\<rparr>)"
  have "wq_rep ?s (\<lambda>_. [])"
    by (rule wq_rep_cong [OF example_tasks_rep(1)]) (simp_all add: upd_def nth_list_update example_tasks_def del: upt.simps upt_rec_numeral)
  moreover have "wait_q (tasks ?s ! 0) = None" by (simp add: example_tasks_def blank_task_def upd_def)
  ultimately have r: "wq_rep (wq_push 1 0 ?s) ((\<lambda>_. [])(1 := [0]))" using wq_push_rep [of ?s "\<lambda>_. []" 0 1] by simp
  obtain b s1 where e: "schedule_switch (wq_push 1 0 ?s) = (b, s1)" by (cases "schedule_switch (wq_push 1 0 ?s)")
  have ts: "task_sleep 1 d (example_tasks\<lparr>g_pit_ticks := t0\<rparr>) = (b, s1)"
    using e assms(1) by (simp add: task_sleep_def Let_def example_tasks_def)
  have rd: "t_ready (wq_push 1 0 ?s)" by (simp add: wq_push_def example_tasks_def)
  have t0: "ticks (tasks (wq_push 1 0 ?s) ! 0) = 0" "tstate (tasks (wq_push 1 0 ?s) ! 0) = TASK_BLOCKED"
      "tstate (tasks (wq_push 1 0 ?s) ! 1) = TASK_READY" "g_current (wq_push 1 0 ?s) = 0" "g_lock_depth (wq_push 1 0 ?s) = 0"
    by (simp_all add: wq_push_def upd_def example_tasks_def blank_task_def)
  then have "pick_next (wq_push 1 0 ?s) = 1" unfolding pick_next_def candidates by (simp add: runnable_def)
  then have b using e rd t0 by (simp add: schedule_switch_def use_tick_def)
  moreover have "wq_rep s1 ((\<lambda>_. [])(1 := [0]))"
    by (rule schedule_switch_rep(1) [OF e r])
  moreover have "t_ready s1" using schedule_switch_rep(2) [OF e r] rd by simp
  ultimately show ?thesis using ts by simp
qed

theorem sleep_wakes_on_time_witness:
  "\<exists>s1 s3. task_sleep 1 50 (example_tasks\<lparr>g_pit_ticks := 0xFFFFFFF0\<rparr>) = (True, s1) \<and>
     task_timer_tick (s1\<lparr>g_pit_ticks := 0xFFFFFFF0 + 50\<rparr>) = Some s3 \<and> tstate (tasks s3 ! 0) = TASK_READY"
proof -
  obtain s1 where s1: "task_sleep 1 50 (example_tasks\<lparr>g_pit_ticks := 0xFFFFFFF0\<rparr>) = (True, s1)"
      "wq_rep s1 ((\<lambda>_. [])(1 := [0]))" "t_ready s1"
    using example_sleep [of 50 "0xFFFFFFF0"] by auto
  have r: "wq_rep (s1\<lparr>g_pit_ticks := 0xFFFFFFF0 + 50\<rparr>) ((\<lambda>_. [])(1 := [0]))"
    by (rule wq_rep_cong [OF s1(2)]) simp_all
  show ?thesis
    using sleep_wakes_on_time [OF s1(1), where ?s2.0 = "s1\<lparr>g_pit_ticks := 0xFFFFFFF0 + 50\<rparr>" and k = 50] r s1
    by (auto simp: example_tasks_def)
qed

theorem sleep_deadline_zero_is_forever_witness:
  "\<exists>s1 s3. task_sleep 1 0x10 (example_tasks\<lparr>g_pit_ticks := 0xFFFFFFF0\<rparr>) = (True, s1) \<and>
     task_timer_tick (s1\<lparr>g_pit_ticks := 0x7FFFFFFF\<rparr>) = Some s3 \<and> tstate (tasks s3 ! 0) = TASK_BLOCKED"
proof -
  obtain s1 where s1: "task_sleep 1 0x10 (example_tasks\<lparr>g_pit_ticks := 0xFFFFFFF0\<rparr>) = (True, s1)"
      "wq_rep s1 ((\<lambda>_. [])(1 := [0]))" "t_ready s1"
    using example_sleep [of "0x10" "0xFFFFFFF0"] by auto
  have r: "wq_rep (s1\<lparr>g_pit_ticks := 0x7FFFFFFF\<rparr>) ((\<lambda>_. [])(1 := [0]))"
    by (rule wq_rep_cong [OF s1(2)]) simp_all
  show ?thesis
    using sleep_deadline_zero_is_forever [OF s1(1), where ?s2.0 = "s1\<lparr>g_pit_ticks := 0x7FFFFFFF\<rparr>"] r s1
    by (simp add: example_tasks_def)
qed

end
