(* ===== verification/ProcExit.thy ===== *)
theory ProcExit
  imports WaitQ
begin

text \<open>
  Exit and wait, \<open>process_exit\<close> and \<open>task_wait_pid_opt\<close> of \<open>src/kernel/task.c\<close>: an exiting
  process wakes the parent that sleeps in \<open>task_wait_pid\<close>, which then finds the exit code; a
  process that exits between the parent's check and the parent's sleep wakes nobody.
\<close>

section \<open>What a switch does to the task states\<close>

lemma schedule_switch_tstate:
  assumes e: "schedule_switch s = (b, s')" and l: "length (tasks s) = MAX_TASKS" and c: "g_current s < MAX_TASKS"
    and j: "j < MAX_TASKS"
  shows "runnable (tasks s' ! j) = runnable (tasks s ! j)"
    and "\<not> runnable (tasks s ! j) \<Longrightarrow> tstate (tasks s' ! j) = tstate (tasks s ! j)"
proof -
  have r: "runnable (tasks (use_tick s) ! i) = runnable (tasks s ! i)" if "i < MAX_TASKS" for i
    using that l by (simp add: runnable_def)
  have p: "pick_next (use_tick s) \<noteq> g_current s \<Longrightarrow> runnable (tasks (use_tick s) ! pick_next (use_tick s))"
    using pick_next_cases [of "use_tick s"] by simp
  show "runnable (tasks s' ! j) = runnable (tasks s ! j)"
    using e l c j r [OF j] p by (auto simp: schedule_switch_def Let_def dispatch_tstate runnable_def split: if_splits)
  show "tstate (tasks s' ! j) = tstate (tasks s ! j)" if "\<not> runnable (tasks s ! j)"
    using e l c j r [OF j] p that by (auto simp: schedule_switch_def Let_def dispatch_tstate runnable_def split: if_splits)
qed

lemma schedule_switch_lock:
  assumes "schedule_switch s = (b, s')"
  shows "g_lock_depth s' = g_lock_depth s" and "b \<Longrightarrow> g_lock_depth s = 0"
  using assms by (auto simp: schedule_switch_def Let_def split: if_splits)

text \<open>The fields that identify a process.\<close>

definition ident :: "task \<Rightarrow> u32 \<times> bool \<times> int \<times> bool" where
  "ident t = (pid t, tstate t = TASK_UNUSED, exit_code t, is_user t)"

definition keeps_ids :: "tsys \<Rightarrow> tsys \<Rightarrow> bool" where
  "keeps_ids s s' \<longleftrightarrow> length (tasks s') = length (tasks s) \<and> t_ready s' = t_ready s \<and>
     (\<forall>j < length (tasks s). ident (tasks s' ! j) = ident (tasks s ! j))"

lemma keeps_ids_refl [simp]: "keeps_ids s s"
  by (simp add: keeps_ids_def)

lemma keeps_ids_trans: "keeps_ids s t \<Longrightarrow> keeps_ids t u \<Longrightarrow> keeps_ids s u"
  by (simp add: keeps_ids_def)

lemma keeps_ids_upd:
  assumes "i < length (tasks s) \<Longrightarrow> ident (f (tasks s ! i)) = ident (tasks s ! i)"
  shows "keeps_ids s (upd i f s)"
  using assms by (auto simp: keeps_ids_def)

lemma keeps_ids_other [simp]:
  "keeps_ids s (s'\<lparr>mach := m\<rparr>) = keeps_ids s s'" "keeps_ids s (s'\<lparr>fsys := k\<rparr>) = keeps_ids s s'"
  "keeps_ids s (s'\<lparr>esp0 := e\<rparr>) = keeps_ids s s'" "keeps_ids s (load_cr3 a b s') = keeps_ids s s'"
  "keeps_ids s (s'\<lparr>g_current := n, g_sched_count := c\<rparr>) = keeps_ids s s'"
  by (simp_all add: keeps_ids_def)

lemma task_find_eq:
  assumes "t_ready s' = t_ready s"
    and "\<And>i. i < MAX_TASKS \<Longrightarrow> (tstate (tasks s' ! i) = TASK_UNUSED) = (tstate (tasks s ! i) = TASK_UNUSED) \<and>
      pid (tasks s' ! i) = pid (tasks s ! i)"
  shows "task_find p s' = task_find p s"
proof -
  have "filter (\<lambda>i. tstate (tasks s' ! i) \<noteq> TASK_UNUSED \<and> pid (tasks s' ! i) = word_of_int p) [0..<MAX_TASKS] =
      filter (\<lambda>i. tstate (tasks s ! i) \<noteq> TASK_UNUSED \<and> pid (tasks s ! i) = word_of_int p) [0..<MAX_TASKS]"
    by (rule filter_cong [OF refl]) (use assms(2) in simp)
  then show ?thesis using assms(1) by (simp only: task_find_def)
qed

lemma task_find_cong:
  assumes k: "keeps_ids s s'" and l: "length (tasks s) = MAX_TASKS"
  shows "task_find p s' = task_find p s"
  by (rule task_find_eq) (use k l in \<open>auto simp: keeps_ids_def ident_def\<close>)

lemma task_find_SomeD:
  assumes "task_find p s = Some i"
  shows "i < MAX_TASKS" "tstate (tasks s ! i) \<noteq> TASK_UNUSED" "pid (tasks s ! i) = word_of_int p"
proof -
  let ?xs = "filter (\<lambda>i. tstate (tasks s ! i) \<noteq> TASK_UNUSED \<and> pid (tasks s ! i) = word_of_int p) [0..<MAX_TASKS]"
  obtain xs where "?xs = i # xs"
    using assms unfolding task_find_def by (cases ?xs) (simp_all only: list.case option.distinct option.inject split: if_splits)
  then have "i \<in> set ?xs" by (metis list.set_intros(1))
  then show "i < MAX_TASKS" "tstate (tasks s ! i) \<noteq> TASK_UNUSED" "pid (tasks s ! i) = word_of_int p"
    unfolding set_filter mem_Collect_eq set_upt atLeastLessThan_iff by blast+
qed

lemma schedule_switch_ids:
  assumes e: "schedule_switch s = (b, s')" and l: "length (tasks s) = MAX_TASKS" and c: "g_current s < MAX_TASKS"
  shows "keeps_ids s s'"
proof -
  have fields: "pid (tasks s' ! j) = pid (tasks s ! j) \<and> exit_code (tasks s' ! j) = exit_code (tasks s ! j) \<and>
      is_user (tasks s' ! j) = is_user (tasks s ! j)" if "j < MAX_TASKS" for j
    using that e l c
    by (auto simp: schedule_switch_def Let_def dispatch_def use_tick_def set_state_def split: if_splits)
  have "(tstate (tasks s' ! j) = TASK_UNUSED) = (tstate (tasks s ! j) = TASK_UNUSED)" if "j < MAX_TASKS" for j
    using schedule_switch_tstate [OF e l c that] by (auto simp: runnable_def)
  then show ?thesis
    using fields l schedule_switch_waits(5,6) [OF e l c] by (simp add: keeps_ids_def ident_def)
qed

lemma wake_all_ids:
  assumes "wq_rep s ch" and "t_ready s" and "task_wake_all q s = Some s'"
  shows "keeps_ids s s'"
proof -
  have f: "frame_rest s s'" and r: "wq_rep s' (ch(q := []))" and t: "\<And>j. j < MAX_TASKS \<Longrightarrow>
      same_but_link (tasks s' ! j) (if j \<in> set (ch q) then woken (tasks s ! j) else tasks s ! j)"
    using task_wake_all_rep [OF assms(1,2), of q] assms(3) by auto
  have "ident (tasks s' ! j) = ident (tasks s ! j)" if "j < MAX_TASKS" for j
    using same_but_linkD [OF t [OF that]] by (auto simp: ident_def woken_def split: if_splits)
  then show ?thesis using wq_repD(1) [OF assms(1)] wq_repD(1) [OF r] frame_restD(2) [OF f] by (simp add: keeps_ids_def)
qed

section \<open>Exit\<close>

lemma process_exit_spec:
  fixes code :: int
  assumes r: "wq_rep s ch" and rd: "t_ready s" and c: "g_current s < MAX_TASKS"
    and u: "is_user (tasks s ! g_current s)" and w: "wait_q (tasks s ! g_current s) = None"
  defines "s1 \<equiv> upd (g_current s) (\<lambda>t. t\<lparr>exit_code := code, tstate := TASK_ZOMBIE\<rparr>) s"
  shows "\<exists>b s'. process_exit fs code s = Some (b, s') \<and> wq_rep s' (ch(REAP := [])) \<and> t_ready s' \<and>
    tstate (tasks s' ! g_current s) = TASK_ZOMBIE \<and> keeps_ids s1 s' \<and>
    (\<forall>j < MAX_TASKS. j \<noteq> g_current s \<longrightarrow> runnable (tasks s' ! j) \<longleftrightarrow> runnable (tasks s ! j) \<or>
       j \<in> set (ch REAP) \<and> tstate (tasks s ! j) = TASK_BLOCKED) \<and>
    g_lock_depth s' = g_lock_depth s \<and>
    (\<exists>s5. schedule_switch s5 = (b, s') \<and> g_current s5 = g_current s \<and> length (tasks s5) = MAX_TASKS \<and>
       t_ready s5 \<and> g_lock_depth s5 = g_lock_depth s \<and> (\<forall>j < MAX_TASKS. runnable (tasks s5 ! j) = runnable (tasks s' ! j)))"
proof -
  let ?me = "g_current s"
  note l = wq_repD(1) [OF r]
  have r1: "wq_rep s1 ch" by (rule wq_rep_cong [OF r]) (simp_all add: s1_def l)
  have rd1: "t_ready s1" using rd by (simp add: s1_def)
  have t1: "tasks s1 ! j = (if j = ?me then (tasks s ! j)\<lparr>exit_code := code, tstate := TASK_ZOMBIE\<rparr> else tasks s ! j)"
    if "j < MAX_TASKS" for j using that l by (simp add: s1_def)
  obtain s2 where s2: "task_wake_all REAP s1 = Some s2" "wq_rep s2 (ch(REAP := []))" "frame_rest s1 s2"
    and t2: "\<And>j. j < MAX_TASKS \<Longrightarrow> same_but_link (tasks s2 ! j) (if j \<in> set (ch REAP) then woken (tasks s1 ! j) else tasks s1 ! j)"
    using task_wake_all_rep [OF r1 rd1] by blast
  have me: "?me \<notin> set (ch REAP)" using wq_repD(4) [OF r, of ?me REAP] w by simp
  have w2: "wait_q (tasks s2 ! ?me) = None" "tstate (tasks s2 ! ?me) = TASK_ZOMBIE"
    using same_but_linkD(1,3) [OF t2 [OF c]] me t1 [OF c] w by simp_all
  note l2 = wq_repD(1) [OF s2(2)] and f2 = frame_restD [OF s2(3)]
  define m4 where "m4 = (mach s2)\<lparr>mpg := paging_switch_cr3 PAGING_PD_ADDR (mpg (mach s2)), mpm := release_space (tasks s2 ! ?me) (mpm (mach s2))\<rparr>"
  define s4 where "s4 = upd ?me (\<lambda>t. t\<lparr>t_cr3 := 0, t_img := (t_img t)\<lparr>img_seg := []\<rparr>, user_stack_phys := 0,
       user_stack_pages := 0, t_pt_phys := 0, t_pd_phys := 0\<rparr>) (s2\<lparr>mach := m4\<rparr>)"
  obtain ft k where fk: "close_all fs (fds (tasks s4 ! ?me)) (fsys s4) = (ft, k)" by (cases "close_all fs (fds (tasks s4 ! ?me)) (fsys s4)")
  define s5 where "s5 = upd ?me (\<lambda>t. t\<lparr>fds := ft\<rparr>) (s4\<lparr>fsys := k\<rparr>)"
  obtain b s' where e: "schedule_switch s5 = (b, s')" by (cases "schedule_switch s5")
  have pe: "process_exit fs code s = Some (b, s')"
    using rd u s2(1) w2(1) fk e
    unfolding process_exit_def Let_def s1_def [symmetric] by (simp add: m4_def [symmetric] s4_def [symmetric] s5_def [symmetric])
  have c5: "g_current s5 = ?me" "length (tasks s5) = MAX_TASKS" "t_ready s5"
    using f2(1,2) l2 rd1 by (simp_all add: s5_def s4_def s1_def)
  have st5: "tstate (tasks s5 ! j) = tstate (tasks s2 ! j)" if "j < MAX_TASKS" for j
    using that l2 by (simp add: s5_def s4_def)
  have r5: "wq_rep s5 (ch(REAP := []))" by (rule wq_rep_cong [OF s2(2)]) (simp_all add: s5_def s4_def l2)
  have k5: "keeps_ids s2 s5" using l2 by (simp add: keeps_ids_def s5_def s4_def ident_def)
  have "keeps_ids s1 s2" by (rule wake_all_ids [OF r1 rd1 s2(1)])
  then have ids: "keeps_ids s1 s'"
    using keeps_ids_trans [OF _ keeps_ids_trans [OF k5 schedule_switch_ids [OF e c5(2)]]] c5(1) c by simp
  have c5': "g_current s5 < MAX_TASKS" using c5(1) c by simp
  note sw = schedule_switch_tstate [OF e c5(2) c5']
  have "tstate (tasks s' ! ?me) = TASK_ZOMBIE" using sw(2) [OF c] st5 [OF c] w2(2) by (simp add: runnable_def)
  moreover have "runnable (tasks s' ! j) \<longleftrightarrow> runnable (tasks s ! j) \<or> j \<in> set (ch REAP) \<and> tstate (tasks s ! j) = TASK_BLOCKED"
    if j: "j < MAX_TASKS" "j \<noteq> ?me" for j
    using sw(1) [OF j(1)] st5 [OF j(1)] same_but_linkD(1) [OF t2 [OF j(1)]] t1 [OF j(1)] j(2)
    by (auto simp: runnable_def woken_def split: if_splits)
  moreover have "t_ready s'" using schedule_switch_waits(5) [OF e c5(2) c] c5(3) by simp
  moreover have k: "g_lock_depth s5 = g_lock_depth s" using f2(6) by (simp add: s5_def s4_def s1_def)
  then have "g_lock_depth s' = g_lock_depth s" using schedule_switch_lock(1) [OF e] by simp
  moreover have "\<exists>s5. schedule_switch s5 = (b, s') \<and> g_current s5 = ?me \<and> length (tasks s5) = MAX_TASKS \<and>
       t_ready s5 \<and> g_lock_depth s5 = g_lock_depth s \<and> (\<forall>j < MAX_TASKS. runnable (tasks s5 ! j) = runnable (tasks s' ! j))"
    using e c5 k sw(1) by blast
  ultimately show ?thesis using pe schedule_switch_rep(1) [OF e r5] ids by blast
qed

text \<open>C17: When a process exits while its parent sleeps in task_wait_pid, process_exit returns to
  the scheduler with the parent runnable and on no queue any more, and the parent's next look
  at the process finds the exit code.\<close>
theorem process_exit_wakes_parent:
  assumes "wq_rep s ch" and "t_ready s" and "g_current s < MAX_TASKS" and "is_user (tasks s ! g_current s)"
    and "wait_q (tasks s ! g_current s) = None" and "task_find p s = Some (g_current s)"
    and "w \<in> set (ch REAP)" and "tstate (tasks s ! w) = TASK_BLOCKED"
  shows "\<exists>b s'. process_exit fs code s = Some (b, s') \<and> runnable (tasks s' ! w) \<and> wait_q (tasks s' ! w) = None \<and>
    fst (task_wait_step p False s') = Exited code"
proof -
  let ?me = "g_current s"
  define s1 where "s1 = upd ?me (\<lambda>t. t\<lparr>exit_code := code, tstate := TASK_ZOMBIE\<rparr>) s"
  note l = wq_repD(1) [OF assms(1)]
  obtain b s' where s': "process_exit fs code s = Some (b, s')" "wq_rep s' (ch(REAP := []))" "t_ready s'"
      "tstate (tasks s' ! ?me) = TASK_ZOMBIE" "keeps_ids s1 s'"
    and run: "\<forall>j < MAX_TASKS. j \<noteq> ?me \<longrightarrow> runnable (tasks s' ! j) \<longleftrightarrow> runnable (tasks s ! j) \<or>
       j \<in> set (ch REAP) \<and> tstate (tasks s ! j) = TASK_BLOCKED"
    using process_exit_spec [OF assms(1-5), of fs code] unfolding s1_def by blast
  have w: "w < MAX_TASKS" "w \<noteq> ?me" "wait_q (tasks s ! w) = Some REAP"
    using wq_repD(4) [OF assms(1), of w REAP] assms(5,7) by auto
  have "wait_q (tasks s' ! w) = None"
  proof (cases "wait_q (tasks s' ! w)")
    case (Some q)
    then have "w \<in> set ((ch(REAP := [])) q)" using wq_repD(4) [OF s'(2), of w q] w(1) by simp
    then have "q \<noteq> REAP" "w \<in> set (ch q)" by (auto split: if_splits)
    then show ?thesis using wq_rep_disjoint [OF assms(1,7), of q] by simp
  qed
  moreover have "task_find p s' = Some ?me"
  proof -
    have "task_find p s1 = task_find p s"
      by (rule task_find_eq) (use task_find_SomeD(2) [OF assms(6)] l in \<open>auto simp: s1_def\<close>)
    then show ?thesis using task_find_cong [OF s'(5), of p] assms(6) l by (simp add: s1_def)
  qed
  moreover have "exit_code (tasks s' ! ?me) = code"
  proof -
    have "ident (tasks s' ! ?me) = ident (tasks s1 ! ?me)" using s'(5) assms(3) l by (simp add: keeps_ids_def s1_def)
    then show ?thesis using assms(3) l by (simp add: ident_def s1_def)
  qed
  ultimately show ?thesis using s'(1,4) run w assms(7,8) by (auto simp: task_wait_step_def)
qed

text \<open>
  An example: task 0 sleeps on the reaping queue, the user process with pid 7 in slot 1 runs,
  and slot 2 is ready.
\<close>

definition no_files :: fsx where
  "no_files = \<lparr>get_file_size = \<lambda>_. 0, read_file = \<lambda>_ _. None, create_rc = \<lambda>_ _. -1\<rparr>"

definition waiting_parent :: tsys where
  "waiting_parent = example_tasks\<lparr>g_current := 1, wq := (\<lambda>_. -1)(REAP := 0),
     tasks := (tasks example_tasks)[0 := blank_task\<lparr>tstate := TASK_BLOCKED, wait_q := Some REAP\<rparr>,
       1 := blank_task\<lparr>tstate := TASK_RUNNING, pid := 7, is_user := True\<rparr>]\<rparr>"

lemma find_in_slot_1:
  assumes "t_ready s" and "tstate (tasks s ! 1) \<noteq> TASK_UNUSED" and "pid (tasks s ! 1) = word_of_int p"
    and "pid (tasks s ! 0) \<noteq> word_of_int p" and "0 < p"
  shows "task_find p s = Some 1"
proof -
  have "[0..<MAX_TASKS] = [0, 1] @ [2..<MAX_TASKS]" by (simp add: upt_rec)
  then show ?thesis using assms by (simp add: task_find_def)
qed

theorem process_exit_wakes_parent_witness:
  "\<exists>b s'. process_exit no_files 42 waiting_parent = Some (b, s') \<and> runnable (tasks s' ! 0) \<and> wait_q (tasks s' ! 0) = None \<and>
    fst (task_wait_step 7 False s') = Exited 42"
proof -
  have r: "wq_rep waiting_parent ((\<lambda>_. [])(REAP := [0]))"
    by (auto simp: wq_rep_def waiting_parent_def example_tasks_def blank_task_def nth_list_update split: if_splits
        simp del: upt.simps upt_rec_numeral)
  have f: "t_ready waiting_parent" "g_current waiting_parent = 1" "is_user (tasks waiting_parent ! 1)"
      "wait_q (tasks waiting_parent ! 1) = None" "tstate (tasks waiting_parent ! 0) = TASK_BLOCKED"
      "tstate (tasks waiting_parent ! 1) = TASK_RUNNING" "pid (tasks waiting_parent ! 1) = 7" "pid (tasks waiting_parent ! 0) = 0"
    by (simp_all add: waiting_parent_def example_tasks_def blank_task_def del: upt.simps upt_rec_numeral)
  have "task_find 7 waiting_parent = Some 1" by (rule find_in_slot_1) (simp_all add: f del: One_nat_def)
  then show ?thesis using process_exit_wakes_parent [OF r f(1), of 7 0 no_files 42] f by simp
qed

section \<open>A wake-up that is lost\<close>

text \<open>
  \<open>task_wait_pid_opt\<close> looks at the child and only then calls \<open>task_sleep\<close>, which disables the
  interrupts. A caller that runs with interrupts on (\<open>exec\<close> in the shell's task; the system call
  gate keeps them off) may be preempted between the two, and the child may run and exit there.
\<close>

lemma pick_next_runnable:
  assumes "j < MAX_TASKS" and "g_current s < MAX_TASKS" and "runnable (tasks s ! j)"
  shows "runnable (tasks s ! pick_next s)"
proof -
  let ?g = "g_current s"
  let ?cs = "filter (\<lambda>c. runnable (tasks s ! c)) (map (\<lambda>i. (?g + i) mod MAX_TASKS) [1..<Suc MAX_TASKS])"
  define i where "i = (if ?g < j then j - ?g else MAX_TASKS + j - ?g)"
  have "1 \<le> i" "i < Suc MAX_TASKS" "(?g + i) mod MAX_TASKS = j" using assms(1,2) by (auto simp: i_def)
  then have "j \<in> (\<lambda>i. (?g + i) mod MAX_TASKS) ` {1..<Suc MAX_TASKS}" by force
  then have m: "j \<in> set ?cs" using assms(3) unfolding set_filter set_map set_upt by blast
  obtain c cs where e: "?cs = c # cs" using m by (cases ?cs) (simp_all only: list.set empty_iff)
  then have "c \<in> set ?cs" by (metis list.set_intros(1))
  then have "runnable (tasks s ! c)" unfolding set_filter by blast
  moreover have "pick_next s = c" unfolding pick_next_def e by simp
  ultimately show ?thesis by simp
qed

lemma sleep_switches_out:
  assumes r: "wq_rep s ch" and rd: "t_ready s" "g_lock_depth s = 0" and c: "g_current s < MAX_TASKS"
    and w: "wait_q (tasks s ! g_current s) = None" and t: "timeout = 0"
    and j: "j < MAX_TASKS" "j \<noteq> g_current s" "runnable (tasks s ! j)" and u: "tstate (tasks s ! g_current s) \<noteq> TASK_UNUSED"
  shows "\<exists>s'. task_sleep q timeout s = (True, s') \<and> wq_rep s' (ch(q := g_current s # ch q)) \<and> t_ready s' \<and>
    tstate (tasks s' ! g_current s) = TASK_BLOCKED \<and> wake_tick (tasks s' ! g_current s) = 0 \<and> keeps_ids s s' \<and>
    (\<forall>j < MAX_TASKS. j \<noteq> g_current s \<longrightarrow> \<not> runnable (tasks s ! j) \<longrightarrow> tstate (tasks s' ! j) = tstate (tasks s ! j))"
proof -
  let ?me = "g_current s"
  define s2 where "s2 = upd ?me (\<lambda>t. t\<lparr>wake_tick := 0, tstate := TASK_BLOCKED\<rparr>) (s\<lparr>iflag := False\<rparr>)"
  define s3 where "s3 = wq_push q ?me s2"
  obtain b s' where e: "schedule_switch s3 = (b, s')" by (cases "schedule_switch s3")
  note l = wq_repD(1) [OF r]
  have r2: "wq_rep s2 ch" by (rule wq_rep_cong [OF r]) (use l c in \<open>auto simp: s2_def upd_def nth_list_update\<close>)
  have w2: "wait_q (tasks s2 ! ?me) = None" using w c l by (simp add: s2_def upd_def)
  have r3: "wq_rep s3 (ch(q := ?me # ch q))" unfolding s3_def by (rule wq_push_rep [OF r2 c w2])
  have l3: "length (tasks s3) = MAX_TASKS" and c3: "g_current s3 = ?me" "t_ready s3" "g_lock_depth s3 = 0"
    using wq_repD(1) [OF r3] rd by (simp_all add: s3_def wq_push_def s2_def)
  have t3: "tstate (tasks s3 ! i) = (if i = ?me then TASK_BLOCKED else tstate (tasks s ! i))" if "i < MAX_TASKS" for i
    using that l c by (simp add: s3_def wq_push_def s2_def upd_def nth_list_update)
  have k3: "wake_tick (tasks s3 ! ?me) = 0" using c l by (simp add: s3_def wq_push_def s2_def upd_def)
  have i3: "keeps_ids s s3" using l c u by (auto simp: keeps_ids_def ident_def s3_def wq_push_def s2_def upd_def nth_list_update)
  have ut: "tstate (tasks (use_tick s3) ! i) = tstate (tasks s3 ! i)" if "i < MAX_TASKS" for i using that l3 by simp
  have "runnable (tasks (use_tick s3) ! pick_next (use_tick s3))"
    by (rule pick_next_runnable [OF j(1)]) (use c c3 j ut [OF j(1)] t3 [OF j(1)] in \<open>simp_all add: runnable_def\<close>)
  then have "pick_next (use_tick s3) \<noteq> ?me" using ut [OF c] t3 [OF c] by (auto simp: runnable_def)
  then have b: b using e c3 t3 [OF c] ut [OF c] by (auto simp: schedule_switch_def Let_def split: if_splits)
  have ts: "task_sleep q timeout s = (True, s')" using rd e t b by (simp add: task_sleep_def Let_def s2_def s3_def)
  have "tstate (tasks s' ! ?me) = TASK_BLOCKED"
    using schedule_switch_blocked [OF e l3] t3 [OF c] c unfolding c3 by simp
  moreover have "wake_tick (tasks s' ! ?me) = 0" using schedule_switch_waits(1) [OF e l3 c] k3 by simp
  moreover have "tstate (tasks s' ! i) = tstate (tasks s ! i)"
    if "i < MAX_TASKS" "i \<noteq> ?me" "\<not> runnable (tasks s ! i)" for i
    using schedule_switch_tstate(2) [OF e l3 _ that(1)] t3 [OF that(1)] that c unfolding c3 by (simp add: runnable_def)
  moreover have "t_ready s'" using schedule_switch_rep(2) [OF e r3] c3 by simp
  moreover have "keeps_ids s s'" using keeps_ids_trans [OF i3 schedule_switch_ids [OF e l3]] c c3(1) by simp
  ultimately show ?thesis using ts schedule_switch_rep(1) [OF e r3] by blast
qed

text \<open>A task that sleeps without a deadline: the timer leaves it, a wake-up of its queue does not.\<close>

lemma sleeper_without_deadline:
  assumes r: "wq_rep s ch" and rd: "t_ready s" and w: "w < MAX_TASKS" "w \<in> set (ch q)"
    and b: "tstate (tasks s ! w) = TASK_BLOCKED" "wake_tick (tasks s ! w) = 0"
  shows "\<exists>s'. task_timer_tick (s\<lparr>g_pit_ticks := now\<rparr>) = Some s' \<and> tstate (tasks s' ! w) = TASK_BLOCKED"
    and "\<exists>s'. task_wake_all q s = Some s' \<and> tstate (tasks s' ! w) = TASK_READY"
proof -
  have "wq_rep (s\<lparr>g_pit_ticks := now\<rparr>) ch" by (rule wq_rep_cong [OF r]) simp_all
  from timer_tick_at [OF this _ w(1)]
  show "\<exists>s'. task_timer_tick (s\<lparr>g_pit_ticks := now\<rparr>) = Some s' \<and> tstate (tasks s' ! w) = TASK_BLOCKED"
    using rd b by (simp add: expired_def)
  obtain s' where s': "task_wake_all q s = Some s'" "same_but_link (tasks s' ! w) (woken (tasks s ! w))"
    using task_wake_all_rep [OF r rd, of q] w by auto
  then show "\<exists>s'. task_wake_all q s = Some s' \<and> tstate (tasks s' ! w) = TASK_READY"
    using same_but_linkD(1) [OF s'(2)] b(1) by (simp add: woken_def)
qed

text \<open>Any number of calls of the scheduler, by whichever tasks run.\<close>

definition switches :: "tsys \<Rightarrow> tsys \<Rightarrow> bool" where
  "switches s s' \<longleftrightarrow> snd (schedule_switch s) = s'"

lemma pick_next_lt:
  assumes "g_current s < MAX_TASKS"
  shows "pick_next s < MAX_TASKS"
proof -
  let ?cs = "filter (\<lambda>c. runnable (tasks s ! c)) (map (\<lambda>i. (g_current s + i) mod MAX_TASKS) [1..<Suc MAX_TASKS])"
  show ?thesis
  proof (cases ?cs)
    case Nil
    then show ?thesis using assms unfolding pick_next_def by simp
  next
    case (Cons c cs)
    then have "c \<in> set ?cs" by (metis list.set_intros(1))
    then have "c < MAX_TASKS" unfolding set_filter set_map by auto
    then show ?thesis unfolding pick_next_def Cons by simp
  qed
qed

lemma schedule_switch_current:
  assumes "schedule_switch s = (b, s')" and "g_current s < MAX_TASKS"
  shows "g_current s' < MAX_TASKS"
  using assms pick_next_lt [of "use_tick s"] by (auto simp: schedule_switch_def Let_def split: if_splits)

lemma switches_keep:
  assumes "switches\<^sup>*\<^sup>* s s'" and "wq_rep s ch" and "g_current s < MAX_TASKS"
  shows "wq_rep s' ch \<and> t_ready s' = t_ready s \<and> g_lock_depth s' = g_lock_depth s \<and> keeps_ids s s' \<and> g_current s' < MAX_TASKS \<and>
    (\<forall>j < MAX_TASKS. runnable (tasks s' ! j) = runnable (tasks s ! j) \<and>
       (\<not> runnable (tasks s ! j) \<longrightarrow> tstate (tasks s' ! j) = tstate (tasks s ! j)))"
  using assms(1)
proof induction
  case base
  then show ?case using assms(2,3) by simp
next
  case (step y z)
  then obtain b where e: "schedule_switch y = (b, z)" unfolding switches_def by (metis prod.collapse)
  from step.IH have y: "wq_rep y ch" "g_current y < MAX_TASKS" "keeps_ids s y" by blast+
  note l = wq_repD(1) [OF y(1)]
  show ?case
    using step.IH schedule_switch_rep [OF e y(1)] schedule_switch_lock(1) [OF e] schedule_switch_current [OF e y(2)]
      keeps_ids_trans [OF y(3) schedule_switch_ids [OF e l y(2)]] schedule_switch_tstate [OF e l y(2)] by simp
qed

text \<open>C18: The race in task_wait_pid. A task w that runs with interrupts on looks at a process that
  is still alive and decides to sleep; interrupts are still on after the look. Then, by any
  calls of the scheduler, the process comes to run, exits with a code, and by any further calls
  of the scheduler the processor comes back to w. Now the sleep of task_wait_pid switches w out,
  provided another task can run: w is blocked although a look would find the exit code,
  no timer interrupt makes it ready, at whatever time, and what does is the next wake-up of
  the reaping queue, that is the exit of another process.\<close>
theorem wait_pid_lost_wakeup:
  assumes "wq_rep s ch" and "t_ready s" and "g_lock_depth s = 0" and "w = g_current s" and "w < MAX_TASKS" and "iflag s"
    and "tstate (tasks s ! w) = TASK_RUNNING" and "wait_q (tasks s ! w) = None"
    and look: "task_wait_step p False s = (MustSleep, s1)"
    and preempted: "switches\<^sup>*\<^sup>* s1 s2"
    and child: "task_find p s2 = Some (g_current s2)" "is_user (tasks s2 ! g_current s2)" "wait_q (tasks s2 ! g_current s2) = None"
    and exits: "process_exit fs code s2 = Some (b, s3)" and returns: "switches\<^sup>*\<^sup>* s3 s4" "g_current s4 = w" "w \<noteq> g_current s2"
    and other: "j < MAX_TASKS" "j \<noteq> w" "runnable (tasks s4 ! j)"
  shows "iflag s1 \<and> (\<exists>s5. task_wait_sleep s4 = (True, s5) \<and> tstate (tasks s5 ! w) = TASK_BLOCKED \<and>
    fst (task_wait_step p False s5) = Exited code \<and>
    (\<forall>now. \<exists>s'. task_timer_tick (s5\<lparr>g_pit_ticks := now\<rparr>) = Some s' \<and> tstate (tasks s' ! w) = TASK_BLOCKED) \<and>
    (\<exists>s6. task_wake_all REAP s5 = Some s6 \<and> tstate (tasks s6 ! w) = TASK_READY))"
proof -
  let ?c = "g_current s2"
  have s1: "s1 = s" using look by (auto simp: task_wait_step_def split: option.splits if_splits)
  have s2: "wq_rep s2 ch" "t_ready s2" "g_lock_depth s2 = 0" and run2: "runnable (tasks s2 ! w)"
    using switches_keep [OF preempted [unfolded s1] assms(1)] assms(2-5,7) by (auto simp: runnable_def)
  have c: "?c < MAX_TASKS" by (rule task_find_SomeD(1) [OF child(1)])
  define s2z where "s2z = upd ?c (\<lambda>t. t\<lparr>exit_code := code, tstate := TASK_ZOMBIE\<rparr>) s2"
  have s3: "wq_rep s3 (ch(REAP := []))" "t_ready s3" "tstate (tasks s3 ! ?c) = TASK_ZOMBIE" "keeps_ids s2z s3"
      "g_lock_depth s3 = 0" "runnable (tasks s3 ! w)" "g_current s3 < MAX_TASKS"
    using process_exit_spec [OF s2(1,2) c child(2,3), of fs code] exits assms(5) returns(3) run2 s2(3) c schedule_switch_current
    unfolding s2z_def by auto
  have s4: "wq_rep s4 (ch(REAP := []))" "t_ready s4" "g_lock_depth s4 = 0" "keeps_ids s3 s4" "tstate (tasks s4 ! ?c) = TASK_ZOMBIE"
      "runnable (tasks s4 ! w)"
    using switches_keep [OF returns(1) s3(1,7)] s3 assms(5) c by (auto simp: runnable_def)
  have u: "tstate (tasks s4 ! w) \<noteq> TASK_UNUSED" using s4(6) by (auto simp: runnable_def)
  have "wait_q (tasks s4 ! w) = None"
  proof (cases "wait_q (tasks s4 ! w)")
    case (Some q)
    then have "w \<in> set ((ch(REAP := [])) q)" using wq_repD(4) [OF s4(1), of w q] assms(5) by simp
    then have "w \<in> set (ch q)" by (auto split: if_splits)
    then show ?thesis using wq_repD(4) [OF assms(1), of w q] assms(8) by simp
  qed
  then obtain s5 where s5: "task_sleep REAP 0 s4 = (True, s5)" "wq_rep s5 (ch(REAP := [w]))" "t_ready s5"
      "tstate (tasks s5 ! w) = TASK_BLOCKED" "wake_tick (tasks s5 ! w) = 0" "keeps_ids s4 s5" "tstate (tasks s5 ! ?c) = TASK_ZOMBIE"
    using sleep_switches_out [OF s4(1-3), of 0 j REAP] returns(2,3) other u assms(5) c s4(5) by (auto simp: runnable_def)
  have ids: "keeps_ids s2z s5" by (rule keeps_ids_trans [OF s3(4) keeps_ids_trans [OF s4(4) s5(6)]])
  have lz: "length (tasks s2z) = MAX_TASKS" using wq_repD(1) [OF s2(1)] by (simp add: s2z_def)
  have "task_find p s2z = task_find p s2"
    by (rule task_find_eq) (use task_find_SomeD(2) [OF child(1)] wq_repD(1) [OF s2(1)] in \<open>auto simp: s2z_def\<close>)
  then have "task_find p s5 = Some ?c" using task_find_cong [OF ids lz] child(1) by simp
  moreover have "ident (tasks s5 ! ?c) = ident (tasks s2z ! ?c)" using ids c lz by (simp add: keeps_ids_def)
  then have "exit_code (tasks s5 ! ?c) = code" using c wq_repD(1) [OF s2(1)] by (simp add: ident_def s2z_def)
  ultimately have "fst (task_wait_step p False s5) = Exited code" using s5(7) by (simp add: task_wait_step_def)
  then show ?thesis
    using s1 assms(6) s5(1,4) sleeper_without_deadline [OF s5(2,3) assms(5) _ s5(4,5), of REAP] by (auto simp: task_wait_sleep_def)
qed

text \<open>
  The first task has just decided to wait for pid 7 in slot 2; the second one already waits for
  some other process.
\<close>

definition busy_parent :: tsys where
  "busy_parent = example_tasks\<lparr>wq := (\<lambda>_. -1)(REAP := 1), tasks :=
     [blank_task\<lparr>tstate := TASK_RUNNING\<rparr>, blank_task\<lparr>tstate := TASK_BLOCKED, wait_q := Some REAP\<rparr>,
      blank_task\<lparr>tstate := TASK_READY, pid := 7, is_user := True\<rparr>] @ replicate 5 (blank_task\<lparr>tstate := TASK_UNUSED\<rparr>)\<rparr>"

lemma busy_parent_tasks:
  "length (tasks busy_parent) = MAX_TASKS"
  "j < MAX_TASKS \<Longrightarrow> tstate (tasks busy_parent ! j) =
     (if j = 0 then TASK_RUNNING else if j = 1 then TASK_BLOCKED else if j = 2 then TASK_READY else TASK_UNUSED)"
  "j < MAX_TASKS \<Longrightarrow> pid (tasks busy_parent ! j) = (if j = 2 then 7 else 0)"
  "j < MAX_TASKS \<Longrightarrow> wait_q (tasks busy_parent ! j) = (if j = 1 then Some REAP else None)"
  "ticks (tasks busy_parent ! 0) = 0" "is_user (tasks busy_parent ! 2)" "wait_next (tasks busy_parent ! 1) = -1"
  by (auto simp: busy_parent_def blank_task_def nth_append nth_Cons split: nat.splits)

lemma busy_parent_frame:
  "wq busy_parent = (\<lambda>_. -1)(REAP := 1)" "t_ready busy_parent" "g_current busy_parent = 0" "g_lock_depth busy_parent = 0" "iflag busy_parent"
  by (simp_all add: busy_parent_def example_tasks_def)

lemma pick_next_at_2:
  assumes "g_current s = 2" and "\<And>j. j < MAX_TASKS \<Longrightarrow> runnable (tasks s ! j) = (j < 2)"
  shows "pick_next s = 0"
  unfolding pick_next_def candidates using assms by simp

theorem wait_pid_lost_wakeup_witness:
  "\<exists>s2 b s4 s5. task_wait_step 7 False busy_parent = (MustSleep, busy_parent) \<and>
     schedule_switch busy_parent = (True, s2) \<and> process_exit no_files 42 s2 = Some (b, s4) \<and> task_wait_sleep s4 = (True, s5) \<and>
     fst (task_wait_step 7 False s5) = Exited 42 \<and>
     (\<forall>now. \<exists>s'. task_timer_tick (s5\<lparr>g_pit_ticks := now\<rparr>) = Some s' \<and> tstate (tasks s' ! 0) = TASK_BLOCKED)"
proof -
  note t = busy_parent_tasks and f = busy_parent_frame
  have r: "wq_rep busy_parent ((\<lambda>_. [])(REAP := [1]))" using t(1,4,7) f(1) by (auto simp: wq_rep_def split: if_splits)
  have tf: "task_find 7 s = Some 2" if "t_ready s" "length (tasks s) = MAX_TASKS" "keeps_ids busy_parent s" for s
  proof -
    have "[0..<MAX_TASKS] = [0, 1, 2] @ [3..<MAX_TASKS]" by (simp add: upt_rec)
    then have "task_find 7 busy_parent = Some 2" using t(2,3) f(2) by (simp add: task_find_def)
    then show ?thesis using task_find_cong [OF that(3) t(1)] by simp
  qed
  have look: "task_wait_step 7 False busy_parent = (MustSleep, busy_parent)"
    using tf [of busy_parent] t f by (simp add: task_wait_step_def)
  have ut: "use_tick busy_parent = busy_parent" using t f by (simp add: use_tick_def)
  have pn: "pick_next busy_parent = 2" unfolding pick_next_def candidates using t(2) f(3) by (simp add: runnable_def)
  define s2 where "s2 = dispatch 2 busy_parent"
  have e: "schedule_switch busy_parent = (True, s2)" using ut pn t f by (simp add: schedule_switch_def Let_def s2_def)
  have sw: "switches\<^sup>*\<^sup>* busy_parent s2" by (rule r_into_rtranclp) (simp add: switches_def e)
  have c2: "g_current s2 = 2" by (simp add: s2_def)
  have k: "wq_rep s2 ((\<lambda>_. [])(REAP := [1]))" "t_ready s2" "g_lock_depth s2 = 0" "keeps_ids busy_parent s2"
      "\<And>j. j < MAX_TASKS \<Longrightarrow> runnable (tasks s2 ! j) = runnable (tasks busy_parent ! j)" "tstate (tasks s2 ! 1) = TASK_BLOCKED"
    using switches_keep [OF sw r] t f by (auto simp: runnable_def)
  have w2: "wait_q (tasks s2 ! 2) = None"
    using schedule_switch_waits(2) [OF e t(1), of 2] t(4) [of 2] by simp
  have u2: "is_user (tasks s2 ! 2)" using k(4) t(1,6) by (simp add: keeps_ids_def ident_def)
  obtain b s4 sx where x: "process_exit no_files 42 s2 = Some (b, s4)" "schedule_switch sx = (b, s4)" "g_current sx = 2"
      "length (tasks sx) = MAX_TASKS" "t_ready sx" "g_lock_depth sx = 0" "tstate (tasks s4 ! 2) = TASK_ZOMBIE"
      and run: "\<And>j. j < MAX_TASKS \<Longrightarrow> runnable (tasks sx ! j) = runnable (tasks s4 ! j)"
        "\<And>j. j < MAX_TASKS \<Longrightarrow> j \<noteq> 2 \<Longrightarrow> runnable (tasks s4 ! j) \<longleftrightarrow> runnable (tasks s2 ! j) \<or> j = 1 \<and> tstate (tasks s2 ! j) = TASK_BLOCKED"
    using process_exit_spec [OF k(1,2), of no_files 42] c2 u2 w2 k(3) by auto
  have run4: "runnable (tasks s4 ! j) = (j < 2)" if "j < MAX_TASKS" for j
    using run(2) [OF that] k(5) [OF that] k(6) t(2) [OF that] x(7) by (cases "j = 2") (auto simp: runnable_def split: if_splits)
  have runx: "runnable (tasks (use_tick sx) ! j) = (j < 2)" if "j < MAX_TASKS" for j
    using run(1) [OF that] run4 [OF that] x(4) that by (simp add: runnable_def)
  have "pick_next (use_tick sx) = 0" by (rule pick_next_at_2) (use x(3) runx in simp_all)
  moreover have "tstate (tasks (use_tick sx) ! 2) \<noteq> TASK_RUNNING" using runx [of 2] by (auto simp: runnable_def)
  ultimately have c4: "g_current s4 = 0" using x(2,3,5,6) by (auto simp: schedule_switch_def Let_def split: if_splits)
  have l2: "length (tasks s2) = MAX_TASKS" by (rule wq_repD(1) [OF k(1)])
  show ?thesis
    using wait_pid_lost_wakeup [OF r f(2,4) _ _ f(5) _ _ look sw _ _ _ x(1) rtranclp.rtrancl_refl, of 0 1]
      tf [OF k(2) l2 k(4)] c2 u2 w2 c4 t(2,4) [of 0] f(3) run4 [of 1] look e x(1) by auto
qed

end
