(* ===== verification/Sched.thy ===== *)
theory Sched
  imports ProcExit
begin

text \<open>
  Liveness of the scheduler of \<open>src/kernel/task.c\<close>: a ready task is not starved. Its cyclic
  distance from the running slot shrinks at every switch, and a time slice ends after at most
  ten timer interrupts, whatever the other tasks do in between.
\<close>

definition cyc_dist :: "tsys \<Rightarrow> nat \<Rightarrow> nat" where
  "cyc_dist s i = (i + MAX_TASKS - g_current s) mod MAX_TASKS"

text \<open>The scan stops at the first runnable slot, so it never passes a runnable one.\<close>

lemma filter_head_first:
  assumes "filter P xs = c # cs"
  shows "\<exists>k < length xs. xs ! k = c \<and> P c \<and> (\<forall>j < k. \<not> P (xs ! j))"
  using assms
proof (induction xs)
  case (Cons x xs)
  show ?case
  proof (cases "P x")
    case True
    then show ?thesis using Cons.prems by (intro exI [of _ 0]) simp
  next
    case False
    then obtain k where "k < length xs" "xs ! k = c" "P c" "\<forall>j < k. \<not> P (xs ! j)" using Cons by auto
    then show ?thesis using False by (intro exI [of _ "Suc k"]) (auto simp: less_Suc_eq_0_disj)
  qed
qed simp

lemma mod_slots: "n < 16 \<Longrightarrow> n mod MAX_TASKS = (if n < MAX_TASKS then n else n - MAX_TASKS)"
  by (auto simp: le_mod_geq)

lemma cyc_dist_cases:
  "g_current s < MAX_TASKS \<Longrightarrow> i < MAX_TASKS \<Longrightarrow>
    cyc_dist s i = (if g_current s \<le> i then i - g_current s else i + MAX_TASKS - g_current s)"
  unfolding cyc_dist_def by (subst mod_slots) auto

lemma pick_next_dist:
  assumes c: "g_current s < MAX_TASKS" and i: "i < MAX_TASKS" "i \<noteq> g_current s" and r: "runnable (tasks s ! i)"
  shows "pick_next s \<noteq> g_current s" and "pick_next s < MAX_TASKS" and "runnable (tasks s ! pick_next s)"
    and "(i + MAX_TASKS - pick_next s) mod MAX_TASKS < cyc_dist s i"
proof -
  let ?xs = "map (\<lambda>k. (g_current s + k) mod MAX_TASKS) [1..<Suc MAX_TASKS]"
  let ?P = "\<lambda>c. runnable (tasks s ! c)"
  let ?d = "cyc_dist s i"
  have nth: "k < MAX_TASKS \<Longrightarrow> ?xs ! k = (g_current s + Suc k) mod MAX_TASKS" for k
    by (simp del: upt_Suc upt.simps upt_rec_numeral)
  have len: "length ?xs = MAX_TASKS" by (simp del: upt_Suc upt.simps upt_rec_numeral)
  have d: "0 < ?d" "?d < MAX_TASKS" "(g_current s + ?d) mod MAX_TASKS = i"
    using c i by (auto simp: cyc_dist_cases mod_slots)
  have di: "?xs ! (?d - 1) = i" using nth [of "?d - 1"] d by simp
  have "i \<in> set (filter ?P ?xs)"
    using r di d len nth_mem [of "?d - 1" ?xs] by (simp only: set_filter mem_Collect_eq)
  then obtain c' cs where f: "filter ?P ?xs = c' # cs" by (metis list.set_cases)
  then have p: "pick_next s = c'" unfolding pick_next_def by (simp only: list.case)
  obtain k where k: "k < MAX_TASKS" "?xs ! k = c'" "?P c'" "\<forall>j < k. \<not> ?P (?xs ! j)"
    using filter_head_first [OF f] unfolding len by blast
  have kd: "k \<le> ?d - 1"
  proof (rule ccontr)
    assume "\<not> k \<le> ?d - 1"
    then have "\<not> ?P (?xs ! (?d - 1))" using k(4) unfolding not_le by blast
    then show False using r unfolding di by blast
  qed
  have c': "c' = (g_current s + Suc k) mod MAX_TASKS" using nth [OF k(1)] k(2) by simp
  show "runnable (tasks s ! pick_next s)" using k(3) p by simp
  show "pick_next s \<noteq> g_current s" "pick_next s < MAX_TASKS"
    unfolding p c' using kd d(1,2) c k(1) by (auto simp: mod_slots)
  show "(i + MAX_TASKS - pick_next s) mod MAX_TASKS < ?d"
    unfolding p c' using kd d(1,2) c i k(1) by (auto simp: cyc_dist_cases mod_slots split: if_splits)
qed

section \<open>Runs with interference\<close>

text \<open>
  What the other code of the kernel may do between two calls of the scheduler while task i is
  ready: anything to the table, except that the scheduler stays enabled, the running slot is
  still the same and has no longer a slice than before, and task i stays ready.
\<close>

definition calm :: "nat \<Rightarrow> tsys \<Rightarrow> bool" where
  "calm i s \<longleftrightarrow> t_ready s \<and> g_lock_depth s = 0 \<and> length (tasks s) = MAX_TASKS \<and> g_current s < MAX_TASKS \<and>
     runnable (tasks s ! i) \<and> ticks (tasks s ! g_current s) \<le> TASK_TIMESLICE"

definition interferes :: "nat \<Rightarrow> tsys \<Rightarrow> tsys \<Rightarrow> bool" where
  "interferes i s t \<longleftrightarrow> calm i t \<and> g_current t = g_current s \<and>
     ticks (tasks t ! g_current s) \<le> ticks (tasks s ! g_current s)"

inductive sched_step :: "nat \<Rightarrow> tsys \<Rightarrow> tsys \<Rightarrow> bool" for i where
  step: "interferes i s t \<Longrightarrow> sched_step i s (snd (schedule_switch t))"

inductive_cases sched_stepE: "sched_step i s s'"

definition wait_measure :: "nat \<Rightarrow> tsys \<Rightarrow> nat" where
  "wait_measure i s = cyc_dist s i * 11 + unat (ticks (tasks s ! g_current s))"

lemma use_tick_ticks:
  assumes "g_current s < length (tasks s)"
  shows "unat (ticks (tasks (use_tick s) ! g_current s)) = unat (ticks (tasks s ! g_current s)) - 1"
  using assms unat_minus_one [of "ticks (tasks s ! g_current s)"] by (auto simp: use_tick_def word_gt_0)

lemma dispatch_ticks:
  assumes "nx < length (tasks s)"
  shows "ticks (tasks (dispatch nx s) ! nx) = TASK_TIMESLICE"
  using assms by (simp add: dispatch_def set_state_def Let_def)

lemma switch_progress:
  assumes k: "calm i t" and i: "i < MAX_TASKS" "i \<noteq> g_current t"
  shows "wait_measure i (snd (schedule_switch t)) < wait_measure i t" and "calm i (snd (schedule_switch t))"
proof -
  note c = k [unfolded calm_def]
  let ?s = "use_tick t" and ?c = "g_current t"
  have r: "runnable (tasks ?s ! i)" using c i by (simp add: runnable_def)
  have cs: "g_current ?s < MAX_TASKS" "i \<noteq> g_current ?s" "length (tasks ?s) = MAX_TASKS" using c i by simp_all
  note p = pick_next_dist [OF cs(1) i(1) cs(2) r]
  have tk: "unat (ticks (tasks ?s ! ?c)) = unat (ticks (tasks t ! ?c)) - 1" using use_tick_ticks [of t] c by simp
  have le: "unat (ticks (tasks t ! ?c)) \<le> 10" using c by (simp add: word_le_nat_alt)
  have same: "cyc_dist ?s i = cyc_dist t i" by (simp add: cyc_dist_def)
  consider (run) "tstate (tasks ?s ! ?c) = TASK_RUNNING \<and> ticks (tasks ?s ! ?c) > 0"
    | (switch) "\<not> (tstate (tasks ?s ! ?c) = TASK_RUNNING \<and> ticks (tasks ?s ! ?c) > 0)" by blast
  then have "wait_measure i (snd (schedule_switch t)) < wait_measure i t \<and> calm i (snd (schedule_switch t))"
  proof cases
    case run
    then have e: "snd (schedule_switch t) = ?s" using c by (simp add: schedule_switch_def Let_def)
    have "0 < unat (ticks (tasks ?s ! ?c))" using run by (simp add: word_less_nat_alt)
    then have "wait_measure i ?s < wait_measure i t"
      using tk same unfolding wait_measure_def by simp
    moreover have "calm i ?s"
      using c r tk le unfolding calm_def by (simp add: word_le_nat_alt)
    ultimately show ?thesis unfolding e by blast
  next
    case switch
    then have e: "snd (schedule_switch t) = dispatch (pick_next ?s) ?s"
      using c p(1) by (auto simp: schedule_switch_def Let_def)
    have tn: "ticks (tasks (dispatch (pick_next ?s) ?s) ! pick_next ?s) = TASK_TIMESLICE"
      by (rule dispatch_ticks) (use p(2) cs in simp)
    have "cyc_dist (dispatch (pick_next ?s) ?s) i < cyc_dist t i" using p(4) same by (simp add: cyc_dist_def)
    then have "wait_measure i (dispatch (pick_next ?s) ?s) < wait_measure i t"
      unfolding wait_measure_def dispatch_simps tn by simp
    moreover have "runnable (tasks (dispatch (pick_next ?s) ?s) ! i)"
      using dispatch_tstate [of i ?s "pick_next ?s"] r i cs by (auto simp: runnable_def)
    then have "calm i (dispatch (pick_next ?s) ?s)" using c p(2) tn unfolding calm_def by simp
    ultimately show ?thesis unfolding e by blast
  qed
  then show "wait_measure i (snd (schedule_switch t)) < wait_measure i t" "calm i (snd (schedule_switch t))" by blast+
qed

lemma sched_step_progress:
  assumes "sched_step i s s'" and "i < MAX_TASKS" and "i \<noteq> g_current s"
  shows "wait_measure i s' < wait_measure i s" and "calm i s'"
proof -
  from assms(1) obtain t where t: "interferes i s t" "s' = snd (schedule_switch t)" by (rule sched_stepE)
  have "wait_measure i t \<le> wait_measure i s"
    using t(1) by (simp add: interferes_def wait_measure_def cyc_dist_def word_le_nat_alt)
  moreover have "wait_measure i s' < wait_measure i t" "calm i s'"
    using switch_progress [of i t] t assms(2,3) by (simp_all add: interferes_def)
  ultimately show "wait_measure i s' < wait_measure i s" "calm i s'" by simp_all
qed

lemma measure_run_hits:
  fixes m :: "nat \<Rightarrow> nat"
  assumes "\<And>k. \<not> P k \<Longrightarrow> m (Suc k) < m k"
  shows "\<exists>k \<le> m 0. P k"
proof (rule ccontr)
  assume n: "\<not> ?thesis"
  have "k \<le> Suc (m 0) \<Longrightarrow> m k + k \<le> m 0" for k
  proof (induction k)
    case (Suc k)
    then show ?case using n assms [of k] by auto
  qed simp
  from this [of "Suc (m 0)"] show False by simp
qed

text \<open>C19: Round-robin scheduling starves nobody. Take any run in which the scheduler is called
  again and again (by the timer, by yields, by sleeping or exiting tasks), with arbitrary other
  changes of the task table in between, while task i stays runnable. Then within 87 calls task i
  is the running one.\<close>
theorem no_starvation:
  assumes "calm i (run 0)" and "i < MAX_TASKS" and "\<And>k. sched_step i (run k) (run (Suc k))"
  shows "\<exists>k \<le> 87. g_current (run k) = i"
proof -
  have "\<exists>k \<le> wait_measure i (run 0). g_current (run k) = i"
    by (rule measure_run_hits [where m = "\<lambda>k. wait_measure i (run k)"])
      (use sched_step_progress(1) [OF assms(3,2)] in auto)
  moreover have "wait_measure i (run 0) \<le> 87"
  proof -
    have "cyc_dist (run 0) i \<le> 7" unfolding cyc_dist_def using mod_less_divisor [of MAX_TASKS] by (simp add: less_Suc_eq_le [symmetric])
    moreover have "unat (ticks (tasks (run 0) ! g_current (run 0))) \<le> 10"
      using assms(1) by (simp add: calm_def word_le_nat_alt)
    ultimately show ?thesis by (simp add: wait_measure_def)
  qed
  ultimately show ?thesis using order_trans by blast
qed

text \<open>Calls of the scheduler and nothing else, on the example with eight runnable tasks.\<close>

definition plain_run :: "nat \<Rightarrow> tsys" where
  "plain_run k = ((\<lambda>s. snd (schedule_switch s)) ^^ k) example_tasks"

lemma calm_interferes: "calm i s \<Longrightarrow> interferes i s s"
  by (simp add: interferes_def)

lemma switch_keeps_calm:
  assumes k: "calm i t" and i: "i < MAX_TASKS"
  shows "calm i (snd (schedule_switch t))"
proof (cases "i = g_current t")
  case False
  then show ?thesis by (rule switch_progress(2) [OF k i])
next
  case True
  note c = k [unfolded calm_def]
  obtain b s' where e: "schedule_switch t = (b, s')" by (cases "schedule_switch t")
  have l: "length (tasks t) = MAX_TASKS" "g_current t < MAX_TASKS" using c by simp_all
  have r: "runnable (tasks s' ! i)" using schedule_switch_tstate(1) [OF e l i] c by simp
  have "unat (ticks (tasks (use_tick t) ! g_current t)) \<le> 10"
    using use_tick_ticks [of t] c by (auto simp: word_le_nat_alt)
  moreover have "pick_next (use_tick t) < MAX_TASKS" using l
    by (auto simp: pick_next_def split: list.splits dest!: filter_head_first simp del: upt_Suc upt.simps upt_rec_numeral)
  ultimately have "t_ready s' \<and> g_lock_depth s' = 0 \<and> length (tasks s') = MAX_TASKS \<and> g_current s' < MAX_TASKS \<and>
      ticks (tasks s' ! g_current s') \<le> TASK_TIMESLICE"
    using e c l dispatch_ticks [of "pick_next (use_tick t)" "use_tick t"]
    by (auto simp: schedule_switch_def Let_def word_le_nat_alt split: if_splits)
  then show ?thesis using r e by (simp add: calm_def)
qed

theorem no_starvation_witness: "\<exists>k \<le> 87. g_current (plain_run k) = 5"
proof (rule no_starvation)
  have c0: "calm 5 example_tasks"
    by (simp add: calm_def example_tasks_def blank_task_def runnable_def del: upt.simps upt_rec_numeral)
  have c: "calm 5 (plain_run k)" for k
    by (induction k) (simp_all add: plain_run_def c0 switch_keeps_calm)
  show "calm 5 (plain_run 0)" by (rule c)
  show "sched_step 5 (plain_run k) (plain_run (Suc k))" for k
    using sched_step.step [OF calm_interferes [OF c]] by (simp add: plain_run_def)
qed simp

end
