(* ===== verification/ForkSpec.thy ===== *)
theory ForkSpec
  imports ProcExit
begin

text \<open>
  \<open>task_fork\<close> of \<open>src/kernel/task.c\<close>: its accounts of physical frames (a failed fork gives
  everything back, and the exit of a forked child gives back exactly what the fork took), and
  the two returns from one \<open>int 0x80\<close>, through \<open>src/boot/kernel_entry.asm\<close> for the parent and
  through \<open>src/boot/task_switch.asm\<close> for the child.
\<close>

section \<open>Blocks of frames\<close>

abbreviation blk :: "u32 \<times> u32 \<Rightarrow> nat set" where
  "blk b \<equiv> {unat (idx_of (fst b))..<unat (idx_of (fst b)) + unat (snd b)}"

definition blks :: "(u32 \<times> u32) list \<Rightarrow> nat set" where
  "blks bs = \<Union> (blk ` set bs)"

lemma blks_simps [simp]: "blks [] = {}" "blks (b # bs) = blk b \<union> blks bs" "blks (xs @ ys) = blks xs \<union> blks ys"
  by (auto simp: blks_def)

fun frames_ok :: "(u32 \<times> u32) list \<Rightarrow> bool" where
  "frames_ok [] \<longleftrightarrow> True"
| "frames_ok (b # bs) \<longleftrightarrow> pool_range (fst b) (snd b) \<and> blk b \<inter> blks bs = {} \<and> frames_ok bs"

definition free_list :: "(u32 \<times> u32) list \<Rightarrow> pmm \<Rightarrow> pmm" where
  "free_list bs pm = fold (\<lambda>b p. snd (pmm_free_pages (fst b) (snd b) p)) bs pm"

lemma free_list_simps [simp]:
  "free_list [] pm = pm" "free_list (b # bs) pm = free_list bs (snd (pmm_free_pages (fst b) (snd b) pm))"
  by (simp_all add: free_list_def)

lemma free_block:
  assumes "pmm_live pm" and "pool_range p n" and "blk (p, n) \<subseteq> allocated pm"
  shows "pmm_live (snd (pmm_free_pages p n pm))" and "allocated (snd (pmm_free_pages p n pm)) = allocated pm - blk (p, n)"
proof -
  obtain ok pm' where r: "pmm_free_pages p n pm = (ok, pm')" by (cases "pmm_free_pages p n pm")
  have "pmm_inv pm" "pmm_ready pm" using assms(1) by (simp_all add: pmm_live_def)
  then have "ok" "pmm_live pm' \<and> allocated pm' = allocated pm - blk (p, n)"
    using pmm_free_pages_spec [OF _ r] assms(2,3) by (simp_all add: pmm_live_def)
  then show "pmm_live (snd (pmm_free_pages p n pm))" "allocated (snd (pmm_free_pages p n pm)) = allocated pm - blk (p, n)"
    using r by simp_all
qed

lemma free_list_spec:
  assumes "pmm_live pm" and "frames_ok bs" and "blks bs \<subseteq> allocated pm"
  shows "pmm_live (free_list bs pm) \<and> allocated (free_list bs pm) = allocated pm - blks bs"
  using assms
proof (induction bs arbitrary: pm)
  case (Cons b bs)
  have f: "pmm_live (snd (pmm_free_pages (fst b) (snd b) pm))"
      "allocated (snd (pmm_free_pages (fst b) (snd b) pm)) = allocated pm - blk b"
    using free_block [of pm "fst b" "snd b"] Cons.prems by simp_all
  have "blks bs \<subseteq> allocated pm - blk b" using Cons.prems by auto
  then show ?case using Cons.IH [OF f(1)] Cons.prems f(2) by auto
qed simp

text \<open>The stack is given back page by page.\<close>

lemma free_stack_pages:
  assumes "pmm_live pm" and "0 < n" and "n < 2 ^ 20" and "pool_range p (of_nat n)" and "blk (p, of_nat n) \<subseteq> allocated pm"
  shows "free_stack p (of_nat n) pm = free_list (map (\<lambda>k. (p + of_nat k * PMM_PAGE_SIZE, 1)) [0..<n]) pm"
  using assms by (simp add: free_stack_def free_list_def fold_map comp_def pmm_free_page_def unat_of_nat32)

lemma page_blocks:
  assumes "n < 2 ^ 20" and "n = 0 \<or> pool_range p (of_nat n)"
  shows "frames_ok (map (\<lambda>k. (p + of_nat k * PMM_PAGE_SIZE, 1)) [0..<n])"
    and "blks (map (\<lambda>k. (p + of_nat k * PMM_PAGE_SIZE, 1)) [0..<n]) = blk (p, of_nat n)"
proof -
  have "frames_ok (map (\<lambda>k. (p + of_nat k * PMM_PAGE_SIZE, 1)) [0..<n]) \<and>
    blks (map (\<lambda>k. (p + of_nat k * PMM_PAGE_SIZE, 1)) [0..<n]) = blk (p, of_nat n)"
    using assms
  proof (induction n arbitrary: p)
    case (Suc n)
    let ?q = "p + PMM_PAGE_SIZE"
    have r: "pool_range p (of_nat (Suc n))" using Suc.prems by simp
    note st = pool_range_step [OF r Suc.prems(1)]
    have sh: "map (\<lambda>k. (p + of_nat k * PMM_PAGE_SIZE, 1::u32)) [0..<Suc n] =
        (p, 1) # map (\<lambda>k. (?q + of_nat k * PMM_PAGE_SIZE, 1)) [0..<n]"
      by (simp add: upt_conv_Cons map_Suc_upt [symmetric] algebra_simps del: upt_Suc)
    have u: "unat (of_nat (Suc n) :: u32) = Suc n" "unat (of_nat n :: u32) = n"
      using Suc.prems(1) by (simp_all add: unat_of_nat32 del: of_nat_Suc)
    have "n = 0 \<or> pool_range ?q (of_nat n)" using st(3) by auto
    then have ih: "frames_ok (map (\<lambda>k. (?q + of_nat k * PMM_PAGE_SIZE, 1)) [0..<n])"
        "blks (map (\<lambda>k. (?q + of_nat k * PMM_PAGE_SIZE, 1)) [0..<n]) = blk (?q, of_nat n)"
      using Suc.IH [of ?q] Suc.prems(1) by simp_all
    have b: "blk (?q, of_nat n) = {Suc (unat (idx_of p))..<Suc (unat (idx_of p) + n)}"
      using st(2) u(2) by simp
    have "blk (p, 1) = {unat (idx_of p)}" by auto
    then have "blk (p, 1) \<inter> blk (?q, of_nat n) = {}" "blk (p, 1) \<union> blk (?q, of_nat n) = blk (p, of_nat (Suc n))"
      unfolding b using u(1) by auto
    then show ?case unfolding sh using ih st(1) by simp
  qed (simp add: unat_of_nat32)
  then show "frames_ok (map (\<lambda>k. (p + of_nat k * PMM_PAGE_SIZE, 1)) [0..<n])"
    "blks (map (\<lambda>k. (p + of_nat k * PMM_PAGE_SIZE, 1)) [0..<n]) = blk (p, of_nat n)" by blast+
qed

lemma free_stack_spec:
  assumes "pmm_live pm" and "pool_range p n" and "blk (p, n) \<subseteq> allocated pm"
  shows "pmm_live (free_stack p n pm)" and "allocated (free_stack p n pm) = allocated pm - blk (p, n)"
proof -
  have n: "n = of_nat (unat n)" "0 < unat n" "unat n < 2 ^ 20"
    using assms(2) by (auto simp: pool_range_def)
  have r: "pool_range p (of_nat (unat n))" "blk (p, of_nat (unat n)) \<subseteq> allocated pm" using assms(2,3) by simp_all
  note pb = page_blocks [OF n(3) disjI2 [OF r(1)]]
  have e: "free_stack p n pm = free_list (map (\<lambda>k. (p + of_nat k * PMM_PAGE_SIZE, 1)) [0..<unat n]) pm"
    using free_stack_pages [OF assms(1) n(2,3) r] n(1) by simp
  show "pmm_live (free_stack p n pm)" "allocated (free_stack p n pm) = allocated pm - blk (p, n)"
    using free_list_spec [OF assms(1) pb(1)] pb(2) assms(3) unfolding e by simp_all
qed

section \<open>What the fork takes\<close>

text \<open>The allocator after the blocks were taken out of the free frames.\<close>

definition took :: "pmm \<Rightarrow> (u32 \<times> u32) list \<Rightarrow> pmm \<Rightarrow> bool" where
  "took pm bs pm' \<longleftrightarrow> pmm_live pm' \<and> frames_ok bs \<and> blks bs \<inter> allocated pm = {} \<and> allocated pm' = allocated pm \<union> blks bs"

lemma took_nil: "pmm_live pm \<Longrightarrow> took pm [] pm"
  by (simp add: took_def)

lemma took_alloc:
  assumes "took pm bs pm'" and "pmm_alloc_pages n pm' = (p, pm'')" and "p \<noteq> 0"
  shows "took pm ((p, n) # bs) pm''"
proof -
  have l: "pmm_live pm'" using assms(1) by (simp add: took_def)
  note f = pf.alloc_fresh [OF l assms(2,3)] and r = pmm_alloc_pool_range [OF l assms(2,3)]
  show ?thesis using assms(1) f r unfolding took_def by auto
qed

lemma took_free:
  assumes "took pm ((p, n) # bs) pm'"
  shows "took pm bs (snd (pmm_free_pages p n pm'))"
  using assms free_block [of pm' p n] unfolding took_def by auto

lemma took_free_list:
  assumes "took pm bs pm'"
  shows "pmm_live (free_list bs pm')" and "allocated (free_list bs pm') = allocated pm"
  using assms free_list_spec [of pm' bs] unfolding took_def by auto

lemma fork_pages_mpm: "mpm (snd (fork_pages pt va c n m)) = mpm m"
  by (induction n arbitrary: va c m) (auto split: option.splits)

lemma fork_block_took:
  assumes t: "took pm bs (mpm m)" and e: "fork_block pt va n m = (c, m')"
  shows "c = 0 \<Longrightarrow> took pm bs (mpm m')" and "c \<noteq> 0 \<Longrightarrow> took pm ((c, n) # bs) (mpm m')"
proof -
  obtain p pm1 where a: "pmm_alloc_pages n (mpm m) = (p, pm1)" by (cases "pmm_alloc_pages n (mpm m)")
  have l: "pmm_live (mpm m)" using t by (simp add: took_def)
  obtain ok m1 where f: "fork_pages pt va p (unat n) (m\<lparr>mpm := pm1\<rparr>) = (ok, m1)"
    by (cases "fork_pages pt va p (unat n) (m\<lparr>mpm := pm1\<rparr>)")
  have m1: "mpm m1 = pm1" using fork_pages_mpm [of pt va p "unat n" "m\<lparr>mpm := pm1\<rparr>"] f by simp
  have "p \<noteq> 0 \<Longrightarrow> took pm ((p, n) # bs) pm1" by (rule took_alloc [OF t a])
  moreover have "p = 0 \<Longrightarrow> pm1 = mpm m" using pf.alloc_none [OF l] a by simp
  moreover have "(c, m') = (if p = 0 then (0, m\<lparr>mpm := pm1\<rparr>) else if ok then (p, m1)
      else (0, m1\<lparr>mpm := snd (pmm_free_pages p n pm1)\<rparr>))"
    using e a f m1 by (auto simp: fork_block_def)
  ultimately show "c = 0 \<Longrightarrow> took pm bs (mpm m')" "c \<noteq> 0 \<Longrightarrow> took pm ((c, n) # bs) (mpm m')"
    using t m1 by (auto split: if_splits intro: took_free)
qed

definition seg_blocks :: "u32 list \<Rightarrow> elf_seg list \<Rightarrow> (u32 \<times> u32) list" where
  "seg_blocks cs gs = map (\<lambda>(c, g). (c, seg_pages g)) (zip cs gs)"

lemma fork_segs_took:
  assumes "took pm bs (mpm m)" and "fork_segs pt gs m = (cs, ok, m')"
  shows "took pm (rev (seg_blocks cs gs) @ bs) (mpm m') \<and> (ok \<longrightarrow> length cs = length gs)"
  using assms
proof (induction gs arbitrary: m cs bs ok)
  case Nil
  then show ?case by (simp add: seg_blocks_def)
next
  case (Cons g gs)
  obtain c m1 where b: "fork_block pt (seg_va g) (seg_pages g) m = (c, m1)" by (cases "fork_block pt (seg_va g) (seg_pages g) m")
  obtain cs2 ok2 m2 where r: "fork_segs pt gs m1 = (cs2, ok2, m2)" by (cases "fork_segs pt gs m1")
  note t = fork_block_took [OF Cons.prems(1) b]
  show ?case
  proof (cases "c = 0")
    case True
    then show ?thesis using Cons.prems(2) b t(1) by (simp add: seg_blocks_def)
  next
    case False
    then have e: "cs = c # cs2" "ok = ok2" "m2 = m'" using Cons.prems(2) b r by simp_all
    show ?thesis using Cons.IH [OF t(2) [OF False] r [unfolded e(3)]] e by (simp add: seg_blocks_def)
  qed
qed

lemma blks_rev [simp]: "blks (rev bs) = blks bs"
  by (auto simp: blks_def)

lemma frames_ok_append: "frames_ok (xs @ ys) \<longleftrightarrow> frames_ok xs \<and> frames_ok ys \<and> blks xs \<inter> blks ys = {}"
  by (induction xs) auto

lemma frames_ok_rev: "frames_ok (rev bs) = frames_ok bs"
  by (induction bs) (auto simp: frames_ok_append)

lemma took_perm:
  assumes "took pm xs pm'" and "frames_ok ys" and "blks ys = blks xs"
  shows "took pm ys pm'"
  using assms by (simp add: took_def)

text \<open>
  The outcome of copying the address space. On success the new blocks are, newest first, the
  stack, the segments, the table and the directory.
\<close>

lemma fork_space_spec:
  assumes l: "pmm_live (mpm m)"
  shows "fork_space par m = Inl m' \<Longrightarrow> pmm_live (mpm m') \<and> allocated (mpm m') = allocated (mpm m)"
    and "fork_space par m = Inr (pd, pt, cs, st', m') \<Longrightarrow> pd \<noteq> 0 \<and> pt \<noteq> 0 \<and> length cs = length (img_seg (t_img par)) \<and>
      took (mpm m) ((st', user_stack_pages par) # rev (seg_blocks cs (img_seg (t_img par))) @ [(pt, 1), (pd, 1)]) (mpm m')"
proof -
  obtain pd' pm1 where a1: "pmm_alloc_page (mpm m) = (pd', pm1)" by (cases "pmm_alloc_page (mpm m)")
  obtain pt' pm2 where a2: "pmm_alloc_page pm1 = (pt', pm2)" by (cases "pmm_alloc_page pm1")
  note a = a1 [unfolded pmm_alloc_page_def] a2 [unfolded pmm_alloc_page_def]
  let ?gs = "img_seg (t_img par)"
  define m1 where "m1 = m\<lparr>mpm := pm2, mpg := fork_tables pd' pt' (t_cr3 par) (mpg m)\<rparr>"
  obtain cs' ok m2 where sg: "fork_segs pt' ?gs m1 = (cs', ok, m2)" by (cases "fork_segs pt' ?gs m1")
  define sva where "sva = USER_STACK_TOP - user_stack_pages par * PMM_PAGE_SIZE"
  obtain st0 m3 where sk: "fork_block pt' sva (user_stack_pages par) m2 = (st0, m3)"
    by (cases "fork_block pt' sva (user_stack_pages par) m2")
  have fs: "fork_space par m =
      (if pd' = 0 \<or> pt' = 0 then Inl (m\<lparr>mpm := free_opt pt' (free_opt pd' pm2)\<rparr>)
       else if \<not> ok then Inl (fork_rollback pd' pt' (zip cs' ?gs) m2)
       else if st0 = 0 then Inl (fork_rollback pd' pt' (zip cs' ?gs) m3)
       else Inr (pd', pt', cs', st0, m3))"
    using a1 a2 sg sk unfolding fork_space_def by (simp add: m1_def [symmetric] sva_def [symmetric] Let_def)
  have t0: "took (mpm m) [] (mpm m)" by (rule took_nil [OF l])
  have t1: "pd' \<noteq> 0 \<Longrightarrow> took (mpm m) [(pd', 1)] pm1" by (rule took_alloc [OF t0 a(1)])
  have n1: "pd' = 0 \<Longrightarrow> pm1 = mpm m" using pf.alloc_none [OF l] a(1) by simp
  have l1: "pmm_live pm1" using t1 n1 l by (cases "pd' = 0") (auto simp: took_def)
  have n2: "pt' = 0 \<Longrightarrow> pm2 = pm1" using pf.alloc_none [OF l1] a(2) by simp
  have t2: "pd' \<noteq> 0 \<Longrightarrow> pt' \<noteq> 0 \<Longrightarrow> took (mpm m) [(pt', 1), (pd', 1)] (mpm m1)"
    using took_alloc [OF t1 a(2)] by (simp add: m1_def)
  have tS: "took (mpm m) (rev (seg_blocks cs' ?gs) @ [(pt', 1), (pd', 1)]) (mpm m2) \<and> (ok \<longrightarrow> length cs' = length ?gs)"
    if "pd' \<noteq> 0" "pt' \<noteq> 0" by (rule fork_segs_took [OF t2 sg]) (use that in simp_all)
  have rb: "pmm_live (mpm (fork_rollback pd' pt' (zip cs' ?gs) mm)) \<and> allocated (mpm (fork_rollback pd' pt' (zip cs' ?gs) mm)) = allocated (mpm m)"
    if t: "took (mpm m) (rev (seg_blocks cs' ?gs) @ [(pt', 1), (pd', 1)]) (mpm mm)" for mm
  proof -
    have "mpm (fork_rollback pd' pt' (zip cs' ?gs) mm) = free_list (seg_blocks cs' ?gs @ [(pt', 1), (pd', 1)]) (mpm mm)"
      by (simp add: fork_rollback_def free_list_def seg_blocks_def fold_map comp_def pmm_free_page_def case_prod_beta')
    moreover have "took (mpm m) (seg_blocks cs' ?gs @ [(pt', 1), (pd', 1)]) (mpm mm)"
      by (rule took_perm [OF t]) (use t in \<open>auto simp: took_def frames_ok_append frames_ok_rev\<close>)
    ultimately show ?thesis using took_free_list by simp
  qed
  note kk = fork_block_took [OF conjunct1 [OF tS] sk]
  show "pmm_live (mpm m') \<and> allocated (mpm m') = allocated (mpm m)" if i: "fork_space par m = Inl m'"
  proof -
    consider (none) "pd' = 0 \<or> pt' = 0" "m' = m\<lparr>mpm := free_opt pt' (free_opt pd' pm2)\<rparr>"
      | (seg) "pd' \<noteq> 0" "pt' \<noteq> 0" "m' = fork_rollback pd' pt' (zip cs' ?gs) m2"
      | (stk) "pd' \<noteq> 0" "pt' \<noteq> 0" "st0 = 0" "m' = fork_rollback pd' pt' (zip cs' ?gs) m3"
      using i unfolding fs by (auto split: if_splits)
    then show ?thesis
    proof cases
      case none
      show ?thesis
      proof (cases "pd' = 0")
        case True
        show ?thesis
        proof (cases "pt' = 0")
          case True
          then show ?thesis using none(2) \<open>pd' = 0\<close> n1 n2 l by (simp add: free_opt_def)
        next
          case False
          have "took (mpm m) [(pt', 1)] pm2" by (rule took_alloc [OF t0]) (use a(2) n1 \<open>pd' = 0\<close> False in simp_all)
          then show ?thesis using none(2) \<open>pd' = 0\<close> False took_free_list [of "mpm m" "[(pt', 1)]" pm2]
            by (simp add: free_opt_def pmm_free_page_def)
        qed
      next
        case False
        then have "pt' = 0" using none(1) by simp
        then show ?thesis using none(2) False n2 took_free_list [OF t1 [OF False]]
          by (simp add: free_opt_def pmm_free_page_def)
      qed
    next
      case seg
      then show ?thesis using rb [of m2] tS by simp
    next
      case stk
      then show ?thesis using rb [of m3] kk(1) by simp
    qed
  qed
  show "pd \<noteq> 0 \<and> pt \<noteq> 0 \<and> length cs = length ?gs \<and>
      took (mpm m) ((st', user_stack_pages par) # rev (seg_blocks cs ?gs) @ [(pt, 1), (pd, 1)]) (mpm m')"
    if i: "fork_space par m = Inr (pd, pt, cs, st', m')"
    using i kk(2) tS unfolding fs by (auto split: if_splits)
qed

section \<open>The accounts of fork\<close>

lemma release_took:
  assumes t: "took pm ((st', n) # rev (seg_blocks cs gs) @ [(pt, 1), (pd, 1)]) pm'" and nz: "pd \<noteq> 0" "pt \<noteq> 0"
    and len: "length cs = length gs"
    and c: "t_pd_phys t = pd" "t_pt_phys t = pt" "user_stack_phys t = st'" "user_stack_pages t = n"
      "img_seg (t_img t) = map (\<lambda>(c, g). g\<lparr>seg_phys := c\<rparr>) (zip cs gs)"
  shows "pmm_live (release_space t pm') \<and> allocated (release_space t pm') = allocated pm"
proof -
  let ?segs = "seg_blocks cs gs"
  have b: "pmm_live pm'" "frames_ok ?segs" "pool_range st' n" "blk (st', n) \<inter> blks ?segs = {}"
      "frames_ok [(pt, 1), (pd, 1)]" "blks ?segs \<inter> blks [(pt, 1), (pd, 1)] = {}" "blk (st', n) \<inter> blks [(pt, 1), (pd, 1)] = {}"
      "allocated pm' = allocated pm \<union> (blk (st', n) \<union> (blks ?segs \<union> blks [(pt, 1), (pd, 1)]))"
      "(blk (st', n) \<union> (blks ?segs \<union> blks [(pt, 1), (pd, 1)])) \<inter> allocated pm = {}"
    using t by (auto simp: took_def frames_ok_append frames_ok_rev)
  have fs: "free_segs (img_seg (t_img t)) pm' = free_list ?segs pm'"
    unfolding c(5) free_segs_def free_list_def seg_blocks_def fold_map
    by (rule fold_cong) (auto simp: comp_def)
  have f1: "pmm_live (free_list ?segs pm')" "allocated (free_list ?segs pm') = allocated pm' - blks ?segs"
    using free_list_spec [OF b(1,2)] b(8) by auto
  have f2: "pmm_live (free_stack st' n (free_list ?segs pm'))"
      "allocated (free_stack st' n (free_list ?segs pm')) = allocated pm' - blks ?segs - blk (st', n)"
    using free_stack_spec [OF f1(1) b(3)] f1(2) b(4,8) by auto
  have "release_space t pm' = free_list [(pt, 1), (pd, 1)] (free_stack st' n (free_list ?segs pm'))"
    using nz c fs by (simp add: release_space_def free_opt_def pmm_free_page_def)
  moreover have "blks [(pt, 1), (pd, 1)] \<subseteq> allocated (free_stack st' n (free_list ?segs pm'))"
    using f2(2) b(6,7,8) by auto
  ultimately show ?thesis using free_list_spec [OF f2(1) b(5)] f2(2) b(6,7,8,9) by auto
qed

lemma find_slotD: "find_slot s = Some i \<Longrightarrow> i < MAX_TASKS \<and> tstate (tasks s ! i) = TASK_UNUSED"
proof -
  assume a: "find_slot s = Some i"
  let ?xs = "filter (\<lambda>i. tstate (tasks s ! i) = TASK_UNUSED) [0..<MAX_TASKS]"
  obtain xs where "?xs = i # xs"
    using a unfolding find_slot_def by (cases ?xs) (simp_all only: list.case option.distinct option.inject)
  then have "i \<in> set ?xs" by (metis list.set_intros(1))
  then show ?thesis unfolding set_filter mem_Collect_eq set_upt atLeastLessThan_iff by blast
qed

lemma task_unlock_simps [simp]: "tasks (task_unlock s) = tasks s" "mach (task_unlock s) = mach s"
  "tasks (task_lock s) = tasks s" "mach (task_lock s) = mach s" "g_next_pid (task_lock s) = g_next_pid s"
  by (simp_all add: task_unlock_def task_lock_def Let_def)

lemma claim_slot_mpm [simp]: "mpm (mach (claim_slot i cr u nm s)) = mpm (mach s)"
  "length (tasks (claim_slot i cr u nm s)) = length (tasks s)"
  by (simp_all add: claim_slot_def Let_def)

lemma claim_slot_task:
  "i < length (tasks s) \<Longrightarrow> t_pd_phys (tasks (claim_slot i cr u nm s) ! i) = cr \<and>
    tstate (tasks (claim_slot i cr u nm s) ! i) = TASK_READY \<and> pid (tasks (claim_slot i cr u nm s) ! i) = g_next_pid s"
  by (simp add: claim_slot_def Let_def)

lemma task_fork_success:
  assumes l: "length (tasks s) = MAX_TASKS" and p: "pmm_live (mpm (mach s))"
    and f: "find_slot (task_lock s) = Some slot" and sp: "fork_space (tasks s ! g_current s) (mach s) = Inr (pd, pt, cs, st', m)"
    and g: "t_ready s" "is_user (tasks s ! g_current s)" "t_cr3 (tasks s ! g_current s) \<noteq> 0"
  obtains s' where "task_fork km fr s = (sint (g_next_pid s), s')" and "tstate (tasks s' ! slot) = TASK_READY"
    and "pid (tasks s' ! slot) = g_next_pid s" and "t_frame (tasks s' ! slot) = fork_frame fr s"
    and "pmm_live (release_space (tasks s' ! slot) (mpm (mach s')))"
    and "allocated (release_space (tasks s' ! slot) (mpm (mach s'))) = allocated (mpm (mach s))"
proof -
  let ?par = "tasks s ! g_current s"
  have slot: "slot < MAX_TASKS" using find_slotD [OF f] by simp
  define s1 where "s1 = claim_slot slot pd True (t_name ?par) ((task_lock s)\<lparr>mach := m\<rparr>)"
  obtain ft k where d: "fd_table_dup km (fds ?par) (fsys s1) = (ft, k)" by (cases "fd_table_dup km (fds ?par) (fsys s1)")
  define s2 where "s2 = upd slot (\<lambda>t. t\<lparr>user_stack_phys := st', user_stack_pages := user_stack_pages ?par,
       t_pt_phys := pt, t_img := with_phys cs (t_img ?par), fds := ft, t_frame := fork_frame fr s1,
       t_esp := kstack_top t - 4 * of_nat (length (fork_frame fr s1))\<rparr>) (s1\<lparr>fsys := k\<rparr>)"
  have cur: "g_current (task_lock s) = g_current s" by (simp add: task_lock_def)
  have e: "task_fork km fr s = (sint (g_next_pid s), task_unlock s2)"
    using g f sp d unfolding task_fork_def Let_def
    by (simp add: s1_def [symmetric] s2_def [symmetric])
  have ls: "slot < length (tasks s1)" using slot l by (simp add: s1_def)
  note ct = claim_slot_task [of slot "(task_lock s)\<lparr>mach := m\<rparr>" pd True "t_name ?par", folded s1_def]
  have mm: "mpm (mach s2) = mpm m" by (simp add: s2_def s1_def)
  have fr: "fork_frame fr s1 = fork_frame fr s"
    by (simp add: fork_frame_def s1_def claim_slot_def Let_def upd_def task_lock_def)
  note sps = fork_space_spec(2) [OF p sp]
  have "pmm_live (release_space (tasks s2 ! slot) (mpm m)) \<and> allocated (release_space (tasks s2 ! slot) (mpm m)) = allocated (mpm (mach s))"
    by (rule release_took [where pd = pd and pt = pt and cs = cs and st' = st' and n = "user_stack_pages ?par" and gs = "img_seg (t_img ?par)"])
      (use sps ct ls slot l in \<open>simp_all add: s2_def with_phys_def\<close>)
  then show thesis
    using that [OF e] ct ls slot l mm fr by (simp add: s2_def)
qed

text \<open>C20: The accounts of fork balance. When task_fork fails, after however many frames it took,
  exactly the frames that were allocated before are allocated and no task entry has changed.
  When it succeeds, the child is a ready task with the returned pid, and releasing what the
  child's record names (as process_exit does) leaves exactly the frames that were allocated
  before the fork.\<close>
theorem fork_accounts_balance:
  assumes "t_ready s" and "length (tasks s) = MAX_TASKS" and "pmm_live (mpm (mach s))" and "unat (g_next_pid s) < 2 ^ 31"
    and "task_fork km fr s = (r, s')"
  shows "if r = -1 then tasks s' = tasks s \<and> allocated (mpm (mach s')) = allocated (mpm (mach s))
    else \<exists>slot < MAX_TASKS. tstate (tasks s ! slot) = TASK_UNUSED \<and> tstate (tasks s' ! slot) = TASK_READY \<and>
      sint (pid (tasks s' ! slot)) = r \<and>
      allocated (release_space (tasks s' ! slot) (mpm (mach s'))) = allocated (mpm (mach s))"
proof -
  let ?par = "tasks s ! g_current s"
  have pid: "sint (g_next_pid s) = int (unat (g_next_pid s))" by (rule sint_small [OF assms(4)])
  have nn: "sint (g_next_pid s) \<noteq> -1" unfolding pid by linarith
  show ?thesis
  proof (cases "is_user ?par \<and> t_cr3 ?par \<noteq> 0")
    case False
    then show ?thesis using assms(1,5) by (auto simp: task_fork_def Let_def)
  next
    case u: True
    show ?thesis
    proof (cases "find_slot (task_lock s)")
      case None
      then have "r = -1" "s' = task_unlock (task_lock s)" using assms(1,5) u by (auto simp: task_fork_def Let_def)
      then show ?thesis by simp
    next
      case (Some slot)
      show ?thesis
      proof (cases "fork_space ?par (mach s)")
        case (Inl m)
        then have e: "r = -1" "s' = task_unlock ((task_lock s)\<lparr>mach := m\<rparr>)"
          using assms(1,5) u Some by (auto simp: task_fork_def Let_def)
        then show ?thesis using fork_space_spec(1) [OF assms(3) Inl] by simp
      next
        case (Inr x)
        obtain pd pt cs st' m where x: "x = (pd, pt, cs, st', m)" by (cases x)
        obtain s2 where "task_fork km fr s = (sint (g_next_pid s), s2)" "tstate (tasks s2 ! slot) = TASK_READY"
            "pid (tasks s2 ! slot) = g_next_pid s" "allocated (release_space (tasks s2 ! slot) (mpm (mach s2))) = allocated (mpm (mach s))"
          using task_fork_success [OF assms(2,3) Some Inr [unfolded x] assms(1)] u by metis
        then show ?thesis using assms(5) nn find_slotD [OF Some] by auto
      qed
    qed
  qed
qed

text \<open>A user process with one stack page and no segments forks.\<close>

definition forking_parent :: tsys where
  "forking_parent = example_tasks\<lparr>tasks := (tasks example_tasks)
     [0 := blank_task\<lparr>tstate := TASK_RUNNING, is_user := True, t_cr3 := PAGING_PD_ADDR, user_stack_pages := 1\<rparr>, 3 := blank_task]\<rparr>"

theorem fork_accounts_balance_witness:
  "\<exists>r s'. task_fork (\<lambda>_. None) (replicate 21 0) forking_parent = (r, s') \<and>
    (if r = -1 then tasks s' = tasks forking_parent \<and> allocated (mpm (mach s')) = {}
     else \<exists>slot < MAX_TASKS. allocated (release_space (tasks s' ! slot) (mpm (mach s'))) = {})"
proof -
  obtain r s' where e: "task_fork (\<lambda>_. None) (replicate 21 0) forking_parent = (r, s')" by (cases "task_fork (\<lambda>_. None) (replicate 21 0) forking_parent")
  have "t_ready forking_parent" "length (tasks forking_parent) = MAX_TASKS" "mach forking_parent = boot_machine"
      "unat (g_next_pid forking_parent) < 2 ^ 31"
    by (simp_all add: forking_parent_def example_tasks_def del: upt.simps upt_rec_numeral)
  moreover have "pmm_live (mpm boot_machine)" "allocated (mpm boot_machine) = {}"
    using boot_machine_ok by (simp_all add: machine_ok_def)
  ultimately have g: "t_ready forking_parent" "length (tasks forking_parent) = MAX_TASKS" "pmm_live (mpm (mach forking_parent))"
      "unat (g_next_pid forking_parent) < 2 ^ 31" "allocated (mpm (mach forking_parent)) = {}" by simp_all
  have "if r = -1 then tasks s' = tasks forking_parent \<and> allocated (mpm (mach s')) = {}
    else \<exists>slot < MAX_TASKS. tstate (tasks forking_parent ! slot) = TASK_UNUSED \<and> tstate (tasks s' ! slot) = TASK_READY \<and>
      sint (pid (tasks s' ! slot)) = r \<and> allocated (release_space (tasks s' ! slot) (mpm (mach s'))) = {}"
    by (rule fork_accounts_balance [OF g(1-4) e, unfolded g(5)])
  then show ?thesis using e by (auto split: if_splits)
qed

section \<open>One trap, two returns\<close>

text \<open>The registers of a user process. \<open>dsegs\<close> stands for ds, es, fs and gs, which both paths load alike.\<close>

record user_regs =
  edi :: u32
  esi :: u32
  ebp :: u32
  ebx :: u32
  edx :: u32
  ecx :: u32
  eax :: u32
  eip :: u32
  cs :: u32
  eflags :: u32
  uesp :: u32
  ss :: u32
  dsegs :: u32

text \<open>
  \<open>syscall_entry\<close>: the processor has pushed SS, ESP, EFLAGS, CS and EIP; the stub pushes ds,
  es, fs, gs, all registers (\<open>kesp\<close> is the value of esp that \<open>pusha\<close> stores) and the four
  arguments. Word i of the frame is at offset 4 i from \<open>g_syscall_frame\<close>.
\<close>

definition trap_frame :: "user_regs \<Rightarrow> u32 \<Rightarrow> u32 list" where
  "trap_frame u kesp =
     [eax u, ebx u, ecx u, edx u, edi u, esi u, ebp u, kesp, ebx u, edx u, ecx u, eax u,
      dsegs u, dsegs u, dsegs u, dsegs u, eip u, cs u, eflags u, uesp u, ss u]"

text \<open>
  The way back of the caller: the result goes into the eax word, \<open>popa\<close>, the four segment
  registers, and then, for a return to ring 3, the forced user segments, with edx as scratch
  register after it was restored.
\<close>

definition syscall_return :: "u32 list \<Rightarrow> u32 \<Rightarrow> user_regs" where
  "syscall_return fr res =
     (let f = (drop 4 fr)[7 := res];
          cs' = f ! 13;
          ring3 = (cs' AND 3 \<noteq> 0)
      in \<lparr>edi = f ! 0, esi = f ! 1, ebp = f ! 2, ebx = f ! 4,
          edx = (if ring3 then (cs' AND 0xFFFF0000) OR 0x23 else cs'),
          ecx = f ! 6, eax = f ! 7, eip = f ! 12, cs = cs', eflags = f ! 14, uesp = f ! 15, ss = f ! 16,
          dsegs = (if ring3 then 0x23 else f ! 8)\<rparr>)"

text \<open>
  The first run of a new task: the end of \<open>switch_to\<close> pops edi, esi, ebx, ebp, the flags and
  the return address; if that is the trampoline, it pops all registers, saves eax around the
  loading of the segment registers and returns with the rest of the frame.
\<close>

definition first_run :: "u32 \<Rightarrow> u32 list \<Rightarrow> user_regs option" where
  "first_run trampoline f =
     (if f ! 5 \<noteq> trampoline then None
      else
        let p = drop 6 f; cs' = p ! 9; ring3 = (cs' AND 3 \<noteq> 0)
        in Some \<lparr>edi = p ! 0, esi = p ! 1, ebp = p ! 2, ebx = p ! 4, edx = p ! 5, ecx = p ! 6, eax = p ! 7,
             eip = p ! 8, cs = cs', eflags = p ! 10, uesp = p ! 11, ss = p ! 12,
             dsegs = (if ring3 then 0x23 else 0x10)\<rparr>)"

text \<open>One int 0x80 with SYS_FORK from ring 3 returns twice. The child, on its first run, has
  every register of the moment of the trap except eax, which is 0. The parent gets the child's
  pid in eax and every other register of the moment of the trap, except edx, which the return
  path of syscall_entry overwrites with 0x23 after it was restored.\<close>
theorem fork_returns_twice:
  assumes "cs u = 0x1B" and "dsegs u = 0x23"
  shows "first_run (sym_trampoline s) (fork_frame (trap_frame u kesp) s) = Some (u\<lparr>eax := 0\<rparr>) \<and>
    syscall_return (trap_frame u kesp) pid' = u\<lparr>eax := pid', edx := 0x23\<rparr>"
  using assms by (simp_all add: first_run_def fork_frame_def trap_frame_def syscall_return_def Let_def)

theorem fork_returns_twice_witness:
  "\<exists>u. syscall_return (trap_frame u 0) 9 = u\<lparr>eax := 9, edx := 0x23\<rparr> \<and> edx u = 5"
proof -
  let ?u = "\<lparr>edi = 1, esi = 2, ebp = 3, ebx = 4, edx = 5, ecx = 6, eax = 57, eip = 0x400123, cs = 0x1B, eflags = 0x202,
      uesp = 0x7FFF00, ss = 0x23, dsegs = 0x23\<rparr>"
  show ?thesis using fork_returns_twice [of ?u example_tasks 0 9] by (intro exI [of _ ?u]) simp
qed

end
