(* ===== verification/Div64.thy ===== *)
theory Div64
  imports EzPrelude
begin

text \<open>
  64-bit division, \<open>src/kernel/div64.c\<close>: the shift-and-subtract loop that stands in for
  libgcc's helpers computes quotient and remainder.
\<close>

text \<open>The divisor is shifted left while it does not pass the dividend.\<close>

function shift_up :: "u64 \<Rightarrow> nat \<Rightarrow> u64 \<Rightarrow> nat \<times> u64" where
  "shift_up num shift den =
     (if shift < 63 \<and> den AND 0x8000000000000000 = 0 \<and> push_bit 1 den \<le> num
      then shift_up num (Suc shift) (push_bit 1 den)
      else (shift, den))"
  by pat_completeness auto
termination
  by (relation "measure (\<lambda>(num, shift, den). 63 - shift)") auto

declare shift_up.simps [simp del]

text \<open>The second loop runs for \<open>shift, \<dots>, 0\<close>; its first argument counts the rounds left.\<close>

fun restore_bits :: "nat \<Rightarrow> u64 \<Rightarrow> u64 \<Rightarrow> u64 \<Rightarrow> u64 \<times> u64" where
  "restore_bits 0 num den quot = (quot, num)"
| "restore_bits (Suc k) num den quot =
     (if num \<ge> den then restore_bits k (num - den) (drop_bit 1 den) (push_bit 1 quot OR 1)
      else restore_bits k num (drop_bit 1 den) (push_bit 1 quot))"

definition udivmod64 :: "u64 \<Rightarrow> u64 \<Rightarrow> u64 \<times> u64" where
  "udivmod64 num den =
     (if den = 0 then (0, 0)
      else if num < den then (0, num)
      else case shift_up num 0 den of (shift, d) \<Rightarrow> restore_bits (Suc shift) num d 0)"

definition udivdi3 :: "u64 \<Rightarrow> u64 \<Rightarrow> u64" where
  "udivdi3 num den = fst (udivmod64 num den)"

definition umoddi3 :: "u64 \<Rightarrow> u64 \<Rightarrow> u64" where
  "umoddi3 num den = snd (udivmod64 num den)"

definition udivmoddi4 :: "u64 \<Rightarrow> u64 \<Rightarrow> u64 \<times> u64" where
  "udivmoddi4 num den = udivmod64 num den"

section \<open>Shifts by one\<close>

lemma unat_shift_left: "2 * unat x < 2 ^ 64 \<Longrightarrow> unat (push_bit 1 (x::u64)) = 2 * unat x"
  by (simp add: push_bit_eq_mult unat_word_ariths)

lemma unat_shift_right: "unat (drop_bit 1 (x::u64)) = unat x div 2"
  by (simp add: drop_bit_eq_div unat_div)

lemma self_le_ge2_pow_mult: "n \<le> n * (2::nat) ^ k"
  using mult_le_mono2 [of 1 "2 ^ k" n] by simp

lemma u64_bound: "unat (x::u64) < 2 ^ 64"
  using unsigned_less [of x, where ?'a = nat] by simp

lemma top_bit_clear: "(x::u64) AND 0x8000000000000000 = 0 \<longleftrightarrow> unat x < 2 ^ 63"
proof -
  have m: "(0x8000000000000000::u64) = 2 ^ 63" by simp
  have "x AND 0x8000000000000000 = 0 \<longleftrightarrow> \<not> bit x 63"
    unfolding m by (rule and_exp_eq_0_iff_not_bit)
  also have "bit x 63 \<longleftrightarrow> odd (unat x div 2 ^ 63)"
  proof -
    have "bit x 63 \<longleftrightarrow> bit (unat x) 63" by (simp add: bit_unsigned_iff)
    then show ?thesis by (simp only: bit_iff_odd)
  qed
  also have "\<not> odd (unat x div 2 ^ 63) \<longleftrightarrow> unat x < 2 ^ 63"
  proof -
    have "unat x div 2 ^ 63 < 2" using u64_bound [of x] by (simp add: less_mult_imp_div_less)
    then show ?thesis by (auto simp: div_eq_0_iff dest!: less_2_cases)
  qed
  finally show ?thesis .
qed

lemma unat_shift_or_1: "2 * unat x + 1 < 2 ^ 64 \<Longrightarrow> unat (push_bit 1 (x::u64) OR 1) = 2 * unat x + 1"
proof -
  assume a: "2 * unat x + 1 < 2 ^ 64"
  have e: "push_bit 1 x = x * 2" by (simp add: push_bit_eq_mult)
  have "even (x * 2)" by simp
  then have "x * 2 OR 1 = x * 2 + 1" by (simp add: or_one_eq)
  then show ?thesis unfolding e using a by (simp add: unat_word_ariths)
qed

section \<open>Correctness\<close>

lemma shift_up_spec:
  assumes "unat d = d0 * 2 ^ shift" and "0 < d0" and "d \<le> num" and "shift \<le> 63" and "shift_up num shift d = (sh, d')"
  shows "unat d' = d0 * 2 ^ sh \<and> unat num < 2 * unat d' \<and> sh \<le> 63"
  using assms
proof (induction num shift d rule: shift_up.induct)
  case (1 num shift d)
  show ?case
  proof (cases "shift < 63 \<and> d AND 0x8000000000000000 = 0 \<and> push_bit 1 d \<le> num")
    case True
    then have "unat d < 2 ^ 63" by (simp add: top_bit_clear)
    then have "unat (push_bit 1 d) = d0 * 2 ^ Suc shift" using "1.prems"(1) by (subst unat_shift_left) simp_all
    moreover have "shift_up num (Suc shift) (push_bit 1 d) = (sh, d')"
      using "1.prems"(5) True by (simp add: shift_up.simps [of num shift d])
    ultimately show ?thesis using "1.IH" [OF True] "1.prems" True by simp
  next
    case False
    then have e: "sh = shift" "d' = d" using "1.prems"(5) by (auto simp: shift_up.simps [of num shift d])
    have n: "unat num < 2 ^ 64" by (rule u64_bound)
    consider "shift = 63" | "\<not> unat d < 2 ^ 63" | "unat d < 2 ^ 63" "\<not> push_bit 1 d \<le> num"
      using False "1.prems"(4) by (auto simp: top_bit_clear)
    then have "unat num < 2 * unat d"
    proof cases
      case 1
      then have "2 ^ 63 \<le> unat d" using "1.prems"(1,2) by simp
      then show ?thesis using n by simp
    next
      case 2
      then show ?thesis using n by simp
    next
      case 3
      then show ?thesis unfolding word_le_nat_alt using unat_shift_left [of d] by simp
    qed
    then show ?thesis using e "1.prems" by simp
  qed
qed

lemma restore_bits_spec:
  assumes "0 < d0" and "k = 0 \<Longrightarrow> unat num < d0" and "0 < k \<Longrightarrow> unat den = d0 * 2 ^ (k - 1) \<and> unat num < 2 * unat den"
    and "unat quot * 2 ^ k + unat num div d0 < 2 ^ 64" and "restore_bits k num den quot = (q, r)"
  shows "unat q = unat quot * 2 ^ k + unat num div d0 \<and> unat r = unat num mod d0"
  using assms
proof (induction k arbitrary: num den quot)
  case 0
  then show ?case by simp
next
  case (Suc k)
  let ?n = "unat num" and ?q = "unat quot"
  have den: "unat den = d0 * 2 ^ k" "?n < 2 * unat den" using Suc.prems(3) by simp_all
  have half: "0 < k \<Longrightarrow> unat (drop_bit 1 den) = d0 * 2 ^ (k - 1)"
    using den(1) by (cases k) (simp_all add: unat_shift_right del: One_nat_def)
  show ?case
  proof (cases "num \<ge> den")
    case True
    have le: "unat den \<le> ?n" using True by (simp add: word_le_nat_alt)
    have n: "unat (num - den) = ?n - d0 * 2 ^ k" using True den(1) by (simp add: unat_sub)
    have dv: "?n div d0 = (?n - d0 * 2 ^ k) div d0 + 2 ^ k" "?n mod d0 = (?n - d0 * 2 ^ k) mod d0"
    proof -
      have "?n = (?n - d0 * 2 ^ k) + 2 ^ k * d0" using le den(1) by simp
      then show "?n div d0 = (?n - d0 * 2 ^ k) div d0 + 2 ^ k" "?n mod d0 = (?n - d0 * 2 ^ k) mod d0"
        using Suc.prems(1) by (metis div_mult_self1 add.commute mult.commute less_not_refl2, metis mod_mult_self1)
    qed
    have bound: "(2 * ?q + 1) * 2 ^ k + (?n - d0 * 2 ^ k) div d0 < 2 ^ 64"
      using Suc.prems(4) dv(1) by (simp add: algebra_simps)
    have "2 * ?q + 1 \<le> (2 * ?q + 1) * 2 ^ k" by (rule self_le_ge2_pow_mult)
    then have qq: "unat (push_bit 1 quot OR 1) = 2 * ?q + 1" using bound by (intro unat_shift_or_1) linarith
    have "unat q = unat (push_bit 1 quot OR 1) * 2 ^ k + unat (num - den) div d0 \<and> unat r = unat (num - den) mod d0"
    proof (rule Suc.IH [OF Suc.prems(1)])
      show "restore_bits k (num - den) (drop_bit 1 den) (push_bit 1 quot OR 1) = (q, r)" using Suc.prems(5) True by simp
      show "k = 0 \<Longrightarrow> unat (num - den) < d0" using n den le by simp
      show "unat (drop_bit 1 den) = d0 * 2 ^ (k - 1) \<and> unat (num - den) < 2 * unat (drop_bit 1 den)" if "0 < k"
        using half [OF that] n den le that by (cases k) auto
      show "unat (push_bit 1 quot OR 1) * 2 ^ k + unat (num - den) div d0 < 2 ^ 64" using bound qq n by simp
    qed
    then show ?thesis using qq n dv by (simp add: algebra_simps)
  next
    case False
    have lt: "?n < d0 * 2 ^ k" using False den(1) by (simp add: word_le_nat_alt)
    have "2 * ?q \<le> ?q * 2 ^ Suc k" by simp
    then have qq: "unat (push_bit 1 quot) = 2 * ?q" using Suc.prems(4) by (intro unat_shift_left) linarith
    have "unat q = unat (push_bit 1 quot) * 2 ^ k + ?n div d0 \<and> unat r = ?n mod d0"
    proof (rule Suc.IH [OF Suc.prems(1)])
      show "restore_bits k num (drop_bit 1 den) (push_bit 1 quot) = (q, r)" using Suc.prems(5) False by simp
      show "k = 0 \<Longrightarrow> ?n < d0" using lt by simp
      show "unat (drop_bit 1 den) = d0 * 2 ^ (k - 1) \<and> ?n < 2 * unat (drop_bit 1 den)" if "0 < k"
        using half [OF that] lt that by (cases k) auto
      show "unat (push_bit 1 quot) * 2 ^ k + ?n div d0 < 2 ^ 64" using Suc.prems(4) qq by (simp add: algebra_simps)
    qed
    then show ?thesis using qq by (simp add: algebra_simps)
  qed
qed

text \<open>C21: The software division returns, for every dividend and every divisor but 0, exactly the
  64-bit quotient and remainder, and 0 and 0 for the divisor 0.\<close>
theorem udivmod64_correct:
  "udivmod64 num den = (if den = 0 then (0, 0) else (num div den, num mod den))"
proof (cases "den = 0 \<or> num < den")
  case True
  then show ?thesis
    by (auto simp: udivmod64_def word_less_nat_alt word_unat_eq_iff unat_div unat_mod)
next
  case False
  obtain sh d where u: "shift_up num 0 den = (sh, d)" by (cases "shift_up num 0 den")
  have d0: "0 < unat den" using False by (simp add: unat_gt_0)
  have s: "unat d = unat den * 2 ^ sh" "unat num < 2 * unat d"
    using shift_up_spec [OF _ d0 _ _ u] False by (simp_all add: not_less)
  obtain q r where r: "restore_bits (Suc sh) num d 0 = (q, r)" by (cases "restore_bits (Suc sh) num d 0")
  have "unat num div unat den < 2 ^ 64"
    using u64_bound [of num] le_less_trans [OF div_le_dividend] by simp
  then have "unat q = unat num div unat den \<and> unat r = unat num mod unat den"
    using restore_bits_spec [OF d0 _ _ _ r] s by simp
  then have "q = num div den" "r = num mod den" by (simp_all add: word_unat_eq_iff unat_div unat_mod)
  then show ?thesis using False u r by (simp add: udivmod64_def)
qed

end
