(* ===== verification/Rtc.thy ===== *)
theory Rtc
  imports EzPrelude
begin

text \<open>
  The real-time clock, \<open>src/kernel/rtc.c\<close>: reading the CMOS registers once at start-up,
  the calendar, the running time derived from the timer ticks, and the FAT time stamps.

  The CMOS chip is an argument: \<open>cmos r\<close> is the content of register \<open>r\<close> while it is read,
  \<open>sta i\<close> the i-th reading of status register A. Dates are natural numbers: \<open>rtc_init\<close> admits
  years up to 2200, so the day counts stay far below the 32-bit limit. The tick counter keeps
  its width.
\<close>

section \<open>Calendar\<close>

definition is_leap :: "nat \<Rightarrow> bool" where
  "is_leap y \<longleftrightarrow> (y mod 4 = 0 \<and> y mod 100 \<noteq> 0) \<or> y mod 400 = 0"

definition days_in_month :: "nat \<Rightarrow> nat \<Rightarrow> nat" where
  "days_in_month y m =
     (if m = 2 \<and> is_leap y then 29
      else if 1 \<le> m \<and> m \<le> 12 then [31, 28, 31, 30, 31, 30, 31, 31, 30, 31, 30, 31] ! (m - 1) else 0)"

definition year_span :: "nat \<Rightarrow> nat" where
  "year_span y = (if is_leap y then 366 else 365)"

definition ymd_to_days :: "nat \<Rightarrow> nat \<Rightarrow> nat \<Rightarrow> nat" where
  "ymd_to_days y m d =
     (if y < 1970 \<or> m < 1 \<or> m > 12 \<or> d < 1 then 0
      else
        let days = sum_list (map year_span [1970..<y]) + sum_list (map (days_in_month y) [1..<m])
        in if d > days_in_month y m then 0 else days + (d - 1))"

text \<open>The year loop; \<open>None\<close> is the exit past the year 2200.\<close>

function year_loop :: "nat \<Rightarrow> nat \<Rightarrow> (nat \<times> nat) option" where
  "year_loop yy days =
     (if days < year_span yy then Some (yy, days)
      else if Suc yy > 2200 then None
      else year_loop (Suc yy) (days - year_span yy))"
  by pat_completeness auto
termination
  by (relation "measure (\<lambda>(yy, days). 2201 - yy)") auto

declare year_loop.simps [simp del]

function month_loop :: "nat \<Rightarrow> nat \<Rightarrow> nat \<Rightarrow> nat \<times> nat" where
  "month_loop yy mm days =
     (if mm \<le> 12 \<and> \<not> days < days_in_month yy mm then month_loop yy (Suc mm) (days - days_in_month yy mm) else (mm, days))"
  by pat_completeness auto
termination
  by (relation "measure (\<lambda>(yy, mm, days). 13 - mm)") auto

declare month_loop.simps [simp del]

definition days_to_ymd :: "nat \<Rightarrow> nat \<times> nat \<times> nat" where
  "days_to_ymd days =
     (case year_loop 1970 days of
        None \<Rightarrow> (1970, 1, 1)
      | Some (yy, rest) \<Rightarrow> (case month_loop yy 1 rest of (mm, r) \<Rightarrow> (yy, mm, r + 1)))"

section \<open>Start-up\<close>

record rtc =
  g_ok :: bool
  g_base_tick :: u32
  g_base_sec :: nat
  g_base_day :: nat

record rtc_time =
  year :: nat
  month :: nat
  day :: nat
  hour :: nat
  minute :: nat
  second :: nat

abbreviation RTC_TZ_HOURS :: nat where "RTC_TZ_HOURS \<equiv> 8"

text \<open>\<open>cmos_wait_ready\<close>: whether the update flag was seen clear within 100000 readings.\<close>

definition cmos_wait_ready :: "(nat \<Rightarrow> u8) \<Rightarrow> bool" where
  "cmos_wait_ready sta = list_ex (\<lambda>i. sta i AND 0x80 = 0) [0..<100000]"

definition bcd :: "u8 \<Rightarrow> nat" where
  "bcd v = unat (v AND 0x0F) + unat (drop_bit 4 v) * 10"

definition cmos_val :: "(u8 \<Rightarrow> u8) \<Rightarrow> u8 \<Rightarrow> bool \<Rightarrow> nat" where
  "cmos_val cmos reg binary = (if binary then unat (cmos reg) else bcd (cmos reg))"

definition rtc_hour :: "(u8 \<Rightarrow> u8) \<Rightarrow> bool \<Rightarrow> bool \<Rightarrow> nat" where
  "rtc_hour cmos binary h24 =
     (if h24 then cmos_val cmos 0x04 binary
      else
        let raw = cmos 0x04; v = cmos_val cmos 0x04 binary
        in if raw AND 0x80 \<noteq> 0 then (v mod 128) + 12 else if v = 12 then 0 else v)"

definition rtc_year :: "(u8 \<Rightarrow> u8) \<Rightarrow> bool \<Rightarrow> nat" where
  "rtc_year cmos binary =
     (let yr = cmos_val cmos 0x09 binary; c = cmos_val cmos 0x32 binary
      in if 19 \<le> c \<and> c \<le> 21 then c * 100 + yr else if yr \<ge> 70 then 1900 + yr else 2000 + yr)"

definition rtc_init :: "(nat \<Rightarrow> u8) \<Rightarrow> (u8 \<Rightarrow> u8) \<Rightarrow> u32 \<Rightarrow> rtc" where
  "rtc_init sta cmos ticks =
     (let bad = \<lparr>g_ok = False, g_base_tick = ticks, g_base_sec = 0, g_base_day = 0\<rparr> in
      if \<not> cmos_wait_ready sta then bad
      else
        let stb = cmos 0x0B; binary = (stb AND 0x04 \<noteq> 0); h24 = (stb AND 0x02 \<noteq> 0);
            sec = cmos_val cmos 0x00 binary; mn = cmos_val cmos 0x02 binary; hr = rtc_hour cmos binary h24;
            dy = cmos_val cmos 0x07 binary; mon = cmos_val cmos 0x08 binary; yr = rtc_year cmos binary
        in
        if sec > 59 \<or> mn > 59 \<or> hr > 23 then bad
        else if mon < 1 \<or> mon > 12 \<or> dy < 1 then bad
        else if dy > days_in_month yr mon then bad
        else if yr < 1980 \<or> yr > 2200 then bad
        else
          let sod = hr * 3600 + mn * 60 + sec + RTC_TZ_HOURS * 3600; d = ymd_to_days yr mon dy
          in if d = 0 then bad
             else \<lparr>g_ok = True, g_base_tick = ticks, g_base_sec = sod mod 86400, g_base_day = d + sod div 86400\<rparr>)"

definition rtc_valid :: "rtc \<Rightarrow> bool" where
  "rtc_valid c = g_ok c"

definition rtc_now :: "rtc \<Rightarrow> u32 \<Rightarrow> rtc_time option" where
  "rtc_now c ticks =
     (if \<not> g_ok c then None
      else
        let ms = unat (ticks - g_base_tick c);
            tot = g_base_sec c + ms div 1000;
            sod = tot mod 86400;
            (y, m, d) = days_to_ymd (g_base_day c + tot div 86400)
        in Some \<lparr>year = y mod 65536, month = m mod 256, day = d mod 256, hour = sod div 3600 mod 256,
              minute = sod mod 3600 div 60 mod 256, second = sod mod 60 mod 256\<rparr>)"

definition rtc_fat_date :: "rtc_time \<Rightarrow> nat" where
  "rtc_fat_date t =
     (let y = (if year t \<ge> 1980 then year t else 1980); y = (if y > 2107 then 2107 else y);
          m = (if 1 \<le> month t \<and> month t \<le> 12 then month t else 1);
          d = (if 1 \<le> day t \<and> day t \<le> 31 then day t else 1)
      in ((y - 1980) * 512 + m * 32 + d) mod 65536)"

definition rtc_fat_time :: "rtc_time \<Rightarrow> nat" where
  "rtc_fat_time t =
     (let h = (if hour t \<le> 23 then hour t else 0); m = (if minute t \<le> 59 then minute t else 0);
          s = (if second t \<le> 59 then second t else 0)
      in (h * 2048 + m * 32 + s div 2) mod 65536)"

section \<open>The calendar is exact\<close>

definition valid_date :: "nat \<Rightarrow> nat \<Rightarrow> nat \<Rightarrow> bool" where
  "valid_date y m d \<longleftrightarrow> 1970 \<le> y \<and> 1 \<le> m \<and> m \<le> 12 \<and> 1 \<le> d \<and> d \<le> days_in_month y m"

text \<open>The first day of year y, counted from 1970.\<close>

definition year_start :: "nat \<Rightarrow> nat" where
  "year_start y = sum_list (map year_span [1970..<y])"

lemma year_start_Suc: "1970 \<le> y \<Longrightarrow> year_start (Suc y) = year_start y + year_span y"
  by (simp add: year_start_def)

lemma month_sum: "sum_list (map (days_in_month y) [1..<13]) = year_span y"
proof -
  have "[1..<13] = [1, 2, 3, 4, 5, 6, 7, 8, 9, 10, 11, 12::nat]" by (simp add: upt_rec)
  then show ?thesis by (simp add: days_in_month_def year_span_def)
qed

lemma year_loop_spec:
  assumes "year_loop yy days = Some (y, r)" and "1970 \<le> yy"
  shows "r < year_span y \<and> yy \<le> y \<and> (yy \<le> 2200 \<longrightarrow> y \<le> 2200) \<and> year_start yy + days = year_start y + r"
  using assms
proof (induction yy days rule: year_loop.induct)
  case (1 yy days)
  show ?case
  proof (cases "days < year_span yy")
    case True
    then show ?thesis using "1.prems" by (simp add: year_loop.simps [of yy days])
  next
    case False
    then have n: "\<not> Suc yy > 2200" "year_loop (Suc yy) (days - year_span yy) = Some (y, r)"
      using "1.prems" by (auto simp: year_loop.simps [of yy days] split: if_splits)
    from "1.IH" [OF False n(1,2)] show ?thesis using "1.prems" False n(1) year_start_Suc [of yy] by simp
  qed
qed

lemma year_start_mono: "1970 \<le> a \<Longrightarrow> a \<le> b \<Longrightarrow> year_start a \<le> year_start b"
proof (induction b)
  case (Suc b)
  then show ?case using year_start_Suc [of b] by (cases "a = Suc b") auto
qed simp

lemma year_loop_total:
  assumes "1970 \<le> yy" and "yy \<le> 2200" and "year_start yy + days < year_start 2201"
  shows "\<exists>y r. year_loop yy days = Some (y, r)"
  using assms
proof (induction yy days rule: year_loop.induct)
  case (1 yy days)
  show ?case
  proof (cases "days < year_span yy")
    case True
    then show ?thesis by (simp add: year_loop.simps [of yy days])
  next
    case False
    then have "yy \<noteq> 2200" using "1.prems" year_start_Suc [of 2200] by auto
    then have n: "\<not> Suc yy > 2200" using "1.prems" by simp
    then show ?thesis using "1.IH" [OF False n] "1.prems" False year_start_Suc [of yy]
      by (simp add: year_loop.simps [of yy days])
  qed
qed

text \<open>The days before month m.\<close>

definition month_start :: "nat \<Rightarrow> nat \<Rightarrow> nat" where
  "month_start y m = sum_list (map (days_in_month y) [1..<m])"

lemma month_start_Suc: "1 \<le> m \<Longrightarrow> month_start y (Suc m) = month_start y m + days_in_month y m"
  by (simp add: month_start_def)

lemma month_loop_spec:
  assumes "month_loop y mm days = (m, r)" and "1 \<le> mm" and "mm \<le> 13" and "month_start y mm + days < year_span y"
  shows "m \<le> 12 \<and> mm \<le> m \<and> r < days_in_month y m \<and> month_start y mm + days = month_start y m + r"
  using assms
proof (induction y mm days rule: month_loop.induct)
  case (1 y mm days)
  show ?case
  proof (cases "mm \<le> 12 \<and> \<not> days < days_in_month y mm")
    case True
    then have "month_loop y (Suc mm) (days - days_in_month y mm) = (m, r)"
      using "1.prems"(1) by (simp add: month_loop.simps [of y mm days])
    then show ?thesis using "1.IH" [OF True] "1.prems" True month_start_Suc [of mm y] by simp
  next
    case False
    then have e: "m = mm" "r = days" using "1.prems"(1) by (auto simp: month_loop.simps [of y mm days])
    have "mm \<noteq> 13" using "1.prems"(4) month_sum [of y] by (auto simp: month_start_def)
    then show ?thesis using e False "1.prems" by auto
  qed
qed

lemma ymd_to_days_eq:
  "valid_date y m d \<Longrightarrow> ymd_to_days y m d = year_start y + month_start y m + (d - 1)"
  by (simp add: valid_date_def ymd_to_days_def year_start_def month_start_def)

lemma days_to_ymd_exact:
  assumes "days < year_start 2201"
  shows "case days_to_ymd days of (y, m, d) \<Rightarrow> valid_date y m d \<and> y \<le> 2200 \<and> ymd_to_days y m d = days"
proof -
  have s0: "year_start 1970 = 0" by (simp add: year_start_def)
  obtain y r where yl: "year_loop 1970 days = Some (y, r)" using year_loop_total [of 1970 days] assms s0 by auto
  note ys = year_loop_spec [OF yl, simplified s0]
  obtain m q where ml: "month_loop y 1 r = (m, q)" by (cases "month_loop y 1 r")
  have m0: "month_start y 1 = 0" by (simp add: month_start_def)
  note ms = month_loop_spec [OF ml, simplified m0]
  have v: "valid_date y m (q + 1)" using ys ms by (simp add: valid_date_def)
  show ?thesis using ymd_to_days_eq [OF v] ys ms v yl ml by (simp add: days_to_ymd_def)
qed

lemma month_start_mono: "a \<le> b \<Longrightarrow> 1 \<le> a \<Longrightarrow> month_start y a \<le> month_start y b"
  by (induction b) (auto simp: month_start_Suc le_Suc_eq)

lemma date_in_year:
  assumes "valid_date y m d"
  shows "month_start y m + (d - 1) < year_span y"
proof -
  have b: "1 \<le> m" "Suc m \<le> 13" "1 \<le> d" "d \<le> days_in_month y m" using assms by (simp_all add: valid_date_def)
  have "month_start y m + days_in_month y m \<le> month_start y 13"
    using month_start_mono [of "Suc m" 13 y] month_start_Suc [OF b(1), of y] b(2) by simp
  moreover have "month_start y 13 = year_span y" unfolding month_start_def by (rule month_sum)
  moreover have "d - 1 < days_in_month y m" using b(3,4) by simp
  ultimately show ?thesis by linarith
qed

section \<open>The running time\<close>

definition secs_of :: "rtc_time \<Rightarrow> nat" where
  "secs_of t = ymd_to_days (year t) (month t) (day t) * 86400 + hour t * 3600 + minute t * 60 + second t"

definition valid_time :: "rtc_time \<Rightarrow> bool" where
  "valid_time t \<longleftrightarrow> valid_date (year t) (month t) (day t) \<and> hour t < 24 \<and> minute t < 60 \<and> second t < 60"

text \<open>The second that the CMOS registers name, since the start of 1970.\<close>

definition cmos_secs :: "(u8 \<Rightarrow> u8) \<Rightarrow> nat" where
  "cmos_secs cmos =
     (let binary = (cmos 0x0B AND 0x04 \<noteq> 0); h24 = (cmos 0x0B AND 0x02 \<noteq> 0)
      in ymd_to_days (rtc_year cmos binary) (cmos_val cmos 0x08 binary) (cmos_val cmos 0x07 binary) * 86400 +
         rtc_hour cmos binary h24 * 3600 + cmos_val cmos 0x02 binary * 60 + cmos_val cmos 0x00 binary)"

lemma days_in_month_le: "days_in_month y m \<le> 31"
proof -
  let ?d = "[31, 28, 31, 30, 31, 30, 31, 31, 30, 31, 30, 31] :: nat list"
  have "?d ! k \<le> 31" if "k < length ?d" for k
    using nth_mem [OF that] by auto
  from this [of "m - 1"] show ?thesis by (auto simp: days_in_month_def)
qed

lemma split_time_of_day:
  fixes n :: nat
  assumes "n < 86400"
  shows "n div 3600 * 3600 + n mod 3600 div 60 * 60 + n mod 60 = n" "n div 3600 < 24" "n mod 3600 div 60 < 60" "n mod 60 < 60"
proof -
  have a: "n div 3600 * 3600 + n mod 3600 = n" by simp
  have "n mod 3600 div 60 * 60 + n mod 3600 mod 60 = n mod 3600" by (rule div_mult_mod_eq)
  moreover have "n mod 3600 mod 60 = n mod 60" by (rule mod_mod_cancel) simp
  ultimately show "n div 3600 * 3600 + n mod 3600 div 60 * 60 + n mod 60 = n" using a by linarith
  have "n mod 3600 < 3600" by simp
  then show "n mod 3600 div 60 < 60" by (simp add: less_mult_imp_div_less)
  show "n div 3600 < 24" using assms by (simp add: less_mult_imp_div_less)
  show "n mod 60 < 60" by simp
qed

lemma rtc_now_spec:
  assumes "g_ok c" and b: "g_base_day c + (g_base_sec c + unat (ticks - g_base_tick c) div 1000) div 86400 < year_start 2201"
  shows "\<exists>t. rtc_now c ticks = Some t \<and> valid_time t \<and>
    secs_of t = g_base_day c * 86400 + g_base_sec c + unat (ticks - g_base_tick c) div 1000"
proof -
  define tot where "tot = g_base_sec c + unat (ticks - g_base_tick c) div 1000"
  define sod where "sod = tot mod 86400"
  obtain y m d where e: "days_to_ymd (g_base_day c + tot div 86400) = (y, m, d)" by (cases "days_to_ymd (g_base_day c + tot div 86400)")
  have v: "valid_date y m d" "y \<le> 2200" "ymd_to_days y m d = g_base_day c + tot div 86400"
    using days_to_ymd_exact [of "g_base_day c + tot div 86400"] b e unfolding tot_def by simp_all
  have s: "sod < 86400" by (simp add: sod_def)
  note sp = split_time_of_day [OF s]
  have "m \<le> 12" "d \<le> 31" using v(1) days_in_month_le [of y m] by (simp_all add: valid_date_def)
  then have md: "y mod 65536 = y" "m mod 256 = m" "d mod 256 = d" using v(2) by simp_all
  have hm: "sod div 3600 mod 256 = sod div 3600" "sod mod 3600 div 60 mod 256 = sod mod 3600 div 60" "sod mod 60 mod 256 = sod mod 60"
    using sp(2-4) by (intro mod_less; simp)+
  define t where "t = \<lparr>year = y, month = m, day = d, hour = sod div 3600, minute = sod mod 3600 div 60, second = sod mod 60\<rparr>"
  have "rtc_now c ticks = Some t"
    using assms(1) e md hm unfolding rtc_now_def Let_def tot_def [symmetric] sod_def [symmetric] t_def by simp
  moreover have "valid_time t" using v(1) sp by (simp add: valid_time_def t_def)
  moreover have "secs_of t = g_base_day c * 86400 + tot"
  proof -
    have "tot div 86400 * 86400 + sod = tot" unfolding sod_def by (rule div_mult_mod_eq)
    then show ?thesis using v(3) sp(1) by (simp add: secs_of_def t_def algebra_simps)
  qed
  ultimately show ?thesis unfolding tot_def by auto
qed

lemma rtc_init_ok:
  assumes "g_ok (rtc_init sta cmos t0)"
  defines "bin \<equiv> cmos 0x0B AND 0x04 \<noteq> 0"
  shows "g_base_tick (rtc_init sta cmos t0) = t0"
    and "valid_date (rtc_year cmos bin) (cmos_val cmos 0x08 bin) (cmos_val cmos 0x07 bin)"
    and "g_base_sec (rtc_init sta cmos t0) < 86400"
    and "g_base_day (rtc_init sta cmos t0) * 86400 + g_base_sec (rtc_init sta cmos t0) = cmos_secs cmos + RTC_TZ_HOURS * 3600"
    and "g_base_day (rtc_init sta cmos t0) \<le> ymd_to_days (rtc_year cmos bin) (cmos_val cmos 0x08 bin) (cmos_val cmos 0x07 bin) + 1"
proof -
  define h24 where "h24 \<longleftrightarrow> cmos 0x0B AND 0x02 \<noteq> 0"
  define sod where "sod = rtc_hour cmos bin h24 * 3600 + cmos_val cmos 0x02 bin * 60 + cmos_val cmos 0x00 bin + RTC_TZ_HOURS * 3600"
  define d where "d = ymd_to_days (rtc_year cmos bin) (cmos_val cmos 0x08 bin) (cmos_val cmos 0x07 bin)"
  have e: "rtc_init sta cmos t0 = \<lparr>g_ok = True, g_base_tick = t0, g_base_sec = sod mod 86400, g_base_day = d + sod div 86400\<rparr>"
    and b: "cmos_val cmos 0x00 bin \<le> 59" "cmos_val cmos 0x02 bin \<le> 59" "rtc_hour cmos bin h24 \<le> 23"
      "1 \<le> cmos_val cmos 0x08 bin" "cmos_val cmos 0x08 bin \<le> 12" "1 \<le> cmos_val cmos 0x07 bin"
      "cmos_val cmos 0x07 bin \<le> days_in_month (rtc_year cmos bin) (cmos_val cmos 0x08 bin)" "1980 \<le> rtc_year cmos bin"
    using assms(1) unfolding rtc_init_def Let_def bin_def [symmetric] h24_def [symmetric] sod_def [symmetric] d_def [symmetric]
    by (auto split: if_splits)
  show "g_base_tick (rtc_init sta cmos t0) = t0" using e by simp
  show "valid_date (rtc_year cmos bin) (cmos_val cmos 0x08 bin) (cmos_val cmos 0x07 bin)" using b by (simp add: valid_date_def)
  show "g_base_sec (rtc_init sta cmos t0) < 86400" using e by simp
  have "sod mod 86400 + sod div 86400 * 86400 = sod" by simp
  then show "g_base_day (rtc_init sta cmos t0) * 86400 + g_base_sec (rtc_init sta cmos t0) = cmos_secs cmos + RTC_TZ_HOURS * 3600"
    unfolding e using bin_def h24_def by (simp add: cmos_secs_def Let_def sod_def d_def algebra_simps)
  have "sod < 2 * 86400" using b(1-3) by (simp add: sod_def)
  then have "sod div 86400 < 2" by (rule less_mult_imp_div_less)
  then show "g_base_day (rtc_init sta cmos t0) \<le> ymd_to_days (rtc_year cmos bin) (cmos_val cmos 0x08 bin) (cmos_val cmos 0x07 bin) + 1"
    unfolding e d_def by simp
qed

text \<open>C24: When rtc_init has accepted the clock (before the year 2200), rtc_now returns at every
  later tick a date that exists and a time of day whose distance from 1970 is that of the CMOS
  reading plus eight hours plus the full seconds that the 32-bit tick counter has advanced.\<close>
theorem rtc_keeps_time:
  assumes "g_ok (rtc_init sta cmos t0)" and "rtc_year cmos (cmos 0x0B AND 0x04 \<noteq> 0) < 2200"
  shows "\<exists>t. rtc_now (rtc_init sta cmos t0) ticks = Some t \<and> valid_time t \<and>
    secs_of t = cmos_secs cmos + 8 * 3600 + unat (ticks - t0) div 1000"
proof -
  let ?c = "rtc_init sta cmos t0" and ?bin = "cmos 0x0B AND 0x04 \<noteq> 0"
  note ok = rtc_init_ok [OF assms(1)]
  let ?y = "rtc_year cmos ?bin" and ?m = "cmos_val cmos 0x08 ?bin" and ?d = "cmos_val cmos 0x07 ?bin"
  have "ymd_to_days ?y ?m ?d < year_start (Suc ?y)"
  proof -
    have "1970 \<le> ?y" using ok(2) by (simp add: valid_date_def)
    then show ?thesis using ymd_to_days_eq [OF ok(2)] date_in_year [OF ok(2)] year_start_Suc [of ?y] by simp
  qed
  moreover have "year_start (Suc ?y) \<le> year_start 2200"
    using ok(2) assms(2) by (intro year_start_mono) (simp_all add: valid_date_def)
  moreover have "year_start 2201 = year_start 2200 + year_span 2200" using year_start_Suc [of 2200] by simp
  moreover have "365 \<le> year_span 2200" by (simp add: year_span_def)
  moreover have "unat (ticks - g_base_tick ?c) div 1000 < 4294968"
    using u32_bound [of "ticks - g_base_tick ?c"] by (simp add: less_mult_imp_div_less)
  then have "(g_base_sec ?c + unat (ticks - g_base_tick ?c) div 1000) div 86400 < 51"
    using ok(3) by (simp add: less_mult_imp_div_less)
  ultimately have "g_base_day ?c + (g_base_sec ?c + unat (ticks - g_base_tick ?c) div 1000) div 86400 < year_start 2201"
    using ok(5) by simp
  from rtc_now_spec [OF assms(1) this] show ?thesis using ok(1,4) by simp
qed

text \<open>A clock in 24-hour BCD mode that shows 2026-02-28 23:59:30.\<close>

definition example_cmos :: "u8 \<Rightarrow> u8" where
  "example_cmos r = (if r = 0x0B then 0x02 else if r = 0x00 then 0x30 else if r = 0x02 then 0x59 else if r = 0x04 then 0x23
     else if r = 0x07 then 0x28 else if r = 0x08 then 0x02 else if r = 0x09 then 0x26 else if r = 0x32 then 0x20 else 0)"

lemma list_ex_first: "P 0 \<Longrightarrow> 0 < n \<Longrightarrow> list_ex P [0..<n]"
  by (auto simp: list_ex_iff)

lemma example_cmos_values:
  "cmos_val example_cmos 0x00 False = 30" "cmos_val example_cmos 0x02 False = 59" "rtc_hour example_cmos False True = 23"
  "cmos_val example_cmos 0x07 False = 28" "cmos_val example_cmos 0x08 False = 2" "rtc_year example_cmos False = 2026"
  "example_cmos 0x0B = 0x02"
  by (simp_all add: cmos_val_def bcd_def rtc_hour_def rtc_year_def example_cmos_def drop_bit_eq_div unat_div)

theorem rtc_keeps_time_witness:
  "\<exists>t. rtc_now (rtc_init (\<lambda>_. 0) example_cmos 5) 60005 = Some t \<and> valid_time t \<and>
    secs_of t = cmos_secs example_cmos + 8 * 3600 + 60"
proof -
  have w: "cmos_wait_ready (\<lambda>_. 0)" unfolding cmos_wait_ready_def by (rule list_ex_first) simp_all
  have d: "ymd_to_days 2026 2 28 \<noteq> 0"
    by (simp add: ymd_to_days_def days_in_month_def is_leap_def)
  have "g_ok (rtc_init (\<lambda>_. 0) example_cmos 5)"
    using w d by (simp add: rtc_init_def Let_def example_cmos_values days_in_month_def)
  from rtc_keeps_time [OF this, of 60005] show ?thesis by (simp add: example_cmos_values)
qed

text \<open>In 12-hour BCD mode no afternoon reading is ever accepted: whatever valid hour 1 to 12
  with the PM bit the chip holds, rtc_init reports the clock as unusable (the PM bit is taken
  for eighty hours when the BCD digits are added up).\<close>
theorem rtc_pm_hours_rejected:
  assumes "cmos 0x0B AND 0x04 = 0" and "cmos 0x0B AND 0x02 = 0" and "cmos 0x04 AND 0x80 \<noteq> 0"
    and "1 \<le> bcd (cmos 0x04 AND 0x7F)" and "bcd (cmos 0x04 AND 0x7F) \<le> 12"
  shows "\<not> rtc_valid (rtc_init sta cmos t0)"
proof -
  have "\<forall>r :: u8 \<in> set (map of_nat [0..<256]). r AND 0x80 \<noteq> 0 \<longrightarrow> bcd (r AND 0x7F) \<le> 12 \<longrightarrow> bcd r mod 128 + 12 > 23"
    by code_simp
  moreover have "cmos 0x04 \<in> set (map of_nat [0..<256])"
    using unsigned_less [of "cmos 0x04", where ?'a = nat] by (auto intro!: image_eqI [of _ _ "unat (cmos 0x04)"])
  ultimately have "bcd (cmos 0x04) mod 128 + 12 > 23" using assms(3,5) by blast
  then have "rtc_hour cmos False False > 23" using assms(3) by (simp add: rtc_hour_def cmos_val_def)
  then show ?thesis using assms(1,2) by (simp add: rtc_init_def rtc_valid_def Let_def)
qed

theorem rtc_pm_hours_rejected_witness:
  "\<not> rtc_valid (rtc_init (\<lambda>_. 0) (\<lambda>r. if r = 0x0B then 0 else if r = 0x04 then 0x83 else example_cmos r) 5)"
  by (rule rtc_pm_hours_rejected) (simp_all add: bcd_def drop_bit_eq_div unat_div)

end
