(* ===== verification/Dmesg.thy ===== *)
theory Dmesg
  imports EzPrelude
begin

text \<open>
  The kernel log, \<open>src/kernel/dmesg.c\<close>: a ring of 32768 characters with a FIFO index of at
  most 256 lines. A string is the list of its characters before the terminating NUL. The bytes
  that go to the serial port are collected in \<open>dm_serial\<close>. The interrupt flag around the
  updates only excludes concurrent writers and has no model here.
\<close>

abbreviation DM_BUF_SIZE :: nat where "DM_BUF_SIZE \<equiv> 32768"
abbreviation DM_MAX_LINES :: nat where "DM_MAX_LINES \<equiv> 256"
abbreviation DM_MAX_LINE :: nat where "DM_MAX_LINE \<equiv> 240"
abbreviation NL :: char where "NL \<equiv> CHR 0x0A"

record dm_line_t =
  l_start :: u64
  l_len :: nat
  l_tick :: u32

record dmesg =
  dm_buf :: "nat \<Rightarrow> char"
  dm_seq :: u64
  dm_line :: "nat \<Rightarrow> dm_line_t"
  dm_first :: nat
  dm_cnt :: nat
  dm_bytes :: nat
  dm_cur :: string
  dm_serial :: string

section \<open>Writing\<close>

definition drop_oldest :: "dmesg \<Rightarrow> dmesg" where
  "drop_oldest s = s\<lparr>dm_bytes := dm_bytes s - l_len (dm_line s (dm_first s)),
     dm_first := (dm_first s + 1) mod DM_MAX_LINES, dm_cnt := dm_cnt s - 1\<rparr>"

function evict :: "nat \<Rightarrow> dmesg \<Rightarrow> dmesg" where
  "evict need s = (if dm_cnt s > 0 \<and> dm_bytes s + need > DM_BUF_SIZE then evict need (drop_oldest s) else s)"
  by pat_completeness auto
termination
  by (relation "measure (\<lambda>(need, s). dm_cnt s)") (auto simp: drop_oldest_def)

declare evict.simps [simp del]

definition dm_pos :: "u64 \<Rightarrow> nat \<Rightarrow> nat" where
  "dm_pos start k = unat (start + of_nat k) mod DM_BUF_SIZE"

text \<open>\<open>for (k \<dots>) dm_buf[(dm_seq + k) % DM_BUF_SIZE] = text[k]\<close>\<close>

fun store_at :: "u64 \<Rightarrow> nat \<Rightarrow> string \<Rightarrow> (nat \<Rightarrow> char) \<Rightarrow> (nat \<Rightarrow> char)" where
  "store_at start k [] b = b"
| "store_at start k (c # cs) b = store_at start (Suc k) cs (b(dm_pos start k := c))"

definition dm_push_line :: "u32 \<Rightarrow> dmesg \<Rightarrow> dmesg" where
  "dm_push_line tick s =
     (let need = length (dm_cur s) + 1 in
      if need > DM_BUF_SIZE then s\<lparr>dm_cur := []\<rparr>
      else
        let s1 = evict need s;
            s2 = (if dm_cnt s1 = DM_MAX_LINES then drop_oldest s1 else s1);
            slot = (dm_first s2 + dm_cnt s2) mod DM_MAX_LINES
        in s2\<lparr>dm_line := (dm_line s2)(slot := \<lparr>l_start = dm_seq s2, l_len = need, l_tick = tick\<rparr>),
              dm_buf := store_at (dm_seq s2) 0 (dm_cur s2 @ [NL]) (dm_buf s2),
              dm_seq := dm_seq s2 + of_nat need, dm_cnt := dm_cnt s2 + 1, dm_bytes := dm_bytes s2 + need, dm_cur := []\<rparr>)"

definition push_char :: "u32 \<Rightarrow> char \<Rightarrow> dmesg \<Rightarrow> dmesg" where
  "push_char tick c s =
     (if c = NL then dm_push_line tick s
      else if length (dm_cur s) < DM_MAX_LINE then s\<lparr>dm_cur := dm_cur s @ [c]\<rparr> else s)"

definition dmesg_push :: "u32 \<Rightarrow> string \<Rightarrow> bool \<Rightarrow> dmesg \<Rightarrow> dmesg" where
  "dmesg_push tick line echo s =
     fold (push_char tick) line
       (if echo then s\<lparr>dm_serial := dm_serial s @ line @ (if line = [] \<or> last line \<noteq> NL then [NL] else [])\<rparr> else s)"

definition dmesg_write :: "u32 \<Rightarrow> string \<Rightarrow> dmesg \<Rightarrow> dmesg" where
  "dmesg_write tick line s = dmesg_push tick line True s"

definition dmesg_record :: "u32 \<Rightarrow> string \<Rightarrow> dmesg \<Rightarrow> dmesg" where
  "dmesg_record tick line s = dmesg_push tick line False s"

section \<open>Reading\<close>

definition dm_char :: "dmesg \<Rightarrow> nat \<Rightarrow> nat \<Rightarrow> char" where
  "dm_char s idx k = dm_buf s (dm_pos (l_start (dm_line s idx)) k)"

definition dm_copy_line :: "dmesg \<Rightarrow> nat \<Rightarrow> nat \<Rightarrow> string" where
  "dm_copy_line s idx cap = map (dm_char s idx) [0..<min (l_len (dm_line s idx)) cap]"

definition dm_snapshot :: "dmesg \<Rightarrow> int \<Rightarrow> nat \<times> nat \<times> nat" where
  "dm_snapshot s n =
     (dm_first s, if n > 0 \<and> nat n < dm_cnt s then dm_cnt s - nat n else 0, dm_cnt s)"

definition dm_line_tick :: "dmesg \<Rightarrow> nat \<Rightarrow> u32" where
  "dm_line_tick s idx = l_tick (dm_line s idx)"

fun rev_digits :: "nat \<Rightarrow> string" where
  "rev_digits n = (if n = 0 then [] else char_of (48 + n mod 10) # rev_digits (n div 10))"

declare rev_digits.simps [simp del]

text \<open>The array \<open>b\<close> of both time-stamp routines, least significant digit first.\<close>

definition sec_digits :: "nat \<Rightarrow> string" where
  "sec_digits sec = (if sec = 0 then ''0'' else take 12 (rev_digits sec))"

definition usec_digits :: "nat \<Rightarrow> string" where
  "usec_digits usec = map (\<lambda>d. char_of (48 + usec div d mod 10)) [100000, 10000, 1000, 100, 10, 1]"

definition dm_ts_put :: "u32 \<Rightarrow> string" where
  "dm_ts_put tick =
     (let ms = unat tick mod 1000; b = sec_digits (unat tick div 1000)
      in ''[ '' @ replicate (4 - length b) CHR '' '' @ rev b @ ''.'' @ usec_digits (ms * 1000) @ ''] '')"

definition line_out :: "dmesg \<Rightarrow> nat \<Rightarrow> string" where
  "line_out s idx =
     (let row = dm_copy_line s idx (DM_MAX_LINE + 1)
      in (if row = [] \<or> hd row \<noteq> CHR ''['' then dm_ts_put (dm_line_tick s idx) else []) @ row)"

text \<open>The lines printed and their number.\<close>

definition dmesg_dump :: "int \<Rightarrow> dmesg \<Rightarrow> nat \<times> string" where
  "dmesg_dump n s =
     (case dm_snapshot s n of (first, start, cnt) \<Rightarrow>
        if cnt = 0 then (0, [])
        else (cnt - start, concat (map (\<lambda>i. line_out s ((first + i) mod DM_MAX_LINES)) [start..<cnt])))"

text \<open>
  Bounded output: \<open>out\<close> is what has been stored so far, so \<open>o\<close> is its length. The loop over
  the digits of the seconds takes a digit only when there is room for it.
\<close>

definition put_lim :: "nat \<Rightarrow> char \<Rightarrow> string \<Rightarrow> string" where
  "put_lim lim c out = (if length out + 1 < lim then out @ [c] else out)"

partial_function (option) ts_digits :: "nat \<Rightarrow> string \<Rightarrow> string \<Rightarrow> string option" where
  "ts_digits lim b out =
     (if b = [] then Some out
      else if length out + 1 < lim then ts_digits lim (butlast b) (out @ [last b])
      else ts_digits lim b out)"

definition dm_ts_buf :: "nat \<Rightarrow> u32 \<Rightarrow> string \<Rightarrow> string option" where
  "dm_ts_buf lim tick out =
     (let ms = unat tick mod 1000; b = sec_digits (unat tick div 1000);
          out1 = fold (put_lim lim) (''[ '' @ replicate (4 - length b) CHR '' '') out
      in map_option (fold (put_lim lim) (''.'' @ usec_digits (ms * 1000) @ ''] '')) (ts_digits lim b out1))"

fun tail_loop :: "dmesg \<Rightarrow> nat \<Rightarrow> nat list \<Rightarrow> string \<Rightarrow> string option" where
  "tail_loop s outsz [] out = Some out"
| "tail_loop s outsz (i # is) out =
     (if \<not> length out + 1 < outsz then Some out
      else
        let idx = (dm_first s + i) mod DM_MAX_LINES; row = dm_copy_line s idx (DM_MAX_LINE + 1)
        in case (if row = [] \<or> hd row \<noteq> CHR ''['' then dm_ts_buf outsz (dm_line_tick s idx) out else Some out) of
             None \<Rightarrow> None
           | Some out1 \<Rightarrow> tail_loop s outsz is (fold (put_lim outsz) row out1))"

text \<open>The string left in the caller's buffer; \<open>None\<close> when the call never returns.\<close>

definition dmesg_tail :: "nat \<Rightarrow> int \<Rightarrow> dmesg \<Rightarrow> string option" where
  "dmesg_tail outsz n s =
     (case dm_snapshot s n of (first, start, cnt) \<Rightarrow>
        if outsz = 0 \<or> cnt = 0 then Some [] else tail_loop s outsz [start..<cnt] [])"

definition dmesg_lines :: "dmesg \<Rightarrow> nat" where
  "dmesg_lines s = dm_cnt s"

section \<open>The log as a list of lines\<close>

type_synonym log = "(string \<times> u32) list"

definition flat :: "log \<Rightarrow> string" where
  "flat ls = concat (map (\<lambda>(t, _). t @ [NL]) ls)"

lemma flat_simps [simp]: "flat [] = []" "flat (l # ls) = fst l @ [NL] @ flat ls" "flat (xs @ ys) = flat xs @ flat ys"
  by (auto simp: flat_def split: prod.splits)

text \<open>\<open>base\<close> is the position of the oldest character.\<close>

definition dm_rep :: "dmesg \<Rightarrow> nat \<Rightarrow> log \<Rightarrow> bool" where
  "dm_rep s base ls \<longleftrightarrow>
     dm_first s < DM_MAX_LINES \<and> dm_cnt s = length ls \<and> length ls \<le> DM_MAX_LINES \<and> dm_bytes s = length (flat ls) \<and> length (flat ls) \<le> DM_BUF_SIZE \<and>
     unat (dm_seq s) mod DM_BUF_SIZE = (base + length (flat ls)) mod DM_BUF_SIZE \<and>
     (\<forall>k < length (flat ls). dm_buf s ((base + k) mod DM_BUF_SIZE) = flat ls ! k) \<and>
     (\<forall>i < length ls. unat (l_start (dm_line s ((dm_first s + i) mod DM_MAX_LINES))) mod DM_BUF_SIZE =
          (base + length (flat (take i ls))) mod DM_BUF_SIZE \<and>
        l_len (dm_line s ((dm_first s + i) mod DM_MAX_LINES)) = length (fst (ls ! i)) + 1 \<and>
        l_tick (dm_line s ((dm_first s + i) mod DM_MAX_LINES)) = snd (ls ! i)) \<and>
     (\<forall>l \<in> set ls. length (fst l) \<le> DM_MAX_LINE)"

text \<open>The index entry of line i.\<close>

definition entry :: "dmesg \<Rightarrow> nat \<Rightarrow> dm_line_t" where
  "entry s i = dm_line s ((dm_first s + i) mod DM_MAX_LINES)"

lemma dm_repD:
  assumes "dm_rep s base ls"
  shows "dm_first s < DM_MAX_LINES" "dm_cnt s = length ls" "length ls \<le> DM_MAX_LINES" "dm_bytes s = length (flat ls)"
    "length (flat ls) \<le> DM_BUF_SIZE" "unat (dm_seq s) mod DM_BUF_SIZE = (base + length (flat ls)) mod DM_BUF_SIZE"
    "k < length (flat ls) \<Longrightarrow> dm_buf s ((base + k) mod DM_BUF_SIZE) = flat ls ! k"
    "i < length ls \<Longrightarrow> unat (l_start (entry s i)) mod DM_BUF_SIZE = (base + length (flat (take i ls))) mod DM_BUF_SIZE"
    "i < length ls \<Longrightarrow> l_len (entry s i) = length (fst (ls ! i)) + 1" "i < length ls \<Longrightarrow> l_tick (entry s i) = snd (ls ! i)"
    "l \<in> set ls \<Longrightarrow> length (fst l) \<le> DM_MAX_LINE"
  using assms unfolding dm_rep_def entry_def by blast+

lemma dm_repI:
  assumes "dm_first s < DM_MAX_LINES" "dm_cnt s = length ls" "length ls \<le> DM_MAX_LINES" "dm_bytes s = length (flat ls)"
    "length (flat ls) \<le> DM_BUF_SIZE" "unat (dm_seq s) mod DM_BUF_SIZE = (base + length (flat ls)) mod DM_BUF_SIZE"
    "\<And>k. k < length (flat ls) \<Longrightarrow> dm_buf s ((base + k) mod DM_BUF_SIZE) = flat ls ! k"
    "\<And>i. i < length ls \<Longrightarrow> unat (l_start (entry s i)) mod DM_BUF_SIZE = (base + length (flat (take i ls))) mod DM_BUF_SIZE"
    "\<And>i. i < length ls \<Longrightarrow> l_len (entry s i) = length (fst (ls ! i)) + 1" "\<And>i. i < length ls \<Longrightarrow> l_tick (entry s i) = snd (ls ! i)"
    "\<And>l. l \<in> set ls \<Longrightarrow> length (fst l) \<le> DM_MAX_LINE"
  shows "dm_rep s base ls"
  unfolding dm_rep_def entry_def [symmetric] using assms by blast

lemma drop_oldest_entry:
  "entry (drop_oldest s) i = entry s (Suc i)"
proof -
  have "((dm_first s + 1) mod DM_MAX_LINES + i) mod DM_MAX_LINES = (dm_first s + Suc i) mod DM_MAX_LINES"
    by (simp add: mod_add_left_eq)
  then show ?thesis by (simp add: entry_def drop_oldest_def)
qed

lemma drop_oldest_rep:
  assumes r: "dm_rep s base (l # ls)"
  shows "dm_rep (drop_oldest s) (base + (length (fst l) + 1)) ls"
proof (rule dm_repI)
  note d = dm_repD [OF r]
  have f0: "dm_line s (dm_first s) = entry s 0" using d(1) by (simp add: entry_def)
  show "dm_bytes (drop_oldest s) = length (flat ls)" using d(4) d(9) [of 0] f0 by (simp add: drop_oldest_def)
  show "unat (dm_seq (drop_oldest s)) mod DM_BUF_SIZE = (base + (length (fst l) + 1) + length (flat ls)) mod DM_BUF_SIZE"
    using d(6) by (simp add: drop_oldest_def algebra_simps)
  show "dm_buf (drop_oldest s) ((base + (length (fst l) + 1) + k) mod DM_BUF_SIZE) = flat ls ! k" if "k < length (flat ls)" for k
    using d(7) [of "length (fst l) + 1 + k"] that by (simp add: drop_oldest_def algebra_simps nth_append)
  show "unat (l_start (entry (drop_oldest s) i)) mod DM_BUF_SIZE = (base + (length (fst l) + 1) + length (flat (take i ls))) mod DM_BUF_SIZE"
    if "i < length ls" for i using d(8) [of "Suc i"] that unfolding drop_oldest_entry by (simp add: algebra_simps)
  show "l_len (entry (drop_oldest s) i) = length (fst (ls ! i)) + 1" if "i < length ls" for i
    using d(9) [of "Suc i"] that unfolding drop_oldest_entry by simp
  show "l_tick (entry (drop_oldest s) i) = snd (ls ! i)" if "i < length ls" for i
    using d(10) [of "Suc i"] that unfolding drop_oldest_entry by simp
  show "length (fst x) \<le> DM_MAX_LINE" if "x \<in> set ls" for x using d(11) that by simp
qed (use dm_repD [OF r] in \<open>simp_all add: drop_oldest_def\<close>)

text \<open>The lists that the evictions leave.\<close>

fun trim :: "nat \<Rightarrow> log \<Rightarrow> log" where
  "trim need [] = []"
| "trim need (l # ls) = (if length (flat (l # ls)) + need > DM_BUF_SIZE then trim need ls else l # ls)"

lemma evict_rep:
  assumes "dm_rep s base ls"
  shows "\<exists>base'. dm_rep (evict need s) base' (trim need ls)"
  using assms
proof (induction ls arbitrary: s base)
  case Nil
  then have "evict need s = s" using dm_repD(2) [OF Nil] by (simp add: evict.simps [of need s])
  then show ?case using Nil by auto
next
  case (Cons l ls)
  note d = dm_repD [OF Cons.prems]
  show ?case
  proof (cases "length (flat (l # ls)) + need > DM_BUF_SIZE")
    case True
    then have "evict need s = evict need (drop_oldest s)" using d(2,4) by (simp add: evict.simps [of need s])
    then show ?thesis using Cons.IH [OF drop_oldest_rep [OF Cons.prems]] True by simp
  next
    case False
    then have "evict need s = s" using d(4) by (simp add: evict.simps [of need s])
    then show ?thesis using Cons.prems False by auto
  qed
qed

lemma trim_fits: "need \<le> DM_BUF_SIZE \<Longrightarrow> length (flat (trim need ls)) + need \<le> DM_BUF_SIZE"
  by (induction ls) auto

lemma evict_frame: "dm_cur (evict need s) = dm_cur s" "dm_serial (evict need s) = dm_serial s"
proof -
  have "dm_cur (evict need s) = dm_cur s \<and> dm_serial (evict need s) = dm_serial s"
  proof (induction need s rule: evict.induct)
    case (1 need s)
    have "evict need s = (if dm_cnt s > 0 \<and> dm_bytes s + need > DM_BUF_SIZE then evict need (drop_oldest s) else s)"
      by (rule evict.simps)
    moreover have "dm_cur (drop_oldest s) = dm_cur s \<and> dm_serial (drop_oldest s) = dm_serial s" by (simp add: drop_oldest_def)
    ultimately show ?case using 1 by metis
  qed
  then show "dm_cur (evict need s) = dm_cur s" "dm_serial (evict need s) = dm_serial s" by blast+
qed

lemma dm_pos_mod: "dm_pos start k = (unat start + k) mod DM_BUF_SIZE"
proof -
  have "unat (start + of_nat k) = (unat start + k mod 2 ^ 64) mod 2 ^ 64"
    by (simp add: unat_word_ariths unat_of_nat)
  then have e: "unat (start + of_nat k) = (unat start + k) mod 2 ^ 64" by (simp only: mod_add_right_eq)
  have "DM_BUF_SIZE dvd (2 ^ 64 :: nat)" by simp
  then show ?thesis unfolding dm_pos_def e by (rule mod_mod_cancel)
qed

lemma store_at_get:
  assumes "unat start mod DM_BUF_SIZE = (base + c) mod DM_BUF_SIZE" and "c + k + length cs \<le> DM_BUF_SIZE" and "j < c + k + length cs"
  shows "store_at start k cs b ((base + j) mod DM_BUF_SIZE) =
    (if j < c + k then b ((base + j) mod DM_BUF_SIZE) else cs ! (j - (c + k)))"
  using assms
proof (induction cs arbitrary: k b)
  case Nil
  then show ?case by simp
next
  case (Cons x cs)
  have "(unat start + k) mod DM_BUF_SIZE = (base + c + k) mod DM_BUF_SIZE"
    using mod_add_cong [OF Cons.prems(1) refl, of k] by simp
  then have p: "dm_pos start k = (base + (c + k)) mod DM_BUF_SIZE" by (simp add: dm_pos_mod add.assoc)
  have "store_at start k (x # cs) b ((base + j) mod DM_BUF_SIZE) =
      (if j < c + Suc k then (b(dm_pos start k := x)) ((base + j) mod DM_BUF_SIZE) else cs ! (j - (c + Suc k)))"
    using Cons.IH [of "Suc k"] Cons.prems by simp
  also have "\<dots> = (if j < c + k then b ((base + j) mod DM_BUF_SIZE) else (x # cs) ! (j - (c + k)))"
  proof (cases "j < c + k")
    case True
    then have "(base + j) mod DM_BUF_SIZE \<noteq> dm_pos start k"
      unfolding p using ring_window_inj [of base j DM_BUF_SIZE "c + k"] Cons.prems(2) by auto
    then show ?thesis using True by simp
  next
    case False
    then show ?thesis by (cases "j = c + k") (auto simp: p)
  qed
  finally show ?case .
qed

lemma append_rep:
  assumes r: "dm_rep s base ls" and n: "length (flat ls) + (length t + 1) \<le> DM_BUF_SIZE" and c: "length ls < DM_MAX_LINES"
    and t: "length t \<le> DM_MAX_LINE"
  defines "slot \<equiv> (dm_first s + dm_cnt s) mod DM_MAX_LINES"
  shows "dm_rep (s\<lparr>dm_line := (dm_line s)(slot := \<lparr>l_start = dm_seq s, l_len = length t + 1, l_tick = tick\<rparr>),
      dm_buf := store_at (dm_seq s) 0 (t @ [NL]) (dm_buf s), dm_seq := dm_seq s + of_nat (length t + 1),
      dm_cnt := dm_cnt s + 1, dm_bytes := dm_bytes s + (length t + 1), dm_cur := []\<rparr>) base (ls @ [(t, tick)])"
    (is "dm_rep ?s base ?ls")
proof (rule dm_repI)
  note d = dm_repD [OF r]
  have en: "entry ?s i = (if i = length ls then \<lparr>l_start = dm_seq s, l_len = length t + 1, l_tick = tick\<rparr> else entry s i)"
    if "i < length ?ls" for i
  proof -
    have "(dm_first s + i) mod DM_MAX_LINES = slot \<longleftrightarrow> i = length ls"
      using ring_window_inj [of "dm_first s" i DM_MAX_LINES "length ls"] that c d(2) by (auto simp: slot_def)
    then show ?thesis by (simp add: entry_def)
  qed
  show "unat (dm_seq ?s) mod DM_BUF_SIZE = (base + length (flat ?ls)) mod DM_BUF_SIZE"
  proof -
    have "unat (dm_seq ?s) mod DM_BUF_SIZE = (unat (dm_seq s) + (length t + 1)) mod DM_BUF_SIZE"
      using dm_pos_mod [of "dm_seq s" "length t + 1"] by (simp add: dm_pos_def)
    also have "\<dots> = (base + length (flat ls) + (length t + 1)) mod DM_BUF_SIZE" by (rule mod_add_cong [OF d(6) refl])
    finally show ?thesis by (simp add: add.assoc)
  qed
  show "dm_buf ?s ((base + k) mod DM_BUF_SIZE) = flat ?ls ! k" if "k < length (flat ?ls)" for k
    using store_at_get [OF d(6), of 0 "t @ [NL]" k "dm_buf s"] d(7) [of k] that n by (simp add: nth_append)
  show "unat (l_start (entry ?s i)) mod DM_BUF_SIZE = (base + length (flat (take i ?ls))) mod DM_BUF_SIZE" if "i < length ?ls" for i
    unfolding en [OF that] using d(6) d(8) [of i] that by auto
  show "l_len (entry ?s i) = length (fst (?ls ! i)) + 1" if "i < length ?ls" for i
    unfolding en [OF that] using d(9) [of i] that by (auto simp: nth_append)
  show "l_tick (entry ?s i) = snd (?ls ! i)" if "i < length ?ls" for i
    unfolding en [OF that] using d(10) [of i] that by (auto simp: nth_append)
  show "length (fst x) \<le> DM_MAX_LINE" if "x \<in> set ?ls" for x using d(11) [of x] t that by auto
qed (use dm_repD [OF r] n c in simp_all)

text \<open>A finished line: the oldest lines give way, first for its bytes, then for its index entry.\<close>

definition log_push :: "string \<times> u32 \<Rightarrow> log \<Rightarrow> log" where
  "log_push l ls =
     (let ls1 = trim (length (fst l) + 1) ls; ls2 = (if length ls1 = DM_MAX_LINES then tl ls1 else ls1) in ls2 @ [l])"

lemma dm_push_line_rep:
  assumes r: "dm_rep s base ls" and t: "length (dm_cur s) \<le> DM_MAX_LINE"
  shows "\<exists>base'. dm_rep (dm_push_line tick s) base' (log_push (dm_cur s, tick) ls)" and "dm_cur (dm_push_line tick s) = []"
proof -
  let ?need = "length (dm_cur s) + 1"
  define s1 where "s1 = evict ?need s"
  define ls1 where "ls1 = trim ?need ls"
  define s2 where "s2 = (if dm_cnt s1 = DM_MAX_LINES then drop_oldest s1 else s1)"
  define ls2 where "ls2 = (if length ls1 = DM_MAX_LINES then tl ls1 else ls1)"
  obtain base1 where r1: "dm_rep s1 base1 ls1" using evict_rep [OF r] unfolding s1_def ls1_def by blast
  have n: "?need \<le> DM_BUF_SIZE" using t by simp
  have fit1: "length (flat ls1) + ?need \<le> DM_BUF_SIZE" unfolding ls1_def by (rule trim_fits [OF n])
  have fit: "length (flat ls2) + ?need \<le> DM_BUF_SIZE" using fit1 by (cases ls1) (simp_all add: ls2_def)
  have c2: "dm_cur s2 = dm_cur s" by (simp add: s2_def s1_def drop_oldest_def evict_frame)
  have "\<exists>base2. dm_rep s2 base2 ls2 \<and> length ls2 < DM_MAX_LINES"
  proof (cases "length ls1 = DM_MAX_LINES")
    case True
    then obtain l ls' where e: "ls1 = l # ls'" by (cases ls1) auto
    have "dm_rep (drop_oldest s1) (base1 + (length (fst l) + 1)) ls'" by (rule drop_oldest_rep) (use r1 e in simp)
    then show ?thesis using True e dm_repD(2) [OF r1] by (auto simp: s2_def ls2_def)
  next
    case False
    then show ?thesis using r1 dm_repD(2,3) [OF r1] by (auto simp: s2_def ls2_def)
  qed
  then obtain base2 where r2: "dm_rep s2 base2 ls2" "length ls2 < DM_MAX_LINES" by blast
  have ps: "dm_push_line tick s = s2\<lparr>dm_line := (dm_line s2)((dm_first s2 + dm_cnt s2) mod DM_MAX_LINES :=
        \<lparr>l_start = dm_seq s2, l_len = ?need, l_tick = tick\<rparr>),
      dm_buf := store_at (dm_seq s2) 0 (dm_cur s @ [NL]) (dm_buf s2), dm_seq := dm_seq s2 + of_nat ?need,
      dm_cnt := dm_cnt s2 + 1, dm_bytes := dm_bytes s2 + ?need, dm_cur := []\<rparr>"
    using n c2 unfolding dm_push_line_def Let_def s1_def [symmetric] s2_def [symmetric] by simp
  have "dm_rep (dm_push_line tick s) base2 (ls2 @ [(dm_cur s, tick)])"
    unfolding ps by (rule append_rep [OF r2(1) fit r2(2) t])
  moreover have "log_push (dm_cur s, tick) ls = ls2 @ [(dm_cur s, tick)]"
    by (simp add: log_push_def ls1_def ls2_def Let_def)
  ultimately show "\<exists>base'. dm_rep (dm_push_line tick s) base' (log_push (dm_cur s, tick) ls)" by auto
  show "dm_cur (dm_push_line tick s) = []" unfolding ps by simp
qed

text \<open>What the writers do, on the list of finished lines and the line being collected.\<close>

definition log_char :: "u32 \<Rightarrow> char \<Rightarrow> log \<times> string \<Rightarrow> log \<times> string" where
  "log_char tick c = (\<lambda>(ls, cur).
     if c = NL then (log_push (cur, tick) ls, []) else if length cur < DM_MAX_LINE then (ls, cur @ [c]) else (ls, cur))"

definition log_write :: "u32 \<times> string \<Rightarrow> log \<times> string \<Rightarrow> log \<times> string" where
  "log_write w = fold (log_char (fst w)) (snd w)"

definition dm_state :: "dmesg \<Rightarrow> log \<times> string \<Rightarrow> bool" where
  "dm_state s l \<longleftrightarrow> (\<exists>base. dm_rep s base (fst l)) \<and> dm_cur s = snd l \<and> length (snd l) \<le> DM_MAX_LINE"

lemma push_char_state: "dm_state s l \<Longrightarrow> dm_state (push_char tick c s) (log_char tick c l)"
proof -
  assume a: "dm_state s l"
  obtain ls cur where l: "l = (ls, cur)" by (cases l)
  obtain base where r: "dm_rep s base ls" and c: "dm_cur s = cur" "length cur \<le> DM_MAX_LINE"
    using a l by (auto simp: dm_state_def)
  have keep: "dm_rep (s\<lparr>dm_cur := x\<rparr>) base ls" for x using r by (simp add: dm_rep_def)
  show ?thesis
  proof (cases "c = NL")
    case True
    then show ?thesis using dm_push_line_rep [OF r, of tick] c by (simp add: push_char_def log_char_def dm_state_def l)
  next
    case False
    then show ?thesis using keep r c by (auto simp: push_char_def log_char_def dm_state_def l)
  qed
qed

lemma push_chars_state: "dm_state s l \<Longrightarrow> dm_state (fold (push_char tick) cs s) (fold (log_char tick) cs l)"
  by (induction cs arbitrary: s l) (simp_all add: push_char_state)

lemma dmesg_write_state: "dm_state s l \<Longrightarrow> dm_state (dmesg_write tick line s) (log_write (tick, line) l)"
  unfolding dmesg_write_def dmesg_push_def log_write_def fst_conv snd_conv
  by (rule push_chars_state) (simp add: dm_state_def dm_rep_def)

lemma dm_copy_line_rep:
  assumes r: "dm_rep s base ls" and i: "i < length ls"
  shows "dm_copy_line s ((dm_first s + i) mod DM_MAX_LINES) (DM_MAX_LINE + 1) = fst (ls ! i) @ [NL]"
proof (rule nth_equalityI)
  note d = dm_repD [OF r]
  let ?e = "(dm_first s + i) mod DM_MAX_LINES" and ?t = "fst (ls ! i)"
  have ln: "l_len (dm_line s ?e) = length ?t + 1" and le: "length ?t \<le> DM_MAX_LINE"
    using d(9) [OF i] d(11) [of "ls ! i"] i by (simp_all add: entry_def)
  show "length (dm_copy_line s ?e (DM_MAX_LINE + 1)) = length (?t @ [NL])" using ln le by (simp add: dm_copy_line_def)
  fix k assume "k < length (dm_copy_line s ?e (DM_MAX_LINE + 1))"
  then have k: "k < length ?t + 1" using ln le by (simp add: dm_copy_line_def)
  have sp: "flat ls = flat (take i ls) @ ?t @ [NL] @ flat (drop (Suc i) ls)"
  proof -
    have "ls = take i ls @ ls ! i # drop (Suc i) ls" by (rule id_take_nth_drop [OF i])
    then have "flat ls = flat (take i ls @ ls ! i # drop (Suc i) ls)" by simp
    then show ?thesis by simp
  qed
  let ?p = "length (flat (take i ls))"
  have kb: "?p + k < length (flat ls)" using k unfolding sp by simp
  have "dm_char s ?e k = dm_buf s ((unat (l_start (entry s i)) + k) mod DM_BUF_SIZE)"
    by (simp add: dm_char_def dm_pos_mod entry_def)
  also have "\<dots> = dm_buf s ((base + (?p + k)) mod DM_BUF_SIZE)"
    using mod_add_cong [OF d(8) [OF i] refl, of k] by (simp add: add.assoc)
  also have "\<dots> = flat ls ! (?p + k)" by (rule d(7) [OF kb])
  also have "\<dots> = (?t @ [NL]) ! k" unfolding sp using k by (simp add: nth_append)
  finally have ch: "dm_char s ?e k = (?t @ [NL]) ! k" .
  have "dm_copy_line s ?e (DM_MAX_LINE + 1) ! k = dm_char s ?e k" using k ln le by (simp add: dm_copy_line_def del: upt_Suc)
  then show "dm_copy_line s ?e (DM_MAX_LINE + 1) ! k = (?t @ [NL]) ! k" unfolding ch .
qed

definition log_out :: "string \<times> u32 \<Rightarrow> string" where
  "log_out l = (case l of (t, tick) \<Rightarrow> (if t = [] \<or> hd t \<noteq> CHR ''['' then dm_ts_put tick else []) @ t @ [NL])"

lemma line_out_rep:
  assumes "dm_rep s base ls" and "i < length ls"
  shows "line_out s ((dm_first s + i) mod DM_MAX_LINES) = log_out (ls ! i)"
  using dm_copy_line_rep [OF assms] dm_repD(10) [OF assms]
  by (cases "ls ! i"; cases "fst (ls ! i)") (simp_all add: line_out_def log_out_def dm_line_tick_def entry_def)

lemma dmesg_dump_rep:
  assumes "dm_rep s base ls"
  shows "dmesg_dump n s = (let k = (if n > 0 \<and> nat n < length ls then length ls - nat n else 0)
     in (length ls - k, concat (map log_out (drop k ls))))"
proof -
  let ?k = "if n > 0 \<and> nat n < length ls then length ls - nat n else 0"
  note d = dm_repD(2) [OF assms]
  have "map (\<lambda>i. line_out s ((dm_first s + i) mod DM_MAX_LINES)) [?k..<length ls] = map (\<lambda>i. log_out (ls ! i)) [?k..<length ls]"
    by (rule map_cong [OF refl]) (use line_out_rep [OF assms] in simp)
  also have "\<dots> = map log_out (drop ?k ls)" by (rule nth_equalityI) simp_all
  finally show ?thesis using d
    by (cases "n > 0 \<and> nat n < length ls"; cases ls) (auto simp: dmesg_dump_def dm_snapshot_def Let_def simp del: upt_Suc)
qed

text \<open>C22: The kernel log keeps its lines intact. After any sequence of writes (with arbitrary
  texts, ticks and lengths) from a state that stands for a log, dmesg_dump prints exactly the
  lines of the log that the same writes produce on a list: the newest lines that fit into 32768
  bytes and 256 entries, each unbroken and in order, with a time stamp unless it brings its own.\<close>
theorem dmesg_dump_exact:
  assumes "dm_state s l"
  shows "\<exists>ls cur. fold log_write ws l = (ls, cur) \<and> length ls \<le> DM_MAX_LINES \<and> length (flat ls) \<le> DM_BUF_SIZE \<and>
    dmesg_dump 0 (fold (\<lambda>(tick, line). dmesg_write tick line) ws s) = (length ls, concat (map log_out ls))"
proof -
  have "dm_state (fold (\<lambda>(tick, line). dmesg_write tick line) ws s) (fold log_write ws l)"
    using assms by (induction ws arbitrary: s l) (auto simp: dmesg_write_state split: prod.splits)
  then obtain base where r: "dm_rep (fold (\<lambda>(tick, line). dmesg_write tick line) ws s) base (fst (fold log_write ws l))"
    unfolding dm_state_def by blast
  show ?thesis
    using dmesg_dump_rep [OF r, of 0] dm_repD(3,5) [OF r] by (cases "fold log_write ws l") (simp add: Let_def)
qed

definition dmesg0 :: dmesg where
  "dmesg0 = \<lparr>dm_buf = \<lambda>_. CHR 0x00, dm_seq = 0, dm_line = \<lambda>_. \<lparr>l_start = 0, l_len = 0, l_tick = 0\<rparr>, dm_first = 0, dm_cnt = 0,
     dm_bytes = 0, dm_cur = [], dm_serial = []\<rparr>"

lemma dmesg0_state: "dm_state dmesg0 ([], [])"
  by (auto simp: dm_state_def dm_rep_def dmesg0_def intro!: exI [of _ 0])

theorem dmesg_dump_exact_witness:
  "dmesg_dump 0 (fold (\<lambda>(tick, line). dmesg_write tick line) [(5, ''[a'' @ [NL] @ ''[b''), (7, [NL])] dmesg0) =
    (2, ''[a'' @ [NL] @ ''[b'' @ [NL])"
proof -
  have "fold log_write [(5, ''[a'' @ [NL] @ ''[b''), (7, [NL])] ([], []) = ([(''[a'', 5), (''[b'', 7)], [])"
    by (simp add: log_write_def log_char_def log_push_def)
  then show ?thesis using dmesg_dump_exact [OF dmesg0_state, of "[(5, ''[a'' @ [NL] @ ''[b''), (7, [NL])]"]
    by (simp add: log_out_def)
qed

section \<open>A loop that does not end\<close>

lemma ts_digits_room:
  assumes "length out + length b < lim"
  shows "ts_digits lim b out = Some (out @ rev b)"
  using assms
proof (induction b arbitrary: out rule: rev_induct)
  case Nil
  then show ?case by (subst ts_digits.simps) simp
next
  case (snoc x b)
  then show ?case by (subst ts_digits.simps) simp
qed

lemma ts_digits_stuck:
  assumes "b \<noteq> []" and "lim \<le> length out + 1"
  shows "ts_digits lim b out = None"
proof (rule ccontr)
  assume "ts_digits lim b out \<noteq> None"
  then obtain y where "ts_digits lim b out = Some y" by blast
  then have "b = [] \<or> \<not> lim \<le> length out + 1"
    by (rule ts_digits.raw_induct [rotated, where P = "\<lambda>lim b out y. b = [] \<or> \<not> lim \<le> length out + 1"])
      (auto split: if_splits simp flip: not_less)
  then show False using assms by simp
qed

lemma ts_digits_no_room:
  assumes "b \<noteq> []" and "lim \<le> length out + length b"
  shows "ts_digits lim b out = None"
  using assms
proof (induction b arbitrary: out rule: rev_induct)
  case (snoc x b)
  show ?case
  proof (cases "length out + 1 < lim")
    case True
    then have "b \<noteq> []" using snoc.prems by auto
    then have "ts_digits lim b (out @ [x]) = None" using snoc by simp
    then show ?thesis using True by (subst ts_digits.simps) simp
  next
    case False
    then show ?thesis by (intro ts_digits_stuck) simp_all
  qed
qed simp

lemma length_put_lim: "length out < lim \<Longrightarrow> length (fold (put_lim lim) cs out) = min (lim - 1) (length out + length cs)"
  by (induction cs arbitrary: out) (auto simp: put_lim_def)

lemma sec_digits_nonempty: "sec_digits n \<noteq> []"
  by (simp add: sec_digits_def rev_digits.simps [of n])

lemma take_of_take: "take n (take n xs @ ys) = take n (xs @ ys)"
  by (cases "n \<le> length xs") simp_all

lemma fold_put_lim: "length out < lim \<Longrightarrow> fold (put_lim lim) cs out = take (lim - 1) (out @ cs)"
proof (induction cs arbitrary: out)
  case (Cons c cs)
  then show ?case by (cases "length out + 1 < lim") (simp_all add: put_lim_def take_Cons')
qed simp

text \<open>The length of a time stamp up to and including the seconds.\<close>

definition stamp_secs :: "u32 \<Rightarrow> nat" where
  "stamp_secs tick = 2 + max 4 (length (sec_digits (unat tick div 1000)))"

lemma dm_ts_buf_exact:
  assumes "length out + 1 < lim"
  shows "dm_ts_buf lim tick out =
    (if lim \<le> length out + stamp_secs tick then None else Some (take (lim - 1) (out @ dm_ts_put tick)))"
proof -
  let ?b = "sec_digits (unat tick div 1000)"
  let ?pre = "''[ '' @ replicate (4 - length ?b) CHR '' ''"
  let ?out = "fold (put_lim lim) ?pre out"
  let ?post = "''.'' @ usec_digits (unat tick mod 1000 * 1000) @ ''] ''"
  have n: "length ?pre + length ?b = stamp_secs tick" by (simp add: stamp_secs_def)
  have p: "1 \<le> length ?b" using sec_digits_nonempty by (simp add: Suc_le_eq)
  have o: "?out = take (lim - 1) (out @ ?pre)" by (rule fold_put_lim) (use assms in simp)
  show ?thesis
  proof (cases "lim \<le> length out + stamp_secs tick")
    case True
    have "length ?out = min (length out + length ?pre) (lim - 1)" by (simp only: o length_take length_append)
    then have "lim \<le> length ?out + length ?b" using True n p assms by linarith
    then have "ts_digits lim ?b ?out = None" by (rule ts_digits_no_room [OF sec_digits_nonempty])
    then show ?thesis using True by (simp add: dm_ts_buf_def Let_def)
  next
    case False
    then have r: "length out + length ?pre + length ?b < lim" using n by linarith
    have e: "?out = out @ ?pre" unfolding o by (rule take_all) (use r in simp)
    have "ts_digits lim ?b ?out = Some (?out @ rev ?b)" unfolding e by (rule ts_digits_room) (use r in simp)
    moreover have "fold (put_lim lim) ?post (?out @ rev ?b) = take (lim - 1) ((?out @ rev ?b) @ ?post)"
      unfolding e by (rule fold_put_lim) (use r in simp)
    moreover have "(?out @ rev ?b) @ ?post = out @ dm_ts_put tick" unfolding e dm_ts_put_def Let_def by simp
    ultimately show ?thesis using False unfolding dm_ts_buf_def Let_def by (simp only: option.map if_False)
  qed
qed

text \<open>
  The text of the lines, from position \<open>p\<close> on, is cut by a limit of \<open>outsz - 1\<close> characters within
  a time stamp before the last digit of its seconds has been stored.
\<close>

primrec stamp_cut :: "nat \<Rightarrow> nat \<Rightarrow> log \<Rightarrow> bool" where
  "stamp_cut outsz p [] = False"
| "stamp_cut outsz p (l # ls) =
     ((fst l = [] \<or> hd (fst l) \<noteq> CHR ''['') \<and> p + 1 < outsz \<and> outsz \<le> p + stamp_secs (snd l) \<or>
      stamp_cut outsz (p + length (log_out l)) ls)"

lemma stamp_cut_full: "outsz \<le> p + 1 \<Longrightarrow> \<not> stamp_cut outsz p ls"
  by (induction ls arbitrary: p) simp_all

lemma tail_loop_rep:
  assumes r: "dm_rep s base ls" and "k \<le> length ls" and "length out < outsz"
  shows "tail_loop s outsz [k..<length ls] out =
    (if stamp_cut outsz (length out) (drop k ls) then None
     else Some (take (outsz - 1) (out @ concat (map log_out (drop k ls)))))"
  using assms(2,3)
proof (induction "length ls - k" arbitrary: k out)
  case 0
  then show ?case by simp
next
  case (Suc m)
  then have k: "k < length ls" by simp
  obtain t tick where l: "ls ! k = (t, tick)" by fastforce
  have u: "[k..<length ls] = k # [Suc k..<length ls]" and d: "drop k ls = (t, tick) # drop (Suc k) ls"
    using k l by (simp_all add: upt_conv_Cons Cons_nth_drop_Suc [symmetric])
  let ?idx = "(dm_first s + k) mod DM_MAX_LINES" and ?own = "t = [] \<or> hd t \<noteq> CHR ''[''"
  have row: "dm_copy_line s ?idx (DM_MAX_LINE + 1) = t @ [NL]" using dm_copy_line_rep [OF r k] l by simp
  have tk: "dm_line_tick s ?idx = tick" using dm_repD(10) [OF r k] l by (simp add: entry_def dm_line_tick_def)
  have own: "hd (t @ [NL]) \<noteq> CHR ''['' \<longleftrightarrow> ?own" by (cases t) auto
  show ?case
  proof (cases "length out + 1 < outsz")
    case False
    then have "length out = outsz - 1" using Suc.prems by linarith
    then show ?thesis using False stamp_cut_full [of outsz "length out"] unfolding u by simp
  next
    case room: True
    let ?cut = "?own \<and> outsz \<le> length out + stamp_secs tick"
    have ts: "(if t @ [NL] = [] \<or> hd (t @ [NL]) \<noteq> CHR ''['' then dm_ts_buf outsz tick out else Some out) =
        (if ?cut then None else Some (take (outsz - 1) (out @ (if ?own then dm_ts_put tick else []))))"
      using room by (simp add: own dm_ts_buf_exact)
    have st: "tail_loop s outsz [k..<length ls] out =
        (case (if ?cut then None else Some (take (outsz - 1) (out @ (if ?own then dm_ts_put tick else [])))) of
           None \<Rightarrow> None | Some out1 \<Rightarrow> tail_loop s outsz [Suc k..<length ls] (fold (put_lim outsz) (t @ [NL]) out1))"
      unfolding u tail_loop.simps Let_def row tk ts using room by (simp only: not_True_eq_False if_False)
    show ?thesis
    proof (cases ?cut)
      case True
      then show ?thesis using room unfolding st d by simp
    next
      case False
      define o1 where "o1 = take (outsz - 1) (out @ (if ?own then dm_ts_put tick else []))"
      define o2 where "o2 = take (outsz - 1) (out @ log_out (t, tick))"
      have "fold (put_lim outsz) (t @ [NL]) o1 = take (outsz - 1) (o1 @ t @ [NL])"
        by (rule fold_put_lim) (use room in \<open>simp add: o1_def\<close>)
      also have "\<dots> = o2" unfolding o1_def o2_def take_of_take by (simp only: log_out_def prod.case append_assoc)
      finally have f: "fold (put_lim outsz) (t @ [NL]) o1 = o2" .
      have "tail_loop s outsz [k..<length ls] out = tail_loop s outsz [Suc k..<length ls] o2"
        using False unfolding st o1_def [symmetric] by (simp only: if_False option.case f)
      also have "\<dots> = (if stamp_cut outsz (length o2) (drop (Suc k) ls) then None
          else Some (take (outsz - 1) (o2 @ concat (map log_out (drop (Suc k) ls)))))"
        by (rule Suc.hyps(1)) (use Suc.hyps(2) k room in \<open>simp_all add: o2_def\<close>)
      also have "stamp_cut outsz (length o2) (drop (Suc k) ls) = stamp_cut outsz (length out) (drop k ls)"
      proof (cases "length out + length (log_out (t, tick)) < outsz")
        case True
        then have "length o2 = length out + length (log_out (t, tick))" by (simp add: o2_def)
        then show ?thesis using False unfolding d by auto
      next
        case f2: False
        then have "outsz \<le> length o2 + 1" by (simp add: o2_def)
        then show ?thesis using False f2 stamp_cut_full [of outsz] unfolding d by auto
      qed
      also have "take (outsz - 1) (o2 @ concat (map log_out (drop (Suc k) ls))) = take (outsz - 1) (out @ concat (map log_out (drop k ls)))"
        unfolding d o2_def take_of_take by (simp only: list.map concat.simps append_assoc)
      finally show ?thesis .
    qed
  qed
qed

text \<open>C23: What dmesg_tail does for every log, every number of lines asked for and every buffer: it
  returns exactly when its buffer does not fill up within the time stamp of a line shown (one
  that brings no stamp of its own) before the last digit of the seconds, and then the buffer
  holds the text of the lines shown, as dmesg_dump prints them, cut after outsz - 1 characters.
  Otherwise the loop over the digits of the seconds spins for ever.\<close>
theorem dmesg_tail_exact:
  assumes "dm_rep s base ls" and "0 < outsz"
  shows "dmesg_tail outsz n s =
    (let shown = drop (if n > 0 \<and> nat n < length ls then length ls - nat n else 0) ls
     in if stamp_cut outsz 0 shown then None else Some (take (outsz - 1) (concat (map log_out shown))))"
proof -
  note c = dm_repD(2) [OF assms(1)]
  show ?thesis
    using tail_loop_rep [OF assms(1), of _ "[]" outsz] assms(2) c
    by (cases "ls = []") (simp_all add: dmesg_tail_def dm_snapshot_def Let_def del: upt_Suc)
qed

text \<open>Two lines; a buffer of 20 bytes cuts the second, one of 8 bytes ends within the stamp of the second.\<close>

theorem dmesg_tail_exact_witness:
  "\<exists>s. s = fold (\<lambda>(tick, line). dmesg_write tick line) [(5, ''[a'' @ [NL]), (1234, ''boot'' @ [NL])] dmesg0 \<and>
     dmesg_tail 8 0 s = None \<and> dmesg_tail 20 0 s = Some (''[a'' @ [NL] @ ''[ '' @ replicate 3 CHR '' '' @ ''1.234000] b'')"
proof -
  let ?s = "fold (\<lambda>(tick, line). dmesg_write tick line) [(5, ''[a'' @ [NL]), (1234, ''boot'' @ [NL])] dmesg0"
  have "dm_state ?s (log_write (1234, ''boot'' @ [NL]) (log_write (5, ''[a'' @ [NL]) ([], [])))"
    by (simp add: dmesg_write_state dmesg0_state)
  moreover have "log_write (1234, ''boot'' @ [NL]) (log_write (5, ''[a'' @ [NL]) ([], [])) = ([(''[a'', 5), (''boot'', 1234)], [])"
    by (simp add: log_write_def log_char_def log_push_def)
  ultimately obtain base where r: "dm_rep ?s base [(''[a'', 5), (''boot'', 1234)]" by (auto simp: dm_state_def)
  have d: "sec_digits 1 = ''1''" "usec_digits 234000 = ''234000''"
    by (simp_all add: sec_digits_def rev_digits.simps usec_digits_def char_of_def bit_0)
  show ?thesis using dmesg_tail_exact [OF r, of 8 0] dmesg_tail_exact [OF r, of 20 0]
    by (simp add: log_out_def stamp_secs_def dm_ts_put_def d [unfolded One_nat_def])
qed

end
