(* ===== verification/TextEnc.thy ===== *)
theory TextEnc
  imports EzPrelude
begin

text \<open>
  The reference text algorithms of \<open>kernel/textenc.c\<close>, first half: UTF-16 to UTF-8 and back.
  Code units and bytes are natural numbers; a code point is at most 0x10FFFF, so the 32-bit
  arithmetic of the source never wraps, and every store into a byte or a 16-bit unit is
  written with its \<open>mod\<close>. The UTF-8 input is the memory from the start of the string on: the
  bytes, the terminating 0 and whatever follows it, and reading past what is there is a fault.
\<close>

section \<open>UTF-16 to UTF-8\<close>

definition need_utf8 :: "nat \<Rightarrow> nat" where
  "need_utf8 cp = (if cp < 0x80 then 1 else if cp < 0x800 then 2 else if cp < 0x10000 then 3 else 4)"

definition put_utf8 :: "nat \<Rightarrow> nat \<Rightarrow> nat list option" where
  "put_utf8 cp room =
     (let need = need_utf8 cp in
      if room < need then None
      else if need = 1 then Some [cp mod 256]
      else if need = 2 then Some [(0xC0 OR drop_bit 6 cp) mod 256, (0x80 OR (cp AND 0x3F)) mod 256]
      else if need = 3 then
        Some [(0xE0 OR drop_bit 12 cp) mod 256, (0x80 OR (drop_bit 6 cp AND 0x3F)) mod 256, (0x80 OR (cp AND 0x3F)) mod 256]
      else
        Some [(0xF0 OR drop_bit 18 cp) mod 256, (0x80 OR (drop_bit 12 cp AND 0x3F)) mod 256,
          (0x80 OR (drop_bit 6 cp AND 0x3F)) mod 256, (0x80 OR (cp AND 0x3F)) mod 256])"

text \<open>The next code point from the unit \<open>c\<close> and the units after it, and the units left.\<close>

definition next_cp :: "nat \<Rightarrow> nat list \<Rightarrow> nat \<times> nat list" where
  "next_cp c us =
     (if 0xD800 \<le> c \<and> c < 0xDC00 then
        (case us of
           [] \<Rightarrow> (0xFFFD, us)
         | lo # us' \<Rightarrow>
             if 0xDC00 \<le> lo \<and> lo < 0xE000 then (0x10000 + push_bit 10 (c - 0xD800) + (lo - 0xDC00), us') else (0xFFFD, us))
      else if 0xDC00 \<le> c \<and> c < 0xE000 then (0xFFFD, us)
      else (c, us))"

lemma next_cp_shorter: "next_cp c us = (cp, us') \<Longrightarrow> length us' \<le> length us"
  by (auto simp: next_cp_def split: if_splits list.splits)

text \<open>
  The result of a conversion and what it has stored into \<open>dst\<close> from its start on, also when the
  result is -1. \<open>ret_len\<close> is \<open>(int32_t)used\<close>.
\<close>

definition ret_len :: "nat \<Rightarrow> int" where
  "ret_len used = sint (of_nat used :: u32)"

function utf16_loop :: "nat \<Rightarrow> nat list \<Rightarrow> nat list \<Rightarrow> int \<times> nat list" where
  "utf16_loop cap [] out = (ret_len (length out), out @ [0])"
| "utf16_loop cap (c # us) out =
     (let cp = fst (next_cp c us); us' = snd (next_cp c us) in
      if cap - 1 \<le> length out then (-1, out)
      else case put_utf8 cp (cap - 1 - length out) of None \<Rightarrow> (-1, out) | Some bs \<Rightarrow> utf16_loop cap us' (out @ bs))"
  by pat_completeness auto
termination
  by (relation "measure (\<lambda>(cap, us, out). length us)") (auto simp: less_Suc_eq_le intro: next_cp_shorter prod.collapse [symmetric])

definition utf16_to_utf8_c :: "nat list \<Rightarrow> nat \<Rightarrow> int \<times> nat list" where
  "utf16_to_utf8_c us cap = (if us = [] \<or> cap = 0 then (-1, []) else utf16_loop cap us [])"

section \<open>UTF-8 to UTF-16\<close>

datatype read_result = Fault | Illegal | Got nat

definition cont :: "nat list \<Rightarrow> read_result" where
  "cont p = (case p of [] \<Rightarrow> Fault | b # _ \<Rightarrow> if b AND 0xC0 \<noteq> 0x80 then Illegal else Got (b AND 0x3F))"

text \<open>Read the continuation bytes at \<open>p\<close> one after the other, collecting their bits.\<close>

fun conts :: "nat \<Rightarrow> nat list \<Rightarrow> nat \<Rightarrow> read_result" where
  "conts 0 p v = Got v"
| "conts (Suc n) p v = (case cont p of Fault \<Rightarrow> Fault | Illegal \<Rightarrow> Illegal | Got c \<Rightarrow> conts n (tl p) (push_bit 6 v OR c))"

text \<open>Code point and number of bytes of the character at \<open>p\<close>; \<open>None\<close> when memory ends inside it.\<close>

definition take_cp :: "nat list \<Rightarrow> (nat \<times> nat) option" where
  "take_cp p =
     (let b = hd p;
          multi = (\<lambda>n v ok. case conts n (tl p) v of
                     Fault \<Rightarrow> None | Illegal \<Rightarrow> Some (0xFFFD, 1) | Got w \<Rightarrow> if ok w then Some (w, Suc n) else Some (0xFFFD, 1))
      in if b < 0x80 then Some (b, 1)
         else if b < 0xE0 then
           if b AND 0x1E = 0 then Some (0xFFFD, 1) else multi 1 (b AND 0x1F) (\<lambda>w. True)
         else if b < 0xF0 then
           if b AND 0x0F = 0 \<and> b < 0xE0 then Some (0xFFFD, 1)
           else multi 2 (b AND 0x0F) (\<lambda>w. \<not> (0xD800 \<le> w \<and> w < 0xE000 \<or> w < 0x800))
         else if b < 0xF8 then multi 3 (b AND 0x07) (\<lambda>w. \<not> (w < 0x10000 \<or> w > 0x10FFFF))
         else Some (0xFFFD, 1))"

definition put_units :: "nat \<Rightarrow> nat list" where
  "put_units cp =
     (if cp \<ge> 0x10000 then [(0xD800 + drop_bit 10 (cp - 0x10000)) mod 65536, (0xDC00 + ((cp - 0x10000) AND 0x3FF)) mod 65536]
      else [cp mod 65536])"

text \<open>The result and the units stored; \<open>Bad_read\<close> when memory ends inside a character.\<close>

datatype units_result = Bad_read | Ret int "nat list"

lemma take_cp_advances: "take_cp p = Some (cp, adv) \<Longrightarrow> 1 \<le> adv"
  by (auto simp: take_cp_def Let_def split: if_splits read_result.splits)

function utf8_loop :: "nat \<Rightarrow> nat list \<Rightarrow> nat list \<Rightarrow> units_result" where
  "utf8_loop cap p out =
     (case p of
        [] \<Rightarrow> Bad_read
      | b # _ \<Rightarrow>
          if b = 0 then Ret (ret_len (length out)) out
          else case take_cp p of
            None \<Rightarrow> Bad_read
          | Some (cp, adv) \<Rightarrow>
              if cap - length out < length (put_units cp) then Ret (-1) out else utf8_loop cap (drop adv p) (out @ put_units cp))"
  by pat_completeness auto
termination
  by (relation "measure (\<lambda>(cap, p, out). length p)") (auto dest: take_cp_advances)

declare utf8_loop.simps [simp del]

definition utf8_to_utf16_c :: "nat list \<Rightarrow> nat \<Rightarrow> units_result" where
  "utf8_to_utf16_c src cap = (if cap = 0 then Ret (-1) [] else utf8_loop cap src [])"

section \<open>Bits of bytes\<close>

lemma cont_byte: "c < 64 \<Longrightarrow> cont ((128 + c) # p) = Got c"
proof -
  assume "c < 64"
  then have "(128 + c) div 64 = 2" "(128 + c) mod 64 = c" using mod_mult_self3 [of 2 64 c] by simp_all
  then show ?thesis by (simp add: cont_def byte_masks)
qed

lemma or_lead: "x < 32 \<Longrightarrow> 0xC0 OR x = 0xC0 + x" "x < 16 \<Longrightarrow> 0xE0 OR x = 0xE0 + x" "x < 8 \<Longrightarrow> 0xF0 OR x = 0xF0 + x"
    "x < 64 \<Longrightarrow> 0x80 OR x = 0x80 + x" for x :: nat
  using or_disjoint [of x 5 6] or_disjoint [of x 4 14] or_disjoint [of x 3 30] or_disjoint [of x 6 2] by simp_all

lemma join_six: "c < 64 \<Longrightarrow> push_bit 6 v OR c = v * 64 + c" for v c :: nat
  using or_disjoint [of c 6 v] by (simp add: push_bit_eq_mult)

lemma lead_bits:
  "2 \<le> x \<Longrightarrow> x < 32 \<Longrightarrow> (192 + x) AND 0x1E \<noteq> 0" "x < 32 \<Longrightarrow> (192 + x) AND 0x1F = x"
  "x < 16 \<Longrightarrow> (224 + x) AND 0x0F = x" "x < 8 \<Longrightarrow> (240 + x) AND 0x07 = x" for x :: nat
proof -
  show "(192 + x) AND 0x1E \<noteq> 0" if "2 \<le> x" "x < 32"
  proof -
    have "(192 + x) div 2 = 6 * 16 + x div 2" by simp
    then have "(192 + x) div 2 mod 16 = x div 2" using mod_mult_self3 [of 6 16 "x div 2"] that by simp
    then show ?thesis using that by (simp add: byte_masks)
  qed
  show "x < 32 \<Longrightarrow> (192 + x) AND 0x1F = x" "x < 16 \<Longrightarrow> (224 + x) AND 0x0F = x" "x < 8 \<Longrightarrow> (240 + x) AND 0x07 = x"
    using mod_mult_self3 [of 6 32 x] mod_mult_self3 [of 14 16 x] mod_mult_self3 [of 30 8 x] by (simp_all add: byte_masks)
qed

section \<open>Characters\<close>

definition valid_cp :: "nat \<Rightarrow> bool" where
  "valid_cp cp \<longleftrightarrow> 0 < cp \<and> cp < 0x110000 \<and> \<not> (0xD800 \<le> cp \<and> cp < 0xE000)"

text \<open>The UTF-8 encoding, by division.\<close>

definition utf8 :: "nat \<Rightarrow> nat list" where
  "utf8 cp =
     (if cp < 0x80 then [cp]
      else if cp < 0x800 then [192 + cp div 64, 128 + cp mod 64]
      else if cp < 0x10000 then [224 + cp div 4096, 128 + cp div 64 mod 64, 128 + cp mod 64]
      else [240 + cp div 262144, 128 + cp div 4096 mod 64, 128 + cp div 64 mod 64, 128 + cp mod 64])"

lemma put_utf8_eq:
  assumes "cp < 0x110000"
  shows "put_utf8 cp room = (if room < length (utf8 cp) then None else Some (utf8 cp))"
proof -
  have m: "0x80 OR (x AND 0x3F) = 128 + x mod 64" "(128 + x mod 64) mod 256 = 128 + x mod 64" for x :: nat
    by (simp_all add: byte_masks or_lead(4))
  consider "cp < 0x80" | "0x80 \<le> cp" "cp < 0x800" | "0x800 \<le> cp" "cp < 0x10000" | "0x10000 \<le> cp" by linarith
  then show ?thesis
  proof cases
    case 1
    then show ?thesis by (simp add: put_utf8_def need_utf8_def utf8_def)
  next
    case 2
    then have "0xC0 OR drop_bit 6 cp = 192 + cp div 64" "(192 + cp div 64) mod 256 = 192 + cp div 64"
      using or_lead(1) [of "cp div 64"] by (simp_all add: drop_bit_eq_div less_mult_imp_div_less)
    then show ?thesis using 2 by (simp add: put_utf8_def need_utf8_def utf8_def m)
  next
    case 3
    then have "0xE0 OR drop_bit 12 cp = 224 + cp div 4096" "(224 + cp div 4096) mod 256 = 224 + cp div 4096"
      using or_lead(2) [of "cp div 4096"] by (simp_all add: drop_bit_eq_div less_mult_imp_div_less)
    then show ?thesis using 3 by (simp add: put_utf8_def need_utf8_def utf8_def m drop_bit_eq_div)
  next
    case 4
    then have "0xF0 OR drop_bit 18 cp = 240 + cp div 262144" "(240 + cp div 262144) mod 256 = 240 + cp div 262144"
      using or_lead(3) [of "cp div 262144"] assms by (simp_all add: drop_bit_eq_div less_mult_imp_div_less)
    then show ?thesis using 4 by (simp add: put_utf8_def need_utf8_def utf8_def m drop_bit_eq_div)
  qed
qed

lemma conts_step: "c < 64 \<Longrightarrow> conts (Suc n) ((128 + c) # p) v = conts n p (v * 64 + c)"
  by (simp add: cont_byte join_six)

lemma take_cp_utf8:
  assumes "valid_cp cp"
  shows "take_cp (utf8 cp @ rest) = Some (cp, length (utf8 cp))"
proof -
  consider "cp < 0x80" | "0x80 \<le> cp" "cp < 0x800" | "0x800 \<le> cp" "cp < 0x10000" | "0x10000 \<le> cp" by linarith
  then show ?thesis
  proof cases
    case 1
    then show ?thesis by (simp add: take_cp_def utf8_def)
  next
    case 2
    let ?x = "cp div 64"
    have x: "2 \<le> ?x" "?x < 32" using 2 by linarith+
    have "(192 + ?x) AND 0x1E \<noteq> 0" "(192 + ?x) AND 0x1F = ?x" using x lead_bits(1,2) by simp_all
    moreover have "?x * 64 + cp mod 64 = cp" by (rule div_mult_mod_eq)
    ultimately show ?thesis using 2 x conts_step [of "cp mod 64" 0 rest ?x] by (simp add: take_cp_def utf8_def)
  next
    case 3
    let ?x = "cp div 4096" and ?y = "cp div 64 mod 64" and ?z = "cp mod 64"
    have x: "?x < 16" using 3 by linarith
    have "(224 + ?x) AND 0x0F = ?x" by (rule lead_bits(3) [OF x])
    moreover have j: "(?x * 64 + ?y) * 64 + ?z = cp"
      using div_mult_mod_eq [of "cp div 64" 64] div_mult_mod_eq [of cp 64] by (simp add: div_mult2_eq [symmetric])
    moreover have "conts 2 ((128 + ?y) # (128 + ?z) # rest) ?x = Got cp"
      using conts_step [of ?y 1 "(128 + ?z) # rest" ?x] conts_step [of ?z 0 rest "?x * 64 + ?y"] j by (simp add: numeral_2_eq_2)
    ultimately show ?thesis using 3 x assms by (simp add: take_cp_def utf8_def valid_cp_def)
  next
    case 4
    let ?x = "cp div 262144" and ?w = "cp div 4096 mod 64" and ?y = "cp div 64 mod 64" and ?z = "cp mod 64"
    have "cp < 8 * 262144" using assms by (simp add: valid_cp_def)
    then have x: "?x < 8" by (rule less_mult_imp_div_less)
    have "(240 + ?x) AND 0x07 = ?x" by (rule lead_bits(4) [OF x])
    moreover have j: "((?x * 64 + ?w) * 64 + ?y) * 64 + ?z = cp"
      using div_mult_mod_eq [of "cp div 4096" 64] div_mult_mod_eq [of "cp div 64" 64] div_mult_mod_eq [of cp 64]
      by (simp add: div_mult2_eq [symmetric])
    moreover have "conts 3 ((128 + ?w) # (128 + ?y) # (128 + ?z) # rest) ?x = Got cp"
      using conts_step [of ?w 2 "(128 + ?y) # (128 + ?z) # rest" ?x] conts_step [of ?y 1 "(128 + ?z) # rest" "?x * 64 + ?w"]
        conts_step [of ?z 0 rest "(?x * 64 + ?w) * 64 + ?y"] j
      by (simp add: numeral_2_eq_2 numeral_3_eq_3)
    ultimately show ?thesis using 4 x assms by (simp add: take_cp_def utf8_def valid_cp_def)
  qed
qed

section \<open>Strings\<close>

text \<open>The code points of a UTF-16 string, and the string with its unpaired surrogates replaced.\<close>

function cps :: "nat list \<Rightarrow> nat list" where
  "cps [] = []"
| "cps (c # us) = fst (next_cp c us) # cps (snd (next_cp c us))"
  by pat_completeness auto
termination
  by (relation "measure length") (auto simp: less_Suc_eq_le intro: next_cp_shorter prod.collapse [symmetric])

definition high :: "nat \<Rightarrow> bool" where "high c \<longleftrightarrow> 0xD800 \<le> c \<and> c < 0xDC00"
definition low :: "nat \<Rightarrow> bool" where "low c \<longleftrightarrow> 0xDC00 \<le> c \<and> c < 0xE000"

fun repair :: "nat list \<Rightarrow> nat list" where
  "repair [] = []"
| "repair [c] = [if high c \<or> low c then 0xFFFD else c]"
| "repair (c # d # us) =
     (if high c \<and> low d then c # d # repair us else (if high c \<or> low c then 0xFFFD else c) # repair (d # us))"

lemma length_repair [simp]: "length (repair us) = length us"
  by (induction us rule: repair.induct) simp_all

lemma pair_units:
  assumes "high c" and "low d"
  shows "put_units (0x10000 + push_bit 10 (c - 0xD800) + (d - 0xDC00)) = [c, d]"
    and "0x10000 + push_bit 10 (c - 0xD800) + (d - 0xDC00) < 0x110000"
proof -
  define x where "x = c - 0xD800"
  define y where "y = d - 0xDC00"
  have x: "c = 0xD800 + x" "x < 1024" and y: "d = 0xDC00 + y" "y < 1024"
    using assms by (auto simp: high_def low_def x_def y_def)
  have "(x * 1024 + y) div 1024 = x" "(x * 1024 + y) mod 1024 = y" using y by simp_all
  then show "put_units (0x10000 + push_bit 10 (c - 0xD800) + (d - 0xDC00)) = [c, d]"
    unfolding x(1) y(1) using x(2) y(2) by (simp add: put_units_def push_bit_eq_mult drop_bit_eq_div byte_masks mult.commute)
  show "0x10000 + push_bit 10 (c - 0xD800) + (d - 0xDC00) < 0x110000"
    unfolding x(1) y(1) using x(2) y(2) by (simp add: push_bit_eq_mult)
qed

lemma next_cp_pair: "high c \<Longrightarrow> low d \<Longrightarrow> next_cp c (d # us) = (0x10000 + push_bit 10 (c - 0xD800) + (d - 0xDC00), us)"
  by (simp add: next_cp_def high_def low_def)

lemma next_cp_single: "\<not> (high c \<and> us \<noteq> [] \<and> low (hd us)) \<Longrightarrow> next_cp c us = (if high c \<or> low c then 0xFFFD else c, us)"
  by (cases us) (auto simp: next_cp_def high_def low_def)

lemma put_units_single: "c < 65536 \<Longrightarrow> put_units c = [c]"
  by (simp add: put_units_def)

lemma cps_pair: "high c \<Longrightarrow> low d \<Longrightarrow> cps (c # d # us) = (0x10000 + push_bit 10 (c - 0xD800) + (d - 0xDC00)) # cps us"
  by (simp add: next_cp_pair)

lemma cps_single: "\<not> (high c \<and> us \<noteq> [] \<and> low (hd us)) \<Longrightarrow> cps (c # us) = (if high c \<or> low c then 0xFFFD else c) # cps us"
  by (simp add: next_cp_single)

declare cps.simps(2) [simp del]

lemma cps_units: "\<forall>u\<in>set us. u < 65536 \<Longrightarrow> concat (map put_units (cps us)) = repair us"
proof (induction us rule: repair.induct)
  case (3 c d us)
  then show ?case
    by (cases "high c \<and> low d") (auto simp: cps_pair cps_single pair_units(1) put_units_single)
qed (simp_all add: cps_single put_units_single)

lemma valid_single: "0 < c \<Longrightarrow> c < 65536 \<Longrightarrow> valid_cp (if high c \<or> low c then 0xFFFD else c)"
  by (auto simp: valid_cp_def high_def low_def)

lemma cps_valid: "\<forall>u\<in>set us. 0 < u \<and> u < 65536 \<Longrightarrow> \<forall>cp\<in>set (cps us). valid_cp cp"
proof (induction us rule: repair.induct)
  case (3 c d us)
  show ?case
  proof (cases "high c \<and> low d")
    case True
    then have "valid_cp (0x10000 + push_bit 10 (c - 0xD800) + (d - 0xDC00))" using pair_units(2) [of c d] by (simp add: valid_cp_def)
    then show ?thesis using 3 True by (simp add: cps_pair)
  next
    case False
    then have "cps (c # d # us) = (if high c \<or> low c then 0xFFFD else c) # cps (d # us)" by (intro cps_single) simp
    moreover have "\<forall>cp\<in>set (cps (d # us)). valid_cp cp" using 3(2) [OF False] 3(3) by simp
    ultimately show ?thesis using valid_single [of c] 3(3) by simp
  qed
next
  case (2 c)
  then show ?case using valid_single [of c] by (simp add: cps_single)
qed simp

lemma length_utf8: "1 \<le> length (utf8 cp)" "length (utf8 cp) \<le> 3 * length (put_units cp)"
  by (simp_all add: utf8_def put_units_def)

lemma utf8_nonzero: "valid_cp cp \<Longrightarrow> 0 \<notin> set (utf8 cp)"
  by (auto simp: utf8_def valid_cp_def)

text \<open>
  The chunks of a string that fit into \<open>room\<close> one after the other, up to the first that does
  not: what a conversion has stored when it gives up.
\<close>

primrec fitting :: "nat \<Rightarrow> nat list list \<Rightarrow> nat list" where
  "fitting room [] = []"
| "fitting room (c # cs) = (if length c \<le> room then c @ fitting (room - length c) cs else [])"

lemma fitting_prefix: "\<exists>rest. concat cs = fitting room cs @ rest" "length (fitting room cs) \<le> room"
proof (induction cs arbitrary: room)
  case (Cons c cs)
  { case 1
    then show ?case using Cons.IH(1) [of "room - length c"] by auto
  next
    case 2
    then show ?case using Cons.IH(2) [of "room - length c"] by auto }
qed simp_all

lemma utf16_loop_eq:
  assumes "\<forall>cp\<in>set (cps us). valid_cp cp" and "length out < cap"
  shows "utf16_loop cap us out =
    (let all = out @ concat (map utf8 (cps us)) in
     if length all < cap then (ret_len (length all), all @ [0])
     else (-1, out @ fitting (cap - 1 - length out) (map utf8 (cps us))))"
  using assms
proof (induction us arbitrary: out rule: cps.induct)
  case (2 c us)
  obtain cp us' where n: "next_cp c us = (cp, us')" by (cases "next_cp c us")
  have cs: "cps (c # us) = cp # cps us'" using n by (simp add: cps.simps(2))
  have v: "cp < 0x110000" and v': "\<forall>cp\<in>set (cps us'). valid_cp cp" using 2(2) unfolding cs by (simp_all add: valid_cp_def)
  have st: "utf16_loop cap (c # us) out =
      (if cap - 1 \<le> length out then (-1, out)
       else case put_utf8 cp (cap - 1 - length out) of None \<Rightarrow> (-1, out) | Some bs \<Rightarrow> utf16_loop cap us' (out @ bs))"
    by (simp only: utf16_loop.simps(2) n Let_def fst_conv snd_conv)
  show ?case
  proof (cases "length out + length (utf8 cp) < cap")
    case True
    then have p: "put_utf8 cp (cap - 1 - length out) = Some (utf8 cp)" "\<not> cap - 1 \<le> length out"
      using put_utf8_eq [OF v] length_utf8(1) [of cp] by auto
    have "length (out @ utf8 cp) < cap" using True by simp
    then have ih: "utf16_loop cap us' (out @ utf8 cp) =
        (let all = (out @ utf8 cp) @ concat (map utf8 (cps us')) in
         if length all < cap then (ret_len (length all), all @ [0])
         else (-1, (out @ utf8 cp) @ fitting (cap - 1 - length (out @ utf8 cp)) (map utf8 (cps us'))))"
      using 2(1) [of "out @ utf8 cp"] v' unfolding n snd_conv by blast
    have f: "fitting (cap - 1 - length out) (map utf8 (cps (c # us))) =
        utf8 cp @ fitting (cap - 1 - length (out @ utf8 cp)) (map utf8 (cps us'))" using True unfolding cs by auto
    show ?thesis unfolding st f using p ih by (simp add: cs Let_def)
  next
    case False
    then have "cap - 1 \<le> length out \<or> put_utf8 cp (cap - 1 - length out) = None"
      using put_utf8_eq [OF v] by auto
    moreover have "fitting (cap - 1 - length out) (map utf8 (cps (c # us))) = []" using False length_utf8(1) [of cp] unfolding cs by auto
    ultimately show ?thesis unfolding st using False by (auto simp: cs Let_def)
  qed
qed simp

lemma utf8_loop_eq:
  assumes "\<forall>cp\<in>set cs. valid_cp cp" and "length out \<le> cap"
  shows "utf8_loop cap (concat (map utf8 cs) @ 0 # junk) out =
    (let all = out @ concat (map put_units cs) in
     if length all \<le> cap then Ret (ret_len (length all)) all
     else Ret (-1) (out @ fitting (cap - length out) (map put_units cs)))"
  using assms
proof (induction cs arbitrary: out)
  case Nil
  then show ?case by (simp add: utf8_loop.simps)
next
  case (Cons c cs)
  let ?p = "concat (map utf8 (c # cs)) @ 0 # junk"
  have t: "take_cp ?p = Some (c, length (utf8 c))" using take_cp_utf8 Cons.prems(1) by simp
  obtain b p where p: "?p = b # p" "b \<noteq> 0" using length_utf8(1) [of c] utf8_nonzero [of c] Cons.prems(1) by (cases "utf8 c") auto
  have d: "drop (length (utf8 c)) ?p = concat (map utf8 cs) @ 0 # junk" by simp
  have st: "utf8_loop cap ?p out =
      (if cap - length out < length (put_units c) then Ret (-1) out else utf8_loop cap (concat (map utf8 cs) @ 0 # junk) (out @ put_units c))"
    using t d unfolding p by (subst utf8_loop.simps) (simp add: p(2))
  show ?case
  proof (cases "cap - length out < length (put_units c)")
    case True
    then show ?thesis unfolding st using Cons.prems(2) by (auto simp: Let_def)
  next
    case False
    then have "length (out @ put_units c) \<le> cap" using Cons.prems(2) by simp
    then show ?thesis unfolding st using False Cons.IH [of "out @ put_units c"] Cons.prems by (auto simp: Let_def)
  qed
qed

lemma ret_len_small: "n < 2 ^ 31 \<Longrightarrow> ret_len n = int n"
  unfolding ret_len_def by (subst sint_small) (simp_all add: unat_of_nat32)

text \<open>C39: Names survive the trip through UTF-8. For every UTF-16 string of non-zero units there
  are bytes, at most three for a unit, such that utf16_to_utf8_c stores them and a 0 into every buffer
  that is large enough for both and returns their number (as a signed 32-bit number), while for a smaller buffer it returns
  -1 after it has stored a proper prefix of the bytes, without a 0, that leaves the last byte of
  the buffer alone; and utf8_to_utf16_c, on these bytes followed by 0 and anything, stores the string
  with each unpaired surrogate replaced by U+FFFD and every other unit unchanged and returns its
  length, or, exactly when the buffer is shorter than the string, returns -1 after it has stored a
  prefix of it that does not pass the end of the buffer.\<close>
theorem utf16_utf8_roundtrip:
  assumes "us \<noteq> []" and "\<forall>u\<in>set us. 0 < u \<and> u < 65536"
  shows "\<exists>bs. length bs \<le> 3 * length us \<and>
    (\<forall>cap. if length bs < cap then utf16_to_utf8_c us cap = (ret_len (length bs), bs @ [0])
       else \<exists>p rest. utf16_to_utf8_c us cap = (-1, p) \<and> bs = p @ rest \<and> rest \<noteq> [] \<and> length p \<le> cap - 1) \<and>
    (\<forall>cap junk. if length us \<le> cap then utf8_to_utf16_c (bs @ 0 # junk) cap = Ret (ret_len (length us)) (repair us)
       else \<exists>p rest. utf8_to_utf16_c (bs @ 0 # junk) cap = Ret (-1) p \<and> repair us = p @ rest \<and> length p \<le> cap)"
proof -
  let ?bs = "concat (map utf8 (cps us))"
  have v: "\<forall>cp\<in>set (cps us). valid_cp cp" by (rule cps_valid [OF assms(2)])
  have u: "concat (map put_units (cps us)) = repair us" using cps_units assms(2) by simp
  have "length (concat (map utf8 cs)) \<le> 3 * length (concat (map put_units cs))" for cs
  proof (induction cs)
    case (Cons c cs)
    then show ?case using length_utf8(2) [of c] by simp
  qed simp
  then have len: "length ?bs \<le> 3 * length us" using u by (metis length_repair)
  have "?bs \<noteq> []" using assms(1) length_utf8(1) by (cases us) (auto simp: cps.simps(2) Suc_le_eq)
  then have p: "\<exists>p rest. utf16_to_utf8_c us cap = (-1, p) \<and> ?bs = p @ rest \<and> rest \<noteq> [] \<and> length p \<le> cap - 1"
    if "\<not> length ?bs < cap" for cap
  proof (cases "cap = 0")
    case True
    then show ?thesis using \<open>?bs \<noteq> []\<close> by (simp add: utf16_to_utf8_c_def)
  next
    case False
    obtain rest where r: "?bs = fitting (cap - 1) (map utf8 (cps us)) @ rest" using fitting_prefix(1) by blast
    have l: "length (fitting (cap - 1) (map utf8 (cps us))) \<le> cap - 1" by (rule fitting_prefix(2))
    have "rest \<noteq> []" using r l that False by (cases rest) (simp_all add: r)
    then show ?thesis using r l utf16_loop_eq [OF v, of "[]" cap] that assms(1) False by (simp add: utf16_to_utf8_c_def)
  qed
  have q: "\<exists>p rest. utf8_to_utf16_c (?bs @ 0 # junk) cap = Ret (-1) p \<and> repair us = p @ rest \<and> length p \<le> cap"
    if "\<not> length us \<le> cap" for cap junk
  proof (cases "cap = 0")
    case False
    obtain rest where r: "repair us = fitting cap (map put_units (cps us)) @ rest" using fitting_prefix(1) u by metis
    have n: "\<not> length (concat (map put_units (cps us))) \<le> cap" using that unfolding u by simp
    have "utf8_to_utf16_c (?bs @ 0 # junk) cap = Ret (-1) (fitting cap (map put_units (cps us)))"
      using utf8_loop_eq [OF v, of "[]" cap junk] n False by (simp add: utf8_to_utf16_c_def Let_def)
    then show ?thesis using r fitting_prefix(2) by blast
  qed (simp add: utf8_to_utf16_c_def)
  have a: "utf16_to_utf8_c us cap = (ret_len (length ?bs), ?bs @ [0])" if "length ?bs < cap" for cap
    using utf16_loop_eq [OF v, of "[]" cap] assms(1) that by (auto simp: utf16_to_utf8_c_def Let_def)
  have b: "utf8_to_utf16_c (?bs @ 0 # junk) cap = Ret (ret_len (length us)) (repair us)" if "length us \<le> cap" for cap junk
    using utf8_loop_eq [OF v, of "[]" cap junk] u assms(1) that by (auto simp: utf8_to_utf16_c_def)
  show ?thesis by (rule exI [of _ ?bs]) (use len p q a b in auto)
qed

theorem utf16_utf8_roundtrip_witness:
  "\<exists>bs. utf16_to_utf8_c [0x4E2D, 0xD83D, 0xDE00, 0xDC00] 32 = (int (length bs), bs @ [0]) \<and>
    utf8_to_utf16_c (bs @ [0]) 16 = Ret 4 [0x4E2D, 0xD83D, 0xDE00, 0xFFFD]"
proof -
  have r: "repair [0x4E2D, 0xD83D, 0xDE00, 0xDC00] = [0x4E2D, 0xD83D, 0xDE00, 0xFFFD]" by (simp add: high_def low_def)
  have u: "[0x4E2D, 0xD83D, 0xDE00, 0xDC00 :: nat] \<noteq> []" "\<forall>u\<in>set [0x4E2D, 0xD83D, 0xDE00, 0xDC00 :: nat]. 0 < u \<and> u < 65536" by simp_all
  from utf16_utf8_roundtrip [OF u] show ?thesis
  proof (elim exE conjE, goal_cases)
    case (1 bs)
    then show ?case using 1(2) [rule_format, of 32] 1(3) [rule_format, of 16 "[]"] ret_len_small [of "length bs"] ret_len_small [of "Suc (Suc (Suc (Suc 0)))"]
      unfolding r by (intro exI [of _ bs]) simp
  qed
qed

text \<open>
  A byte 0x82 to 0xBF that starts no character is illegal in UTF-8; the decoder takes it for the
  lead byte of a pair, because the branch for two bytes is only bounded from above.
\<close>

lemma lone_continuation_is_a_lead:
  assumes "0x80 \<le> b" and "b < 0xC0" and "b AND 0x1E \<noteq> 0" and "c < 64"
  shows "take_cp (b # (128 + c) # p) = Some (b mod 32 * 64 + c, 2)"
  using assms conts_step [of c 0 p "b mod 32"] by (simp add: take_cp_def byte_masks(3))

end
