(* ===== verification/Levenshtein.thy ===== *)
theory Levenshtein
  imports EzPrelude "HOL-Library.Monad_Syntax"
begin

text \<open>
  The edit distance of \<open>kernel/textenc.c\<close> (used for spelling suggestions): a table of two rows
  of 25 halfwords in one buffer on the stack, addressed by the parity of the row. The buffer is
  a list of 50 numbers and an access outside it is \<open>None\<close>. The values are stored in 16 bits.
  The specification is the least number of insertions, deletions and replacements of single
  characters that turn one string into the other.
\<close>

abbreviation LEV_MAX :: nat where "LEV_MAX \<equiv> 24"
abbreviation LEV_ROW :: nat where "LEV_ROW \<equiv> 25"

definition get16 :: "nat list \<Rightarrow> nat \<Rightarrow> nat option" where
  "get16 b i = (if i < length b then Some (b ! i) else None)"

definition put16 :: "nat list \<Rightarrow> nat \<Rightarrow> nat \<Rightarrow> nat list option" where
  "put16 b i v = (if i < length b then Some (b[i := v mod 65536]) else None)"

text \<open>\<open>for (j \<dots>) b16[j] = j\<close>\<close>

fun init_row :: "nat list \<Rightarrow> nat \<Rightarrow> nat list option" where
  "init_row b16 0 = put16 b16 0 0"
| "init_row b16 (Suc j) = do { b \<leftarrow> init_row b16 j; put16 b (Suc j) (Suc j) }"

definition lev_cell :: "nat \<Rightarrow> nat \<Rightarrow> char \<Rightarrow> string \<Rightarrow> nat \<Rightarrow> nat list \<Rightarrow> nat list option" where
  "lev_cell cur prev ca b j b16 = do {
     up \<leftarrow> get16 b16 (prev + j);
     left \<leftarrow> get16 b16 (cur + j - 1);
     diag \<leftarrow> get16 b16 (prev + j - 1);
     let cost = (if ca = b ! (j - 1) then 0 else 1);
     let del = (up + 1) mod 65536;
     let ins = (left + 1) mod 65536;
     let sub = (diag + cost) mod 65536;
     let m = (if del < ins then del else ins);
     put16 b16 (cur + j) (if m < sub then m else sub) }"

text \<open>The cells 1 to \<open>n\<close> of a row, then the rows 1 to \<open>n\<close>.\<close>

fun lev_cells :: "nat \<Rightarrow> nat \<Rightarrow> char \<Rightarrow> string \<Rightarrow> nat \<Rightarrow> nat list \<Rightarrow> nat list option" where
  "lev_cells cur prev ca b 0 b16 = Some b16"
| "lev_cells cur prev ca b (Suc n) b16 = do { t \<leftarrow> lev_cells cur prev ca b n b16; lev_cell cur prev ca b (Suc n) t }"

definition lev_row :: "string \<Rightarrow> string \<Rightarrow> nat \<Rightarrow> nat list \<Rightarrow> nat list option" where
  "lev_row a b i b16 =
     (let cur = (i mod 2) * LEV_ROW; prev = cur XOR LEV_ROW
      in do { t \<leftarrow> put16 b16 cur i; lev_cells cur prev (a ! (i - 1)) b (length b) t })"

fun lev_rows :: "string \<Rightarrow> string \<Rightarrow> nat \<Rightarrow> nat list \<Rightarrow> nat list option" where
  "lev_rows a b 0 b16 = Some b16"
| "lev_rows a b (Suc i) b16 = do { t \<leftarrow> lev_rows a b i b16; lev_row a b (Suc i) t }"

text \<open>
  The strings are the characters before the terminating 0. Their lengths are counted up to 64,
  so a longer string has length 64 for the comparison with the limit.
\<close>

definition levenshtein_buffer_c :: "nat list \<Rightarrow> string \<Rightarrow> string \<Rightarrow> nat \<Rightarrow> nat option" where
  "levenshtein_buffer_c buf a b limit =
     (let alen = min 64 (length a); blen = min 64 (length b) in
      if alen > limit \<or> blen > limit then Some (limit + 1)
      else if alen = 0 then Some blen
      else if blen = 0 then Some alen
      else do {
        b16 \<leftarrow> init_row buf blen;
        t \<leftarrow> lev_rows (take alen a) (take blen b) alen b16;
        get16 t ((alen mod 2) * LEV_ROW + blen) })"

definition levenshtein_c :: "nat list \<Rightarrow> string \<Rightarrow> string \<Rightarrow> nat \<Rightarrow> nat option" where
  "levenshtein_c stack a b limit =
     map_option (\<lambda>r. if r \<ge> 2 ^ 31 then limit + 1 else r) (levenshtein_buffer_c stack a b limit)"

section \<open>Edit distance\<close>

fun edist :: "string \<Rightarrow> string \<Rightarrow> nat" where
  "edist [] b = length b"
| "edist a [] = length a"
| "edist (x # a) (y # b) = min (min (edist a (y # b) + 1) (edist (x # a) b + 1)) (edist a b + (if x = y then 0 else 1))"

lemma edist_Nil2 [simp]: "edist a [] = length a"
  by (cases a) simp_all

text \<open>One edit of a string, and alignments of two strings with their number of edits.\<close>

inductive edit1 :: "string \<Rightarrow> string \<Rightarrow> bool" where
  del: "edit1 (u @ x # v) (u @ v)"
| ins: "edit1 (u @ v) (u @ x # v)"
| rpl: "edit1 (u @ x # v) (u @ y # v)"

inductive align :: "nat \<Rightarrow> string \<Rightarrow> string \<Rightarrow> bool" where
  nil: "align 0 [] []"
| keep: "align n a b \<Longrightarrow> align n (x # a) (x # b)"
| dele: "align n a b \<Longrightarrow> align (Suc n) (x # a) b"
| inse: "align n a b \<Longrightarrow> align (Suc n) a (y # b)"
| repl: "align n a b \<Longrightarrow> align (Suc n) (x # a) (y # b)"

lemma align_refl: "align 0 a a"
  by (induction a) (auto intro: align.intros)

lemma align_dels: "align (length a) a []"
  by (induction a) (auto intro: align.intros)

lemma align_inss: "align (length b) [] b"
  by (induction b) (auto intro: align.intros)

lemma edist_align: "align (edist a b) a b"
proof (induction a b rule: edist.induct)
  case (3 x a y b)
  have "align (edist a (y # b) + 1) (x # a) (y # b)" "align (edist (x # a) b + 1) (x # a) (y # b)"
    "align (edist a b + (if x = y then 0 else 1)) (x # a) (y # b)"
    using 3 by (auto intro: align.intros)
  then show ?case by (simp only: edist.simps min_def split: if_split) blast
qed (use align_inss align_dels [of "_ # _"] in \<open>simp_all del: length_Cons\<close>)

lemma edist_Cons1: "edist (x # a) b \<le> edist a b + 1"
  by (induction b) auto

lemma edist_Cons2: "edist a (y # b) \<le> edist a b + 1"
  by (induction a) auto

lemma edist_Cons: "edist (x # a) (y # b) \<le> edist a b + (if x = y then 0 else 1)"
  by simp

lemma align_edist: "align n a b \<Longrightarrow> edist a b \<le> n"
proof (induction rule: align.induct)
  case (keep n a b x)
  then show ?case using edist_Cons [of x a x b] by simp
next
  case (dele n a b x)
  then show ?case using edist_Cons1 [of x a b] by simp
next
  case (inse n a b y)
  then show ?case using edist_Cons2 [of a y b] by simp
next
  case (repl n a b x y)
  then show ?case using edist_Cons [of x a y b] by (simp del: edist.simps split: if_splits)
qed simp

lemma align_append: "align n a b \<Longrightarrow> align m c d \<Longrightarrow> align (n + m) (a @ c) (b @ d)"
  by (induction rule: align.induct) (auto intro: align.intros)

lemma align_rev: "align n a b \<Longrightarrow> align n (rev a) (rev b)"
proof (induction rule: align.induct)
  case (keep n a b x)
  then show ?case using align_append [OF keep.IH align_refl [of "[x]"]] by simp
next
  case (dele n a b x)
  then show ?case using align_append [OF dele.IH align_dels [of "[x]"]] by simp
next
  case (inse n a b y)
  then show ?case using align_append [OF inse.IH align_inss [of "[y]"]] by simp
next
  case (repl n a b x y)
  have "align 1 [x] [y]" using align.repl [OF align.nil, of x y] by simp
  then show ?case using align_append [OF repl.IH] by fastforce
qed (simp add: align.nil)

lemma edist_rev: "edist (rev a) (rev b) = edist a b"
  by (metis align_edist align_rev edist_align order_antisym rev_rev_ident)

lemma edist_snoc:
  "edist (a @ [x]) (b @ [y]) =
     min (min (edist a (b @ [y]) + 1) (edist (a @ [x]) b + 1)) (edist a b + (if x = y then 0 else 1))"
  using edist.simps(3) [of x "rev a" y "rev b"] edist_rev [of "a @ [x]" "b @ [y]"] edist_rev [of a "b @ [y]"]
    edist_rev [of "a @ [x]" b] edist_rev [of a b] by simp

lemma edist_bound: "edist a b \<le> length a + length b"
  using align_edist [OF align_append [OF align_dels [of a] align_inss [of b]]] by simp

text \<open>The distance is the least number of edits.\<close>

lemma edit1_Cons: "edit1 c d \<Longrightarrow> edit1 (x # c) (x # d)"
  by (cases rule: edit1.cases) (assumption, (metis append_Cons edit1.intros)+)

lemma edits_Cons: "(edit1 ^^ n) c d \<Longrightarrow> (edit1 ^^ n) (x # c) (x # d)"
  by (induction n arbitrary: d) (auto intro: edit1_Cons)

lemma align_edits: "align n a b \<Longrightarrow> (edit1 ^^ n) a b"
proof (induction rule: align.induct)
  case (dele n a b x)
  have "edit1 (x # a) a" using edit1.del [of "[]" x a] by simp
  then show ?case using dele.IH by (rule relpowp_Suc_I2)
next
  case (inse n a b y)
  have "edit1 b (y # b)" using edit1.ins [of "[]" b y] by simp
  with inse.IH show ?case by (rule relpowp_Suc_I)
next
  case (repl n a b x y)
  have "edit1 (x # b) (y # b)" using edit1.rpl [of "[]" x b y] by simp
  with edits_Cons [OF repl.IH] show ?case by (rule relpowp_Suc_I)
qed (simp_all add: edits_Cons)

lemma align_split:
  "align n w c \<Longrightarrow> w = u @ v \<Longrightarrow> \<exists>n1 n2 c1 c2. n = n1 + n2 \<and> c = c1 @ c2 \<and> align n1 u c1 \<and> align n2 v c2"
proof (induction arbitrary: u rule: align.induct)
  case nil
  then show ?case using align.nil by force
next
  case (keep n a b x)
  show ?case
  proof (cases u)
    case Nil
    then show ?thesis using keep align.keep [OF keep.hyps] align.nil by fastforce
  next
    case (Cons z u')
    then have "a = u' @ v" and z: "z = x" using keep.prems by auto
    from keep.IH [OF this(1)] obtain n1 n2 c1 c2 where "n = n1 + n2" "b = c1 @ c2" "align n1 u' c1" "align n2 v c2" by blast
    then show ?thesis unfolding Cons z by (intro exI [of _ n1] exI [of _ n2] exI [of _ "x # c1"] exI [of _ c2]) (simp add: align.keep)
  qed
next
  case (dele n a b x)
  show ?case
  proof (cases u)
    case Nil
    then show ?thesis using dele align.dele [OF dele.hyps] align.nil by fastforce
  next
    case (Cons z u')
    then have "a = u' @ v" and z: "z = x" using dele.prems by auto
    from dele.IH [OF this(1)] obtain n1 n2 c1 c2 where "n = n1 + n2" "b = c1 @ c2" "align n1 u' c1" "align n2 v c2" by blast
    then show ?thesis unfolding Cons z by (intro exI [of _ "Suc n1"] exI [of _ n2] exI [of _ c1] exI [of _ c2]) (simp add: align.dele)
  qed
next
  case (inse n a b y)
  from inse.IH [OF inse.prems] obtain n1 n2 c1 c2 where "n = n1 + n2" "b = c1 @ c2" "align n1 u c1" "align n2 v c2" by blast
  then show ?case by (intro exI [of _ "Suc n1"] exI [of _ n2] exI [of _ "y # c1"] exI [of _ c2]) (simp add: align.inse)
next
  case (repl n a b x y)
  show ?case
  proof (cases u)
    case Nil
    then show ?thesis using repl align.repl [OF repl.hyps] align.nil by fastforce
  next
    case (Cons z u')
    then have "a = u' @ v" and z: "z = x" using repl.prems by auto
    from repl.IH [OF this(1)] obtain n1 n2 c1 c2 where "n = n1 + n2" "b = c1 @ c2" "align n1 u' c1" "align n2 v c2" by blast
    then show ?thesis unfolding Cons z by (intro exI [of _ "Suc n1"] exI [of _ n2] exI [of _ "y # c1"] exI [of _ c2]) (simp add: align.repl)
  qed
qed

lemma align_length: "align n a b \<Longrightarrow> length b \<le> length a + n"
  by (induction rule: align.induct) auto

lemma align_one: "align (max 1 (length c)) [y] c"
proof (cases c)
  case Nil
  then show ?thesis using align_dels [of "[y]"] by simp
next
  case (Cons z c')
  then show ?thesis using align.repl [OF align_inss [of c'], of y z] by simp
qed

lemma edit_align:
  assumes "edit1 a b" and "align n b c"
  shows "\<exists>m \<le> Suc n. align m a c"
  using assms(1)
proof cases
  case (del u x v)
  then obtain n1 n2 c1 c2 where n: "n = n1 + n2" "c = c1 @ c2" "align n1 u c1" "align n2 v c2"
    using align_split [OF assms(2)] by blast
  have "align (n1 + Suc n2) (u @ x # v) (c1 @ c2)" by (intro align_append n align.dele)
  then show ?thesis using n del by auto
next
  case (ins u v x)
  then obtain n1 n2 c1 c2 where n: "n = n1 + n2" "c = c1 @ c2" "align n1 u c1" "align n2 ([x] @ v) c2"
    using align_split [OF assms(2), of u "x # v"] by auto
  obtain k l d1 d2 where k: "n2 = k + l" "c2 = d1 @ d2" "align k [x] d1" "align l v d2" using align_split [OF n(4) refl] by blast
  have "align (n1 + (length d1 + l)) (u @ [] @ v) (c1 @ d1 @ d2)" by (intro align_append n align_inss k)
  then show ?thesis using n k ins align_length [OF k(3)] by (intro exI [of _ "n1 + (length d1 + l)"]) simp
next
  case (rpl u x v y)
  then obtain n1 n2 c1 c2 where n: "n = n1 + n2" "c = c1 @ c2" "align n1 u c1" "align n2 ([y] @ v) c2"
    using align_split [OF assms(2), of u "y # v"] by auto
  obtain k l d1 d2 where k: "n2 = k + l" "c2 = d1 @ d2" "align k [y] d1" "align l v d2" using align_split [OF n(4) refl] by blast
  have "align (n1 + (max 1 (length d1) + l)) (u @ [x] @ v) (c1 @ d1 @ d2)" by (intro align_append n align_one k)
  then show ?thesis using n k rpl align_length [OF k(3)] by (intro exI [of _ "n1 + (max 1 (length d1) + l)"]) simp
qed

lemma edits_edist: "(edit1 ^^ n) a b \<Longrightarrow> edist a b \<le> n"
proof (induction n arbitrary: a)
  case 0
  then show ?case using align_edist [OF align_refl [of a]] by simp
next
  case (Suc n)
  then obtain d where d: "edit1 a d" "(edit1 ^^ n) d b" by (blast elim: relpowp_Suc_E2)
  obtain m where "m \<le> Suc (edist d b)" "align m a b" using edit_align [OF d(1) edist_align] by blast
  then show ?case using align_edist [of m a b] Suc.IH [OF d(2)] by linarith
qed

lemma edist_least: "(LEAST n. (edit1 ^^ n) a b) = edist a b"
  by (rule Least_equality) (use align_edits [OF edist_align] edits_edist in blast)+

section \<open>The table\<close>

text \<open>Row \<open>i\<close> of the table up to column \<open>n\<close>, stored from position \<open>p\<close>.\<close>

definition row_at :: "nat list \<Rightarrow> nat \<Rightarrow> string \<Rightarrow> string \<Rightarrow> nat \<Rightarrow> nat \<Rightarrow> bool" where
  "row_at t p a b i n \<longleftrightarrow> (\<forall>j\<le>n. t ! (p + j) = edist (take i a) (take j b))"

lemma init_row_ok:
  "n < length buf \<Longrightarrow> n < 65536 \<Longrightarrow> \<exists>t. init_row buf n = Some t \<and> length t = length buf \<and> (\<forall>j\<le>n. t ! j = j)"
proof (induction n)
  case 0
  then show ?case by (simp add: put16_def)
next
  case (Suc n)
  then obtain t where "init_row buf n = Some t" "length t = length buf" "\<forall>j\<le>n. t ! j = j" by auto
  then show ?case using Suc.prems by (auto simp: put16_def nth_list_update le_Suc_eq)
qed

definition least_of :: "nat \<Rightarrow> nat \<Rightarrow> nat \<Rightarrow> nat" where
  "least_of del ins sub = (let m = (if del < ins then del else ins) in if m < sub then m else sub)"

lemma least_of_min: "least_of x y z = min (min x y) z"
  by (simp add: least_of_def min_def Let_def)

lemma lev_cell_ok:
  assumes p: "cur + length b < length t" "prev + length b < length t" "cur + length b < prev \<or> prev + length b < cur"
    and i: "i < length a" "length a \<le> LEV_MAX" "length b \<le> LEV_MAX" and n: "n < length b"
    and r: "row_at t prev a b i (length b)" "row_at t cur a b (Suc i) n"
  shows "\<exists>t'. lev_cell cur prev (a ! i) b (Suc n) t = Some t' \<and> length t' = length t \<and>
    row_at t' prev a b i (length b) \<and> row_at t' cur a b (Suc i) (Suc n)"
proof -
  let ?D = "\<lambda>i j. edist (take i a) (take j b)"
  have v: "t ! (prev + Suc n) = ?D i (Suc n)" "t ! (cur + n) = ?D (Suc i) n" "t ! (prev + n) = ?D i n"
    using r n unfolding row_at_def by (metis Suc_le_eq less_imp_le order_refl)+
  have D: "?D (Suc i) (Suc n) = min (min (?D i (Suc n) + 1) (?D (Suc i) n + 1)) (?D i n + (if a ! i = b ! n then 0 else 1))"
    using edist_snoc [of "take i a" "a ! i" "take n b" "b ! n"] i(1) n by (simp add: take_Suc_conv_app_nth)
  have bound: "?D k j \<le> 48" for k j
    using edist_bound [of "take k a" "take j b"] i(2,3) by simp
  let ?m = "?D (Suc i) (Suc n)"
  have small: "?D i (Suc n) + 1 < 65536" "?D (Suc i) n + 1 < 65536" "?D i n + (if a ! i = b ! n then 0 else 1) < 65536" "?m < 65536"
    using bound [of i "Suc n"] bound [of "Suc i" n] bound [of i n] bound [of "Suc i" "Suc n"] by auto
  have c: "lev_cell cur prev (a ! i) b (Suc n) t = put16 t (cur + Suc n) ?m"
  proof -
    define x where "x = ?D i (Suc n)"
    define y where "y = ?D (Suc i) n"
    define z where "z = ?D i n"
    define k where "k = (if a ! i = b ! n then 0 else 1 :: nat)"
    have "lev_cell cur prev (a ! i) b (Suc n) t = put16 t (cur + Suc n) (least_of ((x + 1) mod 65536) ((y + 1) mod 65536) ((z + k) mod 65536))"
      unfolding lev_cell_def get16_def using p n v by (simp add: Let_def x_def y_def z_def k_def least_of_def)
    also have "\<dots> = put16 t (cur + Suc n) (min (min (x + 1) (y + 1)) (z + k))"
      using small by (simp add: x_def y_def z_def k_def least_of_min)
    finally show ?thesis unfolding D x_def y_def z_def k_def .
  qed
  show ?thesis unfolding c put16_def using p n small(4) r by (auto simp: row_at_def nth_list_update le_Suc_eq)
qed

lemma lev_cells_ok:
  assumes "cur + length b < length t" "prev + length b < length t" "cur + length b < prev \<or> prev + length b < cur"
    "i < length a" "length a \<le> LEV_MAX" "length b \<le> LEV_MAX" and "n \<le> length b"
    and "row_at t prev a b i (length b)" "row_at t cur a b (Suc i) 0"
  shows "\<exists>t'. lev_cells cur prev (a ! i) b n t = Some t' \<and> length t' = length t \<and>
    row_at t' prev a b i (length b) \<and> row_at t' cur a b (Suc i) n"
  using assms(7)
proof (induction n)
  case 0
  then show ?case using assms by simp
next
  case (Suc n)
  then obtain t1 where t1: "lev_cells cur prev (a ! i) b n t = Some t1" "length t1 = length t"
    "row_at t1 prev a b i (length b)" "row_at t1 cur a b (Suc i) n" by auto
  have "\<exists>t'. lev_cell cur prev (a ! i) b (Suc n) t1 = Some t' \<and> length t' = length t1 \<and>
      row_at t' prev a b i (length b) \<and> row_at t' cur a b (Suc i) (Suc n)"
    by (rule lev_cell_ok) (use assms t1 Suc.prems in simp_all)
  then show ?case using t1 by auto
qed

lemma lev_rows_ok:
  assumes "length buf = 2 * LEV_ROW" "length a \<le> LEV_MAX" "length b \<le> LEV_MAX" and "\<forall>j\<le>length b. buf ! j = j" and "i \<le> length a"
  shows "\<exists>t. lev_rows a b i buf = Some t \<and> length t = 2 * LEV_ROW \<and> row_at t ((i mod 2) * LEV_ROW) a b i (length b)"
  using assms(5)
proof (induction i)
  case 0
  then show ?case using assms by (simp add: row_at_def)
next
  case (Suc i)
  then obtain t where t: "lev_rows a b i buf = Some t" "length t = 2 * LEV_ROW" "row_at t ((i mod 2) * LEV_ROW) a b i (length b)" by auto
  let ?cur = "(Suc i mod 2) * LEV_ROW" and ?prev = "(i mod 2) * LEV_ROW"
  have m: "?cur = 0 \<and> ?prev = LEV_ROW \<or> ?cur = LEV_ROW \<and> ?prev = 0" by (cases "even i") (simp_all add: mod_Suc odd_iff_mod_2_eq_one)
  then have x: "?cur XOR LEV_ROW = ?prev" by auto
  let ?t = "t[?cur := Suc i]"
  have put: "put16 t ?cur (Suc i) = Some ?t" using m t(2) Suc.prems assms(2) by (auto simp: put16_def)
  have keep: "row_at ?t ?prev a b i (length b)"
    unfolding row_at_def
  proof (intro allI impI)
    fix j assume "j \<le> length b"
    then show "?t ! (?prev + j) = edist (take i a) (take j b)" using t(3) m assms(3) by (auto simp: row_at_def)
  qed
  have new: "row_at ?t ?cur a b (Suc i) 0" using m t(2) Suc.prems by (auto simp: row_at_def)
  have "\<exists>t'. lev_cells ?cur ?prev (a ! i) b (length b) ?t = Some t' \<and> length t' = length ?t \<and>
      row_at t' ?prev a b i (length b) \<and> row_at t' ?cur a b (Suc i) (length b)"
  proof (rule lev_cells_ok)
    show "?cur + length b < length ?t" "?prev + length b < length ?t" "?cur + length b < ?prev \<or> ?prev + length b < ?cur"
      using m t(2) assms(3) by auto
  qed (use Suc.prems assms keep new in simp_all)
  then show ?case using t put x by (auto simp: lev_row_def Let_def)
qed

text \<open>C40: The edit distance of the spelling suggestions is exact. For every limit up to 24 (the
  size the buffer is made for) and whatever the stack buffer holds before, levenshtein_c stays
  inside its buffer and returns the least number of insertions, deletions and replacements of
  one character that lead from one string to the other, when both are no longer than the limit,
  and limit + 1 otherwise.\<close>
theorem levenshtein_exact:
  assumes "length stack = 2 * LEV_ROW" and "limit \<le> LEV_MAX"
  shows "levenshtein_c stack a b limit =
    Some (if length a \<le> limit \<and> length b \<le> limit then (LEAST n. (edit1 ^^ n) a b) else limit + 1)"
proof (cases "length a \<le> limit \<and> length b \<le> limit")
  case False
  then have "min 64 (length a) > limit \<or> min 64 (length b) > limit" using assms(2) by auto
  then show ?thesis using False assms(2) by (auto simp: levenshtein_c_def levenshtein_buffer_c_def Let_def)
next
  case True
  then have l: "length a \<le> LEV_MAX" "length b \<le> LEV_MAX" "min 64 (length a) = length a" "min 64 (length b) = length b"
    using assms(2) by auto
  have d: "edist a b < 2 ^ 31" using edist_bound [of a b] l by simp
  obtain t where t: "init_row stack (length b) = Some t" "length t = 2 * LEV_ROW" "\<forall>j\<le>length b. t ! j = j"
    using init_row_ok [of "length b" stack] l assms(1) by auto
  obtain t' where t': "lev_rows a b (length a) t = Some t'" "length t' = 2 * LEV_ROW"
    "row_at t' ((length a mod 2) * LEV_ROW) a b (length a) (length b)"
    using lev_rows_ok [OF t(2) l(1,2) t(3) order_refl] by blast
  have g: "get16 t' ((length a mod 2) * LEV_ROW + length b) = Some (edist a b)"
  proof -
    have "(length a mod 2) * LEV_ROW + length b < length t'" using t'(2) l by (cases "even (length a)") (auto simp: odd_iff_mod_2_eq_one)
    then show ?thesis using t'(3) by (simp add: get16_def row_at_def)
  qed
  have "levenshtein_buffer_c stack a b limit = Some (edist a b)"
    unfolding levenshtein_buffer_c_def l(3,4) Let_def using True t t' g by simp
  then show ?thesis using True d by (simp add: levenshtein_c_def edist_least)
qed

theorem levenshtein_exact_witness:
  "levenshtein_c (replicate 50 0) ''lst'' ''ls'' 24 = Some (LEAST n. (edit1 ^^ n) ''lst'' ''ls'') \<and> edist ''lst'' ''ls'' = 1"
  using levenshtein_exact [of "replicate 50 0" 24 "''lst''" "''ls''"] by simp

end
