(* ===== verification/FatTable.thy ===== *)
theory FatTable
  imports EzPrelude
begin

text \<open>
  The allocation table of the FAT driver, \<open>kernel/fat.c\<close>: a mounted volume, its sector reads and
  writes, the two-sector cache of the table, the entries of FAT12, FAT16 and FAT32, allocation
  and release of clusters.

  Numbers of the driver are natural numbers with the reductions modulo $2^{32}$ written out where
  the 32-bit arithmetic can wrap (\<open>w32\<close>). The drive is a function from sector and offset to
  bytes; reads and writes of a sector can fail, given by two predicates on sectors. A failed
  read leaves the buffer as it was.
\<close>

abbreviation w32 :: "nat \<Rightarrow> nat" where "w32 n \<equiv> n mod 4294967296"

record fat_info =
  bytes_per_sector :: nat
  sectors_per_cluster :: nat
  reserved_sectors :: nat
  num_fats :: nat
  root_entry_count :: nat
  total_sectors :: nat
  fat_sectors :: nat
  root_cluster :: nat
  first_data_sector :: nat
  cluster_count :: nat
  root_dir_sector :: nat
  root_dir_sectors :: nat

record fatvol =
  fi :: fat_info
  fat_type :: nat
  fat_part_start :: nat
  disk :: "nat \<Rightarrow> nat \<Rightarrow> u8"
  rd_ok :: "nat \<Rightarrow> bool"
  wr_ok :: "nat \<Rightarrow> bool"
  fat_cache :: "nat \<Rightarrow> u8"
  fat_cache_sec :: nat
  fat_cache_n :: nat
  alloc_hint :: nat
  current_dir_cluster :: nat

abbreviation bps :: "fatvol \<Rightarrow> nat" where "bps v \<equiv> bytes_per_sector (fi v)"
abbreviation nclus :: "fatvol \<Rightarrow> nat" where "nclus v \<equiv> cluster_count (fi v)"

section \<open>Sectors\<close>

text \<open>
  The loops around \<open>ata_read_sector\<close> and \<open>ata_write_sector\<close>: sectors \<open>lba + i\<close>, \<dots> (\<open>n\<close> of
  them) to and from the buffer at \<open>base + 512 i\<close>, \<dots>
\<close>

fun read_secs :: "fatvol \<Rightarrow> nat \<Rightarrow> nat \<Rightarrow> nat \<Rightarrow> nat \<Rightarrow> (nat \<Rightarrow> u8) \<Rightarrow> bool \<times> (nat \<Rightarrow> u8)" where
  "read_secs v lba i 0 base buf = (True, buf)"
| "read_secs v lba i (Suc n) base buf =
     (if \<not> rd_ok v (w32 (lba + i)) then (False, buf)
      else read_secs v lba (Suc i) n base
        (\<lambda>j. if base + 512 * i \<le> j \<and> j < base + 512 * Suc i then disk v (w32 (lba + i)) (j - (base + 512 * i)) else buf j))"

fun write_secs :: "nat \<Rightarrow> nat \<Rightarrow> nat \<Rightarrow> nat \<Rightarrow> (nat \<Rightarrow> u8) \<Rightarrow> fatvol \<Rightarrow> bool \<times> fatvol" where
  "write_secs lba i 0 base buf v = (True, v)"
| "write_secs lba i (Suc n) base buf v =
     (if \<not> wr_ok v (w32 (lba + i)) then (False, v)
      else write_secs lba (Suc i) n base buf
        (v\<lparr>disk := (disk v)(w32 (lba + i) := (\<lambda>q. if q < 512 then buf (base + 512 * i + q) else disk v (w32 (lba + i)) q))\<rparr>))"

definition fat_read_vol_sector :: "fatvol \<Rightarrow> nat \<Rightarrow> nat \<Rightarrow> (nat \<Rightarrow> u8) \<Rightarrow> bool \<times> (nat \<Rightarrow> u8)" where
  "fat_read_vol_sector v vol_sec base buf = read_secs v (w32 (fat_part_start v + vol_sec)) 0 (bps v div 512) base buf"

definition fat_write_vol_sector :: "nat \<Rightarrow> nat \<Rightarrow> (nat \<Rightarrow> u8) \<Rightarrow> fatvol \<Rightarrow> bool \<times> fatvol" where
  "fat_write_vol_sector vol_sec base buf v = write_secs (w32 (fat_part_start v + vol_sec)) 0 (bps v div 512) base buf v"

section \<open>The cache and the entries of the table\<close>

fun cache_fill :: "fatvol \<Rightarrow> nat \<Rightarrow> nat \<Rightarrow> nat \<Rightarrow> (nat \<Rightarrow> u8) \<Rightarrow> bool \<times> (nat \<Rightarrow> u8)" where
  "cache_fill v sec i 0 buf = (True, buf)"
| "cache_fill v sec i (Suc n) buf =
     (case fat_read_vol_sector v (w32 (sec + i)) (i * bps v) buf of
        (False, buf') \<Rightarrow> (False, buf')
      | (True, buf') \<Rightarrow> cache_fill v sec (Suc i) n buf')"

definition fat_cache_load :: "nat \<Rightarrow> nat \<Rightarrow> fatvol \<Rightarrow> bool \<times> fatvol" where
  "fat_cache_load byte_off len v =
     (let sec = w32 (reserved_sectors (fi v) + byte_off div bps v);
          ino = byte_off mod bps v;
          n = max 1 ((ino + len + bps v - 1) div bps v)
      in if n > 2 then (False, v)
         else if fat_cache_sec v = sec \<and> fat_cache_n v \<ge> n then (True, v)
         else case cache_fill v sec 0 n (fat_cache v) of
           (False, buf) \<Rightarrow> (False, v\<lparr>fat_cache := buf\<rparr>)
         | (True, buf) \<Rightarrow> (True, v\<lparr>fat_cache := buf, fat_cache_sec := sec, fat_cache_n := n\<rparr>))"

definition entry_pos :: "nat \<Rightarrow> nat \<Rightarrow> nat \<times> nat" where
  "entry_pos type n =
     (if type = 12 then (w32 (n + n div 2), 2) else if type = 16 then (w32 (n * 2), 2) else (w32 (n * 4), 4))"

text \<open>The entry in the bytes \<open>f\<close> (from the first byte of the entry on).\<close>

definition entry_val :: "nat \<Rightarrow> nat \<Rightarrow> (nat \<Rightarrow> nat) \<Rightarrow> nat" where
  "entry_val type n f =
     (if type = 12 then
        (if n AND 1 \<noteq> 0 then push_bit 4 (f 1) OR drop_bit 4 (f 0) else f 0 OR push_bit 8 (f 1 AND 0x0F))
      else if type = 16 then f 0 OR push_bit 8 (f 1)
      else (f 0 OR push_bit 8 (f 1) OR push_bit 16 (f 2) OR push_bit 24 (f 3)) AND 0x0FFFFFFF)"

definition fat_entry_get :: "nat \<Rightarrow> fatvol \<Rightarrow> nat \<times> fatvol" where
  "fat_entry_get n v =
     (if fat_type v = 0 \<or> n < 2 \<or> n \<ge> nclus v + 2 then (0xFFFFFFFF, v)
      else case entry_pos (fat_type v) n of
        (off, len) \<Rightarrow>
          case fat_cache_load off len v of
            (False, v') \<Rightarrow> (0xFFFFFFFF, v')
          | (True, v') \<Rightarrow> (entry_val (fat_type v) n (\<lambda>d. unat (fat_cache v' (off mod bps v + d))), v'))"

text \<open>The new bytes of the entry, from its old bytes.\<close>

definition entry_bytes :: "nat \<Rightarrow> nat \<Rightarrow> nat \<Rightarrow> (nat \<Rightarrow> nat) \<Rightarrow> u8 list" where
  "entry_bytes type n val f =
     (if type = 12 then
        (if n AND 1 \<noteq> 0 then [of_nat ((f 0 AND 0x0F) OR (push_bit 4 val AND 0xF0)), of_nat (drop_bit 4 val)]
         else [of_nat (val AND 0xFF), of_nat ((f 1 AND 0xF0) OR (drop_bit 8 val AND 0x0F))])
      else if type = 16 then [of_nat (val AND 0xFF), of_nat (drop_bit 8 val AND 0xFF)]
      else [of_nat (val AND 0xFF), of_nat (drop_bit 8 val AND 0xFF), of_nat (drop_bit 16 val AND 0xFF), of_nat (drop_bit 24 val AND 0xFF)])"

definition put_bytes :: "nat \<Rightarrow> u8 list \<Rightarrow> (nat \<Rightarrow> u8) \<Rightarrow> (nat \<Rightarrow> u8)" where
  "put_bytes off bs f = (\<lambda>k. if off \<le> k \<and> k < off + length bs then bs ! (k - off) else f k)"

fun cache_flush :: "nat \<Rightarrow> nat \<Rightarrow> nat \<Rightarrow> fatvol \<Rightarrow> bool \<times> fatvol" where
  "cache_flush sec i 0 v = (True, v)"
| "cache_flush sec i (Suc n) v =
     (case fat_write_vol_sector (w32 (sec + i)) (i * bps v) (fat_cache v) v of
        (False, v') \<Rightarrow> (False, v')
      | (True, v') \<Rightarrow> cache_flush sec (Suc i) n v')"

definition fat_entry_set :: "nat \<Rightarrow> nat \<Rightarrow> fatvol \<Rightarrow> bool \<times> fatvol" where
  "fat_entry_set n val v =
     (if fat_type v = 0 \<or> n < 2 \<or> n \<ge> nclus v + 2 then (False, v)
      else case entry_pos (fat_type v) n of
        (off, len) \<Rightarrow>
          case fat_cache_load off len v of
            (False, v') \<Rightarrow> (False, v')
          | (True, v') \<Rightarrow>
              let ino = off mod bps v;
                  bs = entry_bytes (fat_type v) n val (\<lambda>d. unat (fat_cache v' (ino + d)));
                  v'' = v'\<lparr>fat_cache := put_bytes ino bs (fat_cache v')\<rparr>
              in cache_flush (w32 (reserved_sectors (fi v) + off div bps v)) 0 (fat_cache_n v'') v'')"

definition fat_is_eoc :: "fatvol \<Rightarrow> nat \<Rightarrow> bool" where
  "fat_is_eoc v x = (if fat_type v = 12 then x \<ge> 0xFF8 else if fat_type v = 16 then x \<ge> 0xFFF8 else x \<ge> 0x0FFFFFF8)"

definition fat_is_bad :: "fatvol \<Rightarrow> nat \<Rightarrow> bool" where
  "fat_is_bad v x = (if fat_type v = 12 then x = 0xFF7 else if fat_type v = 16 then x = 0xFFF7 else x = 0x0FFFFFF7)"

definition fat_eoc_val :: "fatvol \<Rightarrow> nat" where
  "fat_eoc_val v = (if fat_type v = 12 then 0xFFF else if fat_type v = 16 then 0xFFFF else 0x0FFFFFFF)"

section \<open>Allocation and release\<close>

primrec alloc_loop :: "nat \<Rightarrow> fatvol \<Rightarrow> nat \<times> fatvol" where
  "alloc_loop 0 v = (0, v)"
| "alloc_loop (Suc k) v =
     (let total = nclus v + 2; c = (if alloc_hint v \<ge> total then 2 else alloc_hint v)
      in case fat_entry_get c v of
           (x, v') \<Rightarrow>
             if x = 0 then (c, v'\<lparr>alloc_hint := (if c + 1 \<ge> total then 2 else c + 1)\<rparr>)
             else alloc_loop k (v'\<lparr>alloc_hint := c + 1\<rparr>))"

definition fat_alloc_cluster :: "fatvol \<Rightarrow> nat \<times> fatvol" where
  "fat_alloc_cluster v =
     (if fat_type v = 0 then (0, v)
      else alloc_loop (nclus v) (if alloc_hint v < 2 \<or> alloc_hint v \<ge> nclus v + 2 then v\<lparr>alloc_hint := 2\<rparr> else v))"

primrec free_loop :: "nat \<Rightarrow> nat \<Rightarrow> nat \<Rightarrow> fatvol \<Rightarrow> bool \<times> fatvol" where
  "free_loop 0 first cur v = (True, v)"
| "free_loop (Suc k) first cur v =
     (if \<not> (cur \<ge> 2 \<and> cur < nclus v + 2) then (True, v)
      else case fat_entry_get cur v of
        (nxt, v1) \<Rightarrow>
          case fat_entry_set cur 0 v1 of
            (False, v2) \<Rightarrow> (False, v2)
          | (True, v2) \<Rightarrow>
              let v3 = (if first < alloc_hint v2 then v2\<lparr>alloc_hint := first\<rparr> else v2)
              in if fat_is_eoc v3 nxt \<or> nxt < 2 \<or> fat_is_bad v3 nxt then (True, v3) else free_loop k first nxt v3)"

text \<open>\<open>steps\<close> counts up to the number of clusters plus 2.\<close>

definition fat_free_chain :: "nat \<Rightarrow> fatvol \<Rightarrow> bool \<times> fatvol" where
  "fat_free_chain first v = (if first < 2 then (True, v) else free_loop (nclus v + 2) first first v)"

end
