(* ===== verification/FatSpec.thy ===== *)
theory FatSpec
  imports FatTable
begin

text \<open>
  What the allocation table promises: its entries form a map, \<open>fat_entry_get\<close> reads it and
  \<open>fat_entry_set\<close> updates it at one point, through a cache that always agrees with the disk;
  allocation finds a free cluster whenever there is one, and releasing a chain frees exactly
  the clusters on it. All of this is for volumes with 512-byte sectors (see \<open>FatFlaws\<close> for the
  others) and drives whose reads and writes succeed.
\<close>

section \<open>The table as bytes\<close>

definition fat_off :: "nat \<Rightarrow> nat \<Rightarrow> nat" where
  "fat_off type n = (if type = 12 then n + n div 2 else if type = 16 then n * 2 else n * 4)"

definition fat_len :: "nat \<Rightarrow> nat" where
  "fat_len type = (if type = 12 \<or> type = 16 then 2 else 4)"

definition fat_lba :: "fatvol \<Rightarrow> nat" where
  "fat_lba v = fat_part_start v + reserved_sectors (fi v)"

definition fatbyte :: "fatvol \<Rightarrow> nat \<Rightarrow> u8" where
  "fatbyte v k = disk v (fat_lba v + k div 512) (k mod 512)"

definition geo :: "fatvol \<Rightarrow> bool" where
  "geo v \<longleftrightarrow> bps v = 512 \<and> fat_type v \<in> {12, 16, 32} \<and> nclus v + 2 \<le> 0x10000000 \<and>
     (\<forall>n < nclus v + 2. fat_off (fat_type v) n + fat_len (fat_type v) \<le> 512 * fat_sectors (fi v)) \<and>
     fat_lba v + fat_sectors (fi v) < 4294967296 \<and> (\<forall>l. rd_ok v l \<and> wr_ok v l)"

definition coherent :: "fatvol \<Rightarrow> bool" where
  "coherent v \<longleftrightarrow>
     (fat_cache_n v > 0 \<longrightarrow> reserved_sectors (fi v) \<le> fat_cache_sec v \<and> fat_cache_sec v + fat_cache_n v \<le> reserved_sectors (fi v) + fat_sectors (fi v)) \<and>
     (\<forall>j < 512 * fat_cache_n v. fat_cache v j = disk v (fat_part_start v + fat_cache_sec v + j div 512) (j mod 512))"

definition fat_inv :: "fatvol \<Rightarrow> bool" where
  "fat_inv v \<longleftrightarrow> geo v \<and> coherent v"

lemma geoD:
  assumes "geo v"
  shows "bps v = 512" "fat_type v = 12 \<or> fat_type v = 16 \<or> fat_type v = 32" "fat_type v \<noteq> 0" "nclus v + 2 \<le> 0x10000000"
    "n < nclus v + 2 \<Longrightarrow> fat_off (fat_type v) n + fat_len (fat_type v) \<le> 512 * fat_sectors (fi v)"
    "fat_lba v + fat_sectors (fi v) < 4294967296" "rd_ok v l" "wr_ok v l"
  using assms by (auto simp: geo_def)

lemma entry_pos_eq: "geo v \<Longrightarrow> n < nclus v + 2 \<Longrightarrow> entry_pos (fat_type v) n = (fat_off (fat_type v) n, fat_len (fat_type v))"
  using geoD(2,4) [of v] by (auto simp: entry_pos_def fat_off_def fat_len_def)

lemma cache_fill_1: "bps v = 512 \<Longrightarrow> \<forall>l. rd_ok v l \<Longrightarrow> fat_part_start v + sec + i + n < 4294967296 \<Longrightarrow>
    cache_fill v sec i n buf = (True, \<lambda>j. if 512 * i \<le> j \<and> j < 512 * (i + n)
       then disk v (fat_part_start v + sec + j div 512) (j mod 512) else buf j)"
proof (induction n arbitrary: i buf)
  case (Suc n)
  let ?buf = "\<lambda>j. if 512 * i \<le> j \<and> j < 512 + 512 * i then disk v (fat_part_start v + sec + i) (j - 512 * i) else buf j"
  have r: "fat_read_vol_sector v (w32 (sec + i)) (i * bps v) buf = (True, ?buf)"
    unfolding fat_read_vol_sector_def using Suc.prems by (simp add: mod_add_right_eq algebra_simps cong: if_cong)
  have "cache_fill v sec i (Suc n) buf = cache_fill v sec (Suc i) n ?buf" by (simp add: r)
  also have "\<dots> = (True, \<lambda>j. if 512 * Suc i \<le> j \<and> j < 512 * (Suc i + n)
       then disk v (fat_part_start v + sec + j div 512) (j mod 512) else ?buf j)"
    by (rule Suc.IH) (use Suc.prems in simp_all)
  also have "(\<lambda>j. if 512 * Suc i \<le> j \<and> j < 512 * (Suc i + n)
       then disk v (fat_part_start v + sec + j div 512) (j mod 512) else ?buf j) =
      (\<lambda>j. if 512 * i \<le> j \<and> j < 512 * (i + Suc n) then disk v (fat_part_start v + sec + j div 512) (j mod 512) else buf j)"
  proof (rule ext)
    fix j
    have "j div 512 = i \<and> j mod 512 = j - 512 * i" if "512 * i \<le> j" "j < 512 + 512 * i"
    proof -
      have "j div 512 = i" by (rule div_nat_eqI) (use that in simp_all)
      then show ?thesis by (simp add: modulo_nat_def mult.commute)
    qed
    then show "(if 512 * Suc i \<le> j \<and> j < 512 * (Suc i + n) then disk v (fat_part_start v + sec + j div 512) (j mod 512) else ?buf j) =
      (if 512 * i \<le> j \<and> j < 512 * (i + Suc n) then disk v (fat_part_start v + sec + j div 512) (j mod 512) else buf j)"
      by (simp add: add.assoc)
  qed
  finally show ?case .
qed (auto simp: fun_eq_iff)

definition recache :: "fatvol \<Rightarrow> fatvol \<Rightarrow> bool" where
  "recache v v' \<longleftrightarrow> (\<exists>c s n. v' = v\<lparr>fat_cache := c, fat_cache_sec := s, fat_cache_n := n\<rparr>)"

lemma recacheD:
  assumes "recache v v'"
  shows "fi v' = fi v" "fat_type v' = fat_type v" "disk v' = disk v" "fat_lba v' = fat_lba v" "geo v' = geo v" "fatbyte v' = fatbyte v"
    "alloc_hint v' = alloc_hint v" "fat_part_start v' = fat_part_start v"
  using assms by (auto simp: recache_def geo_def fat_lba_def fatbyte_def fun_eq_iff)

lemma recache_refl: "recache v v"
  unfolding recache_def by (metis fatvol.surjective fatvol.update_convs(7-9))

lemma recache_trans: "recache v v' \<Longrightarrow> recache v' v'' \<Longrightarrow> recache v v''"
  unfolding recache_def by (elim exE) (simp, blast)

lemma div_window: "j < 512 * n \<Longrightarrow> j div 512 < n" for j n :: nat
  by (simp add: less_mult_imp_div_less mult.commute)

lemma coherent_byte:
  assumes "coherent v" and "fat_cache_sec v = reserved_sectors (fi v) + off div 512" and "off mod 512 + d < 512 * fat_cache_n v"
  shows "fat_cache v (off mod 512 + d) = fatbyte v (off + d)"
proof -
  have "fat_cache v (off mod 512 + d) = disk v (fat_part_start v + fat_cache_sec v + (off mod 512 + d) div 512) ((off mod 512 + d) mod 512)"
    using assms(1,3) by (simp add: coherent_def)
  moreover have "(off + d) div 512 = off div 512 + (off mod 512 + d) div 512" "(off mod 512 + d) mod 512 = (off + d) mod 512"
    by (simp_all add: div_add1_eq [of off d] mod_add_left_eq div_add1_eq [of "off mod 512" d])
  ultimately show ?thesis using assms(2) by (simp add: fatbyte_def fat_lba_def add.assoc)
qed

lemma fat_len_bounds: "0 < fat_len t" "fat_len t \<le> 4"
  by (simp_all add: fat_len_def)

lemma ceil_div: "x \<le> 512 * ((x + 511) div 512)" "512 * ((x + 511) div 512) \<le> x + 511" for x :: nat
proof -
  have "512 * ((x + 511) div 512) + (x + 511) mod 512 = x + 511" by (rule mult_div_mod_eq)
  moreover have "(x + 511) mod 512 < 512" by simp
  ultimately show "x \<le> 512 * ((x + 511) div 512)" "512 * ((x + 511) div 512) \<le> x + 511" by linarith+
qed

lemma fat_cache_load_ok:
  assumes inv: "fat_inv v" and len: "0 < len" "len \<le> 4" and off: "off + len \<le> 512 * fat_sectors (fi v)"
  shows "\<exists>v'. fat_cache_load off len v = (True, v') \<and> recache v v' \<and> fat_inv v' \<and>
    fat_cache_sec v' = reserved_sectors (fi v) + off div 512 \<and> off mod 512 + len \<le> 512 * fat_cache_n v'"
proof -
  have g: "geo v" and c: "coherent v" using inv by (simp_all add: fat_inv_def)
  note b = geoD(1) [OF g]
  let ?sec = "reserved_sectors (fi v) + off div 512"
  define x where "x = off mod 512 + len"
  define n where "n = max 1 ((x + 511) div 512)"
  have x: "1 \<le> x" "x \<le> 516" using len mod_less_divisor [of 512 off] unfolding x_def by linarith+
  have nn: "n = (x + 511) div 512" unfolding n_def using x ceil_div(1) [of x] by (cases "(x + 511) div 512") simp_all
  have fits: "x \<le> 512 * n" and n2: "n \<le> 2" unfolding nn using ceil_div [of x] x by linarith+
  have "off div 512 + n \<le> fat_sectors (fi v)"
  proof -
    have "512 * (off div 512) + x \<le> 512 * fat_sectors (fi v)"
      using off mult_div_mod_eq [of 512 off] unfolding x_def by linarith
    then show ?thesis using ceil_div(2) [of x] unfolding nn by linarith
  qed
  then have s: "?sec + n \<le> reserved_sectors (fi v) + fat_sectors (fi v)" by simp
  have w: "fat_part_start v + ?sec + n < 4294967296" using s geoD(6) [OF g] by (simp add: fat_lba_def)
  have nl: "max 1 ((off mod bps v + len + bps v - 1) div bps v) = n" unfolding b n_def x_def by simp
  have sl: "w32 (reserved_sectors (fi v) + off div bps v) = ?sec" unfolding b using w by simp
  have ld: "fat_cache_load off len v = (if n > 2 then (False, v) else if fat_cache_sec v = ?sec \<and> fat_cache_n v \<ge> n then (True, v)
      else case cache_fill v ?sec 0 n (fat_cache v) of (False, buf) \<Rightarrow> (False, v\<lparr>fat_cache := buf\<rparr>)
        | (True, buf) \<Rightarrow> (True, v\<lparr>fat_cache := buf, fat_cache_sec := ?sec, fat_cache_n := n\<rparr>))"
    unfolding fat_cache_load_def Let_def nl sl ..
  show ?thesis
  proof (cases "fat_cache_sec v = ?sec \<and> fat_cache_n v \<ge> n")
    case True
    then have "fat_cache_load off len v = (True, v)"
      unfolding ld using n2 by simp
    moreover have "512 * n \<le> 512 * fat_cache_n v" using True by simp
    ultimately show ?thesis using True inv recache_refl [of v] fits unfolding x_def by (intro exI [of _ v]) auto
  next
    case False
    let ?c = "\<lambda>j. if j < 512 * n then disk v (fat_part_start v + ?sec + j div 512) (j mod 512) else fat_cache v j"
    let ?v = "v\<lparr>fat_cache := ?c, fat_cache_sec := ?sec, fat_cache_n := n\<rparr>"
    have "cache_fill v ?sec 0 n (fat_cache v) = (True, ?c)"
      using cache_fill_1 [of v ?sec 0 n "fat_cache v"] b geoD(7) [OF g] w by (simp add: add.assoc)
    then have "fat_cache_load off len v = (True, ?v)"
      unfolding ld using n2 False by auto
    moreover have "recache v ?v" unfolding recache_def by blast
    moreover have "fat_inv ?v"
      using recacheD(5) [OF \<open>recache v ?v\<close>] g s by (simp add: fat_inv_def coherent_def)
    ultimately show ?thesis using fits unfolding x_def by (intro exI [of _ ?v]) simp
  qed
qed

section \<open>Entries\<close>

definition fat_map :: "fatvol \<Rightarrow> nat \<Rightarrow> nat" where
  "fat_map v n = entry_val (fat_type v) n (\<lambda>d. unat (fatbyte v (fat_off (fat_type v) n + d)))"

lemma entry_val_cong: "(\<And>d. d < fat_len type \<Longrightarrow> f d = g d) \<Longrightarrow> entry_val type n f = entry_val type n g"
  by (simp add: entry_val_def fat_len_def)

lemma entry_bytes_cong: "(\<And>d. d < fat_len type \<Longrightarrow> f d = g d) \<Longrightarrow> entry_bytes type n x f = entry_bytes type n x g"
  by (simp add: entry_bytes_def fat_len_def)

lemma load_entry:
  assumes inv: "fat_inv v" and n: "n < nclus v + 2"
  shows "\<exists>v'. fat_cache_load (fat_off (fat_type v) n) (fat_len (fat_type v)) v = (True, v') \<and> recache v v' \<and> fat_inv v' \<and>
    fat_cache_sec v' = reserved_sectors (fi v) + fat_off (fat_type v) n div 512 \<and>
    fat_off (fat_type v) n mod 512 + fat_len (fat_type v) \<le> 512 * fat_cache_n v' \<and>
    (\<forall>d < fat_len (fat_type v). fat_cache v' (fat_off (fat_type v) n mod 512 + d) = fatbyte v (fat_off (fat_type v) n + d))"
proof -
  have g: "geo v" using inv by (simp add: fat_inv_def)
  obtain v' where v': "fat_cache_load (fat_off (fat_type v) n) (fat_len (fat_type v)) v = (True, v')" "recache v v'" "fat_inv v'"
      "fat_cache_sec v' = reserved_sectors (fi v) + fat_off (fat_type v) n div 512"
      "fat_off (fat_type v) n mod 512 + fat_len (fat_type v) \<le> 512 * fat_cache_n v'"
    using fat_cache_load_ok [OF inv fat_len_bounds geoD(5) [OF g n]] by blast
  have "fat_cache v' (fat_off (fat_type v) n mod 512 + d) = fatbyte v (fat_off (fat_type v) n + d)" if "d < fat_len (fat_type v)" for d
    using coherent_byte [of v' "fat_off (fat_type v) n" d] v' that recacheD(1,6) [OF v'(2)] by (simp add: fat_inv_def)
  then show ?thesis using v' by blast
qed

lemma fat_entry_get_ok:
  assumes inv: "fat_inv v" and n: "2 \<le> n" "n < nclus v + 2"
  shows "\<exists>v'. fat_entry_get n v = (fat_map v n, v') \<and> recache v v' \<and> fat_inv v'"
proof -
  have g: "geo v" using inv by (simp add: fat_inv_def)
  obtain v' where v': "fat_cache_load (fat_off (fat_type v) n) (fat_len (fat_type v)) v = (True, v')" "recache v v'" "fat_inv v'"
      "\<forall>d < fat_len (fat_type v). fat_cache v' (fat_off (fat_type v) n mod 512 + d) = fatbyte v (fat_off (fat_type v) n + d)"
    using load_entry [OF inv n(2)] by blast
  have "entry_val (fat_type v) n (\<lambda>d. unat (fat_cache v' (fat_off (fat_type v) n mod bps v + d))) = fat_map v n"
    unfolding fat_map_def using v'(4) geoD(1) [OF g] by (intro entry_val_cong) simp
  then have "fat_entry_get n v = (fat_map v n, v')"
    using v'(1) n geoD(3) [OF g] by (simp add: fat_entry_get_def entry_pos_eq [OF g n(2)])
  then show ?thesis using v' by blast
qed

lemma cache_flush_1:
  "bps v = 512 \<Longrightarrow> \<forall>l. wr_ok v l \<Longrightarrow> fat_part_start v + sec + i + n < 4294967296 \<Longrightarrow>
    cache_flush sec i n v = (True, v\<lparr>disk := \<lambda>l q. if fat_part_start v + sec + i \<le> l \<and> l < fat_part_start v + sec + i + n \<and> q < 512
       then fat_cache v (512 * (l - (fat_part_start v + sec)) + q) else disk v l q\<rparr>)"
proof (induction n arbitrary: i v)
  case 0
  have "(\<lambda>l q. if fat_part_start v + sec + i \<le> l \<and> l < fat_part_start v + sec + i + 0 \<and> q < 512
      then fat_cache v (512 * (l - (fat_part_start v + sec)) + q) else disk v l q) = disk v"
    by (intro ext) auto
  then show ?case by simp
next
  case (Suc n)
  let ?p = "fat_part_start v + sec"
  let ?v = "v\<lparr>disk := (disk v)(?p + i := (\<lambda>q. if q < 512 then fat_cache v (512 * i + q) else disk v (?p + i) q))\<rparr>"
  have r: "fat_write_vol_sector (w32 (sec + i)) (i * bps v) (fat_cache v) v = (True, ?v)"
    unfolding fat_write_vol_sector_def using Suc.prems by (simp add: mod_add_right_eq algebra_simps cong: if_cong)
  have "cache_flush sec i (Suc n) v = cache_flush sec (Suc i) n ?v" by (simp add: r)
  also have "\<dots> = (True, ?v\<lparr>disk := \<lambda>l q. if ?p + Suc i \<le> l \<and> l < ?p + Suc i + n \<and> q < 512
       then fat_cache v (512 * (l - ?p) + q) else disk ?v l q\<rparr>)"
    using Suc.IH [of ?v "Suc i"] Suc.prems by (simp cong: if_cong)
  also have "?v\<lparr>disk := \<lambda>l q. if ?p + Suc i \<le> l \<and> l < ?p + Suc i + n \<and> q < 512
       then fat_cache v (512 * (l - ?p) + q) else disk ?v l q\<rparr> =
      v\<lparr>disk := \<lambda>l q. if ?p + i \<le> l \<and> l < ?p + i + Suc n \<and> q < 512 then fat_cache v (512 * (l - ?p) + q) else disk v l q\<rparr>"
  proof -
    have "(\<lambda>l q. if ?p + Suc i \<le> l \<and> l < ?p + Suc i + n \<and> q < 512 then fat_cache v (512 * (l - ?p) + q) else disk ?v l q) =
      (\<lambda>l q. if ?p + i \<le> l \<and> l < ?p + i + Suc n \<and> q < 512 then fat_cache v (512 * (l - ?p) + q) else disk v l q)"
      by (intro ext) auto
    then show ?thesis by simp
  qed
  finally show ?case .
qed

definition inside :: "nat \<Rightarrow> nat \<Rightarrow> fatvol \<Rightarrow> fatvol \<Rightarrow> bool" where
  "inside lo hi v v' \<longleftrightarrow> (\<exists>c s n d. v' = v\<lparr>fat_cache := c, fat_cache_sec := s, fat_cache_n := n, disk := d\<rparr> \<and>
     (\<forall>l. \<not> (lo \<le> l \<and> l < hi) \<longrightarrow> d l = disk v l))"

text \<open>Only the first copy of the table changes.\<close>

abbreviation fat_only :: "fatvol \<Rightarrow> fatvol \<Rightarrow> bool" where
  "fat_only v \<equiv> inside (fat_lba v) (fat_lba v + fat_sectors (fi v)) v"

lemma insideD:
  assumes "inside lo hi v v'"
  shows "fi v' = fi v" "fat_type v' = fat_type v" "fat_lba v' = fat_lba v" "geo v' = geo v" "alloc_hint v' = alloc_hint v"
    "fat_part_start v' = fat_part_start v" "\<not> (lo \<le> l \<and> l < hi) \<Longrightarrow> disk v' l = disk v l"
  using assms by (auto simp: inside_def geo_def fat_lba_def)

lemma flush_entry:
  assumes inv: "fat_inv v" and n: "n < nclus v + 2" and load: "recache v v'" "fat_inv v'"
      "fat_cache_sec v' = reserved_sectors (fi v) + off div 512" "off mod 512 + length bs \<le> 512 * fat_cache_n v'" and bs: "bs \<noteq> []"
  shows "\<exists>v''. cache_flush (reserved_sectors (fi v) + off div 512) 0 (fat_cache_n v') (v'\<lparr>fat_cache := put_bytes (off mod 512) bs (fat_cache v')\<rparr>) = (True, v'') \<and>
    fat_inv v'' \<and> fatbyte v'' = put_bytes off bs (fatbyte v) \<and> fat_only v v''"
proof -
  have g: "geo v'" and c: "coherent v'" using load(2) by (simp_all add: fat_inv_def)
  let ?s = "reserved_sectors (fi v) + off div 512" and ?n = "fat_cache_n v'" and ?p = "fat_part_start v'"
  let ?c = "put_bytes (off mod 512) bs (fat_cache v')"
  let ?d = "\<lambda>l q. if ?p + ?s \<le> l \<and> l < ?p + ?s + ?n \<and> q < 512 then ?c (512 * (l - (?p + ?s)) + q) else disk v' l q"
  let ?v = "v'\<lparr>fat_cache := ?c, disk := ?d\<rparr>"
  note same = recacheD [OF load(1)]
  have win: "?n > 0 \<longrightarrow> ?s + ?n \<le> reserved_sectors (fi v) + fat_sectors (fi v)" using c load(3) same(1) by (simp add: coherent_def)
  have "?n > 0" using load(4) bs by (cases ?n) auto
  then have w: "?p + ?s + ?n < 4294967296" using win geoD(6) [OF g] same by (auto simp: fat_lba_def)
  have fl: "cache_flush ?s 0 ?n (v'\<lparr>fat_cache := ?c\<rparr>) = (True, ?v)"
    using w cache_flush_1 [of "v'\<lparr>fat_cache := ?c\<rparr>" ?s 0 ?n] geoD(1,8) [OF g] by (auto simp: add.assoc cong: if_cong)
  have "fatbyte ?v k = put_bytes off bs (fatbyte v) k" for k
  proof (cases "off div 512 \<le> k div 512 \<and> k div 512 < off div 512 + ?n")
    case True
    define j where "j = k - 512 * (off div 512)"
    have "512 * (off div 512) \<le> k"
      using True mult_le_mono2 [of "off div 512" "k div 512" 512] times_div_less_eq_dividend [of 512 k] by linarith
    then have k: "k = 512 * (off div 512) + j" by (simp add: j_def)
    have jd: "k div 512 = off div 512 + j div 512" "k mod 512 = j mod 512" unfolding k by simp_all
    have "fatbyte ?v k = ?c (512 * (k div 512 - off div 512) + k mod 512)"
      using True same by (simp add: fatbyte_def fat_lba_def)
    also have "\<dots> = ?c j" unfolding jd by simp
    also have "fat_cache v' j = fatbyte v k"
    proof -
      have "j < 512 * ?n" using True div_less_iff_less_mult [of 512 j ?n] by (simp add: jd mult.commute)
      then have "fat_cache v' j = disk v' (?p + fat_cache_sec v' + j div 512) (j mod 512)" using c by (simp add: coherent_def)
      then show ?thesis using load(3) same jd by (simp add: fatbyte_def fat_lba_def add.assoc)
    qed
    then have "?c j = put_bytes off bs (fatbyte v) k"
    proof -
      have "off mod 512 \<le> j \<longleftrightarrow> off \<le> k" "j < off mod 512 + length bs \<longleftrightarrow> k < off + length bs" "off \<le> k \<Longrightarrow> j - off mod 512 = k - off"
        unfolding k using mult_div_mod_eq [of 512 off] by linarith+
      then show ?thesis using \<open>fat_cache v' j = fatbyte v k\<close> by (auto simp: put_bytes_def)
    qed
    finally show ?thesis .
  next
    case False
    have "\<not> (off \<le> k \<and> k < off + length bs)"
    proof
      assume a: "off \<le> k \<and> k < off + length bs"
      have "k < 512 * (off div 512 + ?n)" unfolding distrib_left using a load(4) mult_div_mod_eq [of 512 off] by linarith
      then have "k div 512 < off div 512 + ?n" by (rule div_window)
      then show False using False a div_le_mono [of off k 512] by simp
    qed
    then show ?thesis using False same by (auto simp: put_bytes_def fatbyte_def fat_lba_def)
  qed
  then have "fatbyte ?v = put_bytes off bs (fatbyte v)" by (rule ext)
  moreover have "fat_inv ?v"
  proof -
    have "geo ?v" using g by (simp add: geo_def fat_lba_def)
    moreover have "?c j = ?d (?p + ?s + j div 512) (j mod 512)" if "j < 512 * ?n" for j
      using div_window [OF that] by simp
    ultimately show ?thesis using c load(3) same(1) by (simp add: fat_inv_def coherent_def)
  qed
  moreover have "fat_only v ?v"
  proof -
    obtain c' s' n' where e: "v' = v\<lparr>fat_cache := c', fat_cache_sec := s', fat_cache_n := n'\<rparr>" using load(1) by (auto simp: recache_def)
    have "?d l = disk v l" if "\<not> (fat_lba v \<le> l \<and> l < fat_lba v + fat_sectors (fi v))" for l
    proof -
      have "\<not> (?p + ?s \<le> l \<and> l < ?p + ?s + ?n)" using that win same by (auto simp: fat_lba_def)
      then show ?thesis using same by auto
    qed
    then show ?thesis unfolding inside_def
      by (intro exI [of _ ?c] exI [of _ s'] exI [of _ n'] exI [of _ ?d]) (simp add: e)
  qed
  ultimately show ?thesis using fl by blast
qed

section \<open>The arithmetic of the entries\<close>

lemma entry_val_arith:
  assumes "\<And>d. f d < 256"
  shows "entry_val 12 n f = (if odd n then f 0 div 16 + 16 * f 1 else f 0 + 256 * (f 1 mod 16))"
    "entry_val 16 n f = f 0 + 256 * f 1"
    "entry_val 32 n f = (f 0 + 256 * (f 1 + 256 * (f 2 + 256 * f 3))) mod 268435456"
proof -
  have odd: "n AND 1 \<noteq> 0 \<longleftrightarrow> odd n" by (simp add: and_one_eq odd_iff_mod_2_eq_one)
  have "f 0 div 16 < 2 ^ 4" using assms [of 0] by (simp add: less_mult_imp_div_less)
  then have "push_bit 4 (f 1) OR drop_bit 4 (f 0) = f 0 div 16 + 16 * f 1"
    using or_shift [of "f 0 div 16" 4 "f 1"] by (simp add: or.commute drop_bit_eq_div)
  moreover have "f 0 OR push_bit 8 (f 1 AND 0x0F) = f 0 + 256 * (f 1 mod 16)"
    using or_shift [of "f 0" 8 "f 1 mod 16"] assms [of 0] by (simp add: byte_masks)
  ultimately show "entry_val 12 n f = (if odd n then f 0 div 16 + 16 * f 1 else f 0 + 256 * (f 1 mod 16))"
    unfolding entry_val_def odd by simp
  show "entry_val 16 n f = f 0 + 256 * f 1"
    using or_shift [of "f 0" 8 "f 1"] assms [of 0] by (simp add: entry_val_def)
  have "push_bit 16 (f 2) OR push_bit 24 (f 3) = push_bit 16 (f 2 OR push_bit 8 (f 3))" by (simp add: push_bit_push_bit)
  also have "f 2 OR push_bit 8 (f 3) = f 2 + 256 * f 3" using or_shift [of "f 2" 8 "f 3"] assms [of 2] by simp
  finally have "push_bit 8 (f 1) OR push_bit 16 (f 2) OR push_bit 24 (f 3) = push_bit 8 (f 1 OR push_bit 8 (f 2 + 256 * f 3))"
    by (simp add: push_bit_push_bit)
  also have "f 1 OR push_bit 8 (f 2 + 256 * f 3) = f 1 + 256 * (f 2 + 256 * f 3)"
    using or_shift [of "f 1" 8 "f 2 + 256 * f 3"] assms [of 1] by simp
  finally have "f 0 OR push_bit 8 (f 1) OR push_bit 16 (f 2) OR push_bit 24 (f 3) = f 0 + 256 * (f 1 + 256 * (f 2 + 256 * f 3))"
    using or_shift [of "f 0" 8 "f 1 + 256 * (f 2 + 256 * f 3)"] assms [of 0] by simp
  then show "entry_val 32 n f = (f 0 + 256 * (f 1 + 256 * (f 2 + 256 * f 3))) mod 268435456"
    using and_low [of "f 0 + 256 * (f 1 + 256 * (f 2 + 256 * f 3))" 28] by (simp add: entry_val_def mask_eq_exp_minus_1)
qed

lemma nibble_bytes:
  "(x AND 0x0F) OR (push_bit 4 val AND 0xF0) = x mod 16 + 16 * (val mod 16)"
  "(x AND 0xF0) OR (y AND 0x0F) = y mod 16 + 16 * (x div 16 mod 16)" for x y val :: nat
proof -
  have w: "z AND 0xF0 = push_bit 4 (z div 16 mod 16)" for z :: nat
    using and_window [of z 4 4] by (simp add: push_bit_eq_mult mask_eq_exp_minus_1)
  have "push_bit 4 val div 16 = val" by (simp add: push_bit_eq_mult)
  then show "(x AND 0x0F) OR (push_bit 4 val AND 0xF0) = x mod 16 + 16 * (val mod 16)"
    unfolding w using or_shift [of "x mod 16" 4 "val mod 16"] by (simp add: byte_masks)
  show "(x AND 0xF0) OR (y AND 0x0F) = y mod 16 + 16 * (x div 16 mod 16)"
    unfolding w using or_shift [of "y mod 16" 4 "x div 16 mod 16"] by (simp add: byte_masks or.commute)
qed

lemma and_255: "x AND 0xFF = x mod 256" for x :: nat
  using and_low [of x 8] by (simp add: mask_eq_exp_minus_1)

lemma entry_bytes_arith:
  "map unat (entry_bytes 12 n val f) =
     (if odd n then [f 0 mod 16 + 16 * (val mod 16), val div 16 mod 256] else [val mod 256, val div 256 mod 16 + 16 * (f 1 div 16 mod 16)])"
  "map unat (entry_bytes 16 n val f) = [val mod 256, val div 256 mod 256]"
  "map unat (entry_bytes 32 n val f) = [val mod 256, val div 256 mod 256, val div 65536 mod 256, val div 16777216 mod 256]"
proof -
  have u: "unat (of_nat x :: u8) = x mod 256" for x by (simp add: unat_of_nat)
  have odd: "n AND 1 \<noteq> 0 \<longleftrightarrow> odd n" by (simp add: and_one_eq odd_iff_mod_2_eq_one)
  have small: "(a mod 16 + 16 * (b mod 16)) mod 256 = a mod 16 + 16 * (b mod 16)" for a b :: nat
  proof -
    have "a mod 16 < 16" "b mod 16 < 16" by simp_all
    then have "a mod 16 + 16 * (b mod 16) < 256" by linarith
    then show ?thesis by simp
  qed
  show "map unat (entry_bytes 12 n val f) =
     (if odd n then [f 0 mod 16 + 16 * (val mod 16), val div 16 mod 256] else [val mod 256, val div 256 mod 16 + 16 * (f 1 div 16 mod 16)])"
    unfolding entry_bytes_def odd nibble_bytes and_255
    by (cases "odd n") (simp_all only: simp_thms if_True if_False list.map u small mod_mod_trivial drop_bit_eq_div, simp_all)
  show "map unat (entry_bytes 16 n val f) = [val mod 256, val div 256 mod 256]"
    "map unat (entry_bytes 32 n val f) = [val mod 256, val div 256 mod 256, val div 65536 mod 256, val div 16777216 mod 256]"
    by (simp_all add: entry_bytes_def u drop_bit_eq_div and_255)
qed

definition entry_max :: "nat \<Rightarrow> nat" where
  "entry_max type = (if type = 12 then 4096 else if type = 16 then 65536 else 268435456)"

lemma length_entry_bytes: "type \<in> {12, 16, 32} \<Longrightarrow> length (entry_bytes type n val f) = fat_len type"
  by (auto simp: entry_bytes_def fat_len_def)

lemma entry_val_new:
  assumes t: "type \<in> {12, 16, 32}" and val: "val < entry_max type"
  shows "entry_val type n (\<lambda>d. if d < fat_len type then unat (entry_bytes type n val f ! d) else 0) = val"
proof -
  let ?g = "\<lambda>d. if d < fat_len type then unat (entry_bytes type n val f ! d) else 0"
  have b: "?g d < 256" for d using u8_bound by simp
  have g: "?g d = map unat (entry_bytes type n val f) ! d" if "d < fat_len type" for d
    using that length_entry_bytes [OF t] by simp
  have low: "x mod 256 + 256 * (x div 256) = x" for x :: nat by simp
  from t consider "type = 12" | "type = 16" | "type = 32" by auto
  then show ?thesis
  proof cases
    case 1
    then have g: "?g 0 = (if odd n then f 0 mod 16 + 16 * (val mod 16) else val mod 256)"
        "?g 1 = (if odd n then val div 16 mod 256 else val div 256 mod 16 + 16 * (f 1 div 16 mod 16))"
      using g [of 0] g [of 1] entry_bytes_arith(1) [of n val f] by (auto simp: fat_len_def)
    have v: "val < 4096" using val 1 by (simp add: entry_max_def)
    then have "val div 16 < 256" "val div 256 < 16" by (simp_all add: less_mult_imp_div_less)
    then have "entry_val 12 n ?g = val"
      unfolding entry_val_arith(1) [of ?g, OF b] g using low [of val] by (cases "odd n") simp_all
    then show ?thesis using 1 by simp
  next
    case 2
    then have g: "?g 0 = val mod 256" "?g 1 = val div 256 mod 256"
      using g [of 0] g [of 1] entry_bytes_arith(2) [of n val f] by (auto simp: fat_len_def)
    have "val div 256 < 256" using val 2 by (simp add: entry_max_def less_mult_imp_div_less)
    then have "entry_val 16 n ?g = val" unfolding entry_val_arith(2) [of ?g, OF b] g by simp
    then show ?thesis using 2 by simp
  next
    case 3
    then have g: "?g 0 = val mod 256" "?g 1 = val div 256 mod 256" "?g 2 = val div 65536 mod 256" "?g 3 = val div 16777216 mod 256"
      using g [of 0] g [of 1] g [of 2] g [of 3] entry_bytes_arith(3) [of n val f] by (auto simp: fat_len_def)
    have v: "val < 268435456" using val 3 by (simp add: entry_max_def)
    then have "val div 16777216 < 256" by (simp add: less_mult_imp_div_less)
    moreover have "val div 65536 = val div 256 div 256" "val div 16777216 = val div 65536 div 256" by (simp_all add: div_mult2_eq [symmetric])
    ultimately have "val mod 256 + 256 * (val div 256 mod 256 + 256 * (val div 65536 mod 256 + 256 * (val div 16777216 mod 256))) = val"
      using low [of val] low [of "val div 256"] low [of "val div 65536"] by simp
    then have "entry_val 32 n ?g = val" unfolding entry_val_arith(3) [of ?g, OF b] g using v by simp
    then show ?thesis using 3 by simp
  qed
qed

lemma fat_off_far:
  assumes "type \<in> {12, 16, 32}" and "m \<noteq> n" and "\<not> (type = 12 \<and> (m = Suc n \<and> even n \<or> n = Suc m \<and> even m))"
  shows "fat_off type m + fat_len type \<le> fat_off type n \<or> fat_off type n + fat_len type \<le> fat_off type m"
proof (cases "type = 12")
  case True
  have *: "fat_off 12 a + 2 \<le> fat_off 12 b" if "a < b" "\<not> (b = Suc a \<and> even a)" for a b
  proof (cases "b = Suc a")
    case True
    then show ?thesis using that by (auto simp: fat_off_def elim!: oddE)
  next
    case False
    then have "a + 2 \<le> b" using that by simp
    then show ?thesis using div_le_mono [of a b 2] by (simp add: fat_off_def)
  qed
  show ?thesis using * [of m n] * [of n m] assms True by (cases "m < n") (auto simp: fat_len_def)
next
  case False
  have *: "fat_off type a + fat_len type \<le> fat_off type b" if "a < b" for a b
    using that False by (auto simp: fat_off_def fat_len_def)
  show ?thesis using * [of m n] * [of n m] assms(2) by (cases "m < n") simp_all
qed

lemma entry_val_other:
  assumes t: "type \<in> {12, 16, 32}" and "m \<noteq> n"
  shows "entry_val type m (\<lambda>d. unat (put_bytes (fat_off type n) (entry_bytes type n val (\<lambda>d. unat (f (fat_off type n + d)))) f (fat_off type m + d))) =
    entry_val type m (\<lambda>d. unat (f (fat_off type m + d)))"
    (is "entry_val _ _ ?new = entry_val _ _ ?old")
proof -
  let ?F = "\<lambda>d. unat (f (fat_off type n + d))"
  let ?bs = "entry_bytes type n val ?F"
  have len: "length ?bs = fat_len type" by (rule length_entry_bytes [OF t])
  have b: "?new d < 256" "?old d < 256" "?F d < 256" for d by (rule u8_bound)+
  consider (far) "\<not> (type = 12 \<and> (m = Suc n \<and> even n \<or> n = Suc m \<and> even m))"
    | (after) "type = 12" "m = Suc n" "even n" | (before) "type = 12" "n = Suc m" "even m" by blast
  then show ?thesis
  proof cases
    case far
    show ?thesis
      by (rule entry_val_cong) (use fat_off_far [OF t assms(2) far] len in \<open>auto simp: put_bytes_def\<close>)
  next
    case after
    have o: "fat_off 12 m = fat_off 12 n + 1" using after by (auto simp: fat_off_def)
    have l: "length ?bs = 2" using len after by (simp add: fat_len_def)
    have "unat (?bs ! 1) = map unat ?bs ! 1" using l by simp
    also have "\<dots> = val div 256 mod 16 + 16 * (?F 1 div 16 mod 16)" using entry_bytes_arith(1) [of n val ?F] after by simp
    finally have "?new 0 = val div 256 mod 16 + 16 * (?F 1 div 16 mod 16)" using after o l by (simp add: put_bytes_def)
    moreover have "(a mod 16 + 16 * c) div 16 = c" for a c :: nat by simp
    moreover have "?F 1 div 16 < 16" using b(3) [of 1] by (simp add: less_mult_imp_div_less)
    ultimately have "?new 0 div 16 = ?old 0 div 16" using after o by simp
    moreover have "?new 1 = ?old 1" using after o l by (simp add: put_bytes_def)
    moreover have "odd m" using after by simp
    ultimately show ?thesis
      using after(1) entry_val_arith(1) [of ?new, OF b(1), of m] entry_val_arith(1) [of ?old, OF b(2), of m] by simp
  next
    case before
    have o: "fat_off 12 n = fat_off 12 m + 1" using before by (auto simp: fat_off_def)
    have l: "length ?bs = 2" using len before by (simp add: fat_len_def)
    have "unat (?bs ! 0) = map unat ?bs ! 0" using l by simp
    also have "\<dots> = ?F 0 mod 16 + 16 * (val mod 16)" using entry_bytes_arith(1) [of n val ?F] before by simp
    finally have "?new 1 = ?F 0 mod 16 + 16 * (val mod 16)" using before o l by (simp add: put_bytes_def)
    then have "?new 1 mod 16 = ?old 1 mod 16" using before o by simp
    moreover have "?new 0 = ?old 0" using before o l by (simp add: put_bytes_def)
    ultimately show ?thesis
      using before entry_val_arith(1) [of ?new, OF b(1), of m] entry_val_arith(1) [of ?old, OF b(2), of m] by simp
  qed
qed

lemma fat_entry_set_ok:
  assumes inv: "fat_inv v" and n: "2 \<le> n" "n < nclus v + 2" and val: "val < entry_max (fat_type v)"
  shows "\<exists>v'. fat_entry_set n val v = (True, v') \<and> fat_inv v' \<and> fat_map v' = (fat_map v)(n := val) \<and> fat_only v v'"
proof -
  let ?t = "fat_type v" and ?off = "fat_off (fat_type v) n"
  have g: "geo v" using inv by (simp add: fat_inv_def)
  have t: "?t \<in> {12, 16, 32}" using geoD(2) [OF g] by blast
  obtain v1 where v1: "fat_cache_load ?off (fat_len ?t) v = (True, v1)" "recache v v1" "fat_inv v1"
      "fat_cache_sec v1 = reserved_sectors (fi v) + ?off div 512" "?off mod 512 + fat_len ?t \<le> 512 * fat_cache_n v1"
      "\<forall>d < fat_len ?t. fat_cache v1 (?off mod 512 + d) = fatbyte v (?off + d)"
    using load_entry [OF inv n(2)] by blast
  let ?bs = "entry_bytes ?t n val (\<lambda>d. unat (fatbyte v (?off + d)))"
  have len: "length ?bs = fat_len ?t" by (rule length_entry_bytes [OF t])
  have bs: "entry_bytes ?t n val (\<lambda>d. unat (fat_cache v1 (?off mod 512 + d))) = ?bs"
    using v1(6) by (intro entry_bytes_cong) simp
  have ne: "?bs \<noteq> []" using len fat_len_bounds(1) [of ?t] by auto
  have w: "reserved_sectors (fi v) + ?off div 512 < 4294967296"
    using geoD(5) [OF g n(2)] geoD(6) [OF g] fat_len_bounds(1) [of ?t] by (simp add: fat_lba_def)
  obtain v2 where v2: "cache_flush (reserved_sectors (fi v) + ?off div 512) 0 (fat_cache_n v1) (v1\<lparr>fat_cache := put_bytes (?off mod 512) ?bs (fat_cache v1)\<rparr>) = (True, v2)"
      "fat_inv v2" "fatbyte v2 = put_bytes ?off ?bs (fatbyte v)" "fat_only v v2"
    using flush_entry [OF inv n(2) v1(2,3,4) _ ne] v1(5) len by auto
  have "fat_entry_set n val v = (True, v2)"
    using v1(1) v2(1) n geoD(1,3) [OF g] w by (simp add: fat_entry_set_def entry_pos_eq [OF g n(2)] bs Let_def)
  moreover have "fat_map v2 m = ((fat_map v)(n := val)) m" for m
  proof (cases "m = n")
    case True
    have "fat_map v2 n = entry_val ?t n (\<lambda>d. if d < fat_len ?t then unat (?bs ! d) else 0)"
      unfolding fat_map_def v2(3) insideD(2) [OF v2(4)] by (rule entry_val_cong) (simp add: put_bytes_def len)
    then show ?thesis using True entry_val_new [OF t val] by simp
  next
    case False
    then show ?thesis
      unfolding fat_map_def v2(3) insideD(2) [OF v2(4)] using entry_val_other [OF t False, of val "fatbyte v"] by simp
  qed
  ultimately show ?thesis using v2 by blast
qed

text \<open>C25: The allocation table behaves as a map, for FAT12, FAT16 and FAT32. On a volume whose
  cache agrees with the disk, writing an entry and then reading any entry gives the new value at
  the written place and the old value everywhere else, also for the FAT12 entries that share a
  byte or straddle two sectors; the cache agrees with the disk again, and no sector outside the
  (first copy of the) table has changed.\<close>
theorem fat_entry_map:
  assumes "fat_inv v" and "2 \<le> n" "n < nclus v + 2" and "2 \<le> m" "m < nclus v + 2" and "val < entry_max (fat_type v)"
  shows "\<exists>v' v''. fat_entry_set n val v = (True, v') \<and> fat_inv v' \<and> fat_inv v'' \<and>
    fat_entry_get m v' = (if m = n then val else fst (fat_entry_get m v), v'') \<and>
    (\<forall>l. \<not> (fat_lba v \<le> l \<and> l < fat_lba v + fat_sectors (fi v)) \<longrightarrow> disk v'' l = disk v l)"
proof -
  obtain v' where v': "fat_entry_set n val v = (True, v')" "fat_inv v'" "fat_map v' = (fat_map v)(n := val)" "fat_only v v'"
    using fat_entry_set_ok [OF assms(1-3,6)] by blast
  have m: "m < nclus v' + 2" using assms(5) insideD(1) [OF v'(4)] by simp
  obtain v'' where v'': "fat_entry_get m v' = (fat_map v' m, v'')" "recache v' v''" "fat_inv v''"
    using fat_entry_get_ok [OF v'(2) assms(4) m] by blast
  have "fst (fat_entry_get m v) = fat_map v m" using fat_entry_get_ok [OF assms(1,4,5)] by force
  then show ?thesis using v' v'' recacheD(3) [OF v''(2)] insideD(7) [OF v'(4)] by auto
qed

text \<open>A floppy-sized FAT12 volume, empty.\<close>

definition example_vol :: fatvol where
  "example_vol = \<lparr>fi = \<lparr>bytes_per_sector = 512, sectors_per_cluster = 1, reserved_sectors = 1, num_fats = 2, root_entry_count = 16,
      total_sectors = 400, fat_sectors = 2, root_cluster = 0, first_data_sector = 6, cluster_count = 394, root_dir_sector = 5, root_dir_sectors = 1\<rparr>,
     fat_type = 12, fat_part_start = 1, disk = \<lambda>_ _. 0, rd_ok = \<lambda>_. True, wr_ok = \<lambda>_. True, fat_cache = \<lambda>_. 0,
     fat_cache_sec = 0xFFFFFFFF, fat_cache_n = 0, alloc_hint = 2, current_dir_cluster = 0\<rparr>"

lemma example_vol_inv: "fat_inv example_vol"
  by (auto simp: fat_inv_def geo_def coherent_def example_vol_def fat_off_def fat_len_def fat_lba_def)

theorem fat_entry_map_witness:
  "\<exists>v'. fat_entry_set 341 0xABC example_vol = (True, v') \<and> fst (fat_entry_get 341 v') = 0xABC"
  using fat_entry_map [OF example_vol_inv, of 341 341 "0xABC"] by (auto simp: example_vol_def entry_max_def)

end
