(* ===== verification/FatChain.thy ===== *)
theory FatChain
  imports FatSpec
begin

text \<open>
  Cluster chains of \<open>kernel/fat.c\<close>: allocation, release, and the parts of \<open>fat_create_file\<close> and
  \<open>fat_read_file\<close> that build a chain, fill it with data and read it back.
\<close>

section \<open>Data clusters\<close>

definition cluster_lba :: "fatvol \<Rightarrow> nat \<Rightarrow> nat" where
  "cluster_lba v c = w32 (fat_part_start v + (first_data_sector (fi v) + (c - 2) * sectors_per_cluster (fi v)))"

definition cluster_secs :: "fatvol \<Rightarrow> nat" where
  "cluster_secs v = bps v * sectors_per_cluster (fi v) div 512"

definition cluster_size :: "fatvol \<Rightarrow> nat" where
  "cluster_size v = bps v * sectors_per_cluster (fi v)"

definition fat_read_cluster :: "fatvol \<Rightarrow> nat \<Rightarrow> (nat \<Rightarrow> u8) \<Rightarrow> bool \<times> (nat \<Rightarrow> u8)" where
  "fat_read_cluster v c buf =
     (if c < 2 \<or> c \<ge> nclus v + 2 then (False, buf) else read_secs v (cluster_lba v c) 0 (cluster_secs v) 0 buf)"

definition fat_write_cluster :: "nat \<Rightarrow> (nat \<Rightarrow> u8) \<Rightarrow> fatvol \<Rightarrow> bool \<times> fatvol" where
  "fat_write_cluster c buf v =
     (if c < 2 \<or> c \<ge> nclus v + 2 then (False, v) else write_secs (cluster_lba v c) 0 (cluster_secs v) 0 buf v)"

section \<open>Building, filling and reading a chain\<close>

text \<open>
  The first loop of \<open>fat_create_file\<close>: \<open>k\<close> clusters still to allocate, \<open>first\<close> and \<open>prev\<close> as in
  the code (0 before the first cluster). \<open>None\<close> stands for the returns of -1.
\<close>

primrec chain_alloc :: "nat \<Rightarrow> nat \<Rightarrow> nat \<Rightarrow> fatvol \<Rightarrow> nat option \<times> fatvol" where
  "chain_alloc 0 first prev v = (Some first, v)"
| "chain_alloc (Suc k) first prev v =
     (case fat_alloc_cluster v of
        (c, v1) \<Rightarrow>
          if c = 0 then (None, snd (fat_free_chain first v1))
          else case fat_entry_set c (fat_eoc_val v1) v1 of
            (False, v2) \<Rightarrow> (None, snd (fat_free_chain first v2))
          | (True, v2) \<Rightarrow>
              if first = 0 then chain_alloc k c c v2
              else case fat_entry_set prev c v2 of
                (False, v3) \<Rightarrow> (None, snd (fat_free_chain c (snd (fat_free_chain first v3))))
              | (True, v3) \<Rightarrow> chain_alloc k first c v3)"

text \<open>The buffer for the next cluster: zeros, then what is left of the data.\<close>

definition fill_buf :: "u8 list \<Rightarrow> nat \<Rightarrow> nat \<Rightarrow> (nat \<Rightarrow> u8)" where
  "fill_buf data written csize = (\<lambda>j. if j < min (length data - written) csize then data ! (written + j) else 0)"

primrec data_write :: "nat \<Rightarrow> u8 list \<Rightarrow> nat \<Rightarrow> nat \<Rightarrow> nat \<Rightarrow> fatvol \<Rightarrow> bool \<times> fatvol" where
  "data_write 0 data written cur first v = (True, v)"
| "data_write (Suc k) data written cur first v =
     (case fat_write_cluster cur (fill_buf data written (cluster_size v)) v of
        (False, v1) \<Rightarrow> (False, snd (fat_free_chain first v1))
      | (True, v1) \<Rightarrow>
          let written' = written + min (length data - written) (cluster_size v) in
          if k > 0 then
            case fat_entry_get cur v1 of (nxt, v2) \<Rightarrow> data_write k data written' nxt first v2
          else data_write k data written' cur first v1)"

text \<open>
  The loop of \<open>fat_read_file\<close>: \<open>out\<close> is what has been copied so far and \<open>k\<close> the number of steps
  that are left of \<open>cluster_count + 2\<close>.
\<close>

primrec read_loop :: "nat \<Rightarrow> nat \<Rightarrow> nat \<Rightarrow> nat \<Rightarrow> u8 list \<Rightarrow> fatvol \<Rightarrow> u8 list option \<times> fatvol" where
  "read_loop 0 fsize max_size cur out v = (Some out, v)"
| "read_loop (Suc k) fsize max_size cur out v =
     (if \<not> (length out < fsize \<and> length out < max_size \<and> cur \<ge> 2 \<and> cur < nclus v + 2) then (Some out, v)
      else case fat_read_cluster v cur (\<lambda>_. 0) of
        (False, _) \<Rightarrow> (None, v)
      | (True, buf) \<Rightarrow>
          let to_copy = min (min (fsize - length out) (cluster_size v)) (max_size - length out);
              out' = out @ map buf [0..<to_copy]
          in if length out' \<ge> fsize \<or> length out' \<ge> max_size then (Some out', v)
             else case fat_entry_get cur v of
               (nxt, v1) \<Rightarrow> if fat_is_eoc v1 nxt \<or> fat_is_bad v1 nxt then (Some out', v1) else read_loop k fsize max_size nxt out' v1)"

section \<open>Allocation\<close>

definition scan_pos :: "nat \<Rightarrow> nat \<Rightarrow> nat \<Rightarrow> nat" where
  "scan_pos N h i = 2 + (h - 2 + i) mod N"

lemma scan_pos_0: "0 < N \<Longrightarrow> 2 \<le> h \<Longrightarrow> h \<le> N + 2 \<Longrightarrow> scan_pos N h 0 = (if h \<ge> N + 2 then 2 else h)"
  by (auto simp: scan_pos_def)

lemma scan_pos_Suc: "0 < N \<Longrightarrow> 2 \<le> h \<Longrightarrow> scan_pos N (scan_pos N h 0 + 1) i = scan_pos N h (Suc i)"
proof -
  have "((h - 2) mod N + 1 + i) mod N = (h - 2 + Suc i) mod N" using mod_add_left_eq [of "h - 2" N "Suc i"] by simp
  then show ?thesis by (simp add: scan_pos_def)
qed

lemma scan_pos_range: "0 < N \<Longrightarrow> 2 \<le> scan_pos N h i \<and> scan_pos N h i < N + 2"
  by (simp add: scan_pos_def)

lemma scan_pos_onto:
  assumes "0 < N" "2 \<le> h" "2 \<le> c" "c < N + 2"
  shows "\<exists>i<N. scan_pos N h i = c"
proof -
  let ?i = "(c - 2 + (N - (h - 2) mod N)) mod N"
  have "(h - 2 + ?i) mod N = ((h - 2) mod N + (c - 2 + (N - (h - 2) mod N))) mod N" by (simp add: mod_simps)
  also have "\<dots> = (c - 2 + N) mod N" using mod_less_divisor [OF assms(1), of "h - 2"] by simp
  also have "\<dots> = (c - 2) mod N" by (rule mod_add_self2)
  also have "\<dots> = c - 2" using assms by (intro mod_less) simp
  finally show ?thesis using assms by (intro exI [of _ ?i]) (simp add: scan_pos_def)
qed

lemma fat_inv_hint [simp]: "fat_inv (v\<lparr>alloc_hint := h\<rparr>) = fat_inv v" "fat_map (v\<lparr>alloc_hint := h\<rparr>) = fat_map v"
  by (simp_all add: fat_inv_def geo_def coherent_def fat_lba_def fat_map_def fatbyte_def fun_eq_iff)

text \<open>Same volume, up to cache and allocation hint.\<close>

definition same_vol :: "fatvol \<Rightarrow> fatvol \<Rightarrow> bool" where
  "same_vol v v' \<longleftrightarrow> fi v' = fi v \<and> fat_type v' = fat_type v \<and> fat_part_start v' = fat_part_start v \<and> disk v' = disk v \<and>
     rd_ok v' = rd_ok v \<and> wr_ok v' = wr_ok v"

lemma same_volD:
  assumes "same_vol v v'"
  shows "fi v' = fi v" "fat_type v' = fat_type v" "fat_map v' = fat_map v" "disk v' = disk v" "fat_part_start v' = fat_part_start v"
  using assms by (auto simp: same_vol_def fat_map_def fatbyte_def fat_lba_def fun_eq_iff)

lemma same_vol_recache: "recache v v' \<Longrightarrow> same_vol v v'"
  by (auto simp: recache_def same_vol_def)

lemma same_vol_hint: "same_vol v v' \<Longrightarrow> same_vol v (v'\<lparr>alloc_hint := h\<rparr>)" "same_vol v (v\<lparr>alloc_hint := h\<rparr>)"
  by (simp_all add: same_vol_def)

lemma same_vol_trans: "same_vol v v' \<Longrightarrow> same_vol v' v'' \<Longrightarrow> same_vol v v''"
  by (simp add: same_vol_def)

lemma alloc_loop_ok:
  assumes "fat_inv v" and "0 < nclus v" and "2 \<le> alloc_hint v" "alloc_hint v \<le> nclus v + 2"
  shows "\<exists>c v'. alloc_loop k v = (c, v') \<and> fat_inv v' \<and> same_vol v v' \<and>
    (if \<forall>i<k. fat_map v (scan_pos (nclus v) (alloc_hint v) i) \<noteq> 0 then c = 0
     else \<exists>i<k. c = scan_pos (nclus v) (alloc_hint v) i \<and> fat_map v c = 0)"
  using assms
proof (induction k arbitrary: v)
  case 0
  then show ?case by (simp add: same_vol_def)
next
  case (Suc k)
  let ?N = "nclus v" and ?h = "alloc_hint v"
  define c where "c = (if ?h \<ge> ?N + 2 then 2 else ?h)"
  have c: "c = scan_pos ?N ?h 0" using scan_pos_0 [of ?N ?h] Suc.prems by (simp add: c_def)
  have cr: "2 \<le> c" "c < ?N + 2" using scan_pos_range Suc.prems(2) unfolding c by auto
  obtain v1 where v1: "fat_entry_get c v = (fat_map v c, v1)" "recache v v1" "fat_inv v1"
    using fat_entry_get_ok [OF Suc.prems(1) cr] by blast
  note r = recacheD [OF v1(2)]
  have step: "alloc_loop (Suc k) v = (case fat_entry_get c v of
      (x, v') \<Rightarrow> if x = 0 then (c, v'\<lparr>alloc_hint := (if c + 1 \<ge> ?N + 2 then 2 else c + 1)\<rparr>) else alloc_loop k (v'\<lparr>alloc_hint := c + 1\<rparr>))"
    unfolding alloc_loop.simps Let_def c_def ..
  show ?case
  proof (cases "fat_map v c = 0")
    case True
    let ?v = "v1\<lparr>alloc_hint := (if c + 1 \<ge> ?N + 2 then 2 else c + 1)\<rparr>"
    have "alloc_loop (Suc k) v = (c, ?v)" unfolding step v1(1) using True by simp
    moreover have "same_vol v ?v" by (rule same_vol_hint(1) [OF same_vol_recache [OF v1(2)]])
    moreover have "fat_inv ?v" using v1(3) by simp
    ultimately show ?thesis using True c by auto
  next
    case False
    let ?v = "v1\<lparr>alloc_hint := c + 1\<rparr>"
    have st: "alloc_loop (Suc k) v = alloc_loop k ?v" unfolding step v1(1) using False by simp
    have sv: "same_vol v ?v" by (rule same_vol_hint(1) [OF same_vol_recache [OF v1(2)]])
    have eqs: "nclus ?v = ?N" "alloc_hint ?v = c + 1" "fat_map ?v = fat_map v" using r same_volD(3) [OF sv] by simp_all
    have pre: "fat_inv ?v" "0 < nclus ?v" "2 \<le> alloc_hint ?v" "alloc_hint ?v \<le> nclus ?v + 2" using v1(3) cr Suc.prems eqs by simp_all
    obtain c' v' where a: "alloc_loop k ?v = (c', v')" "fat_inv v'" "same_vol ?v v'"
        "if \<forall>i<k. fat_map v (scan_pos ?N (c + 1) i) \<noteq> 0 then c' = 0 else \<exists>i<k. c' = scan_pos ?N (c + 1) i \<and> fat_map v c' = 0"
      using Suc.IH [OF pre] unfolding eqs by blast
    have sh: "scan_pos ?N (c + 1) i = scan_pos ?N ?h (Suc i)" for i using scan_pos_Suc [of ?N ?h i] Suc.prems by (simp add: c)
    have "(\<forall>i<Suc k. fat_map v (scan_pos ?N ?h i) \<noteq> 0) \<longleftrightarrow> (\<forall>i<k. fat_map v (scan_pos ?N ?h (Suc i)) \<noteq> 0)"
      using False by (auto simp: c less_Suc_eq_0_disj)
    moreover have "\<exists>i<Suc k. c' = scan_pos ?N ?h i \<and> fat_map v c' = 0" if "\<exists>i<k. c' = scan_pos ?N ?h (Suc i) \<and> fat_map v c' = 0"
      using that by (metis Suc_mono)
    ultimately show ?thesis using a same_vol_trans [OF sv a(3)] unfolding sh st by auto
  qed
qed

lemma fat_alloc_cluster_ok:
  assumes inv: "fat_inv v" and N: "0 < nclus v"
  shows "\<exists>c v'. fat_alloc_cluster v = (c, v') \<and> fat_inv v' \<and> same_vol v v' \<and>
    (if \<exists>c. 2 \<le> c \<and> c < nclus v + 2 \<and> fat_map v c = 0 then 2 \<le> c \<and> c < nclus v + 2 \<and> fat_map v c = 0 else c = 0)"
proof -
  define v0 where "v0 = (if alloc_hint v < 2 \<or> alloc_hint v \<ge> nclus v + 2 then v\<lparr>alloc_hint := 2\<rparr> else v)"
  have v0: "fat_inv v0" "same_vol v v0" "2 \<le> alloc_hint v0" "alloc_hint v0 \<le> nclus v0 + 2"
    using inv by (auto simp: v0_def same_vol_def)
  note s = same_volD [OF v0(2)]
  have "fat_type v \<noteq> 0" using inv geoD(3) by (simp add: fat_inv_def)
  then have e: "fat_alloc_cluster v = alloc_loop (nclus v) v0" by (simp add: fat_alloc_cluster_def v0_def)
  obtain c v' where a: "alloc_loop (nclus v) v0 = (c, v')" "fat_inv v'" "same_vol v0 v'"
      "if \<forall>i<nclus v. fat_map v (scan_pos (nclus v) (alloc_hint v0) i) \<noteq> 0 then c = 0
       else \<exists>i<nclus v. c = scan_pos (nclus v) (alloc_hint v0) i \<and> fat_map v c = 0"
    using alloc_loop_ok [OF v0(1) _ v0(3,4), of "nclus v"] N unfolding s by auto
  have "(\<forall>i<nclus v. fat_map v (scan_pos (nclus v) (alloc_hint v0) i) \<noteq> 0) \<longleftrightarrow> \<not> (\<exists>c. 2 \<le> c \<and> c < nclus v + 2 \<and> fat_map v c = 0)"
    using scan_pos_onto [OF N v0(3)] scan_pos_range [OF N] by metis
  moreover have "2 \<le> c \<and> c < nclus v + 2 \<and> fat_map v c = 0" if "\<exists>i<nclus v. c = scan_pos (nclus v) (alloc_hint v0) i \<and> fat_map v c = 0"
    using that scan_pos_range [OF N] by auto
  ultimately show ?thesis using e a same_vol_trans [OF v0(2) a(3)] by (auto split: if_splits)
qed

section \<open>Frames\<close>

text \<open>Same geometry, and the same sectors outside the table.\<close>

definition fat_frame :: "fatvol \<Rightarrow> fatvol \<Rightarrow> bool" where
  "fat_frame v v' \<longleftrightarrow> fi v' = fi v \<and> fat_type v' = fat_type v \<and> fat_part_start v' = fat_part_start v \<and>
     (\<forall>l. \<not> (fat_lba v \<le> l \<and> l < fat_lba v + fat_sectors (fi v)) \<longrightarrow> disk v' l = disk v l)"

lemma fat_frameD:
  assumes "fat_frame v v'"
  shows "fi v' = fi v" "fat_type v' = fat_type v" "fat_part_start v' = fat_part_start v" "fat_lba v' = fat_lba v"
  using assms by (simp_all add: fat_frame_def fat_lba_def)

lemma fat_frame_trans [trans]: "fat_frame v v' \<Longrightarrow> fat_frame v' v'' \<Longrightarrow> fat_frame v v''"
  by (simp add: fat_frame_def fat_lba_def)

lemma fat_frame_refl: "fat_frame v v"
  by (simp add: fat_frame_def)

lemma same_vol_frame: "same_vol v v' \<Longrightarrow> fat_frame v v'"
  by (simp add: same_vol_def fat_frame_def)

lemma fat_only_frame: "fat_only v v' \<Longrightarrow> fat_frame v v'"
  using insideD(1,2,6,7) [of "fat_lba v" _ v v'] by (simp add: fat_frame_def)

lemma set_entry_ok:
  assumes "fat_inv v" and "2 \<le> n" "n < nclus v + 2" and "val < entry_max (fat_type v)"
  shows "\<exists>v'. fat_entry_set n val v = (True, v') \<and> fat_inv v' \<and> fat_map v' = (fat_map v)(n := val) \<and> fat_frame v v'"
  using fat_entry_set_ok [OF assms] fat_only_frame by blast

lemma get_entry_ok:
  assumes "fat_inv v" and "2 \<le> n" "n < nclus v + 2"
  shows "\<exists>v'. fat_entry_get n v = (fat_map v n, v') \<and> fat_inv v' \<and> same_vol v v'"
  using fat_entry_get_ok [OF assms] same_vol_recache by blast

section \<open>Chains\<close>

definition stop :: "fatvol \<Rightarrow> nat \<Rightarrow> bool" where
  "stop v x \<longleftrightarrow> fat_is_eoc v x \<or> x < 2 \<or> fat_is_bad v x"

lemma type_preds:
  assumes "fat_type v' = fat_type v"
  shows "fat_is_eoc v' = fat_is_eoc v" "fat_is_bad v' = fat_is_bad v" "stop v' = stop v" "fat_eoc_val v' = fat_eoc_val v"
  using assms by (simp_all add: fun_eq_iff fat_is_eoc_def fat_is_bad_def stop_def fat_eoc_val_def)

text \<open>The clusters of \<open>cs\<close>, linked by the map \<open>m\<close> and ended by a stop mark.\<close>

fun fchain :: "fatvol \<Rightarrow> (nat \<Rightarrow> nat) \<Rightarrow> nat list \<Rightarrow> bool" where
  "fchain v m [] = False"
| "fchain v m [c] = (2 \<le> c \<and> c < nclus v + 2 \<and> stop v (m c))"
| "fchain v m (c # d # cs) = (2 \<le> c \<and> c < nclus v + 2 \<and> m c = d \<and> \<not> stop v d \<and> fchain v m (d # cs))"

lemma fchain_geo: "nclus v' = nclus v \<Longrightarrow> fat_type v' = fat_type v \<Longrightarrow> fchain v' m cs = fchain v m cs"
proof (induction cs)
  case (Cons c cs)
  then show ?case using type_preds(3) [of v' v] by (cases cs) simp_all
qed simp

lemma fchain_cong: "\<forall>c \<in> set cs. m c = m' c \<Longrightarrow> fchain v m cs = fchain v m' cs"
proof (induction cs)
  case (Cons c cs)
  then show ?case by (cases cs) auto
qed simp

lemma fchain_range: "fchain v m cs \<Longrightarrow> set cs \<subseteq> {2..<nclus v + 2}"
  by (induction v m cs rule: fchain.induct) auto

lemma fchain_length: "fchain v m cs \<Longrightarrow> distinct cs \<Longrightarrow> length cs \<le> nclus v"
  using card_mono [OF _ fchain_range [of v m cs]] by (simp add: distinct_card)

lemma entry_max_pos: "0 < entry_max t"
  by (simp add: entry_max_def)

lemma free_loop_ok:
  assumes "fat_inv v" and "fchain v (fat_map v) (c # cs)" and "distinct (c # cs)" and "length (c # cs) \<le> k"
  shows "\<exists>v'. free_loop k first c v = (True, v') \<and> fat_inv v' \<and> fat_frame v v' \<and>
    fat_map v' = (\<lambda>n. if n \<in> set (c # cs) then 0 else fat_map v n)"
  using assms
proof (induction cs arbitrary: c k v)
  case Nil
  then obtain k' where k: "k = Suc k'" by (cases k) auto
  have c: "2 \<le> c" "c < nclus v + 2" "stop v (fat_map v c)" using Nil.prems(2) by simp_all
  obtain v1 where v1: "fat_entry_get c v = (fat_map v c, v1)" "fat_inv v1" "same_vol v v1" using get_entry_ok [OF Nil.prems(1) c(1,2)] by blast
  note s = same_volD [OF v1(3)]
  obtain v2 where v2: "fat_entry_set c 0 v1 = (True, v2)" "fat_inv v2" "fat_map v2 = (fat_map v1)(c := 0)" "fat_frame v1 v2"
    using set_entry_ok [OF v1(2) c(1), of 0] c(2) s entry_max_pos by auto
  let ?v3 = "if first < alloc_hint v2 then v2\<lparr>alloc_hint := first\<rparr> else v2"
  have t: "fat_type ?v3 = fat_type v" using fat_frameD(2) [OF v2(4)] s(2) by simp
  have f: "fat_frame v ?v3" using fat_frame_trans [OF same_vol_frame [OF v1(3)] v2(4)] by (simp add: fat_frame_def fat_lba_def)
  have "free_loop k first c v = (True, ?v3)"
    using c v1(1) v2(1) type_preds(1,2) [OF t] unfolding k by (simp add: Let_def stop_def)
  moreover have "fat_map ?v3 = (\<lambda>n. if n \<in> set [c] then 0 else fat_map v n)" using v2(3) s(3) by auto
  ultimately show ?case using f v2(2) by auto
next
  case (Cons d cs)
  then obtain k' where k: "k = Suc k'" by (cases k) auto
  have c: "2 \<le> c" "c < nclus v + 2" "fat_map v c = d" "\<not> stop v d" "fchain v (fat_map v) (d # cs)" using Cons.prems(2) by simp_all
  obtain v1 where v1: "fat_entry_get c v = (d, v1)" "fat_inv v1" "same_vol v v1" using get_entry_ok [OF Cons.prems(1) c(1,2)] c(3) by blast
  note s = same_volD [OF v1(3)]
  obtain v2 where v2: "fat_entry_set c 0 v1 = (True, v2)" "fat_inv v2" "fat_map v2 = (fat_map v1)(c := 0)" "fat_frame v1 v2"
    using set_entry_ok [OF v1(2) c(1), of 0] c(2) s entry_max_pos by auto
  let ?v3 = "if first < alloc_hint v2 then v2\<lparr>alloc_hint := first\<rparr> else v2"
  have f: "fat_frame v ?v3" using fat_frame_trans [OF same_vol_frame [OF v1(3)] v2(4)] by (simp add: fat_frame_def fat_lba_def)
  note t = fat_frameD(2) [OF f]
  have m: "fat_map ?v3 = (fat_map v)(c := 0)" using v2(3) s(3) by simp
  have step: "free_loop k first c v = free_loop k' first d ?v3"
    using c v1(1) v2(1) type_preds(1,2) [OF t] unfolding k by (simp add: Let_def stop_def)
  have "fchain ?v3 (fat_map ?v3) (d # cs)"
    using c(5) fchain_geo [of ?v3 v] fat_frameD(1) [OF f] t fchain_cong [of "d # cs" "(fat_map v)(c := 0)" "fat_map v" v] Cons.prems(3) unfolding m by auto
  then obtain v' where v': "free_loop k' first d ?v3 = (True, v')" "fat_inv v'" "fat_frame ?v3 v'"
      "fat_map v' = (\<lambda>n. if n \<in> set (d # cs) then 0 else fat_map ?v3 n)"
    using Cons.IH [of ?v3 d k'] v2(2) Cons.prems(3,4) k by (auto split: if_splits)
  have "fat_map v' = (\<lambda>n. if n \<in> set (c # d # cs) then 0 else fat_map v n)" unfolding v'(4) m by auto
  then show ?case using step v' fat_frame_trans [OF f v'(3)] by metis
qed

lemma fat_free_chain_ok:
  assumes "fat_inv v" and "fchain v (fat_map v) (c # cs)" and "distinct (c # cs)"
  shows "\<exists>v'. fat_free_chain c v = (True, v') \<and> fat_inv v' \<and> fat_frame v v' \<and>
    fat_map v' = (\<lambda>n. if n \<in> set (c # cs) then 0 else fat_map v n)"
proof -
  have "2 \<le> c" using fchain_range [OF assms(2)] by auto
  moreover have "length (c # cs) \<le> nclus v + 2" using fchain_length [OF assms(2,3)] by simp
  ultimately show ?thesis using free_loop_ok [OF assms, of "nclus v + 2" c] by (simp add: fat_free_chain_def)
qed

section \<open>Building a chain\<close>

definition addressable :: "fatvol \<Rightarrow> bool" where
  "addressable v \<longleftrightarrow> nclus v + 2 \<le> (if fat_type v = 12 then 0xFF7 else if fat_type v = 16 then 0xFFF7 else 0x0FFFFFF7)"

lemma addressable_go: "addressable v \<Longrightarrow> 2 \<le> c \<Longrightarrow> c < nclus v + 2 \<Longrightarrow> \<not> stop v c \<and> c < entry_max (fat_type v)"
  by (auto simp: addressable_def stop_def fat_is_eoc_def fat_is_bad_def entry_max_def split: if_splits)

lemma eoc_val_stop: "stop v (fat_eoc_val v)" "fat_eoc_val v < entry_max (fat_type v)" "fat_eoc_val v \<noteq> 0"
  by (simp_all add: stop_def fat_eoc_val_def fat_is_eoc_def entry_max_def)

lemma fchain_last: "stop v e \<Longrightarrow> fchain v m [c] \<Longrightarrow> fchain v (m(c := e)) [c]"
  by simp

lemma fchain_snoc:
  assumes "fchain v m as" and "c \<notin> set as" and "distinct as" and "2 \<le> c" "c < nclus v + 2" and "\<not> stop v c" and "stop v e"
  shows "fchain v (m(c := e, last as := c)) (as @ [c])"
  using assms(1-3)
proof (induction as)
  case (Cons a as)
  show ?case
  proof (cases as)
    case Nil
    then show ?thesis using Cons.prems assms(4-) by auto
  next
    case (Cons b bs)
    have "last as \<noteq> a" "last as \<in> set as" using Cons.prems(3) Cons by (auto simp: last_in_set)
    then show ?thesis using Cons.IH Cons.prems Cons assms(4-) by auto
  qed
qed simp

lemma fchain_nonzero: "fchain v m cs \<Longrightarrow> \<forall>e < 2. \<forall>c \<in> set cs. m c = e \<longrightarrow> c = last cs"
proof (induction cs)
  case (Cons c cs)
  then show ?case by (cases cs) (auto simp: stop_def)
qed simp

definition free_clusters :: "fatvol \<Rightarrow> nat set" where
  "free_clusters v = {c. 2 \<le> c \<and> c < nclus v + 2 \<and> fat_map v c = 0}"

lemma finite_free [simp]: "finite (free_clusters v)"
  by (rule finite_subset [of _ "{..<nclus v + 2}"]) (auto simp: free_clusters_def)

text \<open>What a run of the loop starts from: the chain \<open>as\<close> built so far, in clusters that were free in \<open>m0\<close>.\<close>

definition building :: "(nat \<Rightarrow> nat) \<Rightarrow> nat list \<Rightarrow> nat \<Rightarrow> nat \<Rightarrow> fatvol \<Rightarrow> bool" where
  "building m0 as first prev v \<longleftrightarrow> fat_inv v \<and> addressable v \<and> 0 < nclus v \<and> distinct as \<and>
     (\<forall>c \<in> set as. m0 c = 0 \<and> fat_map v c \<noteq> 0) \<and> (\<forall>n. n \<notin> set as \<longrightarrow> fat_map v n = m0 n) \<and>
     (if as = [] then first = 0 else fchain v (fat_map v) as \<and> first = hd as \<and> prev = last as)"

lemma addressable_frame: "fat_frame v v' \<Longrightarrow> addressable v' = addressable v"
  using fat_frameD [of v v'] by (simp add: addressable_def)

lemma building_step:
  assumes b: "building m0 as first prev v" and fr: "free_clusters v \<noteq> {}"
  shows "\<exists>c v'. chain_alloc (Suc k) first prev v = chain_alloc k (hd (as @ [c])) c v' \<and> c \<in> free_clusters v \<and>
    building m0 (as @ [c]) (hd (as @ [c])) c v' \<and> fat_frame v v' \<and> free_clusters v' = free_clusters v - {c}"
proof -
  note d = b [unfolded building_def]
  obtain c v1 where v1: "fat_alloc_cluster v = (c, v1)" "fat_inv v1" "same_vol v v1" "2 \<le> c" "c < nclus v + 2" "fat_map v c = 0"
    using fat_alloc_cluster_ok [of v] d fr by (auto simp: free_clusters_def split: if_splits)
  note s = same_volD [OF v1(3)]
  have e: "fat_eoc_val v1 = fat_eoc_val v" "stop v1 = stop v" using type_preds [OF s(2)] by simp_all
  have go: "\<not> stop v c" "c < entry_max (fat_type v)" using addressable_go [of v c] d v1(4,5) by simp_all
  obtain v2 where v2: "fat_entry_set c (fat_eoc_val v1) v1 = (True, v2)" "fat_inv v2" "fat_map v2 = (fat_map v)(c := fat_eoc_val v)" "fat_frame v1 v2"
    using set_entry_ok [OF v1(2,4), of "fat_eoc_val v1"] v1(5) s e eoc_val_stop(2) [of v] by auto
  have f2: "fat_frame v v2" using fat_frame_trans [OF same_vol_frame [OF v1(3)] v2(4)] .
  have cn: "c \<notin> set as" using d v1(6) by auto
  have c0: "c \<noteq> 0" using v1(4) by simp
  have cf: "c \<in> free_clusters v" using v1 by (simp add: free_clusters_def)
  show ?thesis
  proof (cases "as = []")
    case True
    have st: "chain_alloc (Suc k) first prev v = chain_alloc k c c v2" using True d v1(1) v2(1) c0 by simp
    have "building m0 [c] c c v2"
      unfolding building_def using True d v2 v1 cn addressable_frame [OF f2] fat_frameD [OF f2] eoc_val_stop [of v] type_preds(3) [OF fat_frameD(2) [OF f2]] by auto
    moreover have "free_clusters v2 = free_clusters v - {c}"
      using v2(3) fat_frameD(1) [OF f2] eoc_val_stop(3) [of v] by (auto simp: free_clusters_def)
    ultimately show ?thesis using True st cf f2 by auto
  next
    case False
    then have ch: "fchain v (fat_map v) as" "first = hd as" "prev = last as" using d by auto
    have fz: "first \<noteq> 0" using subsetD [OF fchain_range [OF ch(1)] hd_in_set [OF False]] ch(2) by auto
    have pr: "2 \<le> prev" "prev < nclus v2 + 2" using subsetD [OF fchain_range [OF ch(1)] last_in_set [OF False]] ch(3) fat_frameD(1) [OF f2] by auto
    have cm: "c < entry_max (fat_type v2)" using go(2) fat_frameD(2) [OF f2] by simp
    obtain v3 where v3: "fat_entry_set prev c v2 = (True, v3)" "fat_inv v3" "fat_map v3 = (fat_map v2)(prev := c)" "fat_frame v2 v3"
      using set_entry_ok [OF v2(2) pr cm] by blast
    have f3: "fat_frame v v3" by (rule fat_frame_trans [OF f2 v3(4)])
    have st: "chain_alloc (Suc k) first prev v = chain_alloc k first c v3" using fz v1(1) v2(1) v3(1) c0 by simp
    have m3: "fat_map v3 = (fat_map v)(c := fat_eoc_val v, last as := c)" using v3(3) v2(3) ch(3) by simp
    have "fchain v (fat_map v3) (as @ [c])"
      unfolding m3 by (rule fchain_snoc [OF ch(1) cn _ v1(4,5) go(1) eoc_val_stop(1)]) (use d in simp)
    then have c3: "fchain v3 (fat_map v3) (as @ [c])" using fchain_geo [of v3 v] fat_frameD(1,2) [OF f3] by simp
    have lst: "last as \<in> set as" using False by simp
    have "building m0 (as @ [c]) (hd (as @ [c])) c v3"
      unfolding building_def using False d v3(2) v1(6) cn c3 addressable_frame [OF f3] fat_frameD(1) [OF f3] eoc_val_stop(3) [of v] c0 lst
      unfolding m3 by auto
    moreover have "free_clusters v3 = free_clusters v - {c}"
    proof -
      have "fat_map v (last as) \<noteq> 0" using d lst by blast
      then show ?thesis unfolding free_clusters_def m3 using fat_frameD(1) [OF f3] eoc_val_stop(3) [of v] c0 by auto
    qed
    moreover have "hd (as @ [c]) = first" using False ch(2) by simp
    ultimately show ?thesis using st cf f3 by metis
  qed
qed

lemma building_full:
  assumes b: "building m0 as first prev v" and fr: "free_clusters v = {}"
  shows "\<exists>v'. chain_alloc (Suc k) first prev v = (None, v') \<and> fat_inv v' \<and> fat_frame v v' \<and> fat_map v' = m0"
proof -
  note d = b [unfolded building_def]
  obtain v1 where v1: "fat_alloc_cluster v = (0, v1)" "fat_inv v1" "same_vol v v1"
    using fat_alloc_cluster_ok [of v] d fr by (auto simp: free_clusters_def split: if_splits)
  note s = same_volD [OF v1(3)]
  have st: "chain_alloc (Suc k) first prev v = (None, snd (fat_free_chain first v1))" using v1(1) by simp
  show ?thesis
  proof (cases "as = []")
    case True
    then have "fat_map v1 = m0" "fat_free_chain first v1 = (True, v1)" using d s by (auto simp: fat_free_chain_def)
    then show ?thesis using st v1 same_vol_frame by auto
  next
    case False
    then obtain a as' where as: "as = a # as'" by (cases as) auto
    have "fchain v1 (fat_map v1) (a # as')" using d as s fchain_geo [of v1 v] by simp
    then obtain v2 where v2: "fat_free_chain a v1 = (True, v2)" "fat_inv v2" "fat_frame v1 v2"
        "fat_map v2 = (\<lambda>n. if n \<in> set (a # as') then 0 else fat_map v1 n)"
      using fat_free_chain_ok [OF v1(2)] d as by blast
    have "fat_map v2 = m0" unfolding v2(4) s(3) using d as by auto
    moreover have "first = a" using d as by simp
    ultimately show ?thesis using st v2 fat_frame_trans [OF same_vol_frame [OF v1(3)] v2(3)] by auto
  qed
qed

lemma chain_alloc_ok:
  assumes "building m0 as first prev v"
  shows "if k \<le> card (free_clusters v)
    then \<exists>bs v'. chain_alloc k first prev v = (Some (if as @ bs = [] then 0 else hd (as @ bs)), v') \<and> length bs = k \<and>
      set bs \<subseteq> free_clusters v \<and> building m0 (as @ bs) (if as @ bs = [] then 0 else hd (as @ bs)) (if bs = [] then prev else last bs) v' \<and> fat_frame v v'
    else \<exists>v'. chain_alloc k first prev v = (None, v') \<and> fat_inv v' \<and> fat_frame v v' \<and> fat_map v' = m0"
  using assms
proof (induction k arbitrary: as first prev v)
  case 0
  have "first = (if as = [] then 0 else hd as)" using 0 by (auto simp: building_def)
  then show ?case using 0 fat_frame_refl [of v] by auto
next
  case (Suc k)
  show ?case
  proof (cases "free_clusters v = {}")
    case True
    then show ?thesis using building_full [OF Suc.prems] by simp
  next
    case False
    obtain c v1 where c: "chain_alloc (Suc k) first prev v = chain_alloc k (hd (as @ [c])) c v1" "c \<in> free_clusters v"
        "building m0 (as @ [c]) (hd (as @ [c])) c v1" "fat_frame v v1" "free_clusters v1 = free_clusters v - {c}"
      using building_step [OF Suc.prems False, of k] by (elim exE conjE) (rule that)
    have card: "card (free_clusters v) = Suc (card (free_clusters v1))" unfolding c(5) by (rule card_Suc_Diff1 [OF finite_free c(2), symmetric])
    note IH = Suc.IH [OF c(3)]
    show ?thesis
    proof (cases "Suc k \<le> card (free_clusters v)")
      case True
      then have "k \<le> card (free_clusters v1)" using card by simp
      from IH [unfolded if_P [OF this]] obtain bs v' where bs: "chain_alloc k (hd (as @ [c])) c v1 = (Some (if (as @ [c]) @ bs = [] then 0 else hd ((as @ [c]) @ bs)), v')"
          "length bs = k" "set bs \<subseteq> free_clusters v1"
          "building m0 ((as @ [c]) @ bs) (if (as @ [c]) @ bs = [] then 0 else hd ((as @ [c]) @ bs)) (if bs = [] then c else last bs) v'" "fat_frame v1 v'"
        by blast
      have "chain_alloc (Suc k) first prev v = (Some (if as @ c # bs = [] then 0 else hd (as @ c # bs)), v')" using c(1) bs(1) by simp
      moreover have "building m0 (as @ c # bs) (if as @ c # bs = [] then 0 else hd (as @ c # bs)) (if c # bs = [] then prev else last (c # bs)) v'"
        using bs(4) by simp
      moreover have "set (c # bs) \<subseteq> free_clusters v" "length (c # bs) = Suc k" using bs(2,3) c(2,5) by auto
      ultimately show ?thesis using True fat_frame_trans [OF c(4) bs(5)] by metis
    next
      case False
      then have "\<not> k \<le> card (free_clusters v1)" using card by simp
      from IH [unfolded if_not_P [OF this]] show ?thesis using False c(1) fat_frame_trans [OF c(4)] by auto
    qed
  qed
qed

end
