(* ===== verification/FatDir.thy ===== *)
theory FatDir
  imports FatChain
begin

text \<open>
  Directories of the FAT driver, \<open>kernel/fat.c\<close>: the walk over the blocks of a directory (with its
  bound and Floyd's test for cycles), the decoding of long and short names, the enumeration of
  entries, look-up and path resolution, and the search for free slots and the writing of entries.

  Names and paths are lists of byte values without the terminating 0. The array of characters
  in which \<open>fat_dir_foreach\<close> assembles a long name is a local variable that is never cleared, so
  its first contents are an argument (\<open>stk\<close>) of everything that enumerates a directory.
\<close>

type_synonym fname = "nat list"

definition up_char :: "nat \<Rightarrow> nat" where
  "up_char c = (if 97 \<le> c \<and> c \<le> 122 then c - 97 + 65 else c)"

fun name_eq :: "fname \<Rightarrow> fname \<Rightarrow> bool" where
  "name_eq (a # as) (b # bs) = (if up_char a = up_char b then name_eq as bs else False)"
| "name_eq [] [] = True"
| "name_eq [] (b # bs) = False"
| "name_eq (a # as) [] = False"

section \<open>Blocks of a directory\<close>

record dir_block =
  db_cluster :: nat
  db_sector :: nat
  db_bytes :: nat

definition root_dir_cluster_value :: "fatvol \<Rightarrow> nat" where
  "root_dir_cluster_value v = (if fat_type v = 32 then root_cluster (fi v) else 0)"

definition data_block :: "fatvol \<Rightarrow> nat \<Rightarrow> dir_block" where
  "data_block v c = \<lparr>db_cluster = c, db_sector = w32 (first_data_sector (fi v) + (c - 2) * sectors_per_cluster (fi v)),
     db_bytes = bps v * sectors_per_cluster (fi v)\<rparr>"

definition root_block :: "fatvol \<Rightarrow> nat \<Rightarrow> dir_block" where
  "root_block v sec = \<lparr>db_cluster = 0, db_sector = sec, db_bytes = bps v\<rparr>"

primrec block_walk :: "nat \<Rightarrow> nat \<Rightarrow> fatvol \<Rightarrow> nat option \<times> fatvol" where
  "block_walk 0 cur v = (Some cur, v)"
| "block_walk (Suc i) cur v =
     (case fat_entry_get cur v of
        (nxt, v1) \<Rightarrow>
          if nxt < 2 \<or> nxt \<ge> nclus v1 + 2 \<or> fat_is_eoc v1 nxt \<or> fat_is_bad v1 nxt then (None, v1) else block_walk i nxt v1)"

definition fat_dir_block :: "nat \<Rightarrow> nat \<Rightarrow> fatvol \<Rightarrow> dir_block option \<times> fatvol" where
  "fat_dir_block dir_cluster idx v =
     (if fat_type v = 0 then (None, v)
      else if dir_cluster = 0 \<and> fat_type v \<noteq> 32 then
        (if idx \<ge> root_dir_sectors (fi v) then (None, v) else (Some (root_block v (root_dir_sector (fi v) + idx)), v))
      else if dir_cluster < 2 \<or> dir_cluster \<ge> nclus v + 2 then (None, v)
      else case block_walk idx dir_cluster v of
        (None, v1) \<Rightarrow> (None, v1)
      | (Some cur, v1) \<Rightarrow> if cur < 2 \<or> cur \<ge> nclus v1 + 2 then (None, v1) else (Some (data_block v1 cur), v1))"

definition fat_dir_max_blocks :: "nat \<Rightarrow> fatvol \<Rightarrow> nat" where
  "fat_dir_max_blocks dir_cluster v =
     (if dir_cluster = 0 \<and> fat_type v \<noteq> 32 then (if root_dir_sectors (fi v) \<noteq> 0 then root_dir_sectors (fi v) else 1)
      else if nclus v = 0 then 1 else nclus v + 2)"

definition fat_dir_step :: "dir_block \<Rightarrow> fatvol \<Rightarrow> dir_block option \<times> fatvol" where
  "fat_dir_step cur v =
     (if fat_type v = 0 then (None, v)
      else if db_cluster cur = 0 then
        (if db_sector cur + 1 \<ge> root_dir_sector (fi v) + root_dir_sectors (fi v) then (None, v) else (Some (root_block v (db_sector cur + 1)), v))
      else case fat_entry_get (db_cluster cur) v of
        (nxt, v1) \<Rightarrow>
          if nxt < 2 \<or> nxt \<ge> nclus v1 + 2 \<or> fat_is_eoc v1 nxt \<or> fat_is_bad v1 nxt then (None, v1) else (Some (data_block v1 nxt), v1))"

record dir_walk =
  fast :: dir_block
  slow :: dir_block
  steps :: nat
  wmax :: nat

definition fat_dir_walk_start :: "nat \<Rightarrow> fatvol \<Rightarrow> dir_walk option \<times> fatvol" where
  "fat_dir_walk_start dir_cluster v =
     (case fat_dir_block dir_cluster 0 v of
        (None, v1) \<Rightarrow> (None, v1)
      | (Some b, v1) \<Rightarrow> (Some \<lparr>fast = b, slow = b, steps = 0, wmax = fat_dir_max_blocks dir_cluster v\<rparr>, v1))"

definition fat_dir_walk_next :: "dir_walk \<Rightarrow> fatvol \<Rightarrow> dir_walk option \<times> fatvol" where
  "fat_dir_walk_next w v =
     (case fat_dir_step (fast w) v of
        (None, v1) \<Rightarrow> (None, v1)
      | (Some nb, v1) \<Rightarrow>
          let w1 = w\<lparr>fast := nb, steps := steps w + 1\<rparr> in
          if steps w1 \<ge> wmax w1 then (None, v1)
          else if steps w1 AND 1 = 0 then
            (case fat_dir_step (slow w1) v1 of
               (None, v2) \<Rightarrow> (None, v2)
             | (Some ns, v2) \<Rightarrow>
                 let w2 = w1\<lparr>slow := ns\<rparr> in
                 if db_cluster (fast w2) \<noteq> 0 \<and> db_cluster (fast w2) = db_cluster (slow w2) then (None, v2) else (Some w2, v2))
          else (Some w1, v1))"

definition fat_read_block :: "fatvol \<Rightarrow> dir_block \<Rightarrow> (nat \<Rightarrow> u8) \<Rightarrow> bool \<times> (nat \<Rightarrow> u8)" where
  "fat_read_block v b buf = read_secs v (w32 (fat_part_start v + db_sector b)) 0 (db_bytes b div 512) 0 buf"

definition fat_write_block :: "dir_block \<Rightarrow> (nat \<Rightarrow> u8) \<Rightarrow> fatvol \<Rightarrow> bool \<times> fatvol" where
  "fat_write_block b buf v = write_secs (w32 (fat_part_start v + db_sector b)) 0 (db_bytes b div 512) 0 buf v"

section \<open>Entries and names\<close>

record fat_dirent =
  de_name :: fname
  first_cluster :: nat
  de_size :: nat
  is_dir :: bool
  de_attr :: nat
  de_block :: dir_block
  entry_off :: nat
  lfn_count :: nat

definition lfn_checksum :: "nat list \<Rightarrow> nat" where
  "lfn_checksum sn = fold (\<lambda>b s. (push_bit 7 (s AND 1) + drop_bit 1 s + b) mod 256) sn 0"

text \<open>The length without trailing blanks.\<close>

primrec trim_len :: "(nat \<Rightarrow> nat) \<Rightarrow> nat \<Rightarrow> nat" where
  "trim_len e 0 = 0"
| "trim_len e (Suc n) = (if e n = 32 then trim_len e n else Suc n)"

definition lower_if :: "bool \<Rightarrow> nat \<Rightarrow> nat" where
  "lower_if f c = (if f \<and> 65 \<le> c \<and> c \<le> 90 then c - 65 + 97 else c)"

definition shortname_to_str :: "(nat \<Rightarrow> nat) \<Rightarrow> fname" where
  "shortname_to_str e =
     (let bl = trim_len e 8; el = trim_len (\<lambda>i. e (8 + i)) 3; nt = e 12
      in map (\<lambda>i. lower_if (nt AND 0x08 \<noteq> 0) (if e i = 5 then 0xE5 else e i)) [0..<bl] @
         (if el > 0 then [46] @ map (\<lambda>i. lower_if (nt AND 0x10 \<noteq> 0) (e (8 + i))) [0..<el] else []))"

record lfn_state =
  lfn_chars :: "nat \<Rightarrow> nat"
  lfn_len :: nat
  lfn_cksum :: nat
  lfn_seq_expect :: int
  lfn_blocks :: nat

definition lfn_reset :: "lfn_state \<Rightarrow> lfn_state" where
  "lfn_reset st = st\<lparr>lfn_len := 0, lfn_seq_expect := -1, lfn_blocks := 0\<rparr>"

definition off_tab :: "nat list" where
  "off_tab = [1, 3, 5, 7, 9, 14, 16, 18, 20, 22, 24, 28, 30]"

definition lfn_unit :: "(nat \<Rightarrow> nat) \<Rightarrow> nat \<Rightarrow> nat" where
  "lfn_unit e i = (e (off_tab ! i) OR push_bit 8 (e (off_tab ! i + 1)))"

definition lfn_store :: "(nat \<Rightarrow> nat) \<Rightarrow> nat \<Rightarrow> (nat \<Rightarrow> nat) \<Rightarrow> (nat \<Rightarrow> nat)" where
  "lfn_store e base chars =
     fold (\<lambda>i f. let ch = lfn_unit e i; pos = base + i in
        if ch = 0 \<or> ch = 0xFFFF then f else if pos < 255 then f(pos := ch) else f) [0..<13] chars"

definition lfn_push :: "(nat \<Rightarrow> nat) \<Rightarrow> lfn_state \<Rightarrow> lfn_state" where
  "lfn_push e st =
     (let sq = e 0 AND 0x1F in
      if sq < 1 \<or> sq > 20 then lfn_reset st
      else if lfn_seq_expect st \<noteq> -1 \<and> int sq \<noteq> lfn_seq_expect st - 1 then lfn_reset st
      else
        let st1 = st\<lparr>lfn_seq_expect := int sq, lfn_blocks := (if lfn_blocks st < 24 then lfn_blocks st + 1 else lfn_blocks st),
                    lfn_chars := lfn_store e ((sq - 1) * 13) (lfn_chars st)\<rparr>
        in if sq * 13 > lfn_len st1 then st1\<lparr>lfn_len := (if sq * 13 > 255 then 255 else sq * 13)\<rparr> else st1)"

definition lfn_name :: "lfn_state \<Rightarrow> fname" where
  "lfn_name st =
     map (\<lambda>ch. if 32 \<le> ch \<and> ch < 127 then ch else 95) (takeWhile (\<lambda>ch. ch \<noteq> 0) (map (lfn_chars st) [0..<min (lfn_len st) 255]))"

definition le16 :: "(nat \<Rightarrow> nat) \<Rightarrow> nat \<Rightarrow> nat" where
  "le16 e i = (e i OR push_bit 8 (e (i + 1)))"

definition le32 :: "(nat \<Rightarrow> nat) \<Rightarrow> nat \<Rightarrow> nat" where
  "le32 e i = (e i OR push_bit 8 (e (i + 1)) OR push_bit 16 (e (i + 2)) OR push_bit 24 (e (i + 3)))"

definition dirent_from_short :: "nat \<Rightarrow> (nat \<Rightarrow> nat) \<Rightarrow> lfn_state \<Rightarrow> dir_block \<Rightarrow> nat \<Rightarrow> fat_dirent option" where
  "dirent_from_short type e st b off =
     (let attr = e 11 in
      if attr AND 0x08 \<noteq> 0 then None
      else
        let clus_lo = le16 e 26; clus_hi = (if type = 32 then le16 e 20 else 0);
            de = \<lparr>de_name = [], first_cluster = clus_lo OR push_bit 16 clus_hi, de_size = le32 e 28, is_dir = (attr AND 0x10 \<noteq> 0),
                  de_attr = attr, de_block = b, entry_off = off, lfn_count = 0\<rparr>
        in if lfn_len st > 0 \<and> lfn_seq_expect st = 1 \<and> lfn_cksum st = lfn_checksum (map e [0..<11]) \<and> lfn_name st \<noteq> []
           then Some (de\<lparr>de_name := lfn_name st, lfn_count := lfn_blocks st\<rparr>)
           else Some (de\<lparr>de_name := shortname_to_str e\<rparr>))"

section \<open>Enumeration\<close>

type_synonym 'c dirent_cb = "fat_dirent \<Rightarrow> 'c \<Rightarrow> bool \<times> 'c"

text \<open>The entries of a block from \<open>off\<close> on; the first component says that the enumeration stops.\<close>

primrec scan_block :: "nat \<Rightarrow> nat \<Rightarrow> (nat \<Rightarrow> u8) \<Rightarrow> nat \<Rightarrow> dir_block \<Rightarrow> 'c dirent_cb \<Rightarrow> lfn_state \<Rightarrow> nat \<Rightarrow> 'c \<Rightarrow>
    bool \<times> lfn_state \<times> nat \<times> 'c" where
  "scan_block 0 off buf type b cb st count ctx = (False, st, count, ctx)"
| "scan_block (Suc n) off buf type b cb st count ctx =
     (let e = (\<lambda>i. unat (buf (off + i))) in
      if e 0 = 0 then (True, st, count, ctx)
      else if e 0 = 0xE5 then scan_block n (off + 32) buf type b cb (lfn_reset st) count ctx
      else if e 11 AND 0x0F = 0x0F then scan_block n (off + 32) buf type b cb (lfn_push e (st\<lparr>lfn_cksum := e 13\<rparr>)) count ctx
      else case dirent_from_short type e st b off of
        None \<Rightarrow> scan_block n (off + 32) buf type b cb (lfn_reset st) count ctx
      | Some de \<Rightarrow>
          (case cb de ctx of
             (True, ctx1) \<Rightarrow> (True, st, count + 1, ctx1)
           | (False, ctx1) \<Rightarrow> scan_block n (off + 32) buf type b cb (lfn_reset st) (count + 1) ctx1))"

text \<open>\<open>None\<close> stands for -1. The first argument bounds the number of blocks.\<close>

primrec foreach_loop :: "nat \<Rightarrow> dir_walk \<Rightarrow> 'c dirent_cb \<Rightarrow> lfn_state \<Rightarrow> nat \<Rightarrow> 'c \<Rightarrow> fatvol \<Rightarrow> nat option \<times> 'c \<times> fatvol" where
  "foreach_loop 0 w cb st count ctx v = (Some count, ctx, v)"
| "foreach_loop (Suc k) w cb st count ctx v =
     (case fat_read_block v (fast w) (\<lambda>_. 0) of
        (False, _) \<Rightarrow> (None, ctx, v)
      | (True, buf) \<Rightarrow>
          (case scan_block (db_bytes (fast w) div 32) 0 buf (fat_type v) (fast w) cb (lfn_reset st) count ctx of
             (fin, st1, count1, ctx1) \<Rightarrow>
               if fin then (Some count1, ctx1, v)
               else case fat_dir_walk_next w v of
                 (None, v1) \<Rightarrow> (Some count1, ctx1, v1)
               | (Some w1, v1) \<Rightarrow> foreach_loop k w1 cb st1 count1 ctx1 v1))"

definition lfn_state0 :: "(nat \<Rightarrow> nat) \<Rightarrow> lfn_state" where
  "lfn_state0 stk = \<lparr>lfn_chars = stk, lfn_len = 0, lfn_cksum = 0, lfn_seq_expect = -1, lfn_blocks = 0\<rparr>"

definition fat_dir_foreach :: "(nat \<Rightarrow> nat) \<Rightarrow> nat \<Rightarrow> 'c dirent_cb \<Rightarrow> 'c \<Rightarrow> fatvol \<Rightarrow> nat option \<times> 'c \<times> fatvol" where
  "fat_dir_foreach stk dir_cluster cb ctx v =
     (case fat_dir_walk_start dir_cluster v of
        (None, v1) \<Rightarrow> (Some 0, ctx, v1)
      | (Some w, v1) \<Rightarrow> foreach_loop (Suc (wmax w)) w cb (lfn_state0 stk) 0 ctx v1)"

section \<open>Look-up and paths\<close>

definition find_cb :: "fname \<Rightarrow> fat_dirent option dirent_cb" where
  "find_cb want e c = (if name_eq (de_name e) want then (True, Some e) else (False, c))"

definition fat_find_entry :: "(nat \<Rightarrow> nat) \<Rightarrow> nat \<Rightarrow> fname \<Rightarrow> fatvol \<Rightarrow> fat_dirent option \<times> fatvol" where
  "fat_find_entry stk dir_cluster name v =
     (case fat_dir_foreach stk dir_cluster (find_cb name) None v of (_, hit, v1) \<Rightarrow> (hit, v1))"

abbreviation SLASH :: nat where "SLASH \<equiv> 47"
abbreviation DOT :: nat where "DOT \<equiv> 46"

definition comp_of :: "fname \<Rightarrow> fname" where
  "comp_of p = take 127 (takeWhile (\<lambda>c. c \<noteq> SLASH) p)"

lemma path_shrinks:
  assumes "drop k p \<noteq> []" and "hd (drop k p) = SLASH"
  shows "length (dropWhile (\<lambda>c. c = SLASH) (drop k p)) < length p"
proof -
  obtain q where q: "drop k p = SLASH # q" using assms by (cases "drop k p") auto
  have "length (dropWhile (\<lambda>c. c = SLASH) (drop k p)) < length (drop k p)"
    unfolding q using length_dropWhile_le [of "\<lambda>c. c = SLASH" q] by simp
  then show ?thesis by simp
qed

function resolve_loop :: "(nat \<Rightarrow> nat) \<Rightarrow> fname \<Rightarrow> nat \<Rightarrow> nat list \<Rightarrow> fatvol \<Rightarrow> nat option \<times> fatvol" where
  "resolve_loop stk p cur stack v =
     (let comp = comp_of p; p1 = drop (length comp) p; more = (p1 \<noteq> [] \<and> hd p1 = SLASH); p2 = dropWhile (\<lambda>c. c = SLASH) p1 in
      if comp = [] \<or> name_eq comp [DOT] then (if \<not> more then (Some cur, v) else resolve_loop stk p2 cur stack v)
      else if name_eq comp [DOT, DOT] then
        (case stack of
           [] \<Rightarrow> (None, v)
         | c # stack1 \<Rightarrow> if \<not> more then (Some c, v) else resolve_loop stk p2 c stack1 v)
      else if length stack \<ge> 31 then (None, v)
      else case fat_find_entry stk cur comp v of
        (None, v1) \<Rightarrow> (None, v1)
      | (Some de, v1) \<Rightarrow>
          if \<not> is_dir de then (None, v1)
          else if \<not> more then (Some (first_cluster de), v1) else resolve_loop stk p2 (first_cluster de) (cur # stack) v1)"
  by pat_completeness auto
termination
  by (relation "measure (\<lambda>(stk, p, cur, stack, v). length p)") (auto intro: path_shrinks)

declare resolve_loop.simps [simp del]

end
