(* ===== verification/FatFile.thy ===== *)
theory FatFile
  imports FatDir
begin

text \<open>
  The file operations of the FAT driver, \<open>kernel/fat.c\<close>: path resolution, short names and
  aliases, free slots, directory entries, and reading, creating and deleting files and
  directories. The operations return -1 (here \<open>None\<close> or \<open>False\<close>) and the volume they leave.
  The time stamp that \<open>write_timestamp\<close> takes from the clock is an argument (date and time).
\<close>

section \<open>Paths\<close>

definition fat_resolve_dir :: "(nat \<Rightarrow> nat) \<Rightarrow> fname \<Rightarrow> fatvol \<Rightarrow> nat option \<times> fatvol" where
  "fat_resolve_dir stk path v =
     (if fat_type v = 0 \<or> path = [] then (None, v)
      else
        let absolute = (hd path = SLASH);
            cur = (if absolute then root_dir_cluster_value v else current_dir_cluster v);
            p = (if absolute then tl path else path)
        in if p = [] then (Some cur, v) else resolve_loop stk p cur [] v)"

text \<open>Parent directory and last component; the buffer for the latter holds 128 bytes.\<close>

definition fat_resolve_leaf :: "(nat \<Rightarrow> nat) \<Rightarrow> fname \<Rightarrow> fatvol \<Rightarrow> (nat \<times> fname) option \<times> fatvol" where
  "fat_resolve_leaf stk path v =
     (if fat_type v = 0 \<or> path = [] then (None, v)
      else
        let leaf = rev (takeWhile (\<lambda>c. c \<noteq> SLASH) (rev path)); pre = take (length path - length leaf) path in
        if pre = [] then
          (if length leaf + 1 > 128 then (None, v) else (Some (current_dir_cluster v, leaf), v))
        else if leaf = [] \<or> length leaf + 1 > 128 then (None, v)
        else if length pre = 1 then (Some (root_dir_cluster_value v, leaf), v)
        else if length pre - 1 \<ge> 128 then (None, v)
        else case fat_resolve_dir stk (butlast pre) v of
          (None, v1) \<Rightarrow> (None, v1)
        | (Some d, v1) \<Rightarrow> (Some (d, leaf), v1))"

section \<open>Reading\<close>

definition fat_read_file :: "(nat \<Rightarrow> nat) \<Rightarrow> fname \<Rightarrow> nat \<Rightarrow> fatvol \<Rightarrow> u8 list option \<times> fatvol" where
  "fat_read_file stk name max_size v =
     (if fat_type v = 0 then (None, v)
      else case fat_resolve_leaf stk name v of
        (None, v1) \<Rightarrow> (None, v1)
      | (Some (dir, leaf), v1) \<Rightarrow>
          (case fat_find_entry stk dir leaf v1 of
             (None, v2) \<Rightarrow> (None, v2)
           | (Some de, v2) \<Rightarrow>
               if is_dir de then (None, v2)
               else if de_size de = 0 \<or> first_cluster de = 0 then (Some [], v2)
               else read_loop (nclus v2 + 2) (de_size de) max_size (first_cluster de) [] v2))"

definition fat_get_file_size :: "(nat \<Rightarrow> nat) \<Rightarrow> fname \<Rightarrow> fatvol \<Rightarrow> nat \<times> fatvol" where
  "fat_get_file_size stk name v =
     (if fat_type v = 0 then (0, v)
      else case fat_resolve_leaf stk name v of
        (None, v1) \<Rightarrow> (0, v1)
      | (Some (dir, leaf), v1) \<Rightarrow>
          (case fat_find_entry stk dir leaf v1 of (None, v2) \<Rightarrow> (0, v2) | (Some de, v2) \<Rightarrow> (de_size de, v2)))"

primrec count_chain :: "nat \<Rightarrow> nat \<Rightarrow> nat \<Rightarrow> fatvol \<Rightarrow> nat \<times> fatvol" where
  "count_chain 0 n cur v = (n, v)"
| "count_chain (Suc k) n cur v =
     (if \<not> (cur \<ge> 2 \<and> cur < nclus v + 2) then (n, v)
      else case fat_entry_get cur v of
        (nxt, v1) \<Rightarrow> if fat_is_eoc v1 nxt \<or> fat_is_bad v1 nxt then (n + 1, v1) else count_chain k (n + 1) nxt v1)"

definition fat_get_file_clusters :: "(nat \<Rightarrow> nat) \<Rightarrow> fname \<Rightarrow> fatvol \<Rightarrow> nat \<times> fatvol" where
  "fat_get_file_clusters stk name v =
     (if fat_type v = 0 then (0, v)
      else case fat_resolve_leaf stk name v of
        (None, v1) \<Rightarrow> (0, v1)
      | (Some (dir, leaf), v1) \<Rightarrow>
          (case fat_find_entry stk dir leaf v1 of
             (None, v2) \<Rightarrow> (0, v2)
           | (Some de, v2) \<Rightarrow> if first_cluster de < 2 then (0, v2) else count_chain (nclus v2 + 2) 0 (first_cluster de) v2))"

primrec count_used :: "nat \<Rightarrow> nat \<Rightarrow> nat \<Rightarrow> fatvol \<Rightarrow> nat \<times> fatvol" where
  "count_used 0 c used v = (used, v)"
| "count_used (Suc k) c used v = (case fat_entry_get c v of (x, v1) \<Rightarrow> count_used k (c + 1) (if x \<noteq> 0 then used + 1 else used) v1)"

definition fat_count_used_clusters :: "fatvol \<Rightarrow> nat \<times> fatvol" where
  "fat_count_used_clusters v = (if fat_type v = 0 then (0, v) else count_used (nclus v) 2 0 v)"

definition is_dots :: "fname \<Rightarrow> bool" where
  "is_dots n = (n = [DOT] \<or> n = [DOT, DOT])"

text \<open>Listing: entries are collected until the caller's array is full.\<close>

definition list_cb :: "nat \<Rightarrow> (fname \<times> nat \<times> bool) list dirent_cb" where
  "list_cb mx e l =
     (if is_dots (de_name e) then (False, l) else if length l \<ge> mx then (True, l) else (False, l @ [(take 255 (de_name e), de_size e, is_dir e)]))"

definition fat_read_dir :: "(nat \<Rightarrow> nat) \<Rightarrow> nat \<Rightarrow> fatvol \<Rightarrow> (fname \<times> nat \<times> bool) list option \<times> fatvol" where
  "fat_read_dir stk mx v =
     (if fat_type v = 0 then (None, v)
      else case fat_dir_foreach stk (current_dir_cluster v) (list_cb mx) [] v of (_, l, v1) \<Rightarrow> (Some l, v1))"

definition fat_read_dir_path :: "(nat \<Rightarrow> nat) \<Rightarrow> fname \<Rightarrow> nat \<Rightarrow> fatvol \<Rightarrow> (fname \<times> nat \<times> bool) list option \<times> fatvol" where
  "fat_read_dir_path stk path mx v =
     (if fat_type v = 0 \<or> mx = 0 then (None, v)
      else case fat_resolve_dir stk path v of
        (None, v1) \<Rightarrow> (None, v1)
      | (Some c, v1) \<Rightarrow> (case fat_dir_foreach stk c (list_cb mx) [] v1 of (_, l, v2) \<Rightarrow> (Some l, v2)))"

section \<open>Short names\<close>

definition sfn_char_ok :: "nat \<Rightarrow> bool" where
  "sfn_char_ok c = (65 \<le> c \<and> c \<le> 90 \<or> 48 \<le> c \<and> c \<le> 57 \<or> c \<in> set [33, 35, 36, 37, 38, 39, 40, 41, 45, 64, 94, 95, 96, 123, 125, 126])"

definition sn11_to_str :: "nat list \<Rightarrow> fname" where
  "sn11_to_str sn =
     (let bl = trim_len (\<lambda>i. sn ! i) 8; el = trim_len (\<lambda>i. sn ! (8 + i)) 3
      in map (\<lambda>i. sn ! i) [0..<bl] @ (if el > 0 then [46] @ map (\<lambda>i. sn ! (8 + i)) [0..<el] else []))"

definition pad_to :: "nat \<Rightarrow> nat list \<Rightarrow> nat list" where
  "pad_to n l = l @ replicate (n - length l) 32"

definition try_make_sfn :: "fname \<Rightarrow> nat list option" where
  "try_make_sfn name =
     (let base = takeWhile (\<lambda>c. c \<noteq> DOT) name; rest = drop (length base) name; ext = tl rest in
      if DOT \<in> set ext then None
      else if length base < 1 \<or> length base > 8 then None
      else if length ext > 3 then None
      else if \<not> list_all (\<lambda>c. sfn_char_ok (up_char c)) base then None
      else if \<not> list_all (\<lambda>c. sfn_char_ok (up_char c)) ext then None
      else Some (pad_to 8 (map up_char base) @ pad_to 3 (map up_char ext)))"

fun rev_dec :: "nat \<Rightarrow> nat list" where
  "rev_dec n = (if n = 0 then [] else (48 + n mod 10) # rev_dec (n div 10))"

declare rev_dec.simps [simp del]

definition alias_of :: "fname \<Rightarrow> nat \<Rightarrow> nat list" where
  "alias_of name n =
     (let stem = takeWhile (\<lambda>c. c \<noteq> DOT) name;
          base0 = take 8 (filter sfn_char_ok (map up_char stem));
          base = (if base0 = [] then [95] else base0);
          ext = take 3 (filter sfn_char_ok (map up_char (tl (drop (length stem) name))));
          suf = rev (rev_dec n);
          keep = max 1 (min (7 - length suf) (length base))
      in pad_to 8 (take keep base @ [126] @ suf) @ pad_to 3 ext)"

primrec alias_loop :: "(nat \<Rightarrow> nat) \<Rightarrow> fname \<Rightarrow> nat \<Rightarrow> nat \<Rightarrow> nat \<Rightarrow> fatvol \<Rightarrow> nat list option \<times> fatvol" where
  "alias_loop stk name dir 0 n v = (None, v)"
| "alias_loop stk name dir (Suc k) n v =
     (let sn = alias_of name n in
      case fat_find_entry stk dir (sn11_to_str sn) v of
        (None, v1) \<Rightarrow> (Some sn, v1)
      | (Some _, v1) \<Rightarrow> alias_loop stk name dir k (n + 1) v1)"

definition make_alias :: "(nat \<Rightarrow> nat) \<Rightarrow> fname \<Rightarrow> nat \<Rightarrow> fatvol \<Rightarrow> nat list option \<times> fatvol" where
  "make_alias stk name dir v = alias_loop stk name dir 999999 1 v"

text \<open>The short name and the number of entries for the long one.\<close>

definition long_names :: "(nat \<Rightarrow> nat) \<Rightarrow> fname \<Rightarrow> nat \<Rightarrow> fatvol \<Rightarrow> (nat list \<times> nat) option \<times> fatvol" where
  "long_names stk name dir v =
     (case make_alias stk name dir v of (None, v1) \<Rightarrow> (None, v1) | (Some sn, v1) \<Rightarrow> (Some (sn, (length name + 12) div 13), v1))"

definition prepare_names :: "(nat \<Rightarrow> nat) \<Rightarrow> fname \<Rightarrow> nat \<Rightarrow> fatvol \<Rightarrow> (nat list \<times> nat) option \<times> fatvol" where
  "prepare_names stk name dir v =
     (case try_make_sfn name of
        Some sn \<Rightarrow> if name_eq (sn11_to_str sn) name then (Some (sn, 0), v) else long_names stk name dir v
      | None \<Rightarrow> long_names stk name dir v)"

section \<open>Writing entries\<close>

definition fat_write_dirent_at :: "dir_block \<Rightarrow> nat \<Rightarrow> u8 list \<Rightarrow> fatvol \<Rightarrow> bool \<times> fatvol" where
  "fat_write_dirent_at b off entry v =
     (if off + 32 > db_bytes b then (False, v)
      else case fat_read_block v b (\<lambda>_. 0) of
        (False, _) \<Rightarrow> (False, v)
      | (True, buf) \<Rightarrow> fat_write_block b (put_bytes off entry buf) v)"

primrec slots_in :: "nat \<Rightarrow> nat \<Rightarrow> nat \<Rightarrow> nat \<Rightarrow> (nat \<Rightarrow> u8) \<Rightarrow> nat option" where
  "slots_in 0 off run need buf = None"
| "slots_in (Suc n) off run need buf =
     (if buf off = 0 \<or> buf off = 0xE5 then
        (if run + 1 = need then Some (off + 32 - need * 32) else slots_in n (off + 32) (run + 1) need buf)
      else slots_in n (off + 32) 0 need buf)"

text \<open>\<open>Inl ()\<close> is a read error, \<open>Inr None\<close> the end of the directory.\<close>

primrec slots_loop :: "nat \<Rightarrow> dir_walk \<Rightarrow> nat \<Rightarrow> fatvol \<Rightarrow> (unit + (dir_block \<times> nat) option) \<times> fatvol" where
  "slots_loop 0 w need v = (Inr None, v)"
| "slots_loop (Suc k) w need v =
     (case fat_read_block v (fast w) (\<lambda>_. 0) of
        (False, _) \<Rightarrow> (Inl (), v)
      | (True, buf) \<Rightarrow>
          (case slots_in (db_bytes (fast w) div 32) 0 0 need buf of
             Some off \<Rightarrow> (Inr (Some (fast w, off)), v)
           | None \<Rightarrow>
               (case fat_dir_walk_next w v of
                  (None, v1) \<Rightarrow> (Inr None, v1)
                | (Some w1, v1) \<Rightarrow> slots_loop k w1 need v1)))"

primrec dir_tail :: "nat \<Rightarrow> nat \<Rightarrow> fatvol \<Rightarrow> nat \<times> fatvol" where
  "dir_tail 0 tail v = (tail, v)"
| "dir_tail (Suc k) tail v =
     (case fat_entry_get tail v of
        (nxt, v1) \<Rightarrow> if fat_is_eoc v1 nxt \<or> nxt < 2 \<or> nxt \<ge> nclus v1 + 2 then (tail, v1) else dir_tail k nxt v1)"

definition extend_dir :: "nat \<Rightarrow> fatvol \<Rightarrow> (dir_block \<times> nat) option \<times> fatvol" where
  "extend_dir dir_cluster v =
     (case dir_tail (nclus v + 2) dir_cluster v of
        (tail, v1) \<Rightarrow>
          (case fat_alloc_cluster v1 of
             (nc, v2) \<Rightarrow>
               if nc = 0 then (None, v2)
               else case fat_entry_set tail nc v2 of
                 (False, v3) \<Rightarrow> (None, v3)
               | (True, v3) \<Rightarrow>
                   (case fat_entry_set nc (fat_eoc_val v3) v3 of
                      (False, v4) \<Rightarrow> (None, v4)
                    | (True, v4) \<Rightarrow>
                        (case fat_write_cluster nc (\<lambda>_. 0) v4 of
                           (False, v5) \<Rightarrow> (None, v5)
                         | (True, v5) \<Rightarrow> (Some (data_block v5 nc, 0), v5)))))"

definition fat_find_free_slots :: "nat \<Rightarrow> nat \<Rightarrow> fatvol \<Rightarrow> (dir_block \<times> nat) option \<times> fatvol" where
  "fat_find_free_slots dir_cluster need v =
     (case (case fat_dir_walk_start dir_cluster v of
              (None, v1) \<Rightarrow> (Inr None, v1)
            | (Some w, v1) \<Rightarrow> slots_loop (Suc (wmax w)) w need v1) of
        (Inl _, v1) \<Rightarrow> (None, v1)
      | (Inr (Some r), v1) \<Rightarrow> (Some r, v1)
      | (Inr None, v1) \<Rightarrow> if dir_cluster \<ge> 2 then extend_dir dir_cluster v1 else (None, v1))"

definition stamp :: "nat \<Rightarrow> nat \<Rightarrow> u8 list \<Rightarrow> u8 list" where
  "stamp date time e =
     e[14 := of_nat (time AND 0xFF), 15 := of_nat (drop_bit 8 time), 16 := of_nat (date AND 0xFF), 17 := of_nat (drop_bit 8 date),
       18 := of_nat (date AND 0xFF), 19 := of_nat (drop_bit 8 date), 22 := of_nat (time AND 0xFF), 23 := of_nat (drop_bit 8 time),
       24 := of_nat (date AND 0xFF), 25 := of_nat (drop_bit 8 date)]"

definition name_unit :: "fname \<Rightarrow> nat \<Rightarrow> nat" where
  "name_unit name idx = (if idx < length name then name ! idx mod 256 else if idx = length name then 0 else 0xFFFF)"

definition lfn_entry :: "fname \<Rightarrow> nat \<Rightarrow> nat \<Rightarrow> nat \<Rightarrow> u8 list" where
  "lfn_entry name ck cnt n =
     fold (\<lambda>i e. let ch = name_unit name ((n - 1) * 13 + i) in
        e[off_tab ! i := of_nat (ch AND 0xFF), off_tab ! i + 1 := of_nat (drop_bit 8 ch)]) [0..<13]
       ((replicate 32 0)[0 := of_nat (n OR (if n = cnt then 0x40 else 0)), 11 := 0x0F, 13 := of_nat ck])"

primrec write_lfn :: "nat \<Rightarrow> dir_block \<Rightarrow> nat \<Rightarrow> fname \<Rightarrow> nat \<Rightarrow> nat \<Rightarrow> fatvol \<Rightarrow> bool \<times> fatvol" where
  "write_lfn 0 b off0 name ck cnt v = (True, v)"
| "write_lfn (Suc n) b off0 name ck cnt v =
     (case fat_write_dirent_at b (off0 + (cnt - Suc n) * 32) (lfn_entry name ck cnt (Suc n)) v of
        (False, v1) \<Rightarrow> (False, v1)
      | (True, v1) \<Rightarrow> write_lfn n b off0 name ck cnt v1)"

definition short_entry :: "nat \<Rightarrow> nat list \<Rightarrow> nat \<Rightarrow> nat \<Rightarrow> nat \<Rightarrow> nat \<times> nat \<Rightarrow> u8 list" where
  "short_entry type sn attr first fsize ts =
     (let e = stamp (fst ts) (snd ts) (map of_nat sn @ [of_nat attr] @ replicate 20 0);
          e1 = (if type = 32 then e[20 := of_nat (drop_bit 16 first AND 0xFF), 21 := of_nat (drop_bit 24 first AND 0xFF)] else e)
      in e1[26 := of_nat (first AND 0xFF), 27 := of_nat (drop_bit 8 first AND 0xFF), 28 := of_nat (fsize AND 0xFF),
            29 := of_nat (drop_bit 8 fsize AND 0xFF), 30 := of_nat (drop_bit 16 fsize AND 0xFF), 31 := of_nat (drop_bit 24 fsize AND 0xFF)])"

definition write_dir_entries ::
    "dir_block \<Rightarrow> nat \<Rightarrow> fname \<Rightarrow> nat list \<Rightarrow> nat \<Rightarrow> nat \<Rightarrow> nat \<Rightarrow> nat \<Rightarrow> nat \<times> nat \<Rightarrow> fatvol \<Rightarrow> bool \<times> fatvol" where
  "write_dir_entries b off0 name sn lfn_entries attr first fsize ts v =
     (case write_lfn lfn_entries b off0 name (lfn_checksum sn) lfn_entries v of
        (False, v1) \<Rightarrow> (False, v1)
      | (True, v1) \<Rightarrow> fat_write_dirent_at b (off0 + lfn_entries * 32) (short_entry (fat_type v1) sn attr first fsize ts) v1)"

section \<open>Creating and deleting\<close>

text \<open>The clusters of a new file: its first cluster (0 for an empty file), or \<open>None\<close> after a roll-back.\<close>

definition store_data :: "u8 list \<Rightarrow> fatvol \<Rightarrow> nat option \<times> fatvol" where
  "store_data data v =
     (let n = w32 (length data + cluster_size v - 1) div cluster_size v in
      if n = 0 then (Some 0, v)
      else case chain_alloc n 0 0 v of
        (None, v1) \<Rightarrow> (None, v1)
      | (Some first, v1) \<Rightarrow>
          (case data_write n data 0 first first v1 of (False, v2) \<Rightarrow> (None, v2) | (True, v2) \<Rightarrow> (Some first, v2)))"

definition enter_file :: "nat \<Rightarrow> fname \<Rightarrow> nat list \<Rightarrow> nat \<Rightarrow> nat \<Rightarrow> nat \<Rightarrow> nat \<Rightarrow> nat \<times> nat \<Rightarrow> fatvol \<Rightarrow> bool \<times> fatvol" where
  "enter_file dir leaf sn lfn_entries attr first fsize ts v =
     (case fat_find_free_slots dir (1 + lfn_entries) v of
        (None, v1) \<Rightarrow> (False, if first \<noteq> 0 then snd (fat_free_chain first v1) else v1)
      | (Some (b, off0), v1) \<Rightarrow>
          (case write_dir_entries b off0 leaf sn lfn_entries attr first fsize ts v1 of
             (False, v2) \<Rightarrow> (False, snd (fat_free_chain first v2))
           | (True, v2) \<Rightarrow> (True, v2)))"

definition fat_create_file :: "(nat \<Rightarrow> nat) \<Rightarrow> nat \<times> nat \<Rightarrow> fname \<Rightarrow> u8 list \<Rightarrow> fatvol \<Rightarrow> bool \<times> fatvol" where
  "fat_create_file stk ts name data v =
     (if fat_type v = 0 \<or> name = [] \<or> length name > 255 \<or> last name = SLASH then (False, v)
      else case fat_resolve_leaf stk name v of
        (None, v1) \<Rightarrow> (False, v1)
      | (Some (dir, leaf), v1) \<Rightarrow>
          (case fat_find_entry stk dir leaf v1 of
             (Some _, v2) \<Rightarrow> (False, v2)
           | (None, v2) \<Rightarrow>
               (case prepare_names stk leaf dir v2 of
                  (None, v3) \<Rightarrow> (False, v3)
                | (Some (sn, lfn_entries), v3) \<Rightarrow>
                    (case store_data data v3 of
                       (None, v4) \<Rightarrow> (False, v4)
                     | (Some first, v4) \<Rightarrow> enter_file dir leaf sn lfn_entries 0x20 first (length data) ts v4))))"

definition empty_check_cb :: "bool dirent_cb" where
  "empty_check_cb e nonempty = (if is_dots (de_name e) then (False, nonempty) else (True, True))"

text \<open>Mark the long-name entries in front of \<open>off\<close> as deleted.\<close>

primrec del_lfn :: "nat \<Rightarrow> nat \<Rightarrow> (nat \<Rightarrow> u8) \<Rightarrow> (nat \<Rightarrow> u8)" where
  "del_lfn 0 off buf = buf"
| "del_lfn (Suc k) off buf =
     (if off < 32 then buf
      else if unat (buf (off - 32 + 11)) AND 0x0F = 0x0F \<and> buf (off - 32) \<noteq> 0xE5 then del_lfn k (off - 32) (buf(off - 32 := 0xE5))
      else buf)"

definition mark_deleted :: "fat_dirent \<Rightarrow> fatvol \<Rightarrow> bool \<times> fatvol" where
  "mark_deleted de v =
     (if entry_off de + 32 > db_bytes (de_block de) then (False, v)
      else case fat_read_block v (de_block de) (\<lambda>_. 0) of
        (False, _) \<Rightarrow> (False, v)
      | (True, buf) \<Rightarrow> fat_write_block (de_block de) ((del_lfn (entry_off de div 32) (entry_off de) buf)(entry_off de := 0xE5)) v)"

definition fat_delete_file :: "(nat \<Rightarrow> nat) \<Rightarrow> fname \<Rightarrow> fatvol \<Rightarrow> bool \<times> fatvol" where
  "fat_delete_file stk name v =
     (if fat_type v = 0 then (False, v)
      else case fat_resolve_leaf stk name v of
        (None, v1) \<Rightarrow> (False, v1)
      | (Some (dir, leaf), v1) \<Rightarrow>
          (case fat_find_entry stk dir leaf v1 of
             (None, v2) \<Rightarrow> (False, v2)
           | (Some de, v2) \<Rightarrow>
               if is_dir de then
                 (case fat_dir_foreach stk (first_cluster de) empty_check_cb False v2 of
                    (_, nonempty, v3) \<Rightarrow>
                      if nonempty then (False, v3) else mark_deleted de (snd (fat_free_chain (first_cluster de) v3)))
               else if first_cluster de \<ge> 2 then mark_deleted de (snd (fat_free_chain (first_cluster de) v2))
               else mark_deleted de v2))"

text \<open>The first cluster of a new directory: the entries . and .. and zeros.\<close>

definition dot_entry :: "nat \<Rightarrow> fname \<Rightarrow> nat \<Rightarrow> nat \<times> nat \<Rightarrow> u8 list" where
  "dot_entry type dots c ts =
     (let e = stamp (fst ts) (snd ts) (map of_nat (pad_to 11 dots) @ [0x10] @ replicate 20 0);
          e1 = (if type = 32 then e[20 := of_nat (drop_bit 16 c AND 0xFF), 21 := of_nat (drop_bit 24 c AND 0xFF)] else e)
      in e1[26 := of_nat (c AND 0xFF), 27 := of_nat (drop_bit 8 c AND 0xFF)])"

definition fat_mkdir :: "(nat \<Rightarrow> nat) \<Rightarrow> nat \<times> nat \<Rightarrow> fname \<Rightarrow> fatvol \<Rightarrow> bool \<times> fatvol" where
  "fat_mkdir stk ts name v =
     (if fat_type v = 0 \<or> name = [] \<or> length name > 255 then (False, v)
      else case fat_resolve_leaf stk name v of
        (None, v1) \<Rightarrow> (False, v1)
      | (Some (parent, leaf), v1) \<Rightarrow>
          (case fat_find_entry stk parent leaf v1 of
             (Some _, v2) \<Rightarrow> (False, v2)
           | (None, v2) \<Rightarrow>
               (case fat_alloc_cluster v2 of
                  (nc, v3) \<Rightarrow>
                    if nc = 0 then (False, v3)
                    else case fat_entry_set nc (fat_eoc_val v3) v3 of
                      (False, v4) \<Rightarrow> (False, snd (fat_free_chain nc v4))
                    | (True, v4) \<Rightarrow>
                        (case fat_write_cluster nc (put_bytes 0 (dot_entry (fat_type v4) [DOT] nc ts @ dot_entry (fat_type v4) [DOT, DOT] parent ts) (\<lambda>_. 0)) v4 of
                           (False, v5) \<Rightarrow> (False, snd (fat_free_chain nc v5))
                         | (True, v5) \<Rightarrow>
                             (case prepare_names stk leaf parent v5 of
                                (None, v6) \<Rightarrow> (False, v6)
                              | (Some (sn, lfn_entries), v6) \<Rightarrow> enter_file parent leaf sn lfn_entries 0x10 nc 0 ts v6)))))"

definition fat_rmdir :: "(nat \<Rightarrow> nat) \<Rightarrow> fname \<Rightarrow> fatvol \<Rightarrow> bool \<times> fatvol" where
  "fat_rmdir stk name v =
     (if fat_type v = 0 \<or> name = [] \<or> is_dots name then (False, v)
      else case fat_resolve_leaf stk name v of
        (None, v1) \<Rightarrow> (False, v1)
      | (Some (dir, leaf), v1) \<Rightarrow>
          if is_dots leaf then (False, v1)
          else case fat_find_entry stk dir leaf v1 of
            (None, v2) \<Rightarrow> (False, v2)
          | (Some de, v2) \<Rightarrow> if \<not> is_dir de \<or> first_cluster de = 0 then (False, v2) else fat_delete_file stk name v2)"

end
