(* ===== verification/FatData.thy ===== *)
theory FatData
  imports FatChain
begin

text \<open>
  The data of a file in its chain of clusters: what the write loop of \<open>fat_create_file\<close> stores is
  what the read loop of \<open>fat_read_file\<close> returns, and nothing else on the volume changes.
\<close>

section \<open>Runs of sectors\<close>

lemma read_secs_ok:
  "\<forall>l. rd_ok v l \<Longrightarrow> lba + i + n \<le> 4294967296 \<Longrightarrow>
    read_secs v lba i n base buf = (True, \<lambda>j. if base + 512 * i \<le> j \<and> j < base + 512 * (i + n)
       then disk v (lba + (j - base) div 512) ((j - base) mod 512) else buf j)"
proof (induction n arbitrary: i buf)
  case (Suc n)
  let ?buf = "\<lambda>j. if base + 512 * i \<le> j \<and> j < base + 512 * Suc i then disk v (lba + i) (j - (base + 512 * i)) else buf j"
  have "read_secs v lba i (Suc n) base buf = read_secs v lba (Suc i) n base ?buf" using Suc.prems by (simp cong: if_cong)
  also have "\<dots> = (True, \<lambda>j. if base + 512 * Suc i \<le> j \<and> j < base + 512 * (Suc i + n)
       then disk v (lba + (j - base) div 512) ((j - base) mod 512) else ?buf j)"
    by (rule Suc.IH) (use Suc.prems in simp_all)
  also have "(\<lambda>j. if base + 512 * Suc i \<le> j \<and> j < base + 512 * (Suc i + n)
       then disk v (lba + (j - base) div 512) ((j - base) mod 512) else ?buf j) =
      (\<lambda>j. if base + 512 * i \<le> j \<and> j < base + 512 * (i + Suc n) then disk v (lba + (j - base) div 512) ((j - base) mod 512) else buf j)"
  proof (rule ext)
    fix j
    have "(j - base) div 512 = i \<and> (j - base) mod 512 = j - (base + 512 * i)" if "base + 512 * i \<le> j" "j < base + 512 * Suc i"
    proof -
      have "(j - base) div 512 = i" by (rule div_nat_eqI) (use that in auto)
      then show ?thesis by (simp add: modulo_nat_def mult.commute)
    qed
    then show "(if base + 512 * Suc i \<le> j \<and> j < base + 512 * (Suc i + n) then disk v (lba + (j - base) div 512) ((j - base) mod 512) else ?buf j) =
      (if base + 512 * i \<le> j \<and> j < base + 512 * (i + Suc n) then disk v (lba + (j - base) div 512) ((j - base) mod 512) else buf j)"
      by simp
  qed
  finally show ?case .
qed (auto simp: fun_eq_iff)

lemma write_secs_ok:
  "\<forall>l. wr_ok v l \<Longrightarrow> lba + i + n \<le> 4294967296 \<Longrightarrow>
    write_secs lba i n base buf v = (True, v\<lparr>disk := \<lambda>l q. if lba + i \<le> l \<and> l < lba + i + n \<and> q < 512
       then buf (base + 512 * (l - lba) + q) else disk v l q\<rparr>)"
proof (induction n arbitrary: i v)
  case 0
  have "(\<lambda>l q. if lba + i \<le> l \<and> l < lba + i + 0 \<and> q < 512 then buf (base + 512 * (l - lba) + q) else disk v l q) = disk v"
    by (intro ext) auto
  then show ?case by simp
next
  case (Suc n)
  let ?v = "v\<lparr>disk := (disk v)(lba + i := (\<lambda>q. if q < 512 then buf (base + 512 * i + q) else disk v (lba + i) q))\<rparr>"
  have "write_secs lba i (Suc n) base buf v = write_secs lba (Suc i) n base buf ?v" using Suc.prems by (simp cong: if_cong)
  also have "\<dots> = (True, ?v\<lparr>disk := \<lambda>l q. if lba + Suc i \<le> l \<and> l < lba + Suc i + n \<and> q < 512
       then buf (base + 512 * (l - lba) + q) else disk ?v l q\<rparr>)"
    by (rule Suc.IH) (use Suc.prems in simp_all)
  also have "(\<lambda>l q. if lba + Suc i \<le> l \<and> l < lba + Suc i + n \<and> q < 512 then buf (base + 512 * (l - lba) + q) else disk ?v l q) =
      (\<lambda>l q. if lba + i \<le> l \<and> l < lba + i + Suc n \<and> q < 512 then buf (base + 512 * (l - lba) + q) else disk v l q)"
    by (intro ext) auto
  finally show ?case by simp
qed

section \<open>The data area\<close>

definition data_lba :: "fatvol \<Rightarrow> nat" where
  "data_lba v = fat_part_start v + first_data_sector (fi v)"

abbreviation spc :: "fatvol \<Rightarrow> nat" where "spc v \<equiv> sectors_per_cluster (fi v)"

definition data_geo :: "fatvol \<Rightarrow> bool" where
  "data_geo v \<longleftrightarrow> 0 < spc v \<and> fat_lba v + fat_sectors (fi v) \<le> data_lba v \<and> data_lba v + nclus v * spc v \<le> 4294967296"

text \<open>Byte \<open>j\<close> of cluster \<open>c\<close>.\<close>

definition cbyte :: "fatvol \<Rightarrow> nat \<Rightarrow> nat \<Rightarrow> u8" where
  "cbyte v c j = disk v (data_lba v + (c - 2) * spc v + j div 512) (j mod 512)"

lemma cluster_in:
  assumes "data_geo v" and "2 \<le> c" "c < nclus v + 2"
  shows "cluster_lba v c = data_lba v + (c - 2) * spc v" "data_lba v + (c - 2) * spc v + spc v \<le> 4294967296"
proof -
  have "(c - 2 + 1) * spc v \<le> nclus v * spc v" using assms by (intro mult_le_mono1) simp
  then show *: "data_lba v + (c - 2) * spc v + spc v \<le> 4294967296" using assms(1) by (simp add: data_geo_def)
  moreover have "0 < spc v" using assms(1) by (simp add: data_geo_def)
  ultimately have "data_lba v + (c - 2) * spc v < 4294967296" by linarith
  then show "cluster_lba v c = data_lba v + (c - 2) * spc v" by (simp add: cluster_lba_def data_lba_def add.assoc)
qed

lemma cluster_geo: "geo v \<Longrightarrow> cluster_secs v = spc v" "geo v \<Longrightarrow> cluster_size v = 512 * spc v"
  using geoD(1) by (simp_all add: cluster_secs_def cluster_size_def)

lemma read_cluster_ok:
  assumes "geo v" "data_geo v" and "2 \<le> c" "c < nclus v + 2"
  shows "\<exists>b. fat_read_cluster v c buf = (True, b) \<and> (\<forall>j < cluster_size v. b j = cbyte v c j)"
proof -
  have "fat_read_cluster v c buf = read_secs v (cluster_lba v c) 0 (spc v) 0 buf"
    using assms cluster_geo(1) by (simp add: fat_read_cluster_def)
  then show ?thesis
    using read_secs_ok [of v "cluster_lba v c" 0 "spc v" 0 buf] geoD(7) [OF assms(1)] cluster_in [OF assms(2-4)] cluster_geo(2) [OF assms(1)]
    by (simp add: cbyte_def)
qed

lemma cluster_disjoint:
  assumes "c \<noteq> c'" "2 \<le> c" "2 \<le> c'" and "i < n" "i' < (n::nat)"
  shows "a + (c - 2) * n + i \<noteq> a + (c' - 2) * n + i'"
proof -
  have "i + n * (c - 2) \<noteq> i' + n * (c' - 2)"
  proof
    assume "i + n * (c - 2) = i' + n * (c' - 2)"
    then have "(i + n * (c - 2)) div n = (i' + n * (c' - 2)) div n" by simp
    then show False using assms by simp
  qed
  then show ?thesis by (simp add: mult.commute)
qed

lemma write_cluster_ok:
  assumes inv: "fat_inv v" and dg: "data_geo v" and c: "2 \<le> c" "c < nclus v + 2"
  shows "\<exists>d. fat_write_cluster c buf v = (True, v\<lparr>disk := d\<rparr>) \<and>
    (\<forall>l. \<not> (data_lba v + (c - 2) * spc v \<le> l \<and> l < data_lba v + (c - 2) * spc v + spc v) \<longrightarrow> d l = disk v l) \<and>
    (\<forall>j < cluster_size v. cbyte (v\<lparr>disk := d\<rparr>) c j = buf j)"
proof -
  have g: "geo v" using inv by (simp add: fat_inv_def)
  let ?a = "data_lba v + (c - 2) * spc v"
  let ?d = "\<lambda>l q. if ?a \<le> l \<and> l < ?a + spc v \<and> q < 512 then buf (512 * (l - ?a) + q) else disk v l q"
  have "fat_write_cluster c buf v = write_secs ?a 0 (spc v) 0 buf v"
    using c cluster_geo(1) [OF g] cluster_in(1) [OF dg c] by (simp add: fat_write_cluster_def)
  also have "\<dots> = (True, v\<lparr>disk := ?d\<rparr>)"
    using write_secs_ok [of v ?a 0 "spc v" 0 buf] geoD(8) [OF g] cluster_in(2) [OF dg c] by (simp cong: if_cong)
  finally have "fat_write_cluster c buf v = (True, v\<lparr>disk := ?d\<rparr>)" .
  moreover have "cbyte (v\<lparr>disk := ?d\<rparr>) c j = buf j" if "j < cluster_size v" for j
    using that div_window [of j "spc v"] cluster_geo(2) [OF g] by (simp add: cbyte_def data_lba_def)
  moreover have "?d l = disk v l" if "\<not> (?a \<le> l \<and> l < ?a + spc v)" for l using that by auto
  ultimately show ?thesis by blast
qed

text \<open>A change of the data area leaves the table alone.\<close>

lemma fat_map_data:
  assumes "fat_inv v" and "\<And>l. l < fat_lba v + fat_sectors (fi v) \<Longrightarrow> d l = disk v l"
  shows "fat_inv (v\<lparr>disk := d\<rparr>)" and "n < nclus v + 2 \<Longrightarrow> fat_map (v\<lparr>disk := d\<rparr>) n = fat_map v n"
proof -
  have g: "geo v" and c: "coherent v" using assms(1) by (simp_all add: fat_inv_def)
  have "geo (v\<lparr>disk := d\<rparr>)" using g by (simp add: geo_def fat_lba_def)
  moreover have "d (fat_part_start v + fat_cache_sec v + j div 512) = disk v (fat_part_start v + fat_cache_sec v + j div 512)"
    if "j < 512 * fat_cache_n v" for j
    using div_window [OF that] c by (intro assms(2)) (auto simp: coherent_def fat_lba_def)
  ultimately show "fat_inv (v\<lparr>disk := d\<rparr>)" using c by (simp add: fat_inv_def coherent_def)
  show "fat_map (v\<lparr>disk := d\<rparr>) n = fat_map v n" if n: "n < nclus v + 2"
  proof -
    have "fatbyte (v\<lparr>disk := d\<rparr>) (fat_off (fat_type v) n + k) = fatbyte v (fat_off (fat_type v) n + k)" if "k < fat_len (fat_type v)" for k
    proof -
      have "(fat_off (fat_type v) n + k) div 512 < fat_sectors (fi v)" using geoD(5) [OF g n] that by (intro div_window) simp
      then show ?thesis using assms(2) by (simp add: fatbyte_def fat_lba_def)
    qed
    then have "entry_val (fat_type v) n (\<lambda>k. unat (fatbyte (v\<lparr>disk := d\<rparr>) (fat_off (fat_type v) n + k))) =
        entry_val (fat_type v) n (\<lambda>k. unat (fatbyte v (fat_off (fat_type v) n + k)))"
      by (intro entry_val_cong) simp
    then show ?thesis by (simp add: fat_map_def)
  qed
qed

section \<open>Writing a chain\<close>

text \<open>
  Same geometry and same table; the data of every cluster outside \<open>S\<close> and every sector outside
  the clusters of \<open>S\<close> is the same.
\<close>

definition data_frame :: "nat set \<Rightarrow> fatvol \<Rightarrow> fatvol \<Rightarrow> bool" where
  "data_frame S v v' \<longleftrightarrow> fi v' = fi v \<and> fat_type v' = fat_type v \<and> fat_part_start v' = fat_part_start v \<and>
     (\<forall>n < nclus v + 2. fat_map v' n = fat_map v n) \<and>
     (\<forall>l. (\<forall>c\<in>S. \<not> (data_lba v + (c - 2) * spc v \<le> l \<and> l < data_lba v + (c - 2) * spc v + spc v)) \<longrightarrow>
        \<not> (fat_lba v \<le> l \<and> l < fat_lba v + fat_sectors (fi v)) \<longrightarrow> disk v' l = disk v l)"

lemma data_frameD:
  assumes "data_frame S v v'"
  shows "fi v' = fi v" "fat_type v' = fat_type v" "fat_part_start v' = fat_part_start v" "data_lba v' = data_lba v" "fat_lba v' = fat_lba v"
    "data_geo v' = data_geo v" "n < nclus v + 2 \<Longrightarrow> fat_map v' n = fat_map v n" "fchain v' m cs = fchain v m cs"
  using assms fchain_geo [of v' v] by (auto simp: data_frame_def data_lba_def fat_lba_def data_geo_def)

lemma data_frame_mono: "data_frame S v v' \<Longrightarrow> S \<subseteq> T \<Longrightarrow> data_frame T v v'"
  unfolding data_frame_def by (blast dest: subsetD)

lemma data_frame_trans: "data_frame S v v' \<Longrightarrow> data_frame S v' v'' \<Longrightarrow> data_frame S v v''"
  by (simp add: data_frame_def data_lba_def fat_lba_def)

lemma data_frame_same: "same_vol v v' \<Longrightarrow> data_frame S v v'"
  using same_volD [of v v'] by (simp add: data_frame_def)

lemma data_frame_cbyte:
  assumes f: "data_frame S v v'" and dg: "data_geo v" and g: "geo v" and c: "2 \<le> c" "c \<notin> S" "\<forall>s\<in>S. 2 \<le> s" and j: "j < cluster_size v"
  shows "cbyte v' c j = cbyte v c j"
proof -
  let ?l = "data_lba v + (c - 2) * spc v + j div 512"
  have jd: "j div 512 < spc v" using j cluster_geo(2) [OF g] by (intro div_window) simp
  have "\<not> (data_lba v + (s - 2) * spc v \<le> ?l \<and> ?l < data_lba v + (s - 2) * spc v + spc v)" if "s \<in> S" for s
  proof
    assume a: "data_lba v + (s - 2) * spc v \<le> ?l \<and> ?l < data_lba v + (s - 2) * spc v + spc v"
    define i where "i = ?l - (data_lba v + (s - 2) * spc v)"
    have "?l = data_lba v + (s - 2) * spc v + i" "i < spc v" using a unfolding i_def by linarith+
    moreover have "c \<noteq> s" "2 \<le> s" using that c by auto
    ultimately show False using cluster_disjoint [of c s "j div 512" "spc v" i "data_lba v"] c(1) jd by simp
  qed
  moreover have "\<not> (fat_lba v \<le> ?l \<and> ?l < fat_lba v + fat_sectors (fi v))" using dg by (simp add: data_geo_def)
  ultimately have "disk v' ?l = disk v ?l" using f unfolding data_frame_def by blast
  then show ?thesis using data_frameD [OF f] by (simp add: cbyte_def)
qed

lemma write_cluster_frame:
  assumes inv: "fat_inv v" and dg: "data_geo v" and c: "2 \<le> c" "c < nclus v + 2"
  shows "\<exists>v'. fat_write_cluster c buf v = (True, v') \<and> fat_inv v' \<and> data_frame {c} v v' \<and> (\<forall>j < cluster_size v. cbyte v' c j = buf j)"
proof -
  obtain d where d: "fat_write_cluster c buf v = (True, v\<lparr>disk := d\<rparr>)"
      "\<And>l. \<not> (data_lba v + (c - 2) * spc v \<le> l \<and> l < data_lba v + (c - 2) * spc v + spc v) \<Longrightarrow> d l = disk v l"
      "\<forall>j < cluster_size v. cbyte (v\<lparr>disk := d\<rparr>) c j = buf j"
    using write_cluster_ok [OF inv dg c] by blast
  have t: "d l = disk v l" if "l < fat_lba v + fat_sectors (fi v)" for l
    by (rule d(2)) (use that dg in \<open>simp add: data_geo_def\<close>)
  have "data_frame {c} v (v\<lparr>disk := d\<rparr>)"
    using d(2) fat_map_data(2) [OF inv t] by (simp add: data_frame_def)
  then show ?thesis using d(1,3) fat_map_data(1) [OF inv t] by blast
qed

lemma data_write_ok:
  assumes "fat_inv v" "data_geo v" "fchain v (fat_map v) cs" "distinct cs" and "written + (length cs - 1) * cluster_size v \<le> length data"
  shows "\<exists>v'. data_write (length cs) data written (hd cs) first v = (True, v') \<and> fat_inv v' \<and> data_frame (set cs) v v' \<and>
    (\<forall>i < length cs. \<forall>j < cluster_size v. cbyte v' (cs ! i) j = fill_buf data (written + i * cluster_size v) (cluster_size v) j)"
  using assms
proof (induction cs arbitrary: v written)
  case (Cons c cs)
  note inv = Cons.prems(1) and dg = Cons.prems(2)
  have g: "geo v" using inv by (simp add: fat_inv_def)
  let ?cs = "cluster_size v" and ?buf = "fill_buf data written (cluster_size v)"
  have c: "2 \<le> c" "c < nclus v + 2" using fchain_range [OF Cons.prems(3)] by auto
  have s2: "\<forall>s\<in>set (c # cs). 2 \<le> s" using fchain_range [OF Cons.prems(3)] by auto
  obtain v1 where v1: "fat_write_cluster c ?buf v = (True, v1)" "fat_inv v1" "data_frame {c} v v1" "\<forall>j < ?cs. cbyte v1 c j = ?buf j"
    using write_cluster_frame [OF inv dg c] by blast
  note f1 = data_frameD [OF v1(3)]
  show ?case
  proof (cases cs)
    case Nil
    then show ?thesis using v1 by auto
  next
    case (Cons d ds)
    have m: "fat_map v c = d" "fchain v (fat_map v) cs" using Cons.prems(3) Cons by simp_all
    obtain v2 where v2: "fat_entry_get c v1 = (d, v2)" "fat_inv v2" "same_vol v1 v2"
      using get_entry_ok [OF v1(2) c(1)] c(2) f1(1,7) m(1) by auto
    have f2: "data_frame {c} v v2" by (rule data_frame_trans [OF v1(3) data_frame_same [OF v2(3)]])
    note D2 = data_frameD [OF f2]
    have sz: "cluster_size v2 = ?cs" using D2(1) by (simp add: cluster_size_def)
    have "written + ?cs \<le> length data" using Cons.prems(5) Cons by simp
    then have w: "min (length data - written) ?cs = ?cs" by simp
    have step: "data_write (length (c # cs)) data written (hd (c # cs)) first v = data_write (length cs) data (written + ?cs) (hd cs) first v2"
      using v1(1) v2(1) Cons by (simp add: w)
    have ch2: "fchain v2 (fat_map v2) cs"
    proof -
      have "fchain v2 (fat_map v) cs" using D2(8) m(2) by blast
      moreover have "\<forall>x\<in>set cs. fat_map v x = fat_map v2 x" using D2(7) fchain_range [OF m(2)] by auto
      ultimately show ?thesis using fchain_cong [of cs "fat_map v" "fat_map v2" v2] by simp
    qed
    have dg2: "data_geo v2" using D2(6) dg by simp
    have "\<exists>v'. data_write (length cs) data (written + ?cs) (hd cs) first v2 = (True, v') \<and> fat_inv v' \<and> data_frame (set cs) v2 v' \<and>
      (\<forall>i < length cs. \<forall>j < cluster_size v2. cbyte v' (cs ! i) j = fill_buf data ((written + ?cs) + i * cluster_size v2) (cluster_size v2) j)"
      using v2(2) dg2 ch2 Cons.prems(4,5) Cons sz by (intro Cons.IH) (auto simp: algebra_simps)
    then obtain v' where v': "data_write (length cs) data (written + ?cs) (hd cs) first v2 = (True, v')" "fat_inv v'" "data_frame (set cs) v2 v'"
        "\<forall>i < length cs. \<forall>j < ?cs. cbyte v' (cs ! i) j = fill_buf data ((written + ?cs) + i * ?cs) ?cs j"
      unfolding sz by blast
    have "cbyte v' c j = ?buf j" if "j < ?cs" for j
    proof -
      have "cbyte v' c j = cbyte v2 c j"
        by (rule data_frame_cbyte [OF v'(3) dg2]) (use v2(2) c Cons.prems(4) s2 that sz in \<open>auto simp: fat_inv_def\<close>)
      also have "\<dots> = cbyte v1 c j" using same_volD [OF v2(3)] by (simp add: cbyte_def data_lba_def)
      finally show ?thesis using v1(4) that by simp
    qed
    then have "\<forall>i < length (c # cs). \<forall>j < ?cs. cbyte v' ((c # cs) ! i) j = fill_buf data (written + i * ?cs) ?cs j"
      using v'(4) by (auto simp: less_Suc_eq_0_disj algebra_simps)
    moreover have "data_frame (set (c # cs)) v v'"
      using data_frame_trans [OF data_frame_mono [OF f2] data_frame_mono [OF v'(3)]] by auto
    ultimately show ?thesis using step v'(1,2) by auto
  qed
qed simp

section \<open>Reading a chain\<close>

definition content :: "fatvol \<Rightarrow> nat list \<Rightarrow> u8 list" where
  "content v cs = concat (map (\<lambda>c. map (cbyte v c) [0..<cluster_size v]) cs)"

lemma content_simps [simp]: "content v [] = []" "content v (c # cs) = map (cbyte v c) [0..<cluster_size v] @ content v cs"
  by (simp_all add: content_def)

lemma length_content: "length (content v cs) = length cs * cluster_size v"
  by (induction cs) simp_all

lemma content_same: "same_vol v v' \<Longrightarrow> content v' cs = content v cs"
proof -
  assume s: "same_vol v v'"
  have "cbyte v' = cbyte v" using same_volD [OF s] by (simp add: fun_eq_iff cbyte_def data_lba_def)
  moreover have "cluster_size v' = cluster_size v" using same_volD [OF s] by (simp add: cluster_size_def)
  ultimately show ?thesis by (simp add: content_def)
qed

lemma read_loop_ok:
  assumes "fat_inv v" "data_geo v" "fchain v (fat_map v) cs" and "length cs \<le> k"
    and "length out < min fsize max_size" "min fsize max_size \<le> length out + length cs * cluster_size v"
  shows "\<exists>v'. read_loop k fsize max_size (hd cs) out v = (Some (out @ take (min fsize max_size - length out) (content v cs)), v')"
  using assms
proof (induction cs arbitrary: v k out)
  case (Cons c cs)
  note inv = Cons.prems(1) and dg = Cons.prems(2)
  have g: "geo v" using inv by (simp add: fat_inv_def)
  obtain k' where k: "k = Suc k'" using Cons.prems(4) by (cases k) auto
  let ?cs = "cluster_size v" and ?M = "min fsize max_size"
  have c: "2 \<le> c" "c < nclus v + 2" using fchain_range [OF Cons.prems(3)] by auto
  obtain b where b: "fat_read_cluster v c (\<lambda>_. 0) = (True, b)" "\<forall>j < ?cs. b j = cbyte v c j" using read_cluster_ok [OF g dg c] by blast
  define n where "n = min (min (fsize - length out) ?cs) (max_size - length out)"
  have n: "n = min (?M - length out) ?cs" using Cons.prems(5) by (auto simp: n_def)
  have bs: "map b [0..<n] = map (cbyte v c) [0..<n]" using b(2) n by simp
  let ?out = "out @ map (cbyte v c) [0..<n]"
  have step: "read_loop k fsize max_size (hd (c # cs)) out v =
      (if length ?out \<ge> fsize \<or> length ?out \<ge> max_size then (Some ?out, v)
       else case fat_entry_get c v of (nxt, v1) \<Rightarrow>
         if fat_is_eoc v1 nxt \<or> fat_is_bad v1 nxt then (Some ?out, v1) else read_loop k' fsize max_size nxt ?out v1)"
    using Cons.prems(5) c b(1) unfolding k bs [symmetric] by (simp add: Let_def n_def [symmetric])
  show ?case
  proof (cases "?M - length out \<le> ?cs")
    case True
    then have nM: "n = ?M - length out" using n by simp
    have "length ?out \<ge> fsize \<or> length ?out \<ge> max_size" using nM Cons.prems(5) by (auto simp: min_def)
    moreover have "take (?M - length out) (content v (c # cs)) = map (cbyte v c) [0..<n]"
      using True nM by (simp add: take_map)
    ultimately show ?thesis using step by simp
  next
    case False
    then have nM: "n = ?cs" using n by simp
    have nd: "\<not> (length ?out \<ge> fsize \<or> length ?out \<ge> max_size)" using nM False by auto
    obtain d ds where cs: "cs = d # ds" using False Cons.prems(6) by (cases cs) auto
    have m: "fat_map v c = d" "\<not> stop v d" "fchain v (fat_map v) cs" using Cons.prems(3) cs by simp_all
    obtain v1 where v1: "fat_entry_get c v = (d, v1)" "fat_inv v1" "same_vol v v1" using get_entry_ok [OF inv c] m(1) by blast
    note s = same_volD [OF v1(3)]
    have go: "\<not> (fat_is_eoc v1 d \<or> fat_is_bad v1 d)" using m(2) type_preds [OF s(2)] by (simp add: stop_def)
    have st: "read_loop k fsize max_size (hd (c # cs)) out v = read_loop k' fsize max_size (hd cs) ?out v1"
      using step nd go v1(1) cs by simp
    have sz: "cluster_size v1 = ?cs" using s(1) by (simp add: cluster_size_def)
    have "\<exists>v'. read_loop k' fsize max_size (hd cs) ?out v1 = (Some (?out @ take (?M - length ?out) (content v1 cs)), v')"
    proof (rule Cons.IH)
      show "data_geo v1" using dg s by (simp add: data_geo_def data_lba_def fat_lba_def)
      show "fchain v1 (fat_map v1) cs" using m(3) s fchain_geo [of v1 v] by simp
    qed (use v1(2) Cons.prems k nd nM sz False in auto)
    then obtain v' where v': "read_loop k' fsize max_size (hd cs) ?out v1 = (Some (?out @ take (?M - length ?out) (content v cs)), v')"
      using content_same [OF v1(3)] by auto
    have "take (?M - length out) (content v (c # cs)) = map (cbyte v c) [0..<n] @ take (?M - length ?out) (content v cs)"
      using False nM by (simp add: take_map)
    then show ?thesis using st v' by simp
  qed
qed simp

section \<open>A file\<close>

lemma content_fill:
  assumes "\<forall>i < length cs. \<forall>j < n. f (cs ! i) j = fill_buf data (w + i * n) n j"
    and "length data \<le> w + length cs * n" and "w + (length cs - 1) * n \<le> length data"
  shows "take (length data - w) (concat (map (\<lambda>c. map (f c) [0..<n]) cs)) = drop w data"
  using assms
proof (induction cs arbitrary: w)
  case (Cons c cs)
  have f0: "f c j = fill_buf data w n j" if "j < n" for j using Cons.prems(1) that by force
  show ?case
  proof (cases "cs = []")
    case True
    have "map (f c) [0..<length data - w] = drop w data"
      by (rule nth_equalityI) (use True f0 Cons.prems(2) in \<open>auto simp: fill_buf_def\<close>)
    then show ?thesis using True Cons.prems(2) by (simp add: take_map)
  next
    case False
    then have wn: "w + n \<le> length data" using Cons.prems(3) by (cases cs) auto
    have first: "map (f c) [0..<n] = take n (drop w data)"
      by (rule nth_equalityI) (use f0 wn in \<open>auto simp: fill_buf_def\<close>)
    have "take (length data - (w + n)) (concat (map (\<lambda>c. map (f c) [0..<n]) cs)) = drop (w + n) data"
    proof (rule Cons.IH)
      show "\<forall>i<length cs. \<forall>j<n. f (cs ! i) j = fill_buf data (w + n + i * n) n j"
        using Cons.prems(1) by (auto simp: less_Suc_eq_0_disj algebra_simps)
      show "length data \<le> w + n + length cs * n" "w + n + (length cs - 1) * n \<le> length data"
        using Cons.prems(2,3) False by (cases cs; simp add: algebra_simps)+
    qed
    then have "take (length data - w) (map (f c) [0..<n] @ concat (map (\<lambda>c. map (f c) [0..<n]) cs)) = take n (drop w data) @ drop (w + n) data"
      using first wn by simp
    also have "\<dots> = drop w data" using append_take_drop_id [of n "drop w data"] by (simp add: add.commute)
    finally show ?thesis by simp
  qed
qed simp

lemma ceil_div_gen: "0 < b \<Longrightarrow> a \<le> (a + b - 1) div b * b" "0 < b \<Longrightarrow> ((a + b - 1) div b - 1) * b \<le> a" for a b :: nat
proof -
  assume b: "0 < b"
  define q where "q = (a + b - 1) div b"
  have e: "q * b + (a + b - 1) mod b = a + b - 1" unfolding q_def by (rule div_mult_mod_eq)
  moreover have "(a + b - 1) mod b < b" using b by simp
  ultimately show "a \<le> (a + b - 1) div b * b" unfolding q_def [symmetric] by linarith
  show "((a + b - 1) div b - 1) * b \<le> a" unfolding q_def [symmetric] using e b by (cases q) auto
qed

lemma fat_frame_cbyte:
  assumes "fat_frame v v'" and "data_geo v"
  shows "cbyte v' = cbyte v"
proof (intro ext)
  fix c j
  have "\<not> (fat_lba v \<le> data_lba v + (c - 2) * spc v + j div 512 \<and> data_lba v + (c - 2) * spc v + j div 512 < fat_lba v + fat_sectors (fi v))"
    using assms(2) by (simp add: data_geo_def)
  then have "disk v' (data_lba v + (c - 2) * spc v + j div 512) = disk v (data_lba v + (c - 2) * spc v + j div 512)"
    using assms(1) by (simp add: fat_frame_def)
  then show "cbyte v' c j = cbyte v c j" using fat_frameD [OF assms(1)] by (simp add: cbyte_def data_lba_def)
qed

text \<open>C26: A file that is written is read back. On a mounted volume of any of the three types whose
  drive works, for data of any length: when there are enough free clusters, the loops of
  fat_create_file take that many of them, link them, fill them, and the loop of fat_read_file
  returns exactly the data (cut to the reader's buffer); the entries and the bytes of all
  clusters in use before are as they were. When there are not enough free clusters the
  allocation fails and the table is what it was.\<close>
theorem fat_data_roundtrip:
  fixes data :: "u8 list" and v :: fatvol
  assumes "fat_inv v" "addressable v" "data_geo v" "0 < nclus v" and "data \<noteq> []" and "0 < max_size"
  defines "n \<equiv> (length data + cluster_size v - 1) div cluster_size v"
  shows "if n \<le> card (free_clusters v)
    then \<exists>first v1 v2 v3. chain_alloc n 0 0 v = (Some first, v1) \<and> data_write n data 0 first first v1 = (True, v2) \<and>
      read_loop (nclus v2 + 2) (length data) max_size first [] v2 = (Some (take max_size data), v3) \<and>
      (\<forall>c. 2 \<le> c \<and> c < nclus v + 2 \<and> fat_map v c \<noteq> 0 \<longrightarrow>
        fat_map v2 c = fat_map v c \<and> (\<forall>j < cluster_size v. cbyte v2 c j = cbyte v c j))
    else \<exists>v1. chain_alloc n 0 0 v = (None, v1) \<and> fat_map v1 = fat_map v"
proof (cases "n \<le> card (free_clusters v)")
  case False
  have "building (fat_map v) [] 0 0 v" using assms by (simp add: building_def)
  from chain_alloc_ok [OF this, of n] show ?thesis using False by auto
next
  case True
  have b0: "building (fat_map v) [] 0 0 v" using assms by (simp add: building_def)
  have g: "geo v" using assms(1) by (simp add: fat_inv_def)
  have cs0: "0 < cluster_size v" using cluster_geo(2) [OF g] assms(3) by (simp add: data_geo_def)
  have n: "length data \<le> n * cluster_size v" "(n - 1) * cluster_size v \<le> length data" unfolding n_def by (rule ceil_div_gen [OF cs0])+
  have n1: "n \<noteq> 0" using n(1) assms(5) by (cases n) auto
  obtain bs v1 where bs: "chain_alloc n 0 0 v = (Some (if bs = [] then 0 else hd bs), v1)" "length bs = n" "set bs \<subseteq> free_clusters v"
      "building (fat_map v) bs (if bs = [] then 0 else hd bs) (if bs = [] then 0 else last bs) v1" "fat_frame v v1"
    using chain_alloc_ok [OF b0, of n, unfolded if_P [OF True] append_Nil] by (elim exE conjE) (rule that)
  have ne: "bs \<noteq> []" using bs(2) n1 by auto
  have v1: "fat_inv v1" "distinct bs" "fchain v1 (fat_map v1) bs" "\<forall>m. m \<notin> set bs \<longrightarrow> fat_map v1 m = fat_map v m"
    using bs(4) ne by (auto simp: building_def)
  note F = fat_frameD [OF bs(5)]
  have dg1: "data_geo v1" using assms(3) F by (simp add: data_geo_def data_lba_def)
  have sz1: "cluster_size v1 = cluster_size v" using F(1) by (simp add: cluster_size_def)
  obtain v2 where v2: "data_write n data 0 (hd bs) (hd bs) v1 = (True, v2)" "fat_inv v2" "data_frame (set bs) v1 v2"
      "\<forall>i < length bs. \<forall>j < cluster_size v. cbyte v2 (bs ! i) j = fill_buf data (0 + i * cluster_size v) (cluster_size v) j"
    using data_write_ok [OF v1(1) dg1 v1(3,2), of 0 data "hd bs"] bs(2) n(2) sz1 by auto
  note D = data_frameD [OF v2(3)]
  have sz2: "cluster_size v2 = cluster_size v" using D(1) F(1) by (simp add: cluster_size_def)
  have dg2: "data_geo v2" using D(6) dg1 by simp
  have rng: "set bs \<subseteq> {2..<nclus v1 + 2}" by (rule fchain_range [OF v1(3)])
  have ch2: "fchain v2 (fat_map v2) bs"
  proof -
    have "\<forall>x\<in>set bs. fat_map v1 x = fat_map v2 x" using D(7) rng by auto
    then show ?thesis using v1(3) D(8) [of "fat_map v1" bs] fchain_cong [of bs "fat_map v1" "fat_map v2" v2] by simp
  qed
  have len: "length bs \<le> nclus v2 + 2" using fchain_length [OF ch2 v1(2)] by simp
  have data: "take (length data) (content v2 bs) = data"
    using content_fill [OF v2(4)] n bs(2) sz2 by (simp add: content_def)
  have "\<exists>v3. read_loop (nclus v2 + 2) (length data) max_size (hd bs) [] v2 =
      (Some (take (min (length data) max_size) (content v2 bs)), v3)"
    using read_loop_ok [OF v2(2) dg2 ch2 len, of "[]" "length data" max_size] assms(5,6) n(1) bs(2) sz2 by (simp del: read_loop.simps)
  moreover have "take (min (length data) max_size) (content v2 bs) = take max_size data"
    using data by (metis min.commute take_take)
  ultimately obtain v3 where v3: "read_loop (nclus v2 + 2) (length data) max_size (hd bs) [] v2 = (Some (take max_size data), v3)" by auto
  have old: "fat_map v2 c = fat_map v c \<and> (\<forall>j < cluster_size v. cbyte v2 c j = cbyte v c j)"
    if c: "2 \<le> c" "c < nclus v + 2" "fat_map v c \<noteq> 0" for c
  proof
    have cn: "c \<notin> set bs" using c bs(3) by (auto simp: free_clusters_def)
    show "fat_map v2 c = fat_map v c" using D(7) v1(4) cn c F(1) by simp
    have "\<forall>s\<in>set bs. 2 \<le> s" using rng by auto
    then show "\<forall>j < cluster_size v. cbyte v2 c j = cbyte v c j"
      using data_frame_cbyte [OF v2(3) dg1 _ c(1) cn] v1(1) sz1 fat_frame_cbyte [OF bs(5) assms(3)] by (auto simp: fat_inv_def)
  qed
  show ?thesis using True bs(1) ne v2(1) v3 old by auto
qed

lemma example_vol_data: "addressable example_vol" "data_geo example_vol" "0 < nclus example_vol" "cluster_size example_vol = 512"
  by (simp_all add: addressable_def data_geo_def example_vol_def data_lba_def fat_lba_def cluster_size_def)

lemma example_vol_free: "2 \<le> card (free_clusters example_vol)"
proof -
  have "fat_map example_vol c = 0" for c
    by (simp add: fat_map_def entry_val_def fatbyte_def example_vol_def)
  then have "{2, 3} \<subseteq> free_clusters example_vol" by (simp add: free_clusters_def example_vol_def)
  then show ?thesis using card_mono [OF finite_free, of "{2, 3}" example_vol] by simp
qed

theorem fat_data_roundtrip_witness:
  "\<exists>first v1 v2 v3. chain_alloc 2 0 0 example_vol = (Some first, v1) \<and> data_write 2 (replicate 700 (7 :: u8)) 0 first first v1 = (True, v2) \<and>
    read_loop (nclus v2 + 2) 700 1000 first [] v2 = (Some (replicate 700 7), v3)"
  using fat_data_roundtrip [OF example_vol_inv example_vol_data(1-3), of "replicate 700 7" 1000] example_vol_free
  by (auto simp: example_vol_data(4) simp del: read_loop.simps chain_alloc.simps data_write.simps)

end
