(* ===== verification/FatNames.thy ===== *)
theory FatNames
  imports FatFile FatData
begin

text \<open>
  Names through the directory: what \<open>write_dir_entries\<close> stores in a block and what the loop of
  \<open>fat_dir_foreach\<close> decodes from it. A long name comes back exactly when its length is a multiple
  of 13 (or 255); otherwise it is followed by whatever the array of the decoder held before.
\<close>

section \<open>The bytes of a long-name entry\<close>

lemma list_update_numeral [simp]: "(x # xs)[numeral k := y] = x # xs[pred_numeral k := y]"
  by (simp add: numeral_eq_Suc)

lemma upt_13: "[0..<13] = [0, 1, 2, 3, 4, 5, 6, 7, 8, 9, 10, 11, 12 :: nat]"
  by (simp add: upt_rec)

lemma replicate_32: "replicate 32 x = [x, x, x, x, x, x, x, x, x, x, x, x, x, x, x, x, x, x, x, x, x, x, x, x, x, x, x, x, x, x, x, x]"
  by (simp add: numeral_eq_Suc)

lemma lfn_entry_list:
  "lfn_entry name ck cnt n =
     (let u = (\<lambda>i. name_unit name ((n - 1) * 13 + i)); lo = (\<lambda>i. of_nat (u i AND 0xFF) :: u8); hi = (\<lambda>i. of_nat (drop_bit 8 (u i)) :: u8)
      in [of_nat (n OR (if n = cnt then 0x40 else 0)), lo 0, hi 0, lo 1, hi 1, lo 2, hi 2, lo 3, hi 3, lo 4, hi 4, 0x0F, 0, of_nat ck,
          lo 5, hi 5, lo 6, hi 6, lo 7, hi 7, lo 8, hi 8, lo 9, hi 9, lo 10, hi 10, 0, 0, lo 11, hi 11, lo 12, hi 12])"
  unfolding lfn_entry_def Let_def off_tab_def upt_13 replicate_32 by simp

lemma length_lfn_entry [simp]: "length (lfn_entry name ck cnt n) = 32"
  by (simp add: lfn_entry_list Let_def)

lemma name_unit_small: "name_unit name i < 65536"
  using mod_less_divisor [of 256 "name ! i"] by (auto simp: name_unit_def simp del: mod_less_divisor)

lemma unat_u8: "unat (of_nat n :: u8) = n mod 256"
  by (simp add: unat_of_nat)

lemma unit_bytes: "(unat (of_nat (x AND 0xFF) :: u8) OR push_bit 8 (unat (of_nat (drop_bit 8 x) :: u8))) = x" if "x < 65536" for x :: nat
proof -
  have "x div 256 < 256" using that by (simp add: less_mult_imp_div_less)
  then show ?thesis
    using or_shift [of "x mod 256" 8 "x div 256"] by (simp add: unat_u8 and_255 drop_bit_eq_div)
qed

lemma less_13_cases: "i < 13 \<Longrightarrow> i \<in> {0, 1, 2, 3, 4, 5, 6, 7, 8, 9, 10, 11, 12 :: nat}"
  by (simp, arith)

lemma lfn_unit_entry: "i < 13 \<Longrightarrow> lfn_unit (\<lambda>k. unat (lfn_entry name ck cnt n ! k)) i = name_unit name ((n - 1) * 13 + i)"
  using less_13_cases [of i] unit_bytes [OF name_unit_small] by (auto simp: lfn_unit_def lfn_entry_list off_tab_def Let_def)

lemma lfn_entry_head:
  assumes "1 \<le> n" "n \<le> cnt" "cnt \<le> 20" "ck < 256"
  shows "unat (lfn_entry name ck cnt n ! 0) AND 0x1F = n" "lfn_entry name ck cnt n ! 0 \<noteq> 0" "lfn_entry name ck cnt n ! 0 \<noteq> 0xE5"
    "lfn_entry name ck cnt n ! 11 = 0x0F" "unat (lfn_entry name ck cnt n ! 13) = ck"
proof -
  let ?s = "n OR (if n = cnt then 0x40 else 0)"
  have s: "?s = (if n = cnt then 64 + n else n)" using or_disjoint [of n 6 1] assms by (cases "n = cnt") (simp_all add: or.commute)
  have b: "unat (of_nat ?s :: u8) = ?s" unfolding s unat_u8 using assms by simp
  have h: "unat (lfn_entry name ck cnt n ! 0) = ?s" using b by (simp only: lfn_entry_list Let_def nth_Cons_0)
  show 1: "unat (lfn_entry name ck cnt n ! 0) AND 0x1F = n"
    unfolding h s using assms mod_mult_self3 [of 2 32 n] by (auto simp: byte_masks)
  show "lfn_entry name ck cnt n ! 0 \<noteq> 0" using 1 assms(1) by auto
  show "lfn_entry name ck cnt n ! 0 \<noteq> 0xE5"
  proof
    assume "lfn_entry name ck cnt n ! 0 = 0xE5"
    then have "?s = 0xE5" using h by simp
    then show False unfolding s using assms by (simp split: if_splits)
  qed
  show "lfn_entry name ck cnt n ! 11 = 0x0F" by (simp add: lfn_entry_list Let_def)
  show "unat (lfn_entry name ck cnt n ! 13) = ck" using assms(4) by (simp add: lfn_entry_list Let_def unat_u8)
qed

section \<open>Decoding\<close>

lemma lfn_store_at:
  "lfn_store e base chars pos =
     (if base \<le> pos \<and> pos < base + 13 \<and> pos < 255 \<and> lfn_unit e (pos - base) \<noteq> 0 \<and> lfn_unit e (pos - base) \<noteq> 0xFFFF
      then lfn_unit e (pos - base) else chars pos)"
proof -
  have "fold (\<lambda>i f. let ch = lfn_unit e i; p = base + i in
          if ch = 0 \<or> ch = 0xFFFF then f else if p < 255 then f(p := ch) else f) [0..<n] chars pos =
        (if base \<le> pos \<and> pos < base + n \<and> pos < 255 \<and> lfn_unit e (pos - base) \<noteq> 0 \<and> lfn_unit e (pos - base) \<noteq> 0xFFFF
         then lfn_unit e (pos - base) else chars pos)" for n
    by (induction n) (auto simp: Let_def)
  then show ?thesis unfolding lfn_store_def .
qed

lemma lfn_store_cong: "(\<And>i. i < 13 \<Longrightarrow> lfn_unit e i = lfn_unit e' i) \<Longrightarrow> lfn_store e base chars = lfn_store e' base chars"
  by (intro ext) (auto simp: lfn_store_at)

lemma off_tab_bound: "i < 13 \<Longrightarrow> off_tab ! i + 1 < 32"
  using less_13_cases [of i] by (auto simp: off_tab_def)

lemma lfn_push_cong: "(\<And>i. i < 32 \<Longrightarrow> e i = e' i) \<Longrightarrow> lfn_push e st = lfn_push e' st"
proof -
  assume eq: "\<And>i. i < 32 \<Longrightarrow> e i = e' i"
  have "lfn_unit e i = lfn_unit e' i" if "i < 13" for i
    using off_tab_bound [OF that] eq [of "off_tab ! i"] eq [of "off_tab ! i + 1"] by (simp add: lfn_unit_def)
  then have "lfn_store e = lfn_store e'" by (intro ext lfn_store_cong [THEN fun_cong])
  then show ?thesis unfolding lfn_push_def by (simp only: eq [of 0, simplified])
qed

text \<open>The decoder after the entries \<open>cnt\<close>, \<dots>, \<open>k + 1\<close> of a name.\<close>

definition decoded :: "fname \<Rightarrow> (nat \<Rightarrow> nat) \<Rightarrow> nat \<Rightarrow> nat \<Rightarrow> nat \<Rightarrow> lfn_state \<Rightarrow> bool" where
  "decoded name stk ck cnt k st \<longleftrightarrow>
     lfn_seq_expect st = (if k = cnt then -1 else int k + 1) \<and> lfn_len st = (if k = cnt then 0 else min 255 (13 * cnt)) \<and>
     (k < cnt \<longrightarrow> lfn_cksum st = ck) \<and> lfn_blocks st = cnt - k \<and>
     (\<forall>pos. lfn_chars st pos = (if 13 * k \<le> pos \<and> pos < length name \<and> pos < 255 then name ! pos else stk pos))"

definition byte_name :: "fname \<Rightarrow> bool" where
  "byte_name name = (\<forall>c \<in> set name. 0 < c \<and> c < 256)"

lemma decoded_step:
  assumes d: "decoded name stk ck cnt (Suc k) st" and k: "Suc k \<le> cnt" "cnt \<le> 20" and ck: "ck < 256" and n: "byte_name name" "length name \<le> 13 * cnt"
  shows "decoded name stk ck cnt k (lfn_push (\<lambda>i. unat (lfn_entry name ck cnt (Suc k) ! i)) (st\<lparr>lfn_cksum := ck\<rparr>))"
proof -
  let ?e = "\<lambda>i. unat (lfn_entry name ck cnt (Suc k) ! i)"
  have h: "?e 0 AND 0x1F = Suc k" using lfn_entry_head(1) [of "Suc k" cnt ck] k ck by simp
  have u: "lfn_unit ?e (pos - 13 * k) = name_unit name pos" if "13 * k \<le> pos" "pos < 13 * k + 13" for pos
    using lfn_unit_entry [of "pos - 13 * k" name ck cnt "Suc k"] that by (simp add: mult.commute)
  have ch: "lfn_store ?e (k * 13) (lfn_chars st) pos = (if 13 * k \<le> pos \<and> pos < length name \<and> pos < 255 then name ! pos else stk pos)" for pos
  proof (cases "13 * k \<le> pos \<and> pos < 13 * k + 13")
    case True
    have "name ! pos mod 256 = name ! pos \<and> name ! pos \<noteq> 0 \<and> name ! pos < 256" if "pos < length name"
      using n(1) that by (simp add: byte_name_def)
    then show ?thesis using True u [of pos] d by (auto simp: lfn_store_at mult.commute decoded_def name_unit_def)
  next
    case False
    then show ?thesis using d by (auto simp: lfn_store_at mult.commute decoded_def)
  qed
  show ?thesis using d k h ch unfolding lfn_push_def Let_def by (auto simp: decoded_def)
qed

lemma unat_ne: "x \<noteq> 0xE5 \<Longrightarrow> unat x \<noteq> 0xE5" for x :: u8
  using word_unat_eq_iff [of x "0xE5"] by simp

lemma scan_lfn:
  assumes "k \<le> cnt" "cnt \<le> 20" "ck < 256" "byte_name name" "length name \<le> 13 * cnt" "decoded name stk ck cnt k st"
    and "\<forall>j < k. \<forall>i < 32. buf (off + 32 * j + i) = lfn_entry name ck cnt (k - j) ! i"
  shows "\<exists>st'. decoded name stk ck cnt 0 st' \<and>
    scan_block (k + m) off buf type b cb st count ctx = scan_block m (off + 32 * k) buf type b cb st' count ctx"
  using assms
proof (induction k arbitrary: off st)
  case (Suc k)
  let ?e = "\<lambda>i. unat (buf (off + i))"
  have e: "?e i = unat (lfn_entry name ck cnt (Suc k) ! i)" if "i < 32" for i
    using Suc.prems(7) [rule_format, of 0 i] that by simp
  have tests: "?e 0 \<noteq> 0" "?e 0 \<noteq> 0xE5" "?e 11 AND 0x0F = 0x0F" "?e 13 = ck"
    using lfn_entry_head [of "Suc k" cnt ck name] Suc.prems(1-3) unat_ne e [of 0] e [of 11] e [of 13] by (auto simp: unat_eq_0)
  have "scan_block (Suc k + m) off buf type b cb st count ctx =
      scan_block (k + m) (off + 32) buf type b cb (lfn_push ?e (st\<lparr>lfn_cksum := ?e 13\<rparr>)) count ctx"
    using tests by (simp add: Let_def)
  also have "lfn_push ?e (st\<lparr>lfn_cksum := ?e 13\<rparr>) = lfn_push (\<lambda>i. unat (lfn_entry name ck cnt (Suc k) ! i)) (st\<lparr>lfn_cksum := ck\<rparr>)"
    unfolding tests(4) by (rule lfn_push_cong) (rule e)
  finally have step: "scan_block (Suc k + m) off buf type b cb st count ctx = scan_block (k + m) (off + 32) buf type b cb
      (lfn_push (\<lambda>i. unat (lfn_entry name ck cnt (Suc k) ! i)) (st\<lparr>lfn_cksum := ck\<rparr>)) count ctx" .
  have rest: "\<forall>j < k. \<forall>i < 32. buf (off + 32 + 32 * j + i) = lfn_entry name ck cnt (k - j) ! i"
  proof (intro allI impI)
    fix j i assume "j < k" "i < (32::nat)"
    then show "buf (off + 32 + 32 * j + i) = lfn_entry name ck cnt (k - j) ! i"
      using Suc.prems(7) [rule_format, of "Suc j" i] by (simp add: add.assoc)
  qed
  have "decoded name stk ck cnt k (lfn_push (\<lambda>i. unat (lfn_entry name ck cnt (Suc k) ! i)) (st\<lparr>lfn_cksum := ck\<rparr>))"
    by (rule decoded_step) (use Suc.prems in auto)
  from Suc.IH [OF _ _ _ _ _ this rest] Suc.prems(1-5) show ?case unfolding step by (simp add: add.assoc add.commute)
qed auto

section \<open>The short entry\<close>

lemma mod_split: "0 < m \<Longrightarrow> x mod (k * m) = x mod k + k * (x div k mod m)" for x k m :: nat
  by (simp add: mod_mult2_eq add.commute)

lemma le16_bytes: "(x mod 256 OR push_bit 8 (x div 256 mod 256)) = x mod 65536" for x :: nat
  using or_shift [of "x mod 256" 8 "x div 256 mod 256"] mod_split [of 256 x 256] by simp

lemma le32_bytes:
  "(x mod 256 OR push_bit 8 (x div 256 mod 256) OR push_bit 16 (x div 65536 mod 256) OR push_bit 24 (x div 16777216 mod 256)) = x mod 4294967296"
  for x :: nat
  using le16_bytes [of x] or_shift [of "x mod 65536" 16 "x div 65536 mod 256"] or_shift [of "x mod 16777216" 24 "x div 16777216 mod 256"]
    mod_split [of 256 x 65536] mod_split [of 256 x 16777216] by (simp add: or.assoc [symmetric])

lemma le32_halves: "(x mod 65536 OR push_bit 16 (x div 65536 mod 256 OR push_bit 8 (x div 16777216 mod 256))) = x mod 4294967296" for x :: nat
proof -
  have "x div 65536 mod 65536 = (x div 65536 mod 256 OR push_bit 8 (x div 16777216 mod 256))"
    using le16_bytes [of "x div 65536"] by (simp add: div_mult2_eq [symmetric])
  then show ?thesis using or_shift [of "x mod 65536" 16 "x div 65536 mod 65536"] mod_split [of 65536 x 65536] by simp
qed

lemma replicate_20: "replicate 20 x = [x, x, x, x, x, x, x, x, x, x, x, x, x, x, x, x, x, x, x, x]"
  by (simp add: numeral_eq_Suc)

lemma short_entry_list:
  assumes "length sn = 11"
  shows "\<exists>t u w. length t = 7 \<and> length u = 2 \<and> length w = 4 \<and>
    short_entry type sn attr first fsize ts = map of_nat sn @ [of_nat attr, 0] @ t @ u @ w @
      [of_nat (first AND 0xFF), of_nat (drop_bit 8 first AND 0xFF), of_nat (fsize AND 0xFF), of_nat (drop_bit 8 fsize AND 0xFF),
       of_nat (drop_bit 16 fsize AND 0xFF), of_nat (drop_bit 24 fsize AND 0xFF)] \<and>
    (type = 32 \<longrightarrow> u = [of_nat (drop_bit 16 first AND 0xFF), of_nat (drop_bit 24 first AND 0xFF)])"
proof -
  let ?d = "fst ts" and ?t = "snd ts"
  let ?tl = "[0, of_nat (?t AND 0xFF), of_nat (drop_bit 8 ?t), of_nat (?d AND 0xFF), of_nat (drop_bit 8 ?d), of_nat (?d AND 0xFF), of_nat (drop_bit 8 ?d)] :: u8 list"
  let ?wl = "[of_nat (?t AND 0xFF), of_nat (drop_bit 8 ?t), of_nat (?d AND 0xFF), of_nat (drop_bit 8 ?d)] :: u8 list"
  let ?ul = "(if type = 32 then [of_nat (drop_bit 16 first AND 0xFF), of_nat (drop_bit 24 first AND 0xFF)] else [0, 0]) :: u8 list"
  obtain a b c d e f g h i j k where sn: "sn = [a, b, c, d, e, f, g, h, i, j, k]"
    using assms by (auto simp: numeral_eq_Suc length_Suc_conv)
  show ?thesis
    by (rule exI [of _ ?tl], rule exI [of _ ?ul], rule exI [of _ ?wl])
       (cases "type = 32"; simp add: short_entry_def stamp_def Let_def sn replicate_20)
qed

lemma short_entry_fields:
  fixes type attr first fsize :: nat and ts :: "nat \<times> nat" and sn :: "nat list"
  assumes sn: "length sn = 11" "\<forall>c \<in> set sn. c < 256" and attr: "attr < 256"
  defines "e \<equiv> \<lambda>i. unat (short_entry type sn attr first fsize ts ! i)"
  shows "map e [0..<11] = sn" "e 11 = attr" "e 12 = 0" "le16 e 26 = first mod 65536" "le32 e 28 = fsize mod 4294967296"
    "type = 32 \<Longrightarrow> (le16 e 26 OR push_bit 16 (le16 e 20)) = first mod 4294967296"
    "i < 11 \<Longrightarrow> e i = sn ! i" "length (short_entry type sn attr first fsize ts) = 32"
proof -
  obtain t u w where l: "length t = 7" "length u = 2" "length w = 4" and u: "type = 32 \<longrightarrow> u = [of_nat (drop_bit 16 first AND 0xFF), of_nat (drop_bit 24 first AND 0xFF)]"
    and eq: "short_entry type sn attr first fsize ts = map of_nat sn @ [of_nat attr, 0] @ t @ u @ w @
      [of_nat (first AND 0xFF), of_nat (drop_bit 8 first AND 0xFF), of_nat (fsize AND 0xFF), of_nat (drop_bit 8 fsize AND 0xFF),
       of_nat (drop_bit 16 fsize AND 0xFF), of_nat (drop_bit 24 fsize AND 0xFF)]"
    using short_entry_list [OF sn(1), of type attr first fsize ts] by blast
  note b = e_def eq nth_append sn(1) l unat_u8 and_255 drop_bit_eq_div
  show ei: "i < 11 \<Longrightarrow> e i = sn ! i" for i using sn by (simp add: b)
  show "map e [0..<11] = sn" by (rule nth_equalityI) (use sn ei in auto)
  show "e 11 = attr" "e 12 = 0" using attr by (simp_all add: b)
  show lo: "le16 e 26 = first mod 65536" by (simp add: b le16_def le16_bytes)
  have size: "e 28 = fsize mod 256" "e (28 + 1) = fsize div 256 mod 256" "e (28 + 2) = fsize div 65536 mod 256" "e (28 + 3) = fsize div 16777216 mod 256"
    by (simp_all add: b)
  show "le32 e 28 = fsize mod 4294967296" unfolding le32_def size by (rule le32_bytes)
  show "(le16 e 26 OR push_bit 16 (le16 e 20)) = first mod 4294967296" if "type = 32"
  proof -
    have "le16 e 20 = (first div 65536 mod 256 OR push_bit 8 (first div 16777216 mod 256))" using mp [OF u that] by (simp add: b le16_def)
    then show ?thesis unfolding lo using le32_halves [of first] by simp
  qed
  show "length (short_entry type sn attr first fsize ts) = 32" by (simp add: eq l sn)
qed

lemma trim_len_cong: "(\<And>i. i < n \<Longrightarrow> f i = g i) \<Longrightarrow> trim_len f n = trim_len g n"
  by (induction n) auto

lemma trim_len_le: "trim_len f n \<le> n"
  by (induction n) auto

lemma shortname_plain:
  assumes "\<And>i. i < 11 \<Longrightarrow> e i = sn ! i" "e 12 = 0" "length sn = 11" "5 \<notin> set sn"
  shows "shortname_to_str e = sn11_to_str sn"
proof -
  have t: "trim_len e 8 = trim_len (\<lambda>i. sn ! i) 8" "trim_len (\<lambda>i. e (8 + i)) 3 = trim_len (\<lambda>i. sn ! (8 + i)) 3"
    by (rule trim_len_cong; simp add: assms)+
  have "sn ! i \<in> set sn" if "i < 8" for i by (rule nth_mem) (use that assms(3) in simp)
  then have "sn ! i \<noteq> 5" if "i < 8" for i using assms(4) that by metis
  then have "map (\<lambda>i. lower_if False (if e i = 5 then 0xE5 else e i)) [0..<trim_len (\<lambda>i. sn ! i) 8] = map (\<lambda>i. sn ! i) [0..<trim_len (\<lambda>i. sn ! i) 8]"
    using trim_len_le [of "\<lambda>i. sn ! i" 8] assms(1) by (auto simp: lower_if_def)
  moreover have "map (\<lambda>i. lower_if False (e (8 + i))) [0..<trim_len (\<lambda>i. sn ! (8 + i)) 3] = map (\<lambda>i. sn ! (8 + i)) [0..<trim_len (\<lambda>i. sn ! (8 + i)) 3]"
    using trim_len_le [of "\<lambda>i. sn ! (8 + i)" 3] assms(1) by (auto simp: lower_if_def)
  ultimately show ?thesis unfolding shortname_to_str_def sn11_to_str_def Let_def t by (simp add: assms(2))
qed

section \<open>Writing and reading a block\<close>

definition block_ok :: "fatvol \<Rightarrow> dir_block \<Rightarrow> bool" where
  "block_ok v b \<longleftrightarrow> (\<forall>l. rd_ok v l) \<and> (\<forall>l. wr_ok v l) \<and> 512 dvd db_bytes b \<and> fat_part_start v + db_sector b + db_bytes b div 512 < 4294967296"

definition block_bytes :: "fatvol \<Rightarrow> dir_block \<Rightarrow> nat \<Rightarrow> u8" where
  "block_bytes v b j = disk v (fat_part_start v + db_sector b + j div 512) (j mod 512)"

text \<open>Only the given bytes of the block change.\<close>

definition block_put :: "dir_block \<Rightarrow> nat \<Rightarrow> u8 list \<Rightarrow> fatvol \<Rightarrow> fatvol \<Rightarrow> bool" where
  "block_put b off bs v v' \<longleftrightarrow> (\<exists>d. v' = v\<lparr>disk := d\<rparr> \<and>
     (\<forall>l. l < fat_part_start v + db_sector b \<or> fat_part_start v + db_sector b + db_bytes b div 512 \<le> l \<longrightarrow> d l = disk v l)) \<and>
     (\<forall>j < db_bytes b. block_bytes v' b j = put_bytes off bs (block_bytes v b) j)"

lemma read_block_ok:
  assumes "block_ok v b"
  shows "\<exists>f. fat_read_block v b buf = (True, f) \<and> (\<forall>j < db_bytes b. f j = block_bytes v b j)"
  using assms read_secs_ok [of v "fat_part_start v + db_sector b" 0 "db_bytes b div 512" 0 buf]
  by (auto simp: block_ok_def fat_read_block_def block_bytes_def)

lemma write_block_ok:
  assumes "block_ok v b"
  shows "\<exists>d. fat_write_block b buf v = (True, v\<lparr>disk := d\<rparr>) \<and> (\<forall>j < db_bytes b. block_bytes (v\<lparr>disk := d\<rparr>) b j = buf j) \<and>
    (\<forall>l. l < fat_part_start v + db_sector b \<or> fat_part_start v + db_sector b + db_bytes b div 512 \<le> l \<longrightarrow> d l = disk v l)"
proof -
  let ?a = "fat_part_start v + db_sector b" and ?n = "db_bytes b div 512"
  let ?d = "\<lambda>l q. if ?a + 0 \<le> l \<and> l < ?a + 0 + ?n \<and> q < 512 then buf (0 + 512 * (l - ?a) + q) else disk v l q"
  have "fat_write_block b buf v = (True, v\<lparr>disk := ?d\<rparr>)"
    unfolding fat_write_block_def using assms write_secs_ok [of v ?a 0 ?n 0 buf] by (simp add: block_ok_def)
  moreover have "j div 512 < ?n" if "j < db_bytes b" for j
    using that assms by (auto simp: block_ok_def less_mult_imp_div_less)
  ultimately show ?thesis by (intro exI [of _ ?d]) (auto simp: block_bytes_def)
qed

lemma write_dirent_ok:
  assumes b: "block_ok v b" and off: "off + 32 \<le> db_bytes b"
  shows "\<exists>v'. fat_write_dirent_at b off entry v = (True, v') \<and> block_put b off entry v v'"
proof -
  obtain f where f: "fat_read_block v b (\<lambda>_. 0) = (True, f)" "\<forall>j < db_bytes b. f j = block_bytes v b j" using read_block_ok [OF b] by blast
  obtain d where d: "fat_write_block b (put_bytes off entry f) v = (True, v\<lparr>disk := d\<rparr>)"
    "\<forall>j < db_bytes b. block_bytes (v\<lparr>disk := d\<rparr>) b j = put_bytes off entry f j"
    "\<forall>l. l < fat_part_start v + db_sector b \<or> fat_part_start v + db_sector b + db_bytes b div 512 \<le> l \<longrightarrow> d l = disk v l"
    using write_block_ok [OF b] by blast
  show ?thesis using off f d by (auto simp: fat_write_dirent_at_def block_put_def put_bytes_def)
qed

lemma block_put_ok: "block_put b off bs v v' \<Longrightarrow> block_ok v' b = block_ok v b" "block_put b off bs v v' \<Longrightarrow> fat_type v' = fat_type v"
  by (auto simp: block_put_def block_ok_def)

lemma block_put_nil: "block_put b off [] v v"
  by (auto simp: block_put_def put_bytes_def intro: exI [of _ "disk v"])

lemma block_put_append:
  assumes "block_put b off xs v v1" "block_put b (off + length xs) ys v1 v2"
  shows "block_put b off (xs @ ys) v v2"
  using assms by (auto simp: block_put_def put_bytes_def nth_append)

section \<open>The entries of a name\<close>

primrec name_entries :: "fname \<Rightarrow> nat \<Rightarrow> nat \<Rightarrow> nat \<Rightarrow> u8 list" where
  "name_entries name ck cnt 0 = []"
| "name_entries name ck cnt (Suc k) = lfn_entry name ck cnt (Suc k) @ name_entries name ck cnt k"

lemma length_name_entries [simp]: "length (name_entries name ck cnt k) = 32 * k"
  by (induction k) auto

lemma name_entries_nth: "j < k \<Longrightarrow> i < 32 \<Longrightarrow> name_entries name ck cnt k ! (32 * j + i) = lfn_entry name ck cnt (k - j) ! i"
proof (induction k arbitrary: j)
  case (Suc k)
  then show ?case by (cases j) (auto simp: nth_append)
qed simp

lemma write_lfn_ok:
  assumes "block_ok v b" "k \<le> cnt" "off0 + 32 * cnt \<le> db_bytes b"
  shows "\<exists>v'. write_lfn k b off0 name ck cnt v = (True, v') \<and> block_put b (off0 + (cnt - k) * 32) (name_entries name ck cnt k) v v'"
  using assms
proof (induction k arbitrary: v)
  case (Suc k)
  have fits: "off0 + (cnt - Suc k) * 32 + 32 \<le> db_bytes b" using Suc.prems(2,3) by (auto simp: diff_mult_distrib)
  obtain v1 where v1: "fat_write_dirent_at b (off0 + (cnt - Suc k) * 32) (lfn_entry name ck cnt (Suc k)) v = (True, v1)"
    "block_put b (off0 + (cnt - Suc k) * 32) (lfn_entry name ck cnt (Suc k)) v v1"
    using write_dirent_ok [OF Suc.prems(1) fits] by blast
  have "block_ok v1 b" using block_put_ok(1) [OF v1(2)] Suc.prems(1) by simp
  then obtain v2 where v2: "write_lfn k b off0 name ck cnt v1 = (True, v2)" "block_put b (off0 + (cnt - k) * 32) (name_entries name ck cnt k) v1 v2"
    using Suc.IH [of v1] Suc.prems by auto
  have "off0 + (cnt - k) * 32 = off0 + (cnt - Suc k) * 32 + length (lfn_entry name ck cnt (Suc k))" using Suc.prems(2) by simp
  then show ?case using v1(1) v2(1) block_put_append [OF v1(2), of _ v2] v2(2) by (simp only: write_lfn.simps name_entries.simps) simp
qed (auto intro: block_put_nil)

lemma write_dir_entries_ok:
  assumes "block_ok v b" "off0 + 32 * Suc cnt \<le> db_bytes b"
  shows "\<exists>v'. write_dir_entries b off0 name sn cnt attr first fsize ts v = (True, v') \<and>
    block_put b off0 (name_entries name (lfn_checksum sn) cnt cnt @ short_entry (fat_type v) sn attr first fsize ts) v v'"
proof -
  obtain v1 where v1: "write_lfn cnt b off0 name (lfn_checksum sn) cnt v = (True, v1)" "block_put b off0 (name_entries name (lfn_checksum sn) cnt cnt) v v1"
    using write_lfn_ok [OF assms(1), of cnt cnt off0 name "lfn_checksum sn"] assms(2) by auto
  have "block_ok v1 b" "fat_type v1 = fat_type v" using block_put_ok [OF v1(2)] assms(1) by simp_all
  then obtain v2 where v2: "fat_write_dirent_at b (off0 + cnt * 32) (short_entry (fat_type v) sn attr first fsize ts) v1 = (True, v2)"
    "block_put b (off0 + cnt * 32) (short_entry (fat_type v) sn attr first fsize ts) v1 v2"
    using write_dirent_ok [of v1 b "off0 + cnt * 32"] assms(2) by auto
  show ?thesis using v1 v2 \<open>fat_type v1 = fat_type v\<close> block_put_append [OF v1(2), of _ v2] by (auto simp: write_dir_entries_def mult.commute)
qed

lemma lfn_checksum_byte: "lfn_checksum sn < 256"
proof -
  have "fold (\<lambda>b s. (push_bit 7 (s AND 1) + drop_bit 1 s + b) mod 256) sn s < 256" if "s < 256" for s :: nat
    using that by (induction sn arbitrary: s) auto
  then show ?thesis by (simp add: lfn_checksum_def)
qed

definition printable :: "nat \<Rightarrow> nat" where
  "printable c = (if 32 \<le> c \<and> c < 127 then c else 95)"

text \<open>The name that comes back, given the old contents of the decoder's array.\<close>

definition name_read :: "fname \<Rightarrow> nat list \<Rightarrow> nat \<Rightarrow> (nat \<Rightarrow> nat) \<Rightarrow> fname" where
  "name_read name sn cnt stk =
     (if cnt = 0 then sn11_to_str sn
      else map printable (name @ takeWhile (\<lambda>c. c \<noteq> 0) (map stk [length name..<min 255 (13 * cnt)])))"

lemma decoded_name:
  assumes d: "decoded name stk ck cnt 0 st" and n: "byte_name name" "length name \<le> 255" "length name \<le> 13 * cnt" "0 < cnt"
  shows "lfn_name st = name_read name sn cnt stk"
proof -
  let ?m = "min 255 (13 * cnt)"
  have "[0..<?m] = [0..<length name] @ [length name..<?m]" using n upt_add_eq_append [of 0 "length name" "?m - length name"] by simp
  then have "map (lfn_chars st) [0..<?m] = map (lfn_chars st) [0..<length name] @ map (lfn_chars st) [length name..<?m]" by (metis map_append)
  also have "map (lfn_chars st) [0..<length name] = name" by (rule nth_equalityI) (use d n in \<open>auto simp: decoded_def\<close>)
  also have "map (lfn_chars st) [length name..<?m] = map stk [length name..<?m]" using d by (auto simp: decoded_def)
  finally have "takeWhile (\<lambda>c. c \<noteq> 0) (map (lfn_chars st) [0..<?m]) = name @ takeWhile (\<lambda>c. c \<noteq> 0) (map stk [length name..<?m])"
    using n(1) by (auto simp: byte_name_def intro!: takeWhile_append2)
  moreover have "lfn_len st = ?m" using d n(4) by (simp add: decoded_def)
  ultimately show ?thesis using n(4) by (simp add: lfn_name_def name_read_def printable_def [abs_def])
qed

lemma put_bytes_nth: "k < length bs \<Longrightarrow> put_bytes off bs f (off + k) = bs ! k"
  by (simp add: put_bytes_def)

text \<open>The scan of a short entry after a decoded long name, or without one.\<close>

lemma scan_short:
  assumes e: "\<And>i. i < 32 \<Longrightarrow> buf (off + i) = short_entry type sn attr first fsize ts ! i"
    and sn: "length sn = 11" "\<forall>c \<in> set sn. c < 256" "sn ! 0 \<noteq> 0" "sn ! 0 \<noteq> 0xE5" "5 \<notin> set sn"
    and attr: "attr < 256" "attr AND 0x08 = 0"
    and fits: "first < (if type = 32 then 4294967296 else 65536)" "fsize < 4294967296"
    and st: "if cnt = 0 then lfn_len st = 0
      else decoded name stk (lfn_checksum sn) cnt 0 st \<and> byte_name name \<and> name \<noteq> [] \<and> length name \<le> 255 \<and> length name \<le> 13 * cnt"
  shows "snd (snd (scan_block (Suc 0) off buf type b (\<lambda>e l. (False, l @ [e])) st 0 [])) =
    (1, [\<lparr>de_name = name_read name sn cnt stk, first_cluster = first, de_size = fsize, is_dir = (attr AND 0x10 \<noteq> 0), de_attr = attr,
      de_block = b, entry_off = off, lfn_count = cnt\<rparr>])"
proof -
  let ?s = "\<lambda>i. unat (short_entry type sn attr first fsize ts ! i)" and ?e = "\<lambda>i. unat (buf (off + i))"
  have eq: "?e i = ?s i" if "i < 32" for i using e [OF that] by simp
  note f = short_entry_fields [OF sn(1,2) attr(1), where type = type and first = first and fsize = fsize and ts = ts]
  have e11: "?e i = sn ! i" if "i < 11" for i using eq [of i] f(7) [OF that] that by simp
  have m: "map ?e [0..<11] = sn" by (rule nth_equalityI) (use sn(1) e11 in auto)
  have a: "?e 11 = attr" "?e 12 = 0" using eq [of 11] eq [of 12] f(2,3) by simp_all
  have w: "le16 ?e 26 = first mod 65536" "le32 ?e 28 = fsize" "type = 32 \<Longrightarrow> (le16 ?e 26 OR push_bit 16 (le16 ?e 20)) = first"
    using f(4,5,6) fits eq by (simp_all add: le16_def le32_def)
  have c: "(le16 ?e 26 OR push_bit 16 (if type = 32 then le16 ?e 20 else 0)) = first" using w(1,3) fits(1) by (cases "type = 32") simp_all
  have nm: "shortname_to_str ?e = sn11_to_str sn" by (rule shortname_plain) (use e11 a(2) sn in auto)
  have not_lfn: "attr AND 0x0F \<noteq> 0x0F"
  proof
    assume a: "attr AND 0x0F = 0x0F"
    have "(attr AND 0x0F) AND 0x08 = attr AND 0x08" by (simp add: and.assoc)
    then show False unfolding a attr(2) by simp
  qed
  have long: "lfn_len st > 0 \<and> lfn_seq_expect st = 1 \<and> lfn_cksum st = lfn_checksum sn \<and> lfn_name st \<noteq> [] \<longleftrightarrow> 0 < cnt"
    using st decoded_name [of name stk _ cnt st sn] by (auto simp: decoded_def name_read_def split: if_splits)
  have nr: "name_read name sn cnt stk = (if cnt = 0 then sn11_to_str sn else lfn_name st)" "0 < cnt \<Longrightarrow> lfn_blocks st = cnt"
    using st decoded_name [of name stk _ cnt st sn] by (auto simp: name_read_def decoded_def)
  have "dirent_from_short type ?e st b off = Some \<lparr>de_name = name_read name sn cnt stk, first_cluster = first, de_size = fsize,
      is_dir = (attr AND 0x10 \<noteq> 0), de_attr = attr, de_block = b, entry_off = off, lfn_count = cnt\<rparr>"
    unfolding dirent_from_short_def Let_def a m w(2) c long nm using attr nr by (cases "cnt = 0") simp_all
  moreover have "?e 0 \<noteq> 0" "?e 0 \<noteq> 0xE5" using e11 [of 0] sn(3,4) by auto
  ultimately show ?thesis using a not_lfn by (simp add: Let_def)
qed

lemma scan_entries:
  assumes fe: "\<And>j. j < 32 * Suc cnt \<Longrightarrow> f (off0 + j) = (name_entries name (lfn_checksum sn) cnt cnt @ short_entry type sn attr first fsize ts) ! j"
    and sn: "length sn = 11" "\<forall>c \<in> set sn. c < 256" "sn ! 0 \<noteq> 0" "sn ! 0 \<noteq> 0xE5" "5 \<notin> set sn"
    and name: "byte_name name" "name \<noteq> []" "length name \<le> 255" "cnt = 0 \<or> cnt = (length name + 12) div 13"
    and attr: "attr < 256" "attr AND 0x08 = 0"
    and fits: "first < (if type = 32 then 4294967296 else 65536)" "fsize < 4294967296"
  shows "snd (snd (scan_block (Suc cnt) off0 f type b (\<lambda>e l. (False, l @ [e])) (lfn_reset st) 0 [])) =
      (1, [\<lparr>de_name = name_read name sn cnt (lfn_chars st), first_cluster = first, de_size = fsize, is_dir = (attr AND 0x10 \<noteq> 0),
        de_attr = attr, de_block = b, entry_off = off0 + 32 * cnt, lfn_count = cnt\<rparr>])"
proof -
  let ?cb = "\<lambda>e l. (False, l @ [e]) :: bool \<times> fat_dirent list"
  have short: "f (off0 + 32 * cnt + i) = short_entry type sn attr first fsize ts ! i" if "i < 32" for i
    using fe [of "32 * cnt + i"] that by (simp add: nth_append add.assoc)
  have entries: "\<forall>j < cnt. \<forall>i < 32. f (off0 + 32 * j + i) = lfn_entry name (lfn_checksum sn) cnt (cnt - j) ! i"
  proof (intro allI impI)
    fix j i assume j: "j < cnt" "i < (32 :: nat)"
    have "32 * j + i < 32 * cnt" using j by linarith
    then show "f (off0 + 32 * j + i) = lfn_entry name (lfn_checksum sn) cnt (cnt - j) ! i"
      using fe [of "32 * j + i"] name_entries_nth [OF j, of name "lfn_checksum sn" cnt] by (simp add: nth_append add.assoc)
  qed
  have cnt: "cnt \<le> 20" "0 < cnt \<Longrightarrow> length name \<le> 13 * cnt" using name(3,4) by auto
  obtain st' where st': "if cnt = 0 then lfn_len st' = 0 else decoded name (lfn_chars st) (lfn_checksum sn) cnt 0 st'"
    "scan_block (Suc cnt) off0 f type b ?cb (lfn_reset st) 0 [] = scan_block (Suc 0) (off0 + 32 * cnt) f type b ?cb st' 0 []"
  proof (cases "cnt = 0")
    case True
    then show thesis using that [of "lfn_reset st"] by (simp add: lfn_reset_def)
  next
    case False
    then have l: "length name \<le> 13 * cnt" using cnt(2) by simp
    then have "decoded name (lfn_chars st) (lfn_checksum sn) cnt cnt (lfn_reset st)" by (auto simp: decoded_def lfn_reset_def)
    from scan_lfn [OF le_refl cnt(1) lfn_checksum_byte name(1) l this entries, where m = "Suc 0" and cb = ?cb and type = type and b = b and count = 0 and ctx = "[]"]
    obtain st' where "decoded name (lfn_chars st) (lfn_checksum sn) cnt 0 st'"
      "scan_block (cnt + Suc 0) off0 f type b ?cb (lfn_reset st) 0 [] = scan_block (Suc 0) (off0 + 32 * cnt) f type b ?cb st' 0 []" by blast
    then show thesis using that [of st'] False by simp
  qed
  show ?thesis unfolding st'(2) by (rule scan_short [OF short sn attr fits]) (use st'(1) name cnt in auto)
qed

text \<open>C27: a directory entry that \<open>write_dir_entries\<close> stores in a block is the one that the loop of
  \<open>fat_dir_foreach\<close> decodes there: first cluster, size and attributes are exact, a short name comes
  back as it is, and a long name comes back complete (unprintable characters as underscores), but
  with whatever the decoder's uncleared array holds behind it, up to the end of its last entry.
  No other byte of the block and no other sector changes.\<close>

theorem dir_entry_roundtrip:
  assumes b: "block_ok v b" "off0 + 32 * Suc cnt \<le> db_bytes b"
    and sn: "length sn = 11" "\<forall>c \<in> set sn. c < 256" "sn ! 0 \<noteq> 0" "sn ! 0 \<noteq> 0xE5" "5 \<notin> set sn"
    and name: "byte_name name" "name \<noteq> []" "length name \<le> 255" "cnt = 0 \<or> cnt = (length name + 12) div 13"
    and attr: "attr < 256" "attr AND 0x08 = 0"
    and fits: "first < (if fat_type v = 32 then 4294967296 else 65536)" "fsize < 4294967296"
  shows "\<exists>v' f. write_dir_entries b off0 name sn cnt attr first fsize ts v = (True, v') \<and>
    fat_read_block v' b buf = (True, f) \<and>
    snd (snd (scan_block (Suc cnt) off0 f (fat_type v) b (\<lambda>e l. (False, l @ [e])) (lfn_reset st) 0 [])) =
      (1, [\<lparr>de_name = name_read name sn cnt (lfn_chars st), first_cluster = first, de_size = fsize, is_dir = (attr AND 0x10 \<noteq> 0),
        de_attr = attr, de_block = b, entry_off = off0 + 32 * cnt, lfn_count = cnt\<rparr>]) \<and>
    (\<forall>j < db_bytes b. j < off0 \<or> off0 + 32 * Suc cnt \<le> j \<longrightarrow> f j = block_bytes v b j) \<and>
    (\<forall>l. l < fat_part_start v + db_sector b \<or> fat_part_start v + db_sector b + db_bytes b div 512 \<le> l \<longrightarrow> disk v' l = disk v l)"
proof -
  let ?bs = "name_entries name (lfn_checksum sn) cnt cnt @ short_entry (fat_type v) sn attr first fsize ts"
  obtain v' where v': "write_dir_entries b off0 name sn cnt attr first fsize ts v = (True, v')" "block_put b off0 ?bs v v'"
    using write_dir_entries_ok [OF b] by blast
  obtain f where f: "fat_read_block v' b buf = (True, f)" "\<forall>j < db_bytes b. f j = block_bytes v' b j"
    using read_block_ok [of v' b] block_put_ok(1) [OF v'(2)] b(1) by blast
  have len: "length ?bs = 32 * Suc cnt" using short_entry_fields(8) [OF sn(1,2) attr(1)] by simp
  have put: "f j = put_bytes off0 ?bs (block_bytes v b) j" if "j < db_bytes b" for j
    using f(2) v'(2) that by (simp add: block_put_def)
  have fe: "f (off0 + j) = ?bs ! j" if "j < 32 * Suc cnt" for j
    using put [of "off0 + j"] b(2) that put_bytes_nth [of j ?bs] len by simp
  have "\<forall>j < db_bytes b. j < off0 \<or> off0 + 32 * Suc cnt \<le> j \<longrightarrow> f j = block_bytes v b j"
    using put len by (auto simp: put_bytes_def)
  moreover have "\<forall>l. l < fat_part_start v + db_sector b \<or> fat_part_start v + db_sector b + db_bytes b div 512 \<le> l \<longrightarrow> disk v' l = disk v l"
    using v'(2) by (auto simp: block_put_def)
  ultimately show ?thesis using v'(1) f(1) scan_entries [OF fe sn name attr fits, where b = b and st = st] by blast
qed

text \<open>The file A long name.txt in the root directory of the example volume: its name of 15 bytes needs two
  entries, and if the array held x at position 15 and 0 behind it, the name read back ends in an x.\<close>

definition long_txt :: fname where
  "long_txt = [65, 32, 108, 111, 110, 103, 32, 110, 97, 109, 101, 46, 116, 120, 116]"

theorem dir_entry_roundtrip_witness:
  "\<exists>v' f. write_dir_entries (root_block example_vol 5) 64 long_txt (alias_of long_txt 1) 2 0x20 7 1234 (0, 0) example_vol = (True, v') \<and>
    fat_read_block v' (root_block example_vol 5) (\<lambda>_. 0) = (True, f) \<and>
    map de_name (snd (snd (snd (scan_block 3 64 f 12 (root_block example_vol 5) (\<lambda>e l. (False, l @ [e]))
      (lfn_reset (lfn_state0 ((\<lambda>_. 0)(15 := 120)))) 0 [])))) = [long_txt @ [120]]"
proof -
  have a: "alias_of long_txt 1 = [65, 76, 79, 78, 71, 78, 126, 49, 84, 88, 84]"
    by code_simp
  have b: "block_ok example_vol (root_block example_vol 5)" "64 + 32 * Suc 2 \<le> db_bytes (root_block example_vol 5)"
    by (simp_all add: block_ok_def root_block_def example_vol_def)
  have n: "byte_name long_txt" "long_txt \<noteq> []" "length long_txt \<le> 255" "2 = (0::nat) \<or> 2 = (length long_txt + 12) div 13" "length long_txt = 15"
    by (simp_all add: byte_name_def long_txt_def)
  have "[15..<26] = 15 # [16..<26 :: nat]" "[16..<26] = 16 # [17..<26 :: nat]" by (simp_all add: upt_rec)
  then have r: "name_read long_txt sn 2 ((\<lambda>_. 0)(15 := 120)) = long_txt @ [120]" for sn
    unfolding name_read_def n(5) by (simp add: long_txt_def printable_def)
  have sn: "length (alias_of long_txt 1) = 11" "\<forall>c \<in> set (alias_of long_txt 1). c < 256" "alias_of long_txt 1 ! 0 \<noteq> 0"
    "alias_of long_txt 1 ! 0 \<noteq> 0xE5" "5 \<notin> set (alias_of long_txt 1)" unfolding a by simp_all
  have "(0x20::nat) < 256" "(0x20::nat) AND 0x08 = 0" "(7::nat) < (if fat_type example_vol = 32 then 4294967296 else 65536)" "(1234::nat) < 4294967296"
    by simp_all
  from dir_entry_roundtrip [OF b sn n(1-4) this, where ts = "(0, 0)" and buf = "\<lambda>_. 0" and st = "lfn_state0 ((\<lambda>_. 0)(15 := 120))"]
  obtain v' f where "write_dir_entries (root_block example_vol 5) 64 long_txt (alias_of long_txt 1) 2 0x20 7 1234 (0, 0) example_vol = (True, v')"
    "fat_read_block v' (root_block example_vol 5) (\<lambda>_. 0) = (True, f)"
    "map de_name (snd (snd (snd (scan_block (Suc 2) 64 f (fat_type example_vol) (root_block example_vol 5) (\<lambda>e l. (False, l @ [e]))
      (lfn_reset (lfn_state0 ((\<lambda>_. 0)(15 := 120)))) 0 [])))) = [name_read long_txt (alias_of long_txt 1) 2 (lfn_chars (lfn_state0 ((\<lambda>_. 0)(15 := 120))))]"
    by (elim exE conjE) simp
  moreover have "lfn_chars (lfn_state0 stk) = stk" for stk by (simp add: lfn_state0_def)
  moreover have "fat_type example_vol = 12" "Suc 2 = 3" by (simp_all add: example_vol_def)
  ultimately show ?thesis by (intro exI [of _ v'] exI [of _ f]) (simp only: r simp_thms)
qed

end
