(* ===== verification/FatFlaws.thy ===== *)
theory FatFlaws
  imports FatNames
begin

text \<open>
  The end mark of a directory: \<open>fat_dir_foreach\<close> stops at the first entry whose first byte is 0,
  \<open>fat_find_free_slots\<close> does not. In the fixed root directory of FAT12 and FAT16 an entry
  that does not fit in front of the end of its sector is placed behind the end mark.
\<close>

lemma scan_stops: "p < n \<Longrightarrow> buf (off + 32 * p) = 0 \<Longrightarrow> fst (scan_block n off buf type b cb st count ctx)"
proof (induction n arbitrary: off p st count ctx)
  case (Suc n)
  show ?case
  proof (cases p)
    case 0
    then show ?thesis using Suc.prems by (simp add: Let_def)
  next
    case (Suc q)
    have "fst (scan_block n (off + 32) buf type b cb st' count' ctx')" for st' count' ctx'
      using Suc.IH [of q "off + 32"] Suc.prems \<open>p = Suc q\<close> by (simp add: add.assoc)
    then show ?thesis by (simp add: Let_def split: option.split prod.split bool.split)
  qed
qed simp

text \<open>Walking the fixed root directory neither reads nor changes the table.\<close>

lemma root_walk_start:
  "fat_type v \<in> {12, 16} \<Longrightarrow> 0 < root_dir_sectors (fi v) \<Longrightarrow>
    fat_dir_walk_start 0 v = (Some \<lparr>fast = root_block v (root_dir_sector (fi v)), slow = root_block v (root_dir_sector (fi v)),
      steps = 0, wmax = root_dir_sectors (fi v)\<rparr>, v)"
  by (auto simp: fat_dir_walk_start_def fat_dir_block_def fat_dir_max_blocks_def)

definition root_walk :: "fatvol \<Rightarrow> dir_walk \<Rightarrow> bool" where
  "root_walk v w \<longleftrightarrow> db_cluster (slow w) = 0 \<and>
     (\<exists>s. root_dir_sector (fi v) \<le> s \<and> s < root_dir_sector (fi v) + root_dir_sectors (fi v) \<and> fast w = root_block v s)"

lemma root_walk_next:
  assumes "root_walk v w" "fat_type v \<in> {12, 16}"
  shows "\<exists>r. fat_dir_walk_next w v = (r, v) \<and> (\<forall>w'. r = Some w' \<longrightarrow> root_walk v w')"
proof -
  obtain s where s: "root_dir_sector (fi v) \<le> s" "s < root_dir_sector (fi v) + root_dir_sectors (fi v)" "fast w = root_block v s"
    using assms(1) by (auto simp: root_walk_def)
  have "db_cluster (slow w) = 0" using assms(1) by (simp add: root_walk_def)
  moreover have "root_dir_sector (fi v) + root_dir_sectors (fi v) \<le> s + 1 \<or> s + 1 < root_dir_sector (fi v) + root_dir_sectors (fi v)" by linarith
  ultimately show ?thesis using s assms(2)
    by (auto simp: fat_dir_walk_next_def fat_dir_step_def root_walk_def root_block_def Let_def)
qed

lemma root_slots:
  assumes "root_walk v w" "fat_type v \<in> {12, 16}" "slots_loop k w need v = (r, v1)"
  shows "v1 = v \<and> (\<forall>b off. r = Inr (Some (b, off)) \<longrightarrow>
    (\<exists>s. root_dir_sector (fi v) \<le> s \<and> s < root_dir_sector (fi v) + root_dir_sectors (fi v) \<and> b = root_block v s))"
  using assms
proof (induction k arbitrary: w)
  case (Suc k)
  obtain r' where n: "fat_dir_walk_next w v = (r', v)" "\<And>w'. r' = Some w' \<Longrightarrow> root_walk v w'"
    using root_walk_next [OF Suc.prems(1,2)] by blast
  show ?case using Suc.prems Suc.IH n
    by (auto simp: root_walk_def split: prod.splits bool.splits option.splits)
qed auto

lemma slots_in_bound:
  "slots_in n off run need buf = Some i \<Longrightarrow> 32 * run \<le> off \<Longrightarrow> run < need \<Longrightarrow> i + 32 * need \<le> off + 32 * n"
proof (induction n arbitrary: off run)
  case (Suc n)
  show ?case
  proof (cases "buf off = 0 \<or> buf off = 0xE5")
    case True
    then show ?thesis using Suc.prems Suc.IH [of "off + 32" "run + 1"] by (auto split: if_splits)
  next
    case False
    then show ?thesis using Suc.prems Suc.IH [of "off + 32" 0] by auto
  qed
qed simp

lemma slots_loop_bound: "slots_loop k w need v = (Inr (Some (b, i)), v1) \<Longrightarrow> 0 < need \<Longrightarrow> i + 32 * need \<le> db_bytes b"
proof (induction k arbitrary: w v)
  case (Suc k)
  have "32 * (db_bytes (fast w) div 32) \<le> db_bytes (fast w)" by simp
  then show ?case using Suc.prems Suc.IH slots_in_bound [of "db_bytes (fast w) div 32" 0 0 need]
    by (fastforce split: prod.splits bool.splits option.splits)
qed simp

lemmas slots_in_num = slots_in.simps(2) [of "pred_numeral k", folded numeral_eq_Suc] for k
lemmas slots_loop_num = slots_loop.simps(2) [of "pred_numeral k", folded numeral_eq_Suc] for k

definition root_geo :: "fatvol \<Rightarrow> bool" where
  "root_geo v \<longleftrightarrow> fat_type v \<in> {12, 16} \<and> bps v = 512 \<and> (\<forall>l. rd_ok v l) \<and> (\<forall>l. wr_ok v l) \<and> 0 < root_dir_sectors (fi v) \<and>
     fat_part_start v + root_dir_sector (fi v) + root_dir_sectors (fi v) < 4294967296"

lemma root_find_stops:
  assumes g: "root_geo v" and mark: "p < 16" "disk v (fat_part_start v + root_dir_sector (fi v)) (32 * p) = 0"
  shows "fst (fat_find_entry stk 0 nm v) = snd (snd (snd (scan_block 16 0 (snd (fat_read_block v (root_block v (root_dir_sector (fi v))) (\<lambda>_. 0)))
    (fat_type v) (root_block v (root_dir_sector (fi v))) (find_cb nm) (lfn_reset (lfn_state0 stk)) 0 None)))"
proof -
  let ?b = "root_block v (root_dir_sector (fi v))"
  have b: "block_ok v ?b" "db_bytes ?b = 512" "db_sector ?b = root_dir_sector (fi v)"
    using g by (auto simp: root_geo_def block_ok_def root_block_def)
  obtain f where f: "fat_read_block v ?b (\<lambda>_. 0) = (True, f)" "\<forall>j < 512. f j = block_bytes v ?b j" using read_block_ok [OF b(1)] b(2) by metis
  have "f (0 + 32 * p) = 0" using f(2) mark by (simp add: block_bytes_def b(3))
  then have "fst (scan_block 16 0 f (fat_type v) ?b (find_cb nm) (lfn_reset (lfn_state0 stk)) 0 None)" by (rule scan_stops [OF mark(1)])
  then obtain st' c' r where r: "scan_block 16 0 f (fat_type v) ?b (find_cb nm) (lfn_reset (lfn_state0 stk)) 0 None = (True, st', c', r)"
    by (cases "scan_block 16 0 f (fat_type v) ?b (find_cb nm) (lfn_reset (lfn_state0 stk)) 0 None") auto
  have w: "fat_dir_walk_start 0 v = (Some \<lparr>fast = ?b, slow = ?b, steps = 0, wmax = root_dir_sectors (fi v)\<rparr>, v)"
    by (rule root_walk_start) (use g in \<open>auto simp: root_geo_def\<close>)
  show ?thesis unfolding fat_find_entry_def fat_dir_foreach_def w by (simp add: f(1) r b(2))
qed

text \<open>C28: when the end mark of the root directory of a FAT12 or FAT16 volume lies in its first sector and the
  slots that \<open>fat_find_free_slots\<close> picks lie in a later one, the entry of the new file is written and
  reported as stored, but every look-up of any name gives the same result as before the call, also
  after any further changes of the disk that leave the first sector of the root directory as it
  is: until something is stored over the end mark, the new file cannot be found.\<close>

theorem entry_behind_end_mark:
  assumes g: "root_geo v" and mark: "p < 16" "disk v (fat_part_start v + root_dir_sector (fi v)) (32 * p) = 0"
    and slots: "fat_find_free_slots 0 (1 + cnt) v = (Some (b, off0), v1)" "db_sector b \<noteq> root_dir_sector (fi v)"
  shows "\<exists>v2. enter_file 0 leaf sn cnt attr first fsize ts v = (True, v2) \<and>
    (\<forall>d stk nm. d (fat_part_start v + root_dir_sector (fi v)) = disk v2 (fat_part_start v + root_dir_sector (fi v)) \<longrightarrow>
       fst (fat_find_entry stk 0 nm (v2\<lparr>disk := d\<rparr>)) = fst (fat_find_entry stk 0 nm v))"
proof -
  let ?rs = "root_dir_sector (fi v)"
  have t: "fat_type v \<in> {12, 16}" and n: "0 < root_dir_sectors (fi v)" using g by (auto simp: root_geo_def)
  let ?w = "\<lparr>fast = root_block v ?rs, slow = root_block v ?rs, steps = 0, wmax = root_dir_sectors (fi v)\<rparr>"
  have sl: "slots_loop (Suc (root_dir_sectors (fi v))) ?w (1 + cnt) v = (Inr (Some (b, off0)), v1)"
    using slots(1) unfolding fat_find_free_slots_def root_walk_start [OF t n]
    by (auto simp del: slots_loop.simps split: prod.splits sum.splits option.splits)
  have "root_walk v ?w" using n by (auto simp: root_walk_def root_block_def)
  from root_slots [OF this t sl] obtain s where s: "v1 = v" "?rs \<le> s" "s < ?rs + root_dir_sectors (fi v)" "b = root_block v s" by auto
  have b: "block_ok v b" "db_bytes b = 512" "db_sector b = s" using g s by (auto simp: root_geo_def block_ok_def root_block_def)
  have "off0 + 32 * Suc cnt \<le> db_bytes b" using slots_loop_bound [OF sl] by simp
  from write_dir_entries_ok [OF b(1) this] obtain v2 bs where v2: "write_dir_entries b off0 leaf sn cnt attr first fsize ts v = (True, v2)"
    "block_put b off0 bs v v2" by blast
  then obtain d where d: "v2 = v\<lparr>disk := d\<rparr>" "d (fat_part_start v + ?rs) = disk v (fat_part_start v + ?rs)"
    using slots(2) s(2) b(3) by (auto simp: block_put_def)
  have "fst (fat_find_entry stk 0 nm (v2\<lparr>disk := d'\<rparr>)) = fst (fat_find_entry stk 0 nm v)"
    if d': "d' (fat_part_start v + ?rs) = disk v2 (fat_part_start v + ?rs)" for d' stk nm
  proof -
    have g2: "root_geo (v2\<lparr>disk := d'\<rparr>)" using g d by (simp add: root_geo_def)
    have "fat_read_block (v2\<lparr>disk := d'\<rparr>) (root_block v ?rs) buf = fat_read_block v (root_block v ?rs) buf" for buf
      using g d d' by (simp add: fat_read_block_def root_block_def root_geo_def cong: if_cong)
    then show ?thesis
      using root_find_stops [OF g mark, of stk nm] root_find_stops [OF g2 mark(1), of stk nm] mark(2) d d' by (simp add: root_block_def)
  qed
  moreover have "enter_file 0 leaf sn cnt attr first fsize ts v = (True, v2)" using v2(1) slots(1) s(1) by (simp add: enter_file_def)
  ultimately show ?thesis by blast
qed

text \<open>A root directory of two sectors whose first one holds 15 entries; the new name needs three slots.\<close>

definition full_root_vol :: fatvol where
  "full_root_vol = example_vol\<lparr>fi := (fi example_vol)\<lparr>root_dir_sectors := 2, root_entry_count := 32\<rparr>,
     disk := (\<lambda>l q. if l = 6 \<and> q < 480 \<and> q mod 32 < 11 then 65 else 0)\<rparr>"

theorem entry_behind_end_mark_witness:
  "\<exists>v2. enter_file 0 long_txt (alias_of long_txt 1) 2 0x20 7 1234 (0, 0) full_root_vol = (True, v2) \<and>
    fst (fat_find_entry (\<lambda>_. 0) 0 long_txt (v2\<lparr>disk := (disk v2)(99 := \<lambda>_. 1)\<rparr>)) = fst (fat_find_entry (\<lambda>_. 0) 0 long_txt full_root_vol)"
proof -
  have g: "root_geo full_root_vol" by (simp add: root_geo_def full_root_vol_def example_vol_def)
  have w: "fat_dir_walk_start 0 full_root_vol = (Some \<lparr>fast = root_block full_root_vol 5, slow = root_block full_root_vol 5, steps = 0, wmax = 2\<rparr>, full_root_vol)"
    using root_walk_start [of full_root_vol] by (simp add: full_root_vol_def example_vol_def)
  have n: "fat_dir_walk_next \<lparr>fast = root_block full_root_vol 5, slow = root_block full_root_vol 5, steps = 0, wmax = 2\<rparr> full_root_vol =
      (Some \<lparr>fast = root_block full_root_vol 6, slow = root_block full_root_vol 5, steps = 1, wmax = 2\<rparr>, full_root_vol)"
    by (simp add: fat_dir_walk_next_def fat_dir_step_def root_block_def full_root_vol_def example_vol_def)
  obtain f where f: "fat_read_block full_root_vol (root_block full_root_vol 5) (\<lambda>_. 0) = (True, f)"
    "\<forall>j < 512. f j = block_bytes full_root_vol (root_block full_root_vol 5) j"
    using read_block_ok [of full_root_vol "root_block full_root_vol 5"] by (auto simp: block_ok_def root_block_def full_root_vol_def example_vol_def)
  obtain h where h: "fat_read_block full_root_vol (root_block full_root_vol 6) (\<lambda>_. 0) = (True, h)"
    "\<forall>j < 512. h j = block_bytes full_root_vol (root_block full_root_vol 6) j"
    using read_block_ok [of full_root_vol "root_block full_root_vol 6"] by (auto simp: block_ok_def root_block_def full_root_vol_def example_vol_def)
  have fv: "f j = (if j < 480 \<and> j mod 32 < 11 then 65 else 0)" if "j < 512" for j
    using f(2) that by (simp add: block_bytes_def root_block_def full_root_vol_def example_vol_def)
  have hv: "h j = 0" if "j < 512" for j
    using h(2) that by (simp add: block_bytes_def root_block_def full_root_vol_def example_vol_def)
  have "slots_in 16 0 0 3 f = None" "slots_in 16 0 0 3 h = Some 0" by (simp_all add: slots_in_num fv hv)
  moreover have "db_bytes (root_block full_root_vol i) = 512" for i by (simp add: root_block_def full_root_vol_def example_vol_def)
  ultimately have "slots_loop 3 \<lparr>fast = root_block full_root_vol 5, slow = root_block full_root_vol 5, steps = 0, wmax = 2\<rparr> 3 full_root_vol =
      (Inr (Some (root_block full_root_vol 6, 0)), full_root_vol)"
    by (simp add: slots_loop_num f(1) h(1) n)
  then have "fat_find_free_slots 0 (1 + 2) full_root_vol = (Some (root_block full_root_vol 6, 0), full_root_vol)"
    unfolding fat_find_free_slots_def w by (simp add: eval_nat_numeral del: slots_loop.simps)
  moreover have "db_sector (root_block full_root_vol 6) = 6" by (simp add: root_block_def)
  ultimately show ?thesis
    using entry_behind_end_mark [OF g, of 15 2 "root_block full_root_vol 6" 0 full_root_vol long_txt "alias_of long_txt 1" "0x20" 7 1234 "(0, 0)"]
    by (fastforce simp: full_root_vol_def example_vol_def)
qed

end
