(* ===== verification/NetBase.thy ===== *)
theory NetBase
  imports EzPrelude
begin

text \<open>
  Data of the network stack, \<open>src/kernel/net.c\<close>: byte order, the Internet checksum (the C version,
  which is also the reference of the self test), the socket table, the ARP cache, and the
  sending of IPv4 packets.

  A received frame is the driver's buffer (a function from offsets to bytes, since the bytes
  behind the frame are whatever an earlier one left there) with a length. A sent frame is a
  list of bytes. The card (\<open>rtl8139.c\<close>) is its address, its state, and the frames it was given
  (\<open>sent\<close>); \<open>nic_free\<close> says whether a transmit descriptor becomes free in time. The buffer
  \<open>g_frame\<close>, in which a packet waits for the resolution of its next hop, is part of the state;
  \<open>g_build\<close> is used only between two calls and its contents are the lists that are sent.
  Lengths and ports are natural numbers, addresses, sequence numbers and times 32-bit words.
  What \<open>kmalloc\<close> answers is an argument (\<open>km\<close>).
\<close>

section \<open>Bytes\<close>

type_synonym frame_buf = "nat \<Rightarrow> u8"

definition be16 :: "frame_buf \<Rightarrow> nat \<Rightarrow> nat" where
  "be16 p i = (push_bit 8 (unat (p i)) OR unat (p (i + 1)))"

definition be32 :: "frame_buf \<Rightarrow> nat \<Rightarrow> u32" where
  "be32 p i = (push_bit 24 (ucast (p i)) OR push_bit 16 (ucast (p (i + 1))) OR push_bit 8 (ucast (p (i + 2))) OR ucast (p (i + 3)))"

definition put16 :: "nat \<Rightarrow> u8 list" where
  "put16 v = [of_nat (drop_bit 8 v), of_nat v]"

definition put32 :: "u32 \<Rightarrow> u8 list" where
  "put32 v = [ucast (drop_bit 24 v), ucast (drop_bit 16 v), ucast (drop_bit 8 v), ucast v]"

definition wr16le :: "nat \<Rightarrow> u8 list" where
  "wr16le v = [of_nat v, of_nat (drop_bit 8 v)]"

text \<open>The bytes \<open>[i, i + n)\<close> of a buffer, and a buffer with a list written at \<open>i\<close>.\<close>

definition bytes_at :: "frame_buf \<Rightarrow> nat \<Rightarrow> nat \<Rightarrow> u8 list" where
  "bytes_at p i n = map (\<lambda>k. p (i + k)) [0..<n]"

definition put_at :: "nat \<Rightarrow> u8 list \<Rightarrow> frame_buf \<Rightarrow> frame_buf" where
  "put_at i bs p = (\<lambda>k. if i \<le> k \<and> k < i + length bs then bs ! (k - i) else p k)"

section \<open>The Internet checksum\<close>

fun ck_loop :: "u8 list \<Rightarrow> nat \<Rightarrow> nat" where
  "ck_loop (a # b # r) s = ck_loop r ((s + (push_bit 8 (unat a) OR unat b)) mod 4294967296)"
| "ck_loop [a] s = (s + push_bit 8 (unat a)) mod 4294967296"
| "ck_loop [] s = s"

function ck_fold :: "nat \<Rightarrow> nat" where
  "ck_fold s = (if drop_bit 16 s \<noteq> 0 then ck_fold ((s AND 0xFFFF) + drop_bit 16 s) else s)"
  by pat_completeness auto
termination
proof (relation "measure id")
  fix s :: nat
  assume "drop_bit 16 s \<noteq> 0"
  moreover have "s AND 0xFFFF = s mod 65536" using and_low [of s 16] by (simp add: mask_eq_exp_minus_1)
  ultimately show "((s AND 0xFFFF) + drop_bit 16 s, s) \<in> measure id"
    by (simp add: drop_bit_eq_div) (use mult_div_mod_eq [of 65536 s] in linarith)
qed simp

declare ck_fold.simps [simp del]

definition cksum_raw_c :: "u8 list \<Rightarrow> nat" where
  "cksum_raw_c p = ck_fold (ck_loop p 0)"

definition cksum_c :: "u8 list \<Rightarrow> nat" where
  "cksum_c p = unat (NOT (of_nat (cksum_raw_c p)) :: u16)"

section \<open>Sockets\<close>

abbreviation ETH_HDR_LEN :: nat where "ETH_HDR_LEN \<equiv> 14"
abbreviation IP_HDR_MIN :: nat where "IP_HDR_MIN \<equiv> 20"
abbreviation UDP_HDR_LEN :: nat where "UDP_HDR_LEN \<equiv> 8"
abbreviation TCP_HDR_MIN :: nat where "TCP_HDR_MIN \<equiv> 20"
abbreviation NET_BUILD_MAX :: nat where "NET_BUILD_MAX \<equiv> 1792"
abbreviation NET_MAX_SOCKS :: nat where "NET_MAX_SOCKS \<equiv> 8"
abbreviation NET_SOCK_BUF :: nat where "NET_SOCK_BUF \<equiv> 4096"
abbreviation TCP_RTX_BUF :: nat where "TCP_RTX_BUF \<equiv> 1536"
abbreviation TCP_OOO_BUF :: nat where "TCP_OOO_BUF \<equiv> 2048"
abbreviation TCP_RTO_MS :: u32 where "TCP_RTO_MS \<equiv> 200"
abbreviation TCP_RTX_MAX :: nat where "TCP_RTX_MAX \<equiv> 5"

datatype sock_type = SOCK_TYPE_UDP | SOCK_TYPE_TCP

datatype tcp_state = TS_UNUSED | TS_LISTEN | TS_SYN_RCVD | TS_SYN_SENT | TS_ESTABLISHED | TS_CLOSE_WAIT | TS_LAST_ACK
  | TS_FIN_WAIT_1 | TS_FIN_WAIT_2

record sock =
  s_used :: bool
  s_type :: sock_type
  s_state :: tcp_state
  got_fin :: bool
  local_port :: nat
  peer_port :: nat
  peer_ip :: u32
  owner_pid :: u32
  s_parent :: int
  rx :: "u8 list option"
  rx_r :: nat
  rx_w :: nat
  snd_nxt :: u32
  rcv_nxt :: u32
  snd_una :: u32
  rtx :: "u8 list option"
  rtx_len :: nat
  rto_tick :: u32
  rtx_tries :: nat
  syn_unacked :: bool
  ooo :: "u8 list option"
  ooo_seq :: u32
  ooo_len :: nat

section \<open>The state of the stack\<close>

record dhcp_w =
  dw_active :: bool
  dw_got :: bool
  dw_renewing :: bool
  dw_xid :: u32
  dw_msg_type :: nat
  dw_yiaddr :: u32
  dw_buf :: frame_buf
  dw_len :: nat

record dhcp_renew =
  rn_active :: bool
  rn_state :: nat
  rn_t1 :: u32
  rn_t2 :: u32
  rn_expire :: u32
  rn_next :: u32

record dhcp_lease =
  le_valid :: bool
  le_ip :: u32
  le_mask :: u32
  le_router :: u32
  le_dns :: u32
  le_server :: u32
  le_lease :: u32
  le_tick :: u32

record dns_w =
  nw_active :: bool
  nw_got :: bool
  nw_rcode :: nat
  nw_id :: nat
  nw_port :: nat
  nw_buf :: frame_buf
  nw_len :: nat

text \<open>A cache entry keeps its whole array of characters.\<close>

record dns_entry =
  dc_used :: bool
  dc_name :: "nat \<Rightarrow> nat"
  dc_ip :: u32
  dc_expire :: u32

record net =
  g_socks :: "sock list"
  g_arp :: "(u32 \<times> u8 list) list"
  g_frame :: frame_buf
  g_bufs :: bool
  nic_present :: bool
  nic_free :: bool
  nic_mac :: "u8 list"
  nic_ip :: u32
  sent :: "u8 list list"
  pit_ticks :: u32
  last_tick :: u32
  g_ip_id :: nat
  g_ephemeral :: nat
  udp_rx :: u32
  udp_tx :: u32
  tcp_rx :: u32
  tcp_tx :: u32
  tcp_rtx :: u32
  arp_replied :: u32
  icmp_replied :: u32
  ip_bad_csum :: u32
  ip_frag_drop :: u32
  ping_active :: bool
  ping_id :: nat
  ping_seq :: nat
  ping_got :: bool
  ping_matched :: u32
  ping_reqs :: u32
  seq_counter :: nat
  g_dhcp_w :: dhcp_w
  g_renew :: dhcp_renew
  g_lease :: dhcp_lease
  dns_srv :: "u32 list"
  dns_manual :: bool
  g_dns_w :: dns_w
  dns_cache :: "dns_entry list"
  dns_rr :: nat
  dns_hits :: u32
  id_counter :: nat

text \<open>The state at boot: zeroed tables and the static initial values.\<close>

definition sock0 :: sock where
  "sock0 = \<lparr>s_used = False, s_type = SOCK_TYPE_UDP, s_state = TS_UNUSED, got_fin = False, local_port = 0, peer_port = 0, peer_ip = 0,
     owner_pid = 0, s_parent = 0, rx = None, rx_r = 0, rx_w = 0, snd_nxt = 0, rcv_nxt = 0, snd_una = 0, rtx = None, rtx_len = 0, rto_tick = 0,
     rtx_tries = 0, syn_unacked = False, ooo = None, ooo_seq = 0, ooo_len = 0\<rparr>"

definition net0 :: net where
  "net0 = \<lparr>g_socks = replicate NET_MAX_SOCKS sock0, g_arp = replicate 4 (0, replicate 6 0), g_frame = (\<lambda>_. 0), g_bufs = False,
     nic_present = False, nic_free = True, nic_mac = replicate 6 0, nic_ip = 0x0A00020F, sent = [], pit_ticks = 0, last_tick = 0,
     g_ip_id = 0x1000, g_ephemeral = 40000, udp_rx = 0, udp_tx = 0, tcp_rx = 0, tcp_tx = 0, tcp_rtx = 0, arp_replied = 0, icmp_replied = 0,
     ip_bad_csum = 0, ip_frag_drop = 0, ping_active = False, ping_id = 0, ping_seq = 0, ping_got = False, ping_matched = 0, ping_reqs = 0,
     seq_counter = 0,
     g_dhcp_w = \<lparr>dw_active = False, dw_got = False, dw_renewing = False, dw_xid = 0, dw_msg_type = 0, dw_yiaddr = 0, dw_buf = (\<lambda>_. 0), dw_len = 0\<rparr>,
     g_renew = \<lparr>rn_active = False, rn_state = 0, rn_t1 = 0, rn_t2 = 0, rn_expire = 0, rn_next = 0\<rparr>,
     g_lease = \<lparr>le_valid = False, le_ip = 0, le_mask = 0, le_router = 0, le_dns = 0, le_server = 0, le_lease = 0, le_tick = 0\<rparr>,
     dns_srv = [], dns_manual = False,
     g_dns_w = \<lparr>nw_active = False, nw_got = False, nw_rcode = 0, nw_id = 0, nw_port = 0, nw_buf = (\<lambda>_. 0), nw_len = 0\<rparr>,
     dns_cache = replicate 8 \<lparr>dc_used = False, dc_name = (\<lambda>_. 0), dc_ip = 0, dc_expire = 0\<rparr>, dns_rr = 0, dns_hits = 0, id_counter = 0x1234\<rparr>"

text \<open>What a call of the stack can do: return with the new state, access memory through a null
  pointer, go to sleep where nobody can wake it, or be still asleep when the given events are
  used up.\<close>

datatype 'a nres = Done 'a | NullDeref | Stuck | Waiting

primrec nbind :: "'a nres \<Rightarrow> ('a \<Rightarrow> 'b nres) \<Rightarrow> 'b nres" where
  "nbind (Done a) f = f a"
| "nbind NullDeref f = NullDeref"
| "nbind Stuck f = Stuck"
| "nbind Waiting f = Waiting"

definition upd_sock :: "nat \<Rightarrow> (sock \<Rightarrow> sock) \<Rightarrow> net \<Rightarrow> net" where
  "upd_sock i f s = s\<lparr>g_socks := (g_socks s)[i := f (g_socks s ! i)]\<rparr>"

type_synonym kmalloc_fn = "nat \<Rightarrow> u8 list option"

text \<open>\<open>build_ready\<close>: both construction buffers are there, or can be allocated now.\<close>

definition build_ready :: "kmalloc_fn \<Rightarrow> net \<Rightarrow> bool \<times> net" where
  "build_ready km s =
     (if g_bufs s then (True, s)
      else if km (NET_BUILD_MAX + 16) = None then (False, s) else (True, s\<lparr>g_bufs := True\<rparr>))"

section \<open>The card\<close>

abbreviation ETH_FRAME_MAX :: nat where "ETH_FRAME_MAX \<equiv> 1514"

definition rtl8139_send :: "u8 list \<Rightarrow> net \<Rightarrow> bool \<times> net" where
  "rtl8139_send fr s =
     (if \<not> nic_present s \<or> length fr < ETH_HDR_LEN \<or> length fr > ETH_FRAME_MAX then (False, s)
      else if \<not> nic_free s then (False, s)
      else (True, s\<lparr>sent := sent s @ [fr]\<rparr>))"

section \<open>ARP cache\<close>

abbreviation ARP_CACHE :: nat where "ARP_CACHE \<equiv> 4"

definition arp_learn :: "u32 \<Rightarrow> u8 list \<Rightarrow> net \<Rightarrow> net" where
  "arp_learn ip mac s =
     (if ip = 0 then s
      else case filter (\<lambda>i. fst (g_arp s ! i) = ip) [0..<ARP_CACHE] of
        i # _ \<Rightarrow> s\<lparr>g_arp := (g_arp s)[i := (ip, mac)]\<rparr>
      | [] \<Rightarrow>
          let slot = (case filter (\<lambda>i. fst (g_arp s ! i) = 0) [1..<ARP_CACHE] of i # _ \<Rightarrow> i | [] \<Rightarrow> 0)
          in s\<lparr>g_arp := (g_arp s)[slot := (ip, mac)]\<rparr>)"

definition arp_lookup :: "u32 \<Rightarrow> net \<Rightarrow> u8 list option" where
  "arp_lookup ip s =
     (case filter (\<lambda>i. fst (g_arp s ! i) = ip) [0..<ARP_CACHE] of i # _ \<Rightarrow> Some (snd (g_arp s ! i)) | [] \<Rightarrow> None)"

text \<open>An ARP packet: operation, sender, target.\<close>

definition arp_packet :: "nat \<Rightarrow> u8 list \<Rightarrow> u32 \<Rightarrow> u8 list \<Rightarrow> u32 \<Rightarrow> u8 list" where
  "arp_packet op smac sip tmac tip = put16 1 @ put16 0x0800 @ [6, 4] @ put16 op @ smac @ put32 sip @ tmac @ put32 tip"

definition arp_request :: "u32 \<Rightarrow> net \<Rightarrow> net" where
  "arp_request ip s =
     snd (rtl8139_send (replicate 6 0xFF @ nic_mac s @ [0x08, 0x06] @ arp_packet 1 (nic_mac s) (nic_ip s) (replicate 6 0) ip) s)"

section \<open>Sending IPv4\<close>

definition ip_header :: "nat \<Rightarrow> nat \<Rightarrow> u8 \<Rightarrow> u32 \<Rightarrow> u32 \<Rightarrow> nat \<Rightarrow> u8 list" where
  "ip_header tot ident proto src dst ck =
     [0x45, 0] @ put16 tot @ put16 ident @ put16 0 @ [64, proto] @ put16 ck @ put32 src @ put32 dst"

definition ip_header_ck :: "nat \<Rightarrow> nat \<Rightarrow> u8 \<Rightarrow> u32 \<Rightarrow> u32 \<Rightarrow> u8 list" where
  "ip_header_ck tot ident proto src dst =
     ip_header tot ident proto src dst (cksum_c (ip_header tot ident proto src dst 0))"

text \<open>The two parts of \<open>ipv4_send_via\<close>: the payload is copied to \<open>g_frame\<close>, and when the address of the
  next hop is known the headers are written in front of it and the frame is sent.\<close>

definition ipv4_copy :: "u8 list \<Rightarrow> net \<Rightarrow> net option" where
  "ipv4_copy payload s =
     (if payload = [] \<or> ETH_HDR_LEN + IP_HDR_MIN + length payload > NET_BUILD_MAX then None
      else Some (s\<lparr>g_frame := put_at (ETH_HDR_LEN + IP_HDR_MIN) payload (g_frame s)\<rparr>))"

definition ipv4_emit :: "u32 \<Rightarrow> u8 list \<Rightarrow> u8 \<Rightarrow> nat \<Rightarrow> net \<Rightarrow> bool \<times> net" where
  "ipv4_emit dst_ip dst_mac proto len s =
     (let ident = (g_ip_id s + 1) mod 65536;
          hd = dst_mac @ nic_mac s @ [0x08, 0x00] @ ip_header_ck ((IP_HDR_MIN + len) mod 65536) ident proto (nic_ip s) dst_ip;
          fb = put_at 0 hd (g_frame s)
      in rtl8139_send (bytes_at fb 0 (ETH_HDR_LEN + IP_HDR_MIN + len)) (s\<lparr>g_ip_id := ident, g_frame := fb\<rparr>))"

text \<open>Sending from inside \<open>net_input\<close>: when the address is not in the cache, \<open>arp_resolve\<close> would sleep
  there.\<close>

definition ipv4_reply :: "u32 \<Rightarrow> u8 \<Rightarrow> u8 list \<Rightarrow> net \<Rightarrow> (bool \<times> net) nres" where
  "ipv4_reply dst_ip proto payload s =
     (case ipv4_copy payload s of
        None \<Rightarrow> Done (False, s)
      | Some s1 \<Rightarrow>
          (case arp_lookup dst_ip s1 of
             None \<Rightarrow> Stuck
           | Some mac \<Rightarrow> Done (ipv4_emit dst_ip mac proto (length payload) s1)))"

section \<open>Transport checksums\<close>

definition pseudo_header :: "u32 \<Rightarrow> u32 \<Rightarrow> u8 \<Rightarrow> nat \<Rightarrow> u8 list" where
  "pseudo_header src_ip dst_ip proto n = put32 src_ip @ put32 dst_ip @ [0, proto] @ put16 n"

definition l4_checksum :: "u32 \<Rightarrow> u32 \<Rightarrow> u8 \<Rightarrow> u8 list \<Rightarrow> nat" where
  "l4_checksum src_ip dst_ip proto p =
     (let s = ck_fold ((cksum_raw_c (pseudo_header src_ip dst_ip proto (length p mod 65536)) + cksum_raw_c p) mod 4294967296);
          c = unat (NOT (of_nat s) :: u16)
      in if c = 0 then 0xFFFF else c)"

definition l4_csum_ok :: "frame_buf \<Rightarrow> nat \<Rightarrow> nat \<Rightarrow> bool" where
  "l4_csum_ok ip ihl totlen =
     (let proto = ip 9; ln = totlen - ihl;
          sum_ok = (ck_fold ((cksum_raw_c (pseudo_header (be32 ip 12) (be32 ip 16) proto (ln mod 65536)) + cksum_raw_c (bytes_at ip ihl ln)) mod 4294967296) = 0xFFFF)
      in if proto = 17 then (if ln < UDP_HDR_LEN then False else if be16 ip (ihl + 6) = 0 then True else sum_ok)
         else if proto = 6 then (if ln < TCP_HDR_MIN then False else sum_ok)
         else True)"

end
