(* ===== verification/NetTcp.thy ===== *)
theory NetTcp
  imports NetBase
begin

text \<open>
  UDP delivery and TCP of \<open>src/kernel/net.c\<close>: segments, retransmission, the receive ring, reassembly, and
  the state machine of a connection. A socket whose receive buffer was never allocated has
  \<open>rx = None\<close>; storing a byte in it is a write through a null pointer.
\<close>

abbreviation TCP_FIN :: nat where "TCP_FIN \<equiv> 0x01"
abbreviation TCP_SYN :: nat where "TCP_SYN \<equiv> 0x02"
abbreviation TCP_RST :: nat where "TCP_RST \<equiv> 0x04"
abbreviation TCP_PSH :: nat where "TCP_PSH \<equiv> 0x08"
abbreviation TCP_ACK :: nat where "TCP_ACK \<equiv> 0x10"

abbreviation has :: "nat \<Rightarrow> nat \<Rightarrow> bool" where "has flags f \<equiv> flags AND f \<noteq> 0"

section \<open>The receive ring\<close>

definition rx_space :: "sock \<Rightarrow> nat" where
  "rx_space c = (NET_SOCK_BUF - 1 + rx_r c + (4294967296 - rx_w c)) mod 4294967296 mod NET_SOCK_BUF"

fun ring_put :: "u8 list \<Rightarrow> nat \<Rightarrow> u8 list \<Rightarrow> u8 list" where
  "ring_put b w [] = b"
| "ring_put b w (x # xs) = ring_put (b[w := x]) ((w + 1) mod NET_SOCK_BUF) xs"

definition rx_store :: "u8 list \<Rightarrow> sock \<Rightarrow> sock nres" where
  "rx_store bs c =
     (case rx c of
        None \<Rightarrow> if bs = [] then Done c else NullDeref
      | Some b \<Rightarrow> Done (c\<lparr>rx := Some (ring_put b (rx_w c) bs), rx_w := (rx_w c + length bs) mod NET_SOCK_BUF\<rparr>))"

section \<open>UDP\<close>

text \<open>A record in the ring: source address, port and length, then the data.\<close>

definition udp_record :: "u32 \<Rightarrow> nat \<Rightarrow> u8 list \<Rightarrow> u8 list" where
  "udp_record src_ip src_port d = put32 src_ip @ wr16le src_port @ wr16le (length d mod 65536) @ d"

definition udp_deliver :: "u32 \<Rightarrow> nat \<Rightarrow> nat \<Rightarrow> u8 list \<Rightarrow> net \<Rightarrow> net nres" where
  "udp_deliver src_ip src_port dst_port d s =
     (case filter (\<lambda>i. let c = g_socks s ! i in s_used c \<and> s_type c = SOCK_TYPE_UDP \<and> local_port c = dst_port) [0..<NET_MAX_SOCKS] of
        [] \<Rightarrow> Done s
      | i # _ \<Rightarrow>
          let c = g_socks s ! i in
          if rx_space c < 8 + length d then Done s
          else nbind (rx_store (udp_record src_ip src_port d) c) (\<lambda>c1. Done (upd_sock i (\<lambda>_. c1) s)))"

definition udp_input :: "frame_buf \<Rightarrow> nat \<Rightarrow> net \<Rightarrow> net nres" where
  "udp_input ip ihl s =
     (let totlen = be16 ip 2; u = ihl; ulen = be16 ip (u + 4); dlen = ulen - UDP_HDR_LEN in
      if totlen < ihl + UDP_HDR_LEN then Done s
      else if ulen < UDP_HDR_LEN then Done s
      else if dlen > totlen - ihl - UDP_HDR_LEN then Done s
      else udp_deliver (be32 ip 12) (be16 ip u) (be16 ip (u + 2)) (bytes_at ip (u + UDP_HDR_LEN) dlen) (s\<lparr>udp_rx := udp_rx s + 1\<rparr>))"

section \<open>Sending segments\<close>

definition tcp_header :: "sock \<Rightarrow> nat \<Rightarrow> u32 \<Rightarrow> nat \<Rightarrow> u8 list" where
  "tcp_header c flags sq ck =
     put16 (local_port c) @ put16 (peer_port c) @ put32 sq @ put32 (rcv_nxt c) @ [80, of_nat flags] @ put16 4096 @ put16 ck @ put16 0"

definition tcp_segment :: "u32 \<Rightarrow> sock \<Rightarrow> nat \<Rightarrow> u32 \<Rightarrow> u8 list \<Rightarrow> u8 list" where
  "tcp_segment my_ip c flags sq d =
     (let t = tcp_header c flags sq 0 @ d;
          pad = (if length t AND 1 \<noteq> 0 then [0] else []);
          sum = ck_fold ((cksum_raw_c (pseudo_header my_ip (peer_ip c) 6 (length t mod 65536)) + cksum_raw_c (t @ pad)) mod 4294967296)
      in tcp_header c flags sq (unat (NOT (of_nat sum) :: u16)) @ d)"

definition tcp_send_seg_ex :: "nat \<Rightarrow> nat \<Rightarrow> u8 list \<Rightarrow> u32 \<Rightarrow> net \<Rightarrow> bool \<times> net" where
  "tcp_send_seg_ex i flags d sq s =
     (let c = g_socks s ! i in
      if length d > NET_BUILD_MAX - IP_HDR_MIN - TCP_HDR_MIN then (False, s)
      else case arp_lookup (peer_ip c) s of
        None \<Rightarrow> (False, s)
      | Some mac \<Rightarrow>
          let ident = (g_ip_id s + 1) mod 65536; t = tcp_segment (nic_ip s) c flags sq d in
          (case rtl8139_send (mac @ nic_mac s @ [0x08, 0x00] @ ip_header_ck ((IP_HDR_MIN + length t) mod 65536) ident 6 (nic_ip s) (peer_ip c) @ t)
              (s\<lparr>g_ip_id := ident\<rparr>) of
             (False, s1) \<Rightarrow> (False, s1)
           | (True, s1) \<Rightarrow> (True, s1\<lparr>tcp_tx := tcp_tx s1 + 1\<rparr>)))"

definition tcp_send_seg :: "nat \<Rightarrow> nat \<Rightarrow> u8 list \<Rightarrow> net \<Rightarrow> bool \<times> net" where
  "tcp_send_seg i flags d s = tcp_send_seg_ex i flags d (snd_nxt (g_socks s ! i)) s"

section \<open>Life of a socket\<close>

definition tcp_reset :: "sock \<Rightarrow> sock" where
  "tcp_reset c = c\<lparr>rtx_len := 0, rto_tick := 0, rtx_tries := 0, syn_unacked := False, ooo_len := 0\<rparr>"

definition tcp_bufs :: "kmalloc_fn \<Rightarrow> nat \<Rightarrow> net \<Rightarrow> bool \<times> net" where
  "tcp_bufs km i s =
     (let c = g_socks s ! i; r = (if rtx c \<noteq> None then rtx c else km TCP_RTX_BUF) in
      if r = None then (False, s)
      else
        let o1 = (if ooo c \<noteq> None then ooo c else km TCP_OOO_BUF) in
        if o1 = None then (False, upd_sock i (\<lambda>c. c\<lparr>rtx := r\<rparr>) s)
        else (True, upd_sock i (\<lambda>c. tcp_reset (c\<lparr>rtx := r, ooo := o1, ooo_seq := 0\<rparr>)) s))"

definition sock_free :: "nat \<Rightarrow> net \<Rightarrow> net" where
  "sock_free i s = upd_sock i (\<lambda>c. tcp_reset (c\<lparr>s_used := False, s_state := TS_UNUSED\<rparr>)) s"

definition tcp_retransmit_check :: "nat \<Rightarrow> u32 \<Rightarrow> net \<Rightarrow> net" where
  "tcp_retransmit_check i now s =
     (let c = g_socks s ! i in
      if s_state c = TS_UNUSED \<or> s_type c \<noteq> SOCK_TYPE_TCP then s
      else if rto_tick c = 0 then s
      else if sint (now - rto_tick c) < 0 then s
      else if rtx_tries c \<ge> TCP_RTX_MAX then sock_free i (snd (tcp_send_seg i (TCP_RST OR TCP_ACK) [] s))
      else
        let tries = rtx_tries c + 1;
            s1 = (upd_sock i (\<lambda>c. c\<lparr>rtx_tries := tries, rto_tick := now + push_bit (if tries > 4 then 4 else tries) TCP_RTO_MS\<rparr>) s)
                 \<lparr>tcp_rtx := tcp_rtx s + 1\<rparr>
        in if syn_unacked c then snd (tcp_send_seg_ex i TCP_SYN [] (snd_una c) s1)
           else if rtx_len c = 0 then upd_sock i (\<lambda>c. c\<lparr>rto_tick := 0\<rparr>) s1
           else snd (tcp_send_seg_ex i (TCP_PSH OR TCP_ACK) (case rtx c of Some b \<Rightarrow> take (rtx_len c) b | None \<Rightarrow> []) (snd_una c) s1))"

definition children :: "nat \<Rightarrow> net \<Rightarrow> nat list" where
  "children i s = filter (\<lambda>k. s_used (g_socks s ! k) \<and> s_parent (g_socks s ! k) = int i) [0..<NET_MAX_SOCKS]"

definition tcp_close :: "nat \<Rightarrow> net \<Rightarrow> bool \<times> net" where
  "tcp_close i s =
     (let c = g_socks s ! i in
      if s_type c = SOCK_TYPE_TCP \<and> (s_state c = TS_ESTABLISHED \<or> s_state c = TS_CLOSE_WAIT) then
        let sq = snd_nxt c in
        (case tcp_send_seg_ex i (TCP_FIN OR TCP_ACK) [] sq (upd_sock i (\<lambda>c. c\<lparr>snd_nxt := sq + 1\<rparr>) s) of
           (False, s1) \<Rightarrow> (False, upd_sock i (\<lambda>c. c\<lparr>snd_nxt := sq\<rparr>) s1)
         | (True, s1) \<Rightarrow> (True, upd_sock i (\<lambda>c. c\<lparr>s_state := (if s_state c = TS_ESTABLISHED then TS_FIN_WAIT_1 else TS_LAST_ACK)\<rparr>) s1))
      else if s_type c = SOCK_TYPE_TCP \<and> s_state c = TS_LISTEN then (True, sock_free i (fold sock_free (children i s) s))
      else (True, sock_free i s))"

section \<open>Received segments\<close>

record seg =
  sg_flags :: nat
  sg_seq :: u32
  sg_ack :: u32
  sg_data :: "u8 list"
  sg_sport :: nat
  sg_dport :: nat
  sg_src :: u32

definition tcp_parse :: "frame_buf \<Rightarrow> nat \<Rightarrow> seg option" where
  "tcp_parse ip ihl =
     (let totlen = be16 ip 2; t = ihl; doff = unat (drop_bit 4 (ip (t + 12))) * 4 in
      if totlen < ihl + TCP_HDR_MIN then None
      else if doff < TCP_HDR_MIN \<or> ihl + doff > totlen then None
      else Some \<lparr>sg_flags = unat (ip (t + 13)), sg_seq = be32 ip (t + 4), sg_ack = be32 ip (t + 8),
                 sg_data = bytes_at ip (t + doff) (totlen - ihl - doff), sg_sport = be16 ip t, sg_dport = be16 ip (t + 2), sg_src = be32 ip 12\<rparr>)"

definition tcp_conn :: "seg \<Rightarrow> net \<Rightarrow> nat option" where
  "tcp_conn g s =
     (case filter (\<lambda>i. let c = g_socks s ! i in s_used c \<and> s_type c = SOCK_TYPE_TCP \<and> local_port c = sg_dport g \<and> s_state c \<noteq> TS_LISTEN \<and>
          peer_port c = sg_sport g \<and> peer_ip c = sg_src g) [0..<NET_MAX_SOCKS] of i # _ \<Rightarrow> Some i | [] \<Rightarrow> None)"

definition tcp_listener :: "seg \<Rightarrow> net \<Rightarrow> nat option" where
  "tcp_listener g s =
     (let l = filter (\<lambda>i. let c = g_socks s ! i in s_used c \<and> s_type c = SOCK_TYPE_TCP \<and> local_port c = sg_dport g \<and> s_state c = TS_LISTEN) [0..<NET_MAX_SOCKS]
      in if l = [] then None else Some (last l))"

definition initial_seq :: "net \<Rightarrow> u32" where
  "initial_seq s = 0x1000 + tcp_tx s * 64000 + udp_rx s"

text \<open>A SYN for a listening port takes a free slot and is answered.\<close>

definition tcp_passive :: "kmalloc_fn \<Rightarrow> seg \<Rightarrow> net \<Rightarrow> net" where
  "tcp_passive km g s =
     (case tcp_listener g s of
        None \<Rightarrow> s
      | Some l \<Rightarrow>
          if \<not> has (sg_flags g) TCP_SYN \<or> has (sg_flags g) TCP_ACK then s
          else case filter (\<lambda>i. \<not> s_used (g_socks s ! i)) [0..<NET_MAX_SOCKS] of
            [] \<Rightarrow> s
          | i # _ \<Rightarrow>
              let s1 = upd_sock i (\<lambda>c. c\<lparr>s_used := True, s_type := SOCK_TYPE_TCP, s_state := TS_SYN_RCVD, local_port := sg_dport g,
                         peer_port := sg_sport g, peer_ip := sg_src g, got_fin := False, owner_pid := owner_pid (g_socks s ! l),
                         s_parent := int l, rx_r := 0, rx_w := 0\<rparr>) s
              in case tcp_bufs km i s1 of
                   (False, s2) \<Rightarrow> upd_sock i (\<lambda>c. c\<lparr>s_used := False\<rparr>) s2
                 | (True, s2) \<Rightarrow>
                     let sq = initial_seq s2;
                         s3 = upd_sock i (\<lambda>c. c\<lparr>snd_una := sq, rcv_nxt := sg_seq g + 1, snd_nxt := sq + 1\<rparr>) s2
                     in snd (tcp_send_seg_ex i (TCP_SYN OR TCP_ACK) [] sq s3))"

text \<open>The acknowledgement of sent data.\<close>

definition ack_sock :: "u32 \<Rightarrow> seg \<Rightarrow> sock \<Rightarrow> sock" where
  "ack_sock ticks g c =
     (if has (sg_flags g) TCP_ACK \<and> sint (sg_ack g - snd_una c) > 0 \<and> sint (sg_ack g - snd_nxt c) \<le> 0 then
        let acked = unat (sg_ack g - snd_una c); c1 = c\<lparr>snd_una := sg_ack g\<rparr> in
        if syn_unacked c then
          c1\<lparr>syn_unacked := False, rtx_tries := 0, rto_tick := (if rtx_len c = 0 then 0 else rto_tick c)\<rparr>
        else if acked \<ge> rtx_len c then c1\<lparr>rtx_len := 0, rto_tick := 0, rtx_tries := 0\<rparr>
        else c1\<lparr>rtx := map_option (\<lambda>b. take (rtx_len c - acked) (drop acked b) @ drop (rtx_len c - acked) b) (rtx c),
                rtx_len := rtx_len c - acked, rto_tick := ticks + TCP_RTO_MS, rtx_tries := 0\<rparr>
      else c)"

text \<open>The loop that moves reassembled bytes to the ring; \<open>acc\<close> counts them.\<close>

function ooo_drain :: "sock \<Rightarrow> nat \<Rightarrow> (sock \<times> nat) nres" where
  "ooo_drain c acc =
     (if ooo_len c = 0 \<or> ooo_seq c \<noteq> rcv_nxt c then Done (c, acc)
      else
        let sp = rx_space c; n = (if ooo_len c < sp then ooo_len c else sp) in
        if n = 0 then Done (c, acc)
        else case ooo c of
          None \<Rightarrow> NullDeref
        | Some b \<Rightarrow>
            (case rx_store (take n b) c of
               Done c1 \<Rightarrow> ooo_drain (c1\<lparr>rcv_nxt := rcv_nxt c + of_nat n, ooo := Some (take (ooo_len c - n) (drop n b) @ drop (ooo_len c - n) b),
                   ooo_len := ooo_len c - n, ooo_seq := rcv_nxt c + of_nat n\<rparr>) (acc + n)
             | NullDeref \<Rightarrow> NullDeref | Stuck \<Rightarrow> Stuck | Waiting \<Rightarrow> Waiting))"
  by pat_completeness auto
termination
  by (relation "measure (\<lambda>(c, acc). ooo_len c)") auto

declare ooo_drain.simps [simp del]

text \<open>The data of a segment: the socket and the number of bytes that entered the ring.\<close>

definition data_sock :: "seg \<Rightarrow> sock \<Rightarrow> (sock \<times> nat) nres" where
  "data_sock g c =
     (let dlen = length (sg_data g) in
      if dlen = 0 then Done (c, 0)
      else if sint (sg_seq g - rcv_nxt c) < 0 then Done (c, 0)
      else if sg_seq g = rcv_nxt c then
        let sp = rx_space c; tk = (if dlen > sp then sp else dlen) in
        nbind (rx_store (take tk (sg_data g)) c) (\<lambda>c1. ooo_drain (c1\<lparr>rcv_nxt := rcv_nxt c1 + of_nat tk\<rparr>) tk)
      else case ooo c of
        None \<Rightarrow> Done (c, 0)
      | Some b \<Rightarrow>
          if ooo_len c + dlen \<le> TCP_OOO_BUF \<and> (ooo_len c = 0 \<or> sg_seq g = ooo_seq c + of_nat (ooo_len c)) then
            Done (c\<lparr>ooo_seq := (if ooo_len c = 0 then sg_seq g else ooo_seq c),
                    ooo := Some (take (ooo_len c) b @ sg_data g @ drop (ooo_len c + dlen) b), ooo_len := ooo_len c + dlen\<rparr>, 0)
          else Done (c, 0))"

definition fin_sock :: "seg \<Rightarrow> sock \<Rightarrow> sock" where
  "fin_sock g c =
     (if has (sg_flags g) TCP_FIN \<and> sg_seq g + of_nat (length (sg_data g)) = rcv_nxt c then c\<lparr>rcv_nxt := rcv_nxt c + 1, got_fin := True\<rparr> else c)"

text \<open>The states in which data is received.\<close>

definition tcp_receive :: "nat \<Rightarrow> seg \<Rightarrow> net \<Rightarrow> net nres" where
  "tcp_receive i g s =
     nbind (data_sock g (g_socks s ! i))
       (\<lambda>(c1, n).
          let c2 = fin_sock g c1;
              fin = (has (sg_flags g) TCP_FIN \<and> sg_seq g + of_nat (length (sg_data g)) = rcv_nxt c1);
              c3 = (if fin \<and> s_state c2 = TS_ESTABLISHED then c2\<lparr>s_state := TS_CLOSE_WAIT\<rparr> else c2);
              s1 = (upd_sock i (\<lambda>_. c3) s)\<lparr>tcp_rx := tcp_rx s + of_nat n\<rparr>
          in Done (if sg_data g \<noteq> [] \<or> has (sg_flags g) TCP_FIN then snd (tcp_send_seg i TCP_ACK [] s1) else s1))"

text \<open>A FIN after our own: acknowledge it and release the socket.\<close>

definition tcp_last_fin :: "nat \<Rightarrow> seg \<Rightarrow> net \<Rightarrow> net" where
  "tcp_last_fin i g s =
     (if has (sg_flags g) TCP_FIN then sock_free i (snd (tcp_send_seg i TCP_ACK [] (upd_sock i (fin_sock g) s))) else s)"

definition tcp_conn_input :: "nat \<Rightarrow> seg \<Rightarrow> net \<Rightarrow> net nres" where
  "tcp_conn_input i g s0 =
     (if has (sg_flags g) TCP_RST then Done (sock_free i s0)
      else
        let s = upd_sock i (ack_sock (pit_ticks s0) g) s0; c = g_socks s ! i in
        case s_state c of
          TS_SYN_SENT \<Rightarrow>
            if \<not> has (sg_flags g) TCP_SYN \<or> \<not> has (sg_flags g) TCP_ACK then Done s
            else if sg_ack g \<noteq> snd_una c then Done s
            else Done (snd (tcp_send_seg i TCP_ACK []
              (upd_sock i (\<lambda>c. c\<lparr>rcv_nxt := sg_seq g + 1, s_state := TS_ESTABLISHED, syn_unacked := False, rto_tick := 0, rtx_tries := 0\<rparr>) s)))
        | TS_SYN_RCVD \<Rightarrow>
            if \<not> has (sg_flags g) TCP_ACK \<or> sg_ack g \<noteq> snd_nxt c then Done s
            else
              let s1 = upd_sock i (\<lambda>c. c\<lparr>s_state := TS_ESTABLISHED\<rparr>) s in
              if sg_data g = [] \<and> \<not> has (sg_flags g) TCP_FIN then Done s1 else tcp_receive i g s1
        | TS_ESTABLISHED \<Rightarrow> tcp_receive i g s
        | TS_CLOSE_WAIT \<Rightarrow> tcp_receive i g s
        | TS_LAST_ACK \<Rightarrow> Done (if has (sg_flags g) TCP_ACK \<and> sg_ack g = snd_nxt c then sock_free i s else s)
        | TS_FIN_WAIT_1 \<Rightarrow>
            Done (tcp_last_fin i g (if has (sg_flags g) TCP_ACK \<and> sg_ack g = snd_nxt c then upd_sock i (\<lambda>c. c\<lparr>s_state := TS_FIN_WAIT_2\<rparr>) s else s))
        | TS_FIN_WAIT_2 \<Rightarrow> Done (tcp_last_fin i g s)
        | _ \<Rightarrow> Done s)"

definition tcp_input :: "kmalloc_fn \<Rightarrow> frame_buf \<Rightarrow> nat \<Rightarrow> net \<Rightarrow> net nres" where
  "tcp_input km ip ihl s =
     (case tcp_parse ip ihl of
        None \<Rightarrow> Done s
      | Some g \<Rightarrow> (case tcp_conn g s of Some i \<Rightarrow> tcp_conn_input i g s | None \<Rightarrow> Done (tcp_passive km g s)))"

end
