(* ===== verification/NetDhcp.thy ===== *)
theory NetDhcp
  imports NetBase
begin

text \<open>
  The DHCP client of \<open>src/kernel/net.c\<close>: the messages it sends, the option fields of the answers, the
  lease, and the timers that renew it.
\<close>

abbreviation DHCP_MAGIC :: u32 where "DHCP_MAGIC \<equiv> 0x63825363"
abbreviation BOOTP_FIXED :: nat where "BOOTP_FIXED \<equiv> 236"
abbreviation BOOTP_MIN :: nat where "BOOTP_MIN \<equiv> 300"
abbreviation DHCP_RENEW_RETRY_MIN :: u32 where "DHCP_RENEW_RETRY_MIN \<equiv> 1000"
abbreviation DHCP_LEASE_MAX_SEC :: u32 where "DHCP_LEASE_MAX_SEC \<equiv> 100000"
abbreviation DNS_MAX_SRV :: nat where "DNS_MAX_SRV \<equiv> 4"

section \<open>Sending\<close>

definition dhcp_new_xid :: "net \<Rightarrow> u32" where
  "dhcp_new_xid s =
     (let x = fold (\<lambda>b x. push_bit 5 x XOR drop_bit 27 x XOR ucast b) (nic_mac s) (pit_ticks s XOR 0x9E3779B9)
      in if x = 0 then 0x5A5A5A5A else x)"

definition dhcp_options :: "u8 \<Rightarrow> u32 \<Rightarrow> u32 \<Rightarrow> bool \<Rightarrow> net \<Rightarrow> u8 list" where
  "dhcp_options msg_type req_ip server_id bound s =
     [53, 1, msg_type] @
     (if msg_type = 3 \<and> \<not> bound then [50, 4] @ put32 req_ip @ [54, 4] @ put32 server_id else []) @
     [55, 4, 1, 3, 6, 51] @ [61, 7, 1] @ nic_mac s @ [255]"

definition dhcp_message :: "u8 \<Rightarrow> u32 \<Rightarrow> u32 \<Rightarrow> bool \<Rightarrow> net \<Rightarrow> u8 list" where
  "dhcp_message msg_type req_ip server_id bound s =
     (let m = [1, 1, 6, 0] @ put32 (dw_xid (g_dhcp_w s)) @ put16 0 @ put16 0x8000 @
              (if bound then put32 (le_ip (g_lease s)) else replicate 4 0) @ replicate 12 0 @ nic_mac s @ replicate 202 0 @
              put32 DHCP_MAGIC @ dhcp_options msg_type req_ip server_id bound s
      in m @ replicate (BOOTP_MIN - length m) 0)"

definition udp_segment :: "u32 \<Rightarrow> u32 \<Rightarrow> nat \<Rightarrow> nat \<Rightarrow> u8 list \<Rightarrow> u8 list" where
  "udp_segment src_ip dst_ip src_port dst_port d =
     (let hd = put16 src_port @ put16 dst_port @ put16 ((UDP_HDR_LEN + length d) mod 65536)
      in hd @ put16 (l4_checksum src_ip dst_ip 17 (hd @ put16 0 @ d)) @ d)"

definition dhcp_send :: "u8 \<Rightarrow> u32 \<Rightarrow> u32 \<Rightarrow> bool \<Rightarrow> net \<Rightarrow> bool \<times> net" where
  "dhcp_send msg_type req_ip server_id bound s =
     (if 240 + length (dhcp_options msg_type req_ip server_id bound s) > BOOTP_MIN then (False, s)
      else
        let dst_mac = (if bound \<and> server_id \<noteq> 0 then arp_lookup server_id s else None);
            ip_dst = (if dst_mac \<noteq> None then server_id else 0xFFFFFFFF);
            src = (if bound then le_ip (g_lease s) else 0);
            u = udp_segment src ip_dst 68 67 (dhcp_message msg_type req_ip server_id bound s);
            ident = (g_ip_id s + 1) mod 65536;
            fr = (case dst_mac of Some m \<Rightarrow> m | None \<Rightarrow> replicate 6 0xFF) @ nic_mac s @ [0x08, 0x00] @
                 ip_header_ck ((IP_HDR_MIN + length u) mod 65536) ident 17 src ip_dst @ u
        in rtl8139_send fr (s\<lparr>g_ip_id := ident, udp_tx := udp_tx s + 1, g_frame := put_at 0 fr (g_frame s)\<rparr>))"

section \<open>Answers\<close>

text \<open>The loop over the options of a message: the last option 53 counts.\<close>

function dhcp_type_loop :: "frame_buf \<Rightarrow> nat \<Rightarrow> nat \<Rightarrow> nat \<Rightarrow> nat" where
  "dhcp_type_loop b dlen i type =
     (if i + 1 < dlen then
        if b i = 0 then dhcp_type_loop b dlen (i + 1) type
        else if b i = 255 then type
        else let olen = unat (b (i + 1)) in
          if i + 2 + olen > dlen then type
          else dhcp_type_loop b dlen (i + 2 + olen) (if b i = 53 \<and> olen \<ge> 1 then unat (b (i + 2)) else type)
      else type)"
  by pat_completeness auto
termination
  by (relation "measure (\<lambda>(b, dlen, i, type). dlen - i)") auto

declare dhcp_type_loop.simps [simp del]

definition dhcp_input :: "frame_buf \<Rightarrow> nat \<Rightarrow> net \<Rightarrow> net" where
  "dhcp_input ip ihl s =
     (let totlen = be16 ip 2; u = ihl; ulen = be16 ip (u + 4); dlen = ulen - UDP_HDR_LEN; b = (\<lambda>i. ip (u + UDP_HDR_LEN + i));
          type = dhcp_type_loop b dlen 240 0
      in if totlen < ihl + UDP_HDR_LEN then s
         else if ulen < UDP_HDR_LEN \<or> ulen > totlen - ihl then s
         else if dlen < BOOTP_FIXED + 4 \<or> dlen > 512 then s
         else if be32 b 236 \<noteq> DHCP_MAGIC then s
         else if be32 b 4 \<noteq> dw_xid (g_dhcp_w s) then s
         else if type = 0 then s
         else s\<lparr>g_dhcp_w := (g_dhcp_w s)\<lparr>dw_buf := put_at 0 (bytes_at b 0 dlen) (dw_buf (g_dhcp_w s)), dw_len := dlen, dw_yiaddr := be32 b 16,
                dw_msg_type := type, dw_got := True\<rparr>\<rparr>)"

function dhcp_opt_in :: "frame_buf \<Rightarrow> nat \<Rightarrow> nat \<Rightarrow> u8 \<Rightarrow> nat \<Rightarrow> u8 list" where
  "dhcp_opt_in b i fin code mx =
     (if i + 1 < fin then
        if b i = 0 then dhcp_opt_in b (i + 1) fin code mx
        else if b i = 255 then []
        else let olen = unat (b (i + 1)) in
          if i + 2 + olen > fin then []
          else if b i = code then bytes_at b (i + 2) (if olen < mx then olen else mx)
          else dhcp_opt_in b (i + 2 + olen) fin code mx
      else [])"
  by pat_completeness auto
termination
  by (relation "measure (\<lambda>(b, i, fin, code, mx). fin - i)") auto

declare dhcp_opt_in.simps [simp del]

definition dhcp_opt :: "u8 \<Rightarrow> nat \<Rightarrow> net \<Rightarrow> u8 list" where
  "dhcp_opt code mx s =
     (let b = dw_buf (g_dhcp_w s); dlen = dw_len (g_dhcp_w s); n = dhcp_opt_in b 240 dlen code mx; ov = dhcp_opt_in b 240 dlen 52 1;
          nf = (if hd ov AND 1 \<noteq> 0 \<and> dlen > 108 then dhcp_opt_in b 108 (if dlen < 236 then dlen else 236) code mx else [])
      in if dlen < BOOTP_FIXED + 4 then []
         else if n \<noteq> [] then n
         else if length ov \<noteq> 1 then []
         else if nf \<noteq> [] then nf
         else if hd ov AND 2 \<noteq> 0 \<and> dlen > 44 then dhcp_opt_in b 44 (if dlen < 108 then dlen else 108) code mx
         else [])"

definition be32_list :: "u8 list \<Rightarrow> u32" where
  "be32_list l = be32 (\<lambda>i. l ! i) 0"

definition opt_word :: "u8 \<Rightarrow> u32 \<Rightarrow> net \<Rightarrow> u32" where
  "opt_word code dflt s = (let v = dhcp_opt code 4 s in if length v = 4 then be32_list v else dflt)"

section \<open>The lease\<close>

definition dns_from_opt :: "u8 list \<Rightarrow> u32 list" where
  "dns_from_opt dv = take DNS_MAX_SRV (filter (\<lambda>a. a \<noteq> 0) (map (\<lambda>k. be32_list (take 4 (drop (4 * k) dv))) [0..<length dv div 4]))"

definition dhcp_apply :: "u32 \<Rightarrow> u32 \<Rightarrow> net \<Rightarrow> net" where
  "dhcp_apply ip server_id s =
     (let dv = dhcp_opt 6 16 s;
          srv = (if length dv div 4 \<noteq> 0 then dns_from_opt dv else if \<not> dns_manual s then [] else dns_srv s);
          man = (if length dv div 4 \<noteq> 0 then False else dns_manual s);
          l = opt_word 51 0 s;
          now = pit_ticks s;
          ms = l * 1000;
          le = \<lparr>le_valid = True, le_ip = ip, le_mask = opt_word 1 0 s, le_router = opt_word 3 0 s,
                le_dns = (if srv \<noteq> [] then hd srv else 0), le_server = opt_word 54 server_id s, le_lease = l, le_tick = now\<rparr>;
          rn = (if l \<noteq> 0 \<and> l \<le> DHCP_LEASE_MAX_SEC
                then \<lparr>rn_active = True, rn_state = 0, rn_t1 = now + ms div 2, rn_t2 = now + ms div 8 * 7, rn_expire = now + ms, rn_next = 0\<rparr>
                else (g_renew s)\<lparr>rn_active := False, rn_state := 0\<rparr>)
      in s\<lparr>g_lease := le, g_renew := rn, dns_srv := srv, dns_manual := man,
           g_dhcp_w := (g_dhcp_w s)\<lparr>dw_active := False, dw_got := False, dw_renewing := False\<rparr>, nic_ip := ip\<rparr>)"

section \<open>Renewal\<close>

text \<open>The answer to the last request; \<open>Inl\<close> when the check is over.\<close>

definition renew_answer :: "u32 \<Rightarrow> net \<Rightarrow> bool \<times> net + net" where
  "renew_answer now s =
     (let w = g_dhcp_w s in
      if dw_renewing w \<and> dw_got w then
        let t = dw_msg_type w; s1 = s\<lparr>g_dhcp_w := w\<lparr>dw_got := False\<rparr>\<rparr> in
        if t = 5 then Inl (False, if dw_yiaddr w \<noteq> 0 then dhcp_apply (dw_yiaddr w) (le_server (g_lease s1)) s1 else s1)
        else if t = 6 then Inr (s1\<lparr>g_lease := (g_lease s1)\<lparr>le_valid := False\<rparr>, g_renew := (g_renew s1)\<lparr>rn_state := 3\<rparr>\<rparr>)
        else if t = 2 \<and> rn_state (g_renew s1) = 3 then
          (if dw_yiaddr w = 0 then Inr s1
           else case dhcp_send 3 (dw_yiaddr w) (opt_word 54 0 s1) False s1 of
             (True, s2) \<Rightarrow> Inl (True, s2\<lparr>g_renew := (g_renew s2)\<lparr>rn_next := now + DHCP_RENEW_RETRY_MIN\<rparr>\<rparr>)
           | (False, s2) \<Rightarrow> Inr s2)
        else Inr s1
      else Inr s)"

text \<open>The step of the state: \<open>None\<close> while T1 is not reached.\<close>

definition renew_state :: "u32 \<Rightarrow> net \<Rightarrow> net option" where
  "renew_state now s =
     (let r = g_renew s in
      if rn_state r = 0 then
        (if sint (now - rn_t1 r) < 0 then None else Some (s\<lparr>g_renew := r\<lparr>rn_state := 1, rn_next := 0\<rparr>\<rparr>))
      else if rn_state r = 1 then
        (if sint (now - rn_t2 r) \<ge> 0 then Some (s\<lparr>g_renew := r\<lparr>rn_state := 2, rn_next := 0\<rparr>\<rparr>) else Some s)
      else if rn_state r = 2 \<and> sint (now - rn_expire r) \<ge> 0 then
        Some (s\<lparr>g_lease := (g_lease s)\<lparr>le_valid := False\<rparr>, g_renew := r\<lparr>rn_state := 3, rn_next := 0\<rparr>\<rparr>)
      else Some s)"

definition renew_request :: "u32 \<Rightarrow> net \<Rightarrow> bool \<times> net" where
  "renew_request now s =
     (let r = g_renew s;
          retry0 = (if rn_t2 r > rn_t1 r then (rn_t2 r - rn_t1 r) div 2 else 0);
          retry1 = (if retry0 < DHCP_RENEW_RETRY_MIN then DHCP_RENEW_RETRY_MIN else retry0);
          retry = (if retry1 > 60000 then 60000 else retry1);
          s1 = s\<lparr>g_dhcp_w := (g_dhcp_w s)\<lparr>dw_xid := dhcp_new_xid s, dw_got := False, dw_msg_type := 0, dw_active := True, dw_renewing := True\<rparr>\<rparr>
      in case (if rn_state r = 3 then dhcp_send 1 0 0 False s1
               else if rn_state r = 1 then dhcp_send 3 (le_ip (g_lease s1)) (le_server (g_lease s1)) True s1
               else dhcp_send 3 (le_ip (g_lease s1)) 0 True s1) of
           (ok, s2) \<Rightarrow>
             let s3 = (if ok then s2 else s2\<lparr>g_dhcp_w := (g_dhcp_w s2)\<lparr>dw_active := False, dw_renewing := False\<rparr>\<rparr>)
             in (ok, s3\<lparr>g_renew := (g_renew s3)\<lparr>rn_next := now + retry\<rparr>\<rparr>))"

definition dhcp_renew_check :: "u32 \<Rightarrow> net \<Rightarrow> bool \<times> net" where
  "dhcp_renew_check now s =
     (if \<not> rn_active (g_renew s) \<or> \<not> le_valid (g_lease s) then (False, s)
      else case renew_answer now s of
        Inl r \<Rightarrow> r
      | Inr s1 \<Rightarrow>
          (case renew_state now s1 of
             None \<Rightarrow> (False, s1)
           | Some s2 \<Rightarrow> if sint (now - rn_next (g_renew s2)) < 0 then (False, s2) else renew_request now s2))"

end
