(* ===== verification/NetDns.thy ===== *)
theory NetDns
  imports NetDhcp
begin

text \<open>
  The DNS resolver of \<open>src/kernel/net.c\<close>: names, the cache of answers, and the parsing of answers. Names
  are lists of character codes without the terminating 0; the name in a cache entry is an
  array of 64 characters.
\<close>

abbreviation DNS_CACHE_MAX :: nat where "DNS_CACHE_MAX \<equiv> 8"
abbreviation DNS_NAME_MAX :: nat where "DNS_NAME_MAX \<equiv> 64"
abbreviation DNS_TTL_MAX :: u32 where "DNS_TTL_MAX \<equiv> 86400"
abbreviation DNS_PORT :: nat where "DNS_PORT \<equiv> 53"

type_synonym dname = "nat list"

section \<open>Names\<close>

definition low_char :: "nat \<Rightarrow> nat" where
  "low_char c = (if 65 \<le> c \<and> c \<le> 90 then c + 32 else c)"

definition dns_name_copy :: "dname \<Rightarrow> dname option" where
  "dns_name_copy name = (if length name \<ge> DNS_NAME_MAX \<or> name = [] then None else Some (map low_char name))"

fun dns_name_eq :: "dname \<Rightarrow> dname \<Rightarrow> bool" where
  "dns_name_eq (x # xs) (y # ys) = (if low_char x \<noteq> low_char y then False else dns_name_eq xs ys)"
| "dns_name_eq [] [] = True"
| "dns_name_eq [] (y # ys) = False"
| "dns_name_eq (x # xs) [] = False"

definition cstr :: "(nat \<Rightarrow> nat) \<Rightarrow> dname" where
  "cstr a = takeWhile (\<lambda>c. c \<noteq> 0) (map a [0..<DNS_NAME_MAX])"

text \<open>The labels of a name, each behind its length; \<open>acc\<close> holds the finished ones, \<open>cur\<close> the current one.\<close>

fun dns_encode :: "dname \<Rightarrow> u8 list \<Rightarrow> u8 list \<Rightarrow> u8 list option" where
  "dns_encode [] acc cur =
     (if length cur = 0 \<or> length cur > 63 then None else Some (acc @ [of_nat (length cur)] @ cur @ [0]))"
| "dns_encode (c # cs) acc cur =
     (if c = 46 then
        (if length cur = 0 \<or> length cur > 63 then None
         else if cs = [] then None
         else dns_encode cs (acc @ [of_nat (length cur)] @ cur) [])
      else if length acc + 1 + length cur + 1 > 255 then None
      else dns_encode cs acc (cur @ [of_nat (low_char c)]))"

definition dns_encode_name :: "dname \<Rightarrow> u8 list option" where
  "dns_encode_name name = (if name = [] then None else dns_encode name [] [])"

function dns_skip_name :: "frame_buf \<Rightarrow> nat \<Rightarrow> nat \<Rightarrow> nat" where
  "dns_skip_name p i n =
     (if i \<ge> n then 0
      else let l = unat (p i) in
        if l AND 0xC0 = 0xC0 then (if i + 2 \<le> n then i + 2 else 0)
        else if l = 0 then (if i + 1 \<le> n then i + 1 else 0)
        else if l AND 0xC0 \<noteq> 0 then 0
        else dns_skip_name p (i + 1 + l) n)"
  by pat_completeness auto
termination
  by (relation "measure (\<lambda>(p, i, n). n - i)") auto

declare dns_skip_name.simps [simp del]

section \<open>The cache\<close>

definition net_dns_cache_lookup :: "dname \<Rightarrow> net \<Rightarrow> u32 option \<times> net" where
  "net_dns_cache_lookup name s =
     (case filter (\<lambda>i. dc_used (dns_cache s ! i) \<and> dns_name_eq name (cstr (dc_name (dns_cache s ! i)))) [0..<DNS_CACHE_MAX] of
        [] \<Rightarrow> (None, s)
      | i # _ \<Rightarrow>
          let e = dns_cache s ! i in
          if sint (pit_ticks s - dc_expire e) \<ge> 0 then (None, s\<lparr>dns_cache := (dns_cache s)[i := e\<lparr>dc_used := False\<rparr>]\<rparr>)
          else (Some (dc_ip e), s\<lparr>dns_hits := dns_hits s + 1\<rparr>))"

definition dns_cache_put :: "dname \<Rightarrow> u32 \<Rightarrow> u32 \<Rightarrow> net \<Rightarrow> net" where
  "dns_cache_put name ip_be ttl s =
     (if ttl = 0 then s
      else
        let ttl1 = (if ttl > DNS_TTL_MAX then DNS_TTL_MAX else ttl) in
        case dns_name_copy name of
          None \<Rightarrow> s
        | Some key \<Rightarrow>
            let (slot, rr) =
                  (case filter (\<lambda>i. \<not> dc_used (dns_cache s ! i) \<or> dns_name_eq key (cstr (dc_name (dns_cache s ! i)))) [0..<DNS_CACHE_MAX] of
                     i # _ \<Rightarrow> (i, dns_rr s)
                   | [] \<Rightarrow> (dns_rr s mod DNS_CACHE_MAX, (dns_rr s + 1) mod 4294967296));
                e = dns_cache s ! slot
            in s\<lparr>dns_rr := rr, dns_cache := (dns_cache s)[slot :=
                 \<lparr>dc_used = True, dc_name = (\<lambda>i. if i < length key then key ! i else if i = DNS_NAME_MAX - 1 then 0 else dc_name e i),
                  dc_ip = ip_be, dc_expire = pit_ticks s + ttl1 * 1000\<rparr>]\<rparr>)"

definition net_dns_cache_clear :: "net \<Rightarrow> net" where
  "net_dns_cache_clear s = s\<lparr>dns_cache := map (\<lambda>e. e\<lparr>dc_used := False\<rparr>) (dns_cache s), dns_rr := 0\<rparr>"

definition net_dns_cache_entries :: "net \<Rightarrow> nat" where
  "net_dns_cache_entries s = length (filter dc_used (dns_cache s))"

definition net_dns_set_server :: "u32 \<Rightarrow> net \<Rightarrow> net" where
  "net_dns_set_server be s = s\<lparr>dns_srv := (if be \<noteq> 0 then [be] else []), dns_manual := True\<rparr>"

definition net_dns_server_at :: "nat \<Rightarrow> net \<Rightarrow> u32" where
  "net_dns_server_at i s = (if i < length (dns_srv s) then dns_srv s ! i else 0)"

section \<open>Answers\<close>

definition dns_input :: "frame_buf \<Rightarrow> nat \<Rightarrow> net \<Rightarrow> bool \<times> net" where
  "dns_input ip ihl s =
     (let w = g_dns_w s; totlen = be16 ip 2; u = ihl; ulen = be16 ip (u + 4); dlen = ulen - UDP_HDR_LEN; d = (\<lambda>i. ip (u + UDP_HDR_LEN + i)) in
      if \<not> nw_active w then (False, s)
      else if totlen < ihl + UDP_HDR_LEN then (False, s)
      else if ulen < UDP_HDR_LEN \<or> ulen > totlen - ihl then (False, s)
      else if dlen < 12 \<or> dlen > 512 then (False, s)
      else if be16 ip u \<noteq> DNS_PORT \<or> be16 ip (u + 2) \<noteq> nw_port w then (False, s)
      else if be16 d 0 \<noteq> nw_id w then (False, s)
      else if d 2 AND 0x80 = 0 then (False, s)
      else (True, s\<lparr>g_dns_w := w\<lparr>nw_buf := put_at 0 (bytes_at d 0 dlen) (nw_buf w), nw_len := dlen, nw_rcode := unat (d 3 AND 0x0F), nw_got := True\<rparr>\<rparr>))"

text \<open>The question section: \<open>None\<close> stands for the return of -2.\<close>

primrec dns_questions :: "nat \<Rightarrow> frame_buf \<Rightarrow> nat \<Rightarrow> nat \<Rightarrow> nat option" where
  "dns_questions 0 d n i = Some i"
| "dns_questions (Suc k) d n i =
     (let j = dns_skip_name d i n in if j = 0 \<or> j + 4 > n then None else dns_questions k d n (j + 4))"

text \<open>The first address in the answer section, with its time to live.\<close>

primrec dns_answers :: "nat \<Rightarrow> frame_buf \<Rightarrow> nat \<Rightarrow> nat \<Rightarrow> (u32 \<times> u32) option" where
  "dns_answers 0 d n i = None"
| "dns_answers (Suc k) d n i =
     (let j = dns_skip_name d i n; type = be16 d j; cls = be16 d (j + 2); rdlen = be16 d (j + 8); i1 = j + 10 in
      if j = 0 \<or> j + 10 > n then None
      else if i1 + rdlen > n then None
      else if type = 1 \<and> cls = 1 \<and> rdlen = 4 then Some (be32 d i1, be32 d (i1 - 6))
      else dns_answers k d n (i1 + rdlen))"

definition dns_parse :: "frame_buf \<Rightarrow> nat \<Rightarrow> (u32 \<times> u32) option" where
  "dns_parse d n =
     (case dns_questions (be16 d 4) d n 12 of None \<Rightarrow> None | Some i \<Rightarrow> dns_answers (be16 d 6) d n i)"

text \<open>The query: header, name, type A and class IN; \<open>None\<close> when the name cannot be asked for.\<close>

definition dns_query :: "dname \<Rightarrow> nat \<Rightarrow> u8 list option" where
  "dns_query name ident =
     (case dns_encode_name name of
        None \<Rightarrow> None
      | Some q \<Rightarrow>
          if 12 + length q + 4 > 320 then None
          else Some (put16 ident @ put16 0x0100 @ put16 1 @ put16 0 @ put16 0 @ put16 0 @ q @ put16 1 @ put16 1))"

text \<open>The next hop to a server: the gateway when the server is in another network and the gateway in ours.\<close>

definition dns_hop :: "u32 \<Rightarrow> net \<Rightarrow> u32" where
  "dns_hop server s =
     (let my = nic_ip s; msk = le_mask (g_lease s); gw = le_router (g_lease s) in
      if msk \<noteq> 0 \<and> gw \<noteq> 0 \<and> my AND msk \<noteq> server AND msk \<and> gw AND msk = my AND msk then gw else server)"

end
