(* ===== verification/NetIn.thy ===== *)
theory NetIn
  imports NetTcp NetDns
begin

text \<open>
  The entry points of the network stack that run in interrupts: received frames (\<open>net_input\<close>, called by
  the driver of the card) and the timer (\<open>net_tick\<close>).
\<close>

section \<open>ICMP\<close>

definition icmp_input :: "frame_buf \<Rightarrow> nat \<Rightarrow> net \<Rightarrow> net nres" where
  "icmp_input ip ihl s =
     (let totlen = be16 ip 2; iclen = totlen - ihl; ic = (\<lambda>i. ip (ihl + i)) in
      if iclen < 8 \<or> iclen > NET_BUILD_MAX then Done s
      else if ic 0 = 0 \<and> ic 1 = 0 \<and> ping_active s \<and> \<not> ping_got s \<and> be16 ic 4 = ping_id s \<and> be16 ic 6 = ping_seq s then
        Done (s\<lparr>ping_got := True, ping_matched := ping_matched s + 1\<rparr>)
      else if ic 0 \<noteq> 8 \<or> ic 1 \<noteq> 0 then Done s
      else
        let d = bytes_at ic 4 (iclen - 4); p = [0, 0] @ put16 (cksum_c ([0, 0] @ put16 0 @ d)) @ d in
        nbind (ipv4_reply (be32 ip 12) 1 p s)
          (\<lambda>(ok, s1). Done (if ok then s1\<lparr>icmp_replied := icmp_replied s1 + 1\<rparr> else s1)))"

section \<open>Frames\<close>

definition arp_input :: "frame_buf \<Rightarrow> nat \<Rightarrow> net \<Rightarrow> int \<times> net" where
  "arp_input f len s =
     (let a = (\<lambda>i. f (ETH_HDR_LEN + i)); spa = be32 a 14; sha = bytes_at a 8 6 in
      if len < ETH_HDR_LEN + 28 then (-1, s)
      else if be16 a 0 \<noteq> 1 \<or> be16 a 2 \<noteq> 0x0800 \<or> a 4 \<noteq> 6 \<or> a 5 \<noteq> 4 then (-1, s)
      else
        let s1 = arp_learn spa sha s in
        if be16 a 6 = 1 \<and> be32 a 24 = nic_ip s1 then
          (case rtl8139_send (sha @ nic_mac s1 @ [0x08, 0x06] @ arp_packet 2 (nic_mac s1) (nic_ip s1) sha spa) s1 of
             (True, s2) \<Rightarrow> (0, s2\<lparr>arp_replied := arp_replied s2 + 1\<rparr>)
           | (False, s2) \<Rightarrow> (0, s2))
        else (0, s1))"

definition ip_input :: "kmalloc_fn \<Rightarrow> frame_buf \<Rightarrow> nat \<Rightarrow> net \<Rightarrow> (int \<times> net) nres" where
  "ip_input km ip ihl s =
     (let fin = (\<lambda>r. nbind r (\<lambda>s1. Done (0, s1))) in
      if ip 9 = 1 then fin (icmp_input ip ihl s)
      else if ip 9 = 17 then
        (case dns_input ip ihl s of (True, s1) \<Rightarrow> Done (0, s1) | (False, s1) \<Rightarrow> fin (udp_input ip ihl s1))
      else if ip 9 = 6 then fin (tcp_input km ip ihl s)
      else Done (0, s))"

definition net_input :: "kmalloc_fn \<Rightarrow> frame_buf \<Rightarrow> nat \<Rightarrow> net \<Rightarrow> (int \<times> net) nres" where
  "net_input km f len s0 =
     (case build_ready km s0 of
        (False, s) \<Rightarrow> Done (-1, s)
      | (True, s) \<Rightarrow>
          let et = be16 f 12; ip = (\<lambda>i. f (ETH_HDR_LEN + i)); ihl = unat (ip 0 AND 0x0F) * 4; totlen = be16 ip 2; frag = be16 ip 6 in
          if len < ETH_HDR_LEN then Done (-1, s)
          else if et = 0x0806 then Done (arp_input f len s)
          else if et \<noteq> 0x0800 then Done (-1, s)
          else if len < ETH_HDR_LEN + IP_HDR_MIN then Done (-1, s)
          else if drop_bit 4 (ip 0) \<noteq> 4 then Done (-1, s)
          else if ihl < IP_HDR_MIN \<or> ETH_HDR_LEN + ihl > len then Done (-1, s)
          else if totlen < ihl \<or> totlen > 1500 \<or> ETH_HDR_LEN + totlen > len then Done (-1, s)
          else if cksum_c (bytes_at ip 0 ihl) \<noteq> 0 then Done (-1, s\<lparr>ip_bad_csum := ip_bad_csum s + 1\<rparr>)
          else if frag AND 0x1FFF \<noteq> 0 \<or> frag AND 0x2000 \<noteq> 0 then Done (-1, s\<lparr>ip_frag_drop := ip_frag_drop s + 1\<rparr>)
          else if (ip 9 = 17 \<or> ip 9 = 6) \<and> \<not> l4_csum_ok ip ihl totlen then Done (-1, s\<lparr>ip_bad_csum := ip_bad_csum s + 1\<rparr>)
          else
            let s1 = arp_learn (be32 ip 12) (bytes_at f 6 6) s in
            if dw_active (g_dhcp_w s1) \<and> ip 9 = 17 \<and> ihl + UDP_HDR_LEN \<le> totlen \<and> be16 ip ihl = 67 \<and> be16 ip (ihl + 2) = 68
            then Done (0, dhcp_input ip ihl s1)
            else if be32 ip 16 \<noteq> nic_ip s1 then Done (-1, s1)
            else ip_input km ip ihl s1)"

section \<open>The timer\<close>

abbreviation TCP_TICK_MS :: int where "TCP_TICK_MS \<equiv> 100"

primrec tick_socks :: "nat \<Rightarrow> u32 \<Rightarrow> net \<Rightarrow> net" where
  "tick_socks 0 now s = s"
| "tick_socks (Suc k) now s =
     (let s1 = tick_socks k now s; c = g_socks s1 ! k in
      if \<not> s_used c \<or> s_type c \<noteq> SOCK_TYPE_TCP then s1
      else if rto_tick c = 0 then s1
      else tcp_retransmit_check k now s1)"

definition net_tick :: "net \<Rightarrow> net" where
  "net_tick s =
     (let now = pit_ticks s in
      if sint (now - last_tick s) < TCP_TICK_MS then s
      else tick_socks NET_MAX_SOCKS now (snd (dhcp_renew_check now (s\<lparr>last_tick := now\<rparr>))))"

section \<open>Events\<close>

text \<open>What happens to the stack between two looks of a waiting task: the timer interrupt at a time, or a
  frame from the card.\<close>

datatype net_event = Irq0 u32 | Rx frame_buf nat

fun net_events :: "kmalloc_fn \<Rightarrow> net_event list \<Rightarrow> net \<Rightarrow> net nres" where
  "net_events km [] s = Done s"
| "net_events km (Irq0 t # es) s = net_events km es (net_tick (s\<lparr>pit_ticks := t\<rparr>))"
| "net_events km (Rx f len # es) s =
     (case net_input km f len s of
        Done (_, s1) \<Rightarrow> net_events km es s1
      | NullDeref \<Rightarrow> NullDeref | Stuck \<Rightarrow> Stuck | Waiting \<Rightarrow> Waiting)"

text \<open>\<open>net_poll\<close> after the events that came in; its own call of \<open>net_tick\<close> is the last step.\<close>

definition net_poll :: "kmalloc_fn \<Rightarrow> net_event list \<Rightarrow> net \<Rightarrow> net nres" where
  "net_poll km es s = nbind (net_events km es s) (\<lambda>s1. Done (net_tick s1))"

end
