(* ===== verification/NetSock.thy ===== *)
theory NetSock
  imports NetIn
begin

text \<open>
  The parts of \<open>src/kernel/net.c\<close> that run in a task: waiting, address resolution, ping, DHCP, DNS, the
  socket calls and the TCP client of the kernel.

  A task that waits polls the card and looks at its condition each time it is woken. What happens
  up to each look is a list of events (\<open>net_event\<close>), so the whole wait is a list of such lists; a
  wait that has used them up without an end is \<open>Waiting\<close>. Operations return the lists that
  are left. Memory of the user is a function; \<open>uptr_ok\<close> is the check of the system call layer.
\<close>

type_synonym rounds = "net_event list list"

section \<open>Waiting\<close>

primrec wait_loop :: "kmalloc_fn \<Rightarrow> (net \<Rightarrow> bool) \<Rightarrow> u32 \<Rightarrow> rounds \<Rightarrow> net \<Rightarrow> (bool \<times> rounds \<times> net) nres" where
  "wait_loop km cond deadline [] s = Waiting"
| "wait_loop km cond deadline (es # rs) s =
     nbind (net_poll km es s)
       (\<lambda>s1. if cond s1 then Done (True, rs, s1)
             else if sint (pit_ticks s1 - deadline) \<ge> 0 then Done (False, rs, s1)
             else wait_loop km cond deadline rs s1)"

definition wait_cond :: "kmalloc_fn \<Rightarrow> (net \<Rightarrow> bool) \<Rightarrow> u32 \<Rightarrow> rounds \<Rightarrow> net \<Rightarrow> (bool \<times> rounds \<times> net) nres" where
  "wait_cond km cond timeout_ms rs s =
     (let t = (if timeout_ms = 0 then 10000 else timeout_ms) in wait_loop km cond (pit_ticks s + t) rs s)"

definition arp_resolve :: "kmalloc_fn \<Rightarrow> u32 \<Rightarrow> u32 \<Rightarrow> rounds \<Rightarrow> net \<Rightarrow> (u8 list option \<times> rounds \<times> net) nres" where
  "arp_resolve km ip timeout_ms rs s =
     (case arp_lookup ip s of
        Some m \<Rightarrow> Done (Some m, rs, s)
      | None \<Rightarrow>
          let s1 = arp_request ip s in
          nbind (wait_loop km (\<lambda>s. arp_lookup ip s \<noteq> None) (pit_ticks s1 + timeout_ms) rs s1)
            (\<lambda>(ok, rs1, s2). Done (if ok then arp_lookup ip s2 else None, rs1, s2)))"

definition ipv4_send_via :: "kmalloc_fn \<Rightarrow> u32 \<Rightarrow> u32 \<Rightarrow> u8 \<Rightarrow> u8 list \<Rightarrow> rounds \<Rightarrow> net \<Rightarrow> (bool \<times> rounds \<times> net) nres" where
  "ipv4_send_via km dst_ip hop_ip proto payload rs s =
     (case ipv4_copy payload s of
        None \<Rightarrow> Done (False, rs, s)
      | Some s1 \<Rightarrow>
          nbind (arp_resolve km hop_ip 3000 rs s1)
            (\<lambda>(m, rs1, s2).
               case m of
                 None \<Rightarrow> Done (False, rs1, s2)
               | Some mac \<Rightarrow> (case ipv4_emit dst_ip mac proto (length payload) s2 of (ok, s3) \<Rightarrow> Done (ok, rs1, s3))))"

definition ipv4_send :: "kmalloc_fn \<Rightarrow> u32 \<Rightarrow> u8 \<Rightarrow> u8 list \<Rightarrow> rounds \<Rightarrow> net \<Rightarrow> (bool \<times> rounds \<times> net) nres" where
  "ipv4_send km dst_ip proto payload rs s = ipv4_send_via km dst_ip dst_ip proto payload rs s"

definition net_udp_send :: "kmalloc_fn \<Rightarrow> u32 \<Rightarrow> nat \<Rightarrow> nat \<Rightarrow> u8 list \<Rightarrow> rounds \<Rightarrow> net \<Rightarrow> (int \<times> rounds \<times> net) nres" where
  "net_udp_send km dst_ip dst_port src_port d rs s =
     (if length d > NET_BUILD_MAX - IP_HDR_MIN - UDP_HDR_LEN then Done (-1, rs, s)
      else nbind (ipv4_send km dst_ip 17 (udp_segment (nic_ip s) dst_ip src_port dst_port d) rs s)
        (\<lambda>(ok, rs1, s1). if ok then Done (int (length d), rs1, s1\<lparr>udp_tx := udp_tx s1 + 1\<rparr>) else Done (-1, rs1, s1)))"

section \<open>Ping\<close>

definition ping_packet :: "nat \<Rightarrow> nat \<Rightarrow> u8 list" where
  "ping_packet ident sq =
     (let d = put16 ident @ put16 sq @ [69, 90, 79, 83, 80, 73, 78, 71]
      in [8, 0] @ put16 (cksum_c ([8, 0] @ put16 0 @ d)) @ d)"

definition net_ping :: "kmalloc_fn \<Rightarrow> u32 \<Rightarrow> u32 \<Rightarrow> rounds \<Rightarrow> net \<Rightarrow> (int \<times> u32 \<times> net) nres" where
  "net_ping km dst_ip timeout_ms rs s0 =
     (case build_ready km s0 of
        (False, s) \<Rightarrow> Done (-1, 0, s)
      | (True, s) \<Rightarrow>
          let sq = (seq_counter s + 1) mod 65536;
              s1 = s\<lparr>seq_counter := sq, ping_reqs := ping_reqs s + 1, ping_active := True, ping_id := 0x455A, ping_seq := sq, ping_got := False\<rparr>;
              t0 = pit_ticks s1
          in nbind (ipv4_send km dst_ip 1 (ping_packet 0x455A sq) rs s1)
               (\<lambda>(ok, rs1, s2).
                  if \<not> ok then Done (-1, 0, s2\<lparr>ping_active := False\<rparr>)
                  else nbind (wait_loop km ping_got (t0 + timeout_ms) rs1 s2)
                    (\<lambda>(ok, rs2, s3). Done (if ok then 0 else 1, if ok then pit_ticks s3 - t0 else 0, s3\<lparr>ping_active := False\<rparr>))))"

section \<open>DHCP\<close>

text \<open>Up to three attempts: \<open>Inl\<close> is an early return, \<open>Inr\<close> says whether the answer came.\<close>

primrec dhcp_ask :: "kmalloc_fn \<Rightarrow> u32 \<Rightarrow> (net \<Rightarrow> bool \<times> net) \<Rightarrow> nat \<Rightarrow> nat option \<Rightarrow> nat \<Rightarrow> rounds \<Rightarrow> net \<Rightarrow> ((int + bool) \<times> rounds \<times> net) nres" where
  "dhcp_ask km timeout snd_msg want nak 0 rs s = Done (Inr False, rs, s)"
| "dhcp_ask km timeout snd_msg want nak (Suc k) rs s =
     (case snd_msg (s\<lparr>g_dhcp_w := (g_dhcp_w s)\<lparr>dw_got := False, dw_active := True\<rparr>\<rparr>) of
        (False, s1) \<Rightarrow> Done (Inl (-1), rs, s1\<lparr>g_dhcp_w := (g_dhcp_w s1)\<lparr>dw_active := False\<rparr>\<rparr>)
      | (True, s1) \<Rightarrow>
          nbind (wait_loop km (\<lambda>s. dw_got (g_dhcp_w s)) (pit_ticks s1 + timeout) rs s1)
            (\<lambda>(got, rs1, s2).
               if got \<and> dw_msg_type (g_dhcp_w s2) = want then Done (Inr True, rs1, s2)
               else if got \<and> Some (dw_msg_type (g_dhcp_w s2)) = nak then Done (Inl 2, rs1, s2\<lparr>g_dhcp_w := (g_dhcp_w s2)\<lparr>dw_active := False\<rparr>\<rparr>)
               else dhcp_ask km timeout snd_msg want nak k rs1 s2))"

definition dhcp_idle :: "net \<Rightarrow> net" where
  "dhcp_idle s = s\<lparr>g_dhcp_w := (g_dhcp_w s)\<lparr>dw_active := False\<rparr>\<rparr>"

definition dhcp_finish :: "kmalloc_fn \<Rightarrow> u32 \<Rightarrow> rounds \<Rightarrow> net \<Rightarrow> (int \<times> rounds \<times> net) nres" where
  "dhcp_finish km timeout rs s =
     (let offer_ip = dw_yiaddr (g_dhcp_w s); server_id = opt_word 54 0 s in
      if offer_ip = 0 then Done (2, rs, dhcp_idle s)
      else nbind (dhcp_ask km timeout (dhcp_send 3 offer_ip server_id False) 5 (Some 6) 3 rs s)
        (\<lambda>(r, rs1, s1).
           case r of
             Inl e \<Rightarrow> Done (e, rs1, s1)
           | Inr acked \<Rightarrow>
               let s2 = dhcp_idle s1; ip = dw_yiaddr (g_dhcp_w s2) in
               if \<not> acked then Done (1, rs1, s2) else if ip = 0 then Done (2, rs1, s2) else Done (0, rs1, dhcp_apply ip server_id s2)))"

definition net_dhcp :: "kmalloc_fn \<Rightarrow> u32 \<Rightarrow> rounds \<Rightarrow> net \<Rightarrow> (int \<times> rounds \<times> net) nres" where
  "net_dhcp km timeout_ms rs s0 =
     (if \<not> nic_present s0 then Done (-1, rs, s0)
      else case build_ready km s0 of
        (False, s) \<Rightarrow> Done (-1, rs, s)
      | (True, s) \<Rightarrow>
          let t = (if timeout_ms = 0 then 2500 else timeout_ms);
              s1 = s\<lparr>g_lease := (g_lease s)\<lparr>le_valid := False\<rparr>, g_dhcp_w := (g_dhcp_w s)\<lparr>dw_xid := dhcp_new_xid s\<rparr>\<rparr>
          in nbind (dhcp_ask km t (dhcp_send 1 0 0 False) 2 None 3 rs s1)
               (\<lambda>(r, rs1, s2).
                  case r of
                    Inl e \<Rightarrow> Done (e, rs1, s2)
                  | Inr offered \<Rightarrow> if \<not> offered then Done (1, rs1, dhcp_idle s2) else dhcp_finish km t rs1 s2))"

section \<open>DNS\<close>

definition dns_send :: "kmalloc_fn \<Rightarrow> u32 \<Rightarrow> u8 list \<Rightarrow> rounds \<Rightarrow> net \<Rightarrow> (bool \<times> rounds \<times> net) nres" where
  "dns_send km server q rs s =
     ipv4_send_via km server (dns_hop server s) 17 (udp_segment (nic_ip s) server (nw_port (g_dns_w s)) DNS_PORT q) rs (s\<lparr>udp_tx := udp_tx s + 1\<rparr>)"

text \<open>One round over the table of servers, from entry \<open>j\<close> on: \<open>Inl\<close> is a failure to send. The table may change
  while the task waits; it has at most 4 entries, so 4 steps are enough.\<close>

primrec dns_round :: "kmalloc_fn \<Rightarrow> u32 \<Rightarrow> u8 list \<Rightarrow> nat \<Rightarrow> nat \<Rightarrow> rounds \<Rightarrow> net \<Rightarrow> ((unit + bool) \<times> rounds \<times> net) nres" where
  "dns_round km timeout q 0 j rs s = Done (Inr False, rs, s)"
| "dns_round km timeout q (Suc k) j rs s =
     (if j \<ge> length (dns_srv s) then Done (Inr False, rs, s)
      else if dns_srv s ! j = 0 then dns_round km timeout q k (j + 1) rs s
      else nbind (dns_send km (dns_srv s ! j) q rs (s\<lparr>g_dns_w := (g_dns_w s)\<lparr>nw_got := False, nw_rcode := 0, nw_active := True\<rparr>\<rparr>))
        (\<lambda>(ok, rs1, s1).
           if \<not> ok then Done (Inl (), rs1, s1\<lparr>g_dns_w := (g_dns_w s1)\<lparr>nw_active := False\<rparr>\<rparr>)
           else nbind (wait_loop km (\<lambda>s. nw_got (g_dns_w s)) (pit_ticks s1 + timeout) rs1 s1)
             (\<lambda>(got, rs2, s2). if got then Done (Inr True, rs2, s2) else dns_round km timeout q k (j + 1) rs2 s2)))"

definition dns_ask :: "kmalloc_fn \<Rightarrow> u32 \<Rightarrow> u8 list \<Rightarrow> rounds \<Rightarrow> net \<Rightarrow> ((unit + bool) \<times> rounds \<times> net) nres" where
  "dns_ask km timeout q rs s =
     nbind (dns_round km timeout q DNS_MAX_SRV 0 rs s)
       (\<lambda>(r, rs1, s1). if r = Inr False then dns_round km timeout q DNS_MAX_SRV 0 rs1 s1 else Done (r, rs1, s1))"

definition dns_answer :: "dname \<Rightarrow> net \<Rightarrow> int \<times> u32 option \<times> net" where
  "dns_answer name s =
     (if nw_rcode (g_dns_w s) \<noteq> 0 then (-2, None, s)
      else case dns_parse (nw_buf (g_dns_w s)) (nw_len (g_dns_w s)) of
        None \<Rightarrow> (-2, None, s)
      | Some (ip, ttl) \<Rightarrow> (0, Some ip, dns_cache_put name ip ttl s))"

definition net_dns_resolve :: "kmalloc_fn \<Rightarrow> dname \<Rightarrow> u32 \<Rightarrow> rounds \<Rightarrow> net \<Rightarrow> (int \<times> u32 option \<times> net) nres" where
  "net_dns_resolve km name timeout_ms rs s0 =
     (if dns_srv s0 = [] then Done (-3, None, s0)
      else case net_dns_cache_lookup name s0 of
        (Some ip, s) \<Rightarrow> Done (0, Some ip, s)
      | (None, s) \<Rightarrow>
          if \<not> nic_present s then Done (-1, None, s)
          else case build_ready km s of
            (False, s1) \<Rightarrow> Done (-1, None, s1)
          | (True, s1) \<Rightarrow>
              let t = (if timeout_ms = 0 then 2500 else timeout_ms); ident = (id_counter s1 + 1) mod 65536 in
              (case dns_query name ident of
                 None \<Rightarrow> Done (-1, None, s1)
               | Some q \<Rightarrow>
                   let s2 = s1\<lparr>id_counter := ident, g_dns_w := (g_dns_w s1)\<lparr>nw_id := ident, nw_port := 40000 + (ident AND 0x07FF)\<rparr>\<rparr> in
                   nbind (dns_ask km t q rs s2)
                     (\<lambda>(r, rs1, s3).
                        case r of
                          Inl _ \<Rightarrow> Done (-1, None, s3)
                        | Inr got \<Rightarrow>
                            let s4 = s3\<lparr>g_dns_w := (g_dns_w s3)\<lparr>nw_active := False\<rparr>\<rparr> in
                            if \<not> got then Done (1, None, s4) else Done (dns_answer name s4))))"

section \<open>The socket table\<close>

definition sock_get :: "nat \<Rightarrow> net \<Rightarrow> sock option" where
  "sock_get i s = (if i \<ge> NET_MAX_SOCKS then None else if \<not> s_used (g_socks s ! i) then None else Some (g_socks s ! i))"

text \<open>\<open>alive\<close> is the look-up of a process by its number.\<close>

definition sock_reap :: "(u32 \<Rightarrow> bool) \<Rightarrow> net \<Rightarrow> net" where
  "sock_reap alive s =
     fold (\<lambda>i s. let c = g_socks s ! i in if s_used c \<and> owner_pid c \<noteq> 0 \<and> \<not> alive (owner_pid c) then sock_free i s else s) [0..<NET_MAX_SOCKS] s"

definition sock_alloc :: "kmalloc_fn \<Rightarrow> (u32 \<Rightarrow> bool) \<Rightarrow> sock_type \<Rightarrow> u32 \<Rightarrow> net \<Rightarrow> nat option \<times> net" where
  "sock_alloc km alive type pid s0 =
     (let s = sock_reap alive s0 in
      case filter (\<lambda>i. \<not> s_used (g_socks s ! i)) [0..<NET_MAX_SOCKS] of
        [] \<Rightarrow> (None, s)
      | i # _ \<Rightarrow>
          let s1 = upd_sock i (\<lambda>c. c\<lparr>s_used := True, s_type := type, s_state := TS_UNUSED, got_fin := False, local_port := 0, peer_port := 0,
                     peer_ip := 0, owner_pid := pid, s_parent := -1, rx_r := 0, rx_w := 0, snd_nxt := 0, rcv_nxt := 0\<rparr>) s
          in if rx (g_socks s1 ! i) \<noteq> None then (Some i, s1)
             else case km NET_SOCK_BUF of
               None \<Rightarrow> (None, upd_sock i (\<lambda>c. c\<lparr>s_used := False\<rparr>) s1)
             | Some b \<Rightarrow> (Some i, upd_sock i (\<lambda>c. c\<lparr>rx := Some b\<rparr>) s1))"

definition cond_udp :: "nat \<Rightarrow> net \<Rightarrow> bool" where
  "cond_udp i s = (rx_r (g_socks s ! i) \<noteq> rx_w (g_socks s ! i))"

definition cond_tcp :: "nat \<Rightarrow> net \<Rightarrow> bool" where
  "cond_tcp i s = (rx_r (g_socks s ! i) \<noteq> rx_w (g_socks s ! i) \<or> got_fin (g_socks s ! i))"

definition cond_connected :: "nat \<Rightarrow> net \<Rightarrow> bool" where
  "cond_connected i s = (s_state (g_socks s ! i) = TS_ESTABLISHED)"

definition accepted :: "nat \<Rightarrow> net \<Rightarrow> nat list" where
  "accepted l s = filter (\<lambda>i. s_used (g_socks s ! i) \<and> s_parent (g_socks s ! i) = int l \<and> s_state (g_socks s ! i) = TS_ESTABLISHED) [0..<NET_MAX_SOCKS]"

definition cond_accept :: "nat \<Rightarrow> net \<Rightarrow> bool" where
  "cond_accept l s = (accepted l s \<noteq> [])"

section \<open>Socket calls\<close>

definition sc_bind :: "nat \<Rightarrow> nat \<Rightarrow> net \<Rightarrow> int \<times> net" where
  "sc_bind i port s =
     (case sock_get i s of
        None \<Rightarrow> (-1, s)
      | Some c \<Rightarrow>
          if port = 0 \<or> port > 0xFFFF then (-1, s)
          else if s_type c = SOCK_TYPE_TCP \<and> s_state c \<noteq> TS_UNUSED then (-1, s)
          else if list_ex (\<lambda>k. k \<noteq> i \<and> s_used (g_socks s ! k) \<and> local_port (g_socks s ! k) = port) [0..<NET_MAX_SOCKS] then (-1, s)
          else (0, upd_sock i (\<lambda>c. c\<lparr>local_port := port\<rparr>) s))"

definition sc_listen :: "nat \<Rightarrow> net \<Rightarrow> int \<times> net" where
  "sc_listen i s =
     (case sock_get i s of
        None \<Rightarrow> (-1, s)
      | Some c \<Rightarrow> if s_type c \<noteq> SOCK_TYPE_TCP \<or> local_port c = 0 then (-1, s) else (0, upd_sock i (\<lambda>c. c\<lparr>s_state := TS_LISTEN\<rparr>) s))"

definition sc_accept :: "kmalloc_fn \<Rightarrow> nat \<Rightarrow> u32 \<Rightarrow> rounds \<Rightarrow> net \<Rightarrow> (int \<times> rounds \<times> net) nres" where
  "sc_accept km l timeout rs s =
     (case sock_get l s of
        None \<Rightarrow> Done (-1, rs, s)
      | Some c \<Rightarrow>
          if s_type c \<noteq> SOCK_TYPE_TCP \<or> s_state c \<noteq> TS_LISTEN then Done (-1, rs, s)
          else nbind (wait_cond km (cond_accept l) timeout rs s)
            (\<lambda>(ok, rs1, s1).
               if \<not> ok then Done (-1, rs1, s1)
               else case accepted l s1 of
                 [] \<Rightarrow> Done (-1, rs1, s1)
               | i # _ \<Rightarrow> Done (int i, rs1, upd_sock i (\<lambda>c. c\<lparr>s_parent := -1\<rparr>) s1)))"

text \<open>The search for a free local port.\<close>

primrec pick_port :: "nat \<Rightarrow> net \<Rightarrow> nat \<times> net" where
  "pick_port 0 s = (0, s)"
| "pick_port (Suc k) s =
     (let cand = g_ephemeral s;
          s1 = s\<lparr>g_ephemeral := (if cand < 40000 then 40000 else (cand + 1) mod 65536)\<rparr>;
          conflict = list_ex (\<lambda>i. s_used (g_socks s ! i) \<and> local_port (g_socks s ! i) = cand) [0..<NET_MAX_SOCKS]
      in if \<not> conflict \<and> cand \<noteq> 0 then (cand, s1) else pick_port k s1)"

text \<open>The active opening that \<open>SC_CONNECT\<close> and \<open>net_tcp_connect\<close> share.\<close>

definition tcp_open :: "kmalloc_fn \<Rightarrow> nat \<Rightarrow> nat \<Rightarrow> u32 \<Rightarrow> nat \<Rightarrow> u32 \<Rightarrow> rounds \<Rightarrow> net \<Rightarrow> (bool \<times> rounds \<times> net) nres" where
  "tcp_open km i port dst dport timeout rs s =
     (let isn = initial_seq s;
          s1 = upd_sock i (\<lambda>c. c\<lparr>local_port := port, peer_ip := dst, peer_port := dport, got_fin := False, rx_r := 0, rx_w := 0, rcv_nxt := 0,
                 snd_nxt := isn, snd_una := isn, s_state := TS_SYN_SENT, syn_unacked := True\<rparr>) s
      in nbind (arp_resolve km dst 3000 rs s1)
           (\<lambda>(m, rs1, s2).
              if m = None then Done (False, rs1, sock_free i s2)
              else
                let sq = snd_nxt (g_socks s2 ! i);
                    s3 = upd_sock i (\<lambda>c. c\<lparr>rto_tick := pit_ticks s2 + TCP_RTO_MS, rtx_tries := 0, snd_nxt := sq + 1\<rparr>) s2;
                    s4 = snd (tcp_send_seg_ex i TCP_SYN [] sq s3)
                in nbind (wait_cond km (cond_connected i) timeout rs1 s4)
                     (\<lambda>(ok, rs2, s5). if ok then Done (True, rs2, s5) else Done (False, rs2, sock_free i s5))))"

definition sc_connect :: "kmalloc_fn \<Rightarrow> nat \<Rightarrow> u32 \<Rightarrow> nat \<Rightarrow> u32 \<Rightarrow> rounds \<Rightarrow> net \<Rightarrow> (int \<times> rounds \<times> net) nres" where
  "sc_connect km i dst dport timeout rs s =
     (case sock_get i s of
        None \<Rightarrow> Done (-1, rs, s)
      | Some c \<Rightarrow>
          if s_type c \<noteq> SOCK_TYPE_TCP \<or> s_state c \<noteq> TS_UNUSED \<or> local_port c \<noteq> 0 \<or> dst = 0 \<or> dport = 0 \<or> dport > 0xFFFF then Done (-1, rs, s)
          else case pick_port 200 s of
            (port, s1) \<Rightarrow>
              if port = 0 then Done (-1, rs, s1)
              else case tcp_bufs km i s1 of
                (False, s2) \<Rightarrow> Done (-1, rs, s2)
              | (True, s2) \<Rightarrow> nbind (tcp_open km i port dst dport timeout rs s2) (\<lambda>(ok, rs1, s3). Done (if ok then 0 else -1, rs1, s3)))"

text \<open>One data segment: it is kept for retransmission, sent, and rolled back when it cannot be sent.\<close>

definition tcp_push :: "nat \<Rightarrow> u8 list \<Rightarrow> net \<Rightarrow> bool \<times> net" where
  "tcp_push i d s =
     (let sq = snd_nxt (g_socks s ! i);
          s1 = upd_sock i (\<lambda>c. c\<lparr>rtx := map_option (\<lambda>b. d @ drop (length d) b) (rtx c), rtx_len := length d, snd_nxt := sq + of_nat (length d)\<rparr>) s
      in case tcp_send_seg_ex i (TCP_PSH OR TCP_ACK) d sq s1 of
           (False, s2) \<Rightarrow> (False, upd_sock i (\<lambda>c. c\<lparr>rtx_len := 0, snd_nxt := sq\<rparr>) s2)
         | (True, s2) \<Rightarrow> (True, upd_sock i (\<lambda>c. c\<lparr>rto_tick := pit_ticks s2 + TCP_RTO_MS, rtx_tries := 0\<rparr>) s2))"

text \<open>The buffer for retransmission is there or can be had.\<close>

definition rtx_ready :: "kmalloc_fn \<Rightarrow> nat \<Rightarrow> net \<Rightarrow> bool \<times> net" where
  "rtx_ready km i s = (if rtx (g_socks s ! i) \<noteq> None then (True, s) else tcp_bufs km i s)"

definition sc_sendto :: "kmalloc_fn \<Rightarrow> (u32 \<Rightarrow> u32 \<Rightarrow> bool \<Rightarrow> bool) \<Rightarrow> memory \<Rightarrow> nat \<Rightarrow> u32 \<Rightarrow> u32 \<Rightarrow> u32 \<Rightarrow> u32 \<Rightarrow> rounds \<Rightarrow> net \<Rightarrow> (int \<times> rounds \<times> net) nres" where
  "sc_sendto km uptr_ok um i buf len dst dport rs s =
     (case sock_get i s of
        None \<Rightarrow> Done (-1, rs, s)
      | Some c \<Rightarrow>
          let d = map (\<lambda>k. um (buf + of_nat k)) [0..<unat len] in
          if len = 0 \<or> \<not> uptr_ok buf len False then Done (-1, rs, s)
          else if s_type c = SOCK_TYPE_UDP then
            (if local_port c = 0 \<or> dport = 0 \<or> dport > 0xFFFF then Done (-1, rs, s)
             else net_udp_send km dst (unat dport) (local_port c) d rs s)
          else if s_state c \<noteq> TS_ESTABLISHED \<and> s_state c \<noteq> TS_CLOSE_WAIT then Done (-1, rs, s)
          else if rtx_len c \<noteq> 0 then Done (-1, rs, s)
          else if unat len > TCP_RTX_BUF then Done (-1, rs, s)
          else case rtx_ready km i s of
            (False, s1) \<Rightarrow> Done (-1, rs, s1)
          | (True, s1) \<Rightarrow> (case tcp_push i d s1 of (True, s2) \<Rightarrow> Done (int (unat len), rs, s2) | (False, s2) \<Rightarrow> Done (-1, rs, s2)))"

text \<open>Bytes from the ring of a socket, oldest first.\<close>

definition ring_get :: "u8 list \<Rightarrow> nat \<Rightarrow> nat \<Rightarrow> u8 list" where
  "ring_get b r n = map (\<lambda>k. b ! ((r + k) mod NET_SOCK_BUF)) [0..<n]"

text \<open>What a call receives: the bytes, and address and port of the sender for UDP.\<close>

definition udp_recv :: "nat \<Rightarrow> nat \<Rightarrow> net \<Rightarrow> ((u8 list \<times> u32 \<times> nat) \<times> net) nres" where
  "udp_recv i mx s =
     (let c = g_socks s ! i in
      case rx c of
        None \<Rightarrow> NullDeref
      | Some b \<Rightarrow>
          let hdr = ring_get b (rx_r c) 8; dn = unat (hdr ! 6) OR push_bit 8 (unat (hdr ! 7)); n = (if dn > mx then mx else dn);
              d = ring_get b ((rx_r c + 8) mod NET_SOCK_BUF) n
          in Done ((d, be32 (\<lambda>k. hdr ! k) 0, unat (hdr ! 4) OR push_bit 8 (unat (hdr ! 5))),
               upd_sock i (\<lambda>c. c\<lparr>rx_r := (rx_r c + 8 + dn) mod NET_SOCK_BUF\<rparr>) s))"

definition rx_used :: "sock \<Rightarrow> nat" where
  "rx_used c = (rx_w c + NET_SOCK_BUF - rx_r c) mod NET_SOCK_BUF"

definition tcp_recv :: "nat \<Rightarrow> nat \<Rightarrow> net \<Rightarrow> (u8 list \<times> net) nres" where
  "tcp_recv i mx s =
     (let c = g_socks s ! i; n = (if mx < rx_used c then mx else rx_used c) in
      if n = 0 then Done ([], s)
      else case rx c of
        None \<Rightarrow> NullDeref
      | Some b \<Rightarrow> Done (ring_get b (rx_r c) n, upd_sock i (\<lambda>c. c\<lparr>rx_r := (rx_r c + n) mod NET_SOCK_BUF\<rparr>) s))"

text \<open>The bytes go to the user's buffer \<open>buf\<close>; sender and port to the optional pair of words \<open>out\<close>.\<close>

definition sc_recvfrom :: "kmalloc_fn \<Rightarrow> (u32 \<Rightarrow> u32 \<Rightarrow> bool \<Rightarrow> bool) \<Rightarrow> nat \<Rightarrow> u32 \<Rightarrow> u32 \<Rightarrow> u32 \<Rightarrow> u32 \<Rightarrow> rounds \<Rightarrow> net \<Rightarrow>
    (int \<times> (u32 \<times> u8 list) list \<times> (u32 \<times> nat) option \<times> rounds \<times> net) nres" where
  "sc_recvfrom km uptr_ok i buf len timeout out rs s =
     (let fail = (\<lambda>rs s. Done (-1, [], None, rs, s)) in
      case sock_get i s of
        None \<Rightarrow> fail rs s
      | Some c \<Rightarrow>
          let cond = (if s_type c = SOCK_TYPE_UDP then cond_udp i else cond_tcp i) in
          if len = 0 \<or> \<not> uptr_ok buf len True then fail rs s
          else nbind (if cond s then Done (True, rs, s) else wait_cond km cond timeout rs s)
            (\<lambda>(ok, rs1, s1).
               if \<not> ok then fail rs1 s1
               else if s_type (g_socks s1 ! i) = SOCK_TYPE_UDP then
                 nbind (udp_recv i (unat len) s1)
                   (\<lambda>((d, ip, port), s2). Done (int (length d), [(buf, d)], if out \<noteq> 0 \<and> uptr_ok out 8 True then Some (ip, port) else None, rs1, s2))
               else nbind (tcp_recv i (unat len) s1) (\<lambda>(d, s2). Done (int (length d), [(buf, d)], None, rs1, s2))))"

definition sc_close :: "nat \<Rightarrow> net \<Rightarrow> int \<times> net" where
  "sc_close i s = (case sock_get i s of None \<Rightarrow> (-1, s) | Some _ \<Rightarrow> (case tcp_close i s of (ok, s1) \<Rightarrow> (if ok then 0 else -1, s1)))"

definition sc_socket :: "kmalloc_fn \<Rightarrow> (u32 \<Rightarrow> bool) \<Rightarrow> u32 \<Rightarrow> u32 \<Rightarrow> net \<Rightarrow> int \<times> net" where
  "sc_socket km alive type pid s =
     (if type \<noteq> 0 \<and> type \<noteq> 1 then (-1, s)
      else case sock_alloc km alive (if type = 0 then SOCK_TYPE_UDP else SOCK_TYPE_TCP) pid s of
        (None, s1) \<Rightarrow> (-1, s1) | (Some i, s1) \<Rightarrow> (int i, s1))"

text \<open>The dispatcher: result, stores to the user's memory, events left, state.\<close>

definition net_sockcall :: "kmalloc_fn \<Rightarrow> (u32 \<Rightarrow> bool) \<Rightarrow> (u32 \<Rightarrow> u32 \<Rightarrow> bool \<Rightarrow> bool) \<Rightarrow> memory \<Rightarrow> u32 \<Rightarrow> u32 \<Rightarrow> u32 list \<Rightarrow> rounds \<Rightarrow> net \<Rightarrow>
    (int \<times> (u32 \<times> u8 list) list \<times> (u32 \<times> nat) option \<times> rounds \<times> net) nres" where
  "net_sockcall km alive uptr_ok um pid subcmd a rs s0 =
     (let plain = (\<lambda>(r, s). Done (r, [], None, rs, s)); waits = (\<lambda>x. nbind x (\<lambda>(r, rs1, s). Done (r, [], None, rs1, s)))
      in case build_ready km s0 of
           (False, s) \<Rightarrow> plain (-1, s)
         | (True, s) \<Rightarrow>
             if subcmd = 0 then plain (sc_socket km alive (a ! 0) pid s)
             else if subcmd = 1 then plain (sc_bind (unat (a ! 0)) (unat (a ! 1)) s)
             else if subcmd = 2 then plain (sc_listen (unat (a ! 0)) s)
             else if subcmd = 3 then waits (sc_accept km (unat (a ! 0)) (a ! 1) rs s)
             else if subcmd = 4 then waits (sc_sendto km uptr_ok um (unat (a ! 0)) (a ! 1) (a ! 2) (a ! 3) (a ! 4) rs s)
             else if subcmd = 5 then sc_recvfrom km uptr_ok (unat (a ! 0)) (a ! 1) (a ! 2) (a ! 3) (a ! 4) rs s
             else if subcmd = 6 then plain (sc_close (unat (a ! 0)) s)
             else if subcmd = 7 then waits (sc_connect km (unat (a ! 0)) (a ! 1) (unat (a ! 2)) (a ! 3) rs s)
             else plain (-1, s))"

section \<open>The TCP client of the kernel\<close>

definition net_tcp_connect :: "kmalloc_fn \<Rightarrow> (u32 \<Rightarrow> bool) \<Rightarrow> u32 \<Rightarrow> nat \<Rightarrow> u32 \<Rightarrow> rounds \<Rightarrow> net \<Rightarrow> (int \<times> rounds \<times> net) nres" where
  "net_tcp_connect km alive dst dport timeout rs s0 =
     (case build_ready km s0 of
        (False, s) \<Rightarrow> Done (-1, rs, s)
      | (True, s) \<Rightarrow>
          if dst = 0 \<or> dport = 0 then Done (-1, rs, s)
          else case sock_alloc km alive SOCK_TYPE_TCP 0 s of
            (None, s1) \<Rightarrow> Done (-1, rs, s1)
          | (Some i, s1) \<Rightarrow>
              (case pick_port 200 s1 of
                 (port, s2) \<Rightarrow>
                   if port = 0 then Done (-1, rs, sock_free i s2)
                   else case tcp_bufs km i s2 of
                     (False, s3) \<Rightarrow> Done (-1, rs, sock_free i s3)
                   | (True, s3) \<Rightarrow>
                       nbind (tcp_open km i port dst dport timeout rs s3) (\<lambda>(ok, rs1, s4). Done (if ok then int i else -1, rs1, s4))))"

definition cond_sent :: "nat \<Rightarrow> net \<Rightarrow> bool" where
  "cond_sent i s = (rtx_len (g_socks s ! i) = 0 \<or> s_state (g_socks s ! i) = TS_FIN_WAIT_1 \<or> s_state (g_socks s ! i) = TS_FIN_WAIT_2)"

definition can_send :: "nat \<Rightarrow> net \<Rightarrow> bool" where
  "can_send i s = (s_state (g_socks s ! i) = TS_ESTABLISHED \<or> s_state (g_socks s ! i) = TS_CLOSE_WAIT)"

text \<open>The sending loop: at most 1536 bytes at a time, so \<open>k\<close> segments are enough for \<open>1536 k\<close> bytes.\<close>

primrec tcp_send_loop :: "nat \<Rightarrow> kmalloc_fn \<Rightarrow> nat \<Rightarrow> u8 list \<Rightarrow> u32 \<Rightarrow> rounds \<Rightarrow> net \<Rightarrow> (bool \<times> rounds \<times> net) nres" where
  "tcp_send_loop 0 km i d timeout rs s = Done (d = [], rs, s)"
| "tcp_send_loop (Suc k) km i d timeout rs s =
     (if d = [] then Done (True, rs, s)
      else nbind (if rtx_len (g_socks s ! i) \<noteq> 0 then wait_cond km (cond_sent i) timeout rs s else Done (True, rs, s))
        (\<lambda>(ok, rs1, s1).
           if \<not> ok \<or> rtx_len (g_socks s ! i) \<noteq> 0 \<and> \<not> can_send i s1 then Done (False, rs1, s1)
           else case rtx_ready km i s1 of
             (False, s2) \<Rightarrow> Done (False, rs1, s2)
           | (True, s2) \<Rightarrow>
               (case tcp_push i (take TCP_RTX_BUF d) s2 of
                  (False, s3) \<Rightarrow> Done (False, rs1, s3)
                | (True, s3) \<Rightarrow> tcp_send_loop k km i (drop TCP_RTX_BUF d) timeout rs1 s3)))"

definition net_tcp_send :: "kmalloc_fn \<Rightarrow> nat \<Rightarrow> u8 list \<Rightarrow> u32 \<Rightarrow> rounds \<Rightarrow> net \<Rightarrow> (int \<times> rounds \<times> net) nres" where
  "net_tcp_send km i d timeout rs s =
     (case sock_get i s of
        None \<Rightarrow> Done (-1, rs, s)
      | Some c \<Rightarrow>
          if d = [] \<or> s_type c \<noteq> SOCK_TYPE_TCP \<or> \<not> can_send i s then Done (-1, rs, s)
          else nbind (tcp_send_loop (Suc (length d div TCP_RTX_BUF)) km i d timeout rs s)
            (\<lambda>(ok, rs1, s1). Done (if ok then int (length d) else -1, rs1, s1)))"

definition net_tcp_recv :: "kmalloc_fn \<Rightarrow> nat \<Rightarrow> nat \<Rightarrow> u32 \<Rightarrow> rounds \<Rightarrow> net \<Rightarrow> (int \<times> u8 list \<times> rounds \<times> net) nres" where
  "net_tcp_recv km i mx timeout rs s =
     (case sock_get i s of
        None \<Rightarrow> Done (-1, [], rs, s)
      | Some c \<Rightarrow>
          if mx = 0 \<or> s_type c \<noteq> SOCK_TYPE_TCP then Done (-1, [], rs, s)
          else nbind (if cond_tcp i s then Done (True, rs, s) else wait_cond km (cond_tcp i) timeout rs s)
            (\<lambda>(ok, rs1, s1).
               if \<not> ok then Done (-1, [], rs1, s1) else nbind (tcp_recv i mx s1) (\<lambda>(d, s2). Done (int (length d), d, rs1, s2))))"

definition net_tcp_close :: "nat \<Rightarrow> net \<Rightarrow> net" where
  "net_tcp_close i s = (case sock_get i s of None \<Rightarrow> s | Some c \<Rightarrow> if s_type c = SOCK_TYPE_TCP then snd (tcp_close i s) else s)"

section \<open>The HTTP demonstration\<close>

text \<open>The answer on an accepted connection; \<open>resp\<close> is the fixed page.\<close>

definition httpd_answer :: "kmalloc_fn \<Rightarrow> u8 list \<Rightarrow> nat \<Rightarrow> net \<Rightarrow> int \<times> net" where
  "httpd_answer km resp c s =
     (if length resp > TCP_RTX_BUF then (-1, s)
      else case tcp_bufs km c s of
        (False, s1) \<Rightarrow> (-1, s1)
      | (True, s1) \<Rightarrow>
          let sq = snd_nxt (g_socks s1 ! c);
              s2 = upd_sock c (\<lambda>k. k\<lparr>rtx := map_option (\<lambda>b. resp @ drop (length resp) b) (rtx k), rtx_len := length resp,
                     snd_nxt := sq + of_nat (length resp)\<rparr>) s1
          in case tcp_send_seg_ex c (TCP_PSH OR TCP_ACK) resp sq s2 of
               (False, s3) \<Rightarrow> (-1, s3)
             | (True, s3) \<Rightarrow> (0, upd_sock c (\<lambda>k. k\<lparr>rto_tick := pit_ticks s3 + TCP_RTO_MS\<rparr>) s3))"

definition net_httpd_once :: "kmalloc_fn \<Rightarrow> (u32 \<Rightarrow> bool) \<Rightarrow> u8 list \<Rightarrow> rounds \<Rightarrow> net \<Rightarrow> (int \<times> rounds \<times> net) nres" where
  "net_httpd_once km alive resp rs s0 =
     (case build_ready km s0 of
        (False, s) \<Rightarrow> Done (-1, rs, s)
      | (True, s) \<Rightarrow>
          (case sock_alloc km alive SOCK_TYPE_TCP 0 s of
             (None, s1) \<Rightarrow> Done (-1, rs, s1)
           | (Some l, s1) \<Rightarrow>
               (case tcp_bufs km l s1 of
                  (False, s2) \<Rightarrow> Done (-1, rs, sock_free l s2)
                | (True, s2) \<Rightarrow>
                    let s3 = upd_sock l (\<lambda>c. c\<lparr>local_port := 80\<rparr>) s2 in
                    if list_ex (\<lambda>k. k \<noteq> l \<and> s_used (g_socks s3 ! k) \<and> local_port (g_socks s3 ! k) = 80) [0..<NET_MAX_SOCKS]
                    then Done (-1, rs, sock_free l s3)
                    else nbind (wait_cond km (cond_accept l) 30000 rs (upd_sock l (\<lambda>c. c\<lparr>s_state := TS_LISTEN\<rparr>) s3))
                      (\<lambda>(ok, rs1, s4).
                         if \<not> ok then Done (1, rs1, snd (tcp_close l s4))
                         else case accepted l s4 of
                           [] \<Rightarrow> Done (-1, rs1, snd (tcp_close l s4))
                         | c # _ \<Rightarrow>
                             nbind (wait_cond km (cond_tcp c) 5000 rs1 (upd_sock c (\<lambda>k. k\<lparr>s_parent := -1\<rparr>) s4))
                               (\<lambda>(_, rs2, s5).
                                  case httpd_answer km resp c s5 of
                                    (rc, s6) \<Rightarrow> Done (rc, rs2, snd (tcp_close c (snd (tcp_close l s6)))))))))"

end
