(* ===== verification/NetCodec.thy ===== *)
theory NetCodec
  imports NetSock
begin

text \<open>
  The wire formats of the network stack: what the Internet checksum computes, and that a packet built by the
  sending functions passes the checks of the receiving ones and gives back its fields.
\<close>

section \<open>Lists in buffers\<close>

definition holds :: "frame_buf \<Rightarrow> nat \<Rightarrow> u8 list \<Rightarrow> bool" where
  "holds f i l \<longleftrightarrow> (\<forall>k < length l. f (i + k) = l ! k)"

lemma holds_Nil [simp]: "holds f i []"
  by (simp add: holds_def)

lemma holds_Cons [simp]: "holds f i (x # xs) \<longleftrightarrow> f i = x \<and> holds f (i + 1) xs"
proof
  assume h: "holds f i (x # xs)"
  have "f (i + Suc k) = xs ! k" if "k < length xs" for k using h that unfolding holds_def by (metis length_Cons not_less_eq nth_Cons_Suc)
  then show "f i = x \<and> holds f (i + 1) xs" using h unfolding holds_def by fastforce
next
  assume "f i = x \<and> holds f (i + 1) xs"
  then show "holds f i (x # xs)" unfolding holds_def by (auto simp: nth_Cons split: nat.split)
qed

lemma holds_append [simp]: "holds f i (a @ b) \<longleftrightarrow> holds f i a \<and> holds f (i + length a) b"
  by (induction a arbitrary: i) (auto simp: add.assoc)

lemma holds_put_at: "holds (put_at i l f) i l"
  by (simp add: holds_def put_at_def)

lemma holds_shift: "holds (\<lambda>k. f (j + k)) i l \<longleftrightarrow> holds f (j + i) l"
  by (simp add: holds_def add.assoc)

lemma bytes_at_holds: "holds f i l \<Longrightarrow> n = length l \<Longrightarrow> bytes_at f i n = l"
  by (rule nth_equalityI) (auto simp: bytes_at_def holds_def)

lemma length_bytes_at [simp]: "length (bytes_at f i n) = n"
  by (simp add: bytes_at_def)

lemma length_puts [simp]: "length (put16 v) = 2" "length (put32 w) = 4" "length (wr16le v) = 2"
  by (simp_all add: put16_def put32_def wr16le_def)

lemma be16_sum: "be16 f i = 256 * unat (f i) + unat (f (i + 1))"
  using or_shift [of "unat (f (i + 1))" 8 "unat (f i)"] u8_bound [of "f (i + 1)"] by (simp add: be16_def or.commute)

lemma be16_put: "holds f i (put16 v) \<Longrightarrow> v < 65536 \<Longrightarrow> be16 f i = v"
  by (simp add: be16_sum put16_def unat_of_nat drop_bit_eq_div less_mult_imp_div_less)

lemma word_bytes:
  "(push_bit 24 (ucast (ucast (drop_bit 24 v) :: u8)) OR push_bit 16 (ucast (ucast (drop_bit 16 v) :: u8)) OR
    push_bit 8 (ucast (ucast (drop_bit 8 v) :: u8)) OR ucast (ucast v :: u8)) = (v :: u32)"
proof (rule bit_word_eqI)
  fix n assume "n < LENGTH(32)"
  then consider "n < 8" | "8 \<le> n" "n < 16" | "16 \<le> n" "n < 24" | "24 \<le> n" "n < 32" by fastforce
  then show "bit (push_bit 24 (ucast (ucast (drop_bit 24 v) :: u8)) OR push_bit 16 (ucast (ucast (drop_bit 16 v) :: u8)) OR
      push_bit 8 (ucast (ucast (drop_bit 8 v) :: u8)) OR ucast (ucast v :: u8) :: u32) n = bit v n"
    by cases (auto simp: bit_simps)
qed

lemma be32_put: "holds f i (put32 v) \<Longrightarrow> be32 f i = v"
proof -
  assume "holds f i (put32 v)"
  then have "f i = ucast (drop_bit 24 v)" "f (i + 1) = ucast (drop_bit 16 v)" "f (i + 2) = ucast (drop_bit 8 v)" "f (i + 3) = ucast v"
    by (simp_all add: put32_def numeral_2_eq_2 numeral_3_eq_3)
  then show ?thesis unfolding be32_def by (simp only: word_bytes)
qed

section \<open>Sums\<close>

fun sum16 :: "u8 list \<Rightarrow> nat" where
  "sum16 (a # b # r) = 256 * unat a + unat b + sum16 r"
| "sum16 [a] = 256 * unat a"
| "sum16 [] = 0"

lemma sum16_append: "even (length a) \<Longrightarrow> sum16 (a @ b) = sum16 a + sum16 b"
  by (induction a rule: sum16.induct) auto

lemma sum16_put16: "v < 65536 \<Longrightarrow> sum16 (put16 v) = v"
  by (simp add: put16_def unat_of_nat drop_bit_eq_div less_mult_imp_div_less)

lemma sum16_le: "sum16 p \<le> 65535 * length p"
proof (induction p rule: sum16.induct)
  case (1 a b r)
  then show ?case using u8_bound [of a] u8_bound [of b] by simp
next
  case (2 a)
  then show ?case using u8_bound [of a] by simp
qed simp

lemma ck_loop_sum: "ck_loop p s = (s + sum16 p) mod 4294967296" if "s < 4294967296"
  using that
proof (induction p s rule: ck_loop.induct)
  case (1 a b r s)
  have "(push_bit 8 (unat a) OR unat b) = 256 * unat a + unat b"
    using or_shift [of "unat b" 8 "unat a"] u8_bound [of b] by (simp add: or.commute)
  then show ?case using 1 by (simp add: mod_add_left_eq add.assoc)
qed (auto simp: push_bit_eq_mult mult.commute)

lemma ck_fold_val: "ck_fold s mod 65535 = s mod 65535 \<and> ck_fold s < 65536 \<and> (ck_fold s = 0 \<longleftrightarrow> s = 0)"
proof (induction s rule: ck_fold.induct)
  case (1 s)
  have lo: "s AND 0xFFFF = s mod 65536" using and_low [of s 16] by (simp add: mask_eq_exp_minus_1)
  show ?case
  proof (cases "drop_bit 16 s = 0")
    case True
    then have "s < 65536" by (simp add: drop_bit_eq_div div_eq_0_iff)
    then show ?thesis using True by (subst (1 2 3) ck_fold.simps) simp
  next
    case False
    let ?t = "(s AND 0xFFFF) + drop_bit 16 s"
    have "s = 65535 * (s div 65536) + ?t" using mult_div_mod_eq [of 65536 s] unfolding lo by (simp add: drop_bit_eq_div)
    then have "s mod 65535 = ?t mod 65535" by (metis mod_mult_self4)
    moreover have "ck_fold s = ck_fold ?t" using False by (subst ck_fold.simps) simp
    ultimately show ?thesis using 1 [OF False] False by (auto simp: drop_bit_eq_div)
  qed
qed

lemma ck_fold_ones: "ck_fold s = 65535 \<longleftrightarrow> s \<noteq> 0 \<and> s mod 65535 = 0"
proof -
  have f: "ck_fold s < 65536" "ck_fold s mod 65535 = s mod 65535" "ck_fold s = 0 \<longleftrightarrow> s = 0" using ck_fold_val [of s] by auto
  show ?thesis
  proof (cases "ck_fold s < 65535")
    case True
    then have "ck_fold s = s mod 65535" using f(2) by simp
    then show ?thesis using True f(3) by auto
  next
    case False
    then have "ck_fold s = 65535" using f(1) by simp
    then show ?thesis using f(2,3) by auto
  qed
qed

lemma cksum_raw_val:
  assumes "length p < 65536"
  shows "cksum_raw_c p mod 65535 = sum16 p mod 65535" "cksum_raw_c p < 65536" "cksum_raw_c p = 0 \<longleftrightarrow> sum16 p = 0"
proof -
  have "sum16 p < 4294967296" using sum16_le [of p] assms by simp
  then have "ck_loop p 0 = sum16 p" using ck_loop_sum [of 0 p] by simp
  then show "cksum_raw_c p mod 65535 = sum16 p mod 65535" "cksum_raw_c p < 65536" "cksum_raw_c p = 0 \<longleftrightarrow> sum16 p = 0"
    using ck_fold_val [of "sum16 p"] by (simp_all add: cksum_raw_c_def)
qed

lemma unat_not16: "n < 65536 \<Longrightarrow> unat (NOT (of_nat n) :: u16) = 65535 - n"
proof -
  assume n: "n < 65536"
  have "NOT (of_nat n :: u16) = of_nat 65535 - of_nat n" by (simp add: not_eq_complement)
  also have "\<dots> = of_nat (65535 - n)" using n by (simp add: of_nat_diff)
  finally have e: "NOT (of_nat n :: u16) = of_nat (65535 - n)" .
  show ?thesis unfolding e unat_of_nat using n by simp
qed

lemma cksum_val: "length p < 65536 \<Longrightarrow> cksum_c p = 65535 - cksum_raw_c p"
  using cksum_raw_val(2) [of p] by (simp add: cksum_c_def unat_not16)

lemma cksum_0: "length p < 65536 \<Longrightarrow> cksum_c p = 0 \<longleftrightarrow> sum16 p \<noteq> 0 \<and> sum16 p mod 65535 = 0"
proof -
  assume l: "length p < 65536"
  have "cksum_c p = 0 \<longleftrightarrow> cksum_raw_c p = 65535" using cksum_val [OF l] cksum_raw_val(2) [OF l] by auto
  moreover have "ck_loop p 0 = sum16 p" using ck_loop_sum [of 0 p] sum16_le [of p] l by simp
  ultimately show ?thesis using ck_fold_ones [of "sum16 p"] by (simp add: cksum_raw_c_def)
qed

text \<open>Adding the complement of a folded sum gives a multiple of 65535.\<close>

lemma complement_sum: "r < 65536 \<Longrightarrow> r mod 65535 = a mod 65535 \<Longrightarrow> (a + (65535 - r)) mod 65535 = 0" for r a :: nat
proof -
  assume r: "r < 65536" "r mod 65535 = a mod 65535"
  have "(a + (65535 - r)) mod 65535 = (a mod 65535 + (65535 - r)) mod 65535" by (simp add: mod_add_left_eq)
  also have "\<dots> = (r + (65535 - r)) mod 65535" unfolding r(2) [symmetric] by (simp add: mod_add_left_eq)
  also have "\<dots> = 0" using r(1) by simp
  finally show ?thesis .
qed

section \<open>Headers\<close>

lemma sum16_field: "even (length a) \<Longrightarrow> v < 65536 \<Longrightarrow> sum16 (a @ put16 v @ b) = sum16 (a @ put16 0 @ b) + v"
  by (simp add: sum16_append sum16_put16)

lemma length_ip_header [simp]: "length (ip_header tot ident proto src dst ck) = 20" "length (ip_header_ck tot ident proto src dst) = 20"
  by (simp_all add: ip_header_def ip_header_ck_def)

lemma cksum_lt: "length p < 65536 \<Longrightarrow> cksum_c p < 65536"
  by (simp add: cksum_val)

lemma ip_header_verifies: "cksum_c (ip_header_ck tot ident proto src dst) = 0"
proof -
  let ?a = "[0x45, 0] @ put16 tot @ put16 ident @ put16 0 @ [64, proto]" and ?b = "put32 src @ put32 dst"
  let ?h = "\<lambda>ck. ip_header tot ident proto src dst ck" and ?c = "cksum_c (ip_header tot ident proto src dst 0)"
  have h: "?h ck = ?a @ put16 ck @ ?b" for ck by (simp add: ip_header_def)
  have l: "length (?h ck) < 65536" for ck by simp
  have c: "?c < 65536" by (rule cksum_lt) simp
  have "sum16 (?h k) = sum16 (?h 0) + k" if "k < 65536" for k unfolding h by (rule sum16_field) (use that in simp_all)
  then have sm: "sum16 (?h ?c) = sum16 (?h 0) + ?c" using c by blast
  have "(sum16 (?h 0) + ?c) mod 65535 = 0"
    unfolding cksum_val [OF l] using cksum_raw_val(1,2) [OF l [of 0]] by (intro complement_sum) auto
  moreover have "sum16 (?h ?c) \<noteq> 0" by (simp add: ip_header_def)
  ultimately show ?thesis unfolding ip_header_ck_def cksum_0 [OF l] sm by simp
qed

lemma length_pseudo [simp]: "length (pseudo_header src dst proto n) = 12"
  by (simp add: pseudo_header_def)

lemma pseudo_nonzero: "proto \<noteq> 0 \<Longrightarrow> sum16 (pseudo_header src dst proto n) \<noteq> 0"
  by (simp add: pseudo_header_def put32_def put16_def unat_eq_0)

text \<open>A checksum field that complements the sum of everything else makes the whole sum all ones.\<close>

lemma l4_verifies:
  assumes r: "r = ck_fold ((cksum_raw_c ps + cksum_raw_c z) mod 4294967296)" and z: "sum16 z = sum16 (a @ put16 0 @ b)" "length z < 65536"
    and a: "even (length a)" and l: "length (a @ put16 c @ b) < 65536" "length ps < 65536" "sum16 ps \<noteq> 0"
    and c: "c < 65536" "c mod 65535 = (65535 - r) mod 65535"
  shows "ck_fold ((cksum_raw_c ps + cksum_raw_c (a @ put16 c @ b)) mod 4294967296) = 0xFFFF"
proof -
  let ?p = "a @ put16 c @ b" and ?s0 = "cksum_raw_c ps + cksum_raw_c z"
  have b: "cksum_raw_c ps < 65536" "cksum_raw_c z < 65536" "cksum_raw_c ?p < 65536" using cksum_raw_val(2) z(2) l by simp_all
  have r': "r < 65536" "r mod 65535 = ?s0 mod 65535" using ck_fold_val [of "?s0 mod 4294967296"] b unfolding r by simp_all
  have "(cksum_raw_c ps + cksum_raw_c ?p) mod 65535 = (sum16 ps + sum16 ?p) mod 65535"
    using cksum_raw_val(1) [OF l(2)] cksum_raw_val(1) [OF l(1)] by (metis mod_add_cong)
  also have "\<dots> = (sum16 ps + sum16 z + c) mod 65535" using sum16_field [OF a c(1), of b] z(1) by (simp add: add.assoc)
  also have "\<dots> = (?s0 + c) mod 65535"
    using cksum_raw_val(1) [OF l(2)] cksum_raw_val(1) [OF z(2)] by (metis mod_add_cong)
  also have "\<dots> = (?s0 + (65535 - r)) mod 65535" using c(2) by (metis mod_add_right_eq)
  also have "\<dots> = 0" using r' by (rule complement_sum)
  finally have "(cksum_raw_c ps + cksum_raw_c ?p) mod 65535 = 0" .
  moreover have "cksum_raw_c ps \<noteq> 0" using cksum_raw_val(3) [OF l(2)] l(3) by simp
  ultimately show ?thesis unfolding ck_fold_ones using b by simp
qed

section \<open>UDP and TCP segments\<close>

lemma length_udp_segment [simp]: "length (udp_segment si di sp dp d) = 8 + length d"
  by (simp add: udp_segment_def Let_def)

lemma l4_checksum_lt: "l4_checksum si di proto p < 65536"
  by (simp add: l4_checksum_def Let_def u16_bound)

lemma udp_segment_verifies:
  assumes "length d < 60000"
  shows "ck_fold ((cksum_raw_c (pseudo_header si di 17 ((8 + length d) mod 65536)) + cksum_raw_c (udp_segment si di sp dp d)) mod 4294967296) = 0xFFFF"
proof -
  let ?hd = "put16 sp @ put16 dp @ put16 ((8 + length d) mod 65536)" and ?ps = "pseudo_header si di 17 ((8 + length d) mod 65536)"
  let ?z = "?hd @ put16 0 @ d" let ?c = "l4_checksum si di 17 ?z" let ?r = "ck_fold ((cksum_raw_c ?ps + cksum_raw_c ?z) mod 4294967296)"
  have u: "udp_segment si di sp dp d = ?hd @ put16 ?c @ d" by (simp add: udp_segment_def Let_def)
  have lz: "length ?z < 65536" using assms by simp
  have ln: "length ?z = 8 + length d" by simp
  have c: "?c = (if 65535 - ?r = 0 then 0xFFFF else 65535 - ?r)"
    unfolding l4_checksum_def Let_def ln using ck_fold_val [of "(cksum_raw_c ?ps + cksum_raw_c ?z) mod 4294967296"] by (simp add: unat_not16)
  show ?thesis unfolding u
    by (rule l4_verifies [OF refl refl lz]) (use assms c l4_checksum_lt pseudo_nonzero in auto)
qed

lemma sum16_pad: "sum16 (t @ (if length t AND 1 \<noteq> 0 then [0] else [])) = sum16 t"
proof -
  have "odd (length t) \<Longrightarrow> sum16 (t @ [0]) = sum16 t" by (induction t rule: sum16.induct) auto
  then show ?thesis by (simp add: and_one_eq odd_iff_mod_2_eq_one)
qed

lemma length_tcp [simp]: "length (tcp_header c fl sq ck) = 20" "length (tcp_segment ip c fl sq d) = 20 + length d"
  by (simp_all add: tcp_header_def tcp_segment_def Let_def)

lemma tcp_segment_verifies:
  assumes "length d < 60000"
  shows "ck_fold ((cksum_raw_c (pseudo_header ip (peer_ip c) 6 ((20 + length d) mod 65536)) + cksum_raw_c (tcp_segment ip c fl sq d)) mod 4294967296) = 0xFFFF"
proof -
  let ?a = "put16 (local_port c) @ put16 (peer_port c) @ put32 sq @ put32 (rcv_nxt c) @ [80, of_nat fl] @ put16 4096" and ?b = "put16 0 @ d"
  let ?ps = "pseudo_header ip (peer_ip c) 6 ((20 + length d) mod 65536)"
  let ?t = "tcp_header c fl sq 0 @ d" let ?z = "?t @ (if length ?t AND 1 \<noteq> 0 then [0] else [])"
  let ?r = "ck_fold ((cksum_raw_c ?ps + cksum_raw_c ?z) mod 4294967296)"
  have h: "tcp_header c fl sq ck @ d = ?a @ put16 ck @ ?b" for ck by (simp add: tcp_header_def)
  have ln: "length ?t = 20 + length d" by simp
  have seg: "tcp_segment ip c fl sq d = ?a @ put16 (unat (NOT (of_nat ?r) :: u16)) @ ?b"
    unfolding h [symmetric] by (simp only: tcp_segment_def Let_def ln)
  have z: "sum16 ?z = sum16 (?a @ put16 0 @ ?b)" unfolding sum16_pad h ..
  have r: "?r < 65536" using ck_fold_val [of "(cksum_raw_c ?ps + cksum_raw_c ?z) mod 4294967296"] by simp
  show ?thesis unfolding seg
    by (rule l4_verifies [OF refl z]) (use assms r pseudo_nonzero in \<open>auto simp: unat_not16\<close>)
qed

section \<open>Frames\<close>

definition ip_frame :: "u8 list \<Rightarrow> u8 list \<Rightarrow> nat \<Rightarrow> u8 \<Rightarrow> u32 \<Rightarrow> u32 \<Rightarrow> u8 list \<Rightarrow> u8 list" where
  "ip_frame dmac smac ident proto src dst pl = dmac @ smac @ [0x08, 0x00] @ ip_header_ck (20 + length pl) ident proto src dst @ pl"

lemma ip_header_fields:
  assumes h: "holds ip 0 (ip_header_ck tot ident proto src dst)" and t: "tot < 65536"
  shows "ip 0 = 0x45" "be16 ip 2 = tot" "be16 ip 6 = 0" "ip 9 = proto" "be32 ip 12 = src" "be32 ip 16 = dst"
    "bytes_at ip 0 20 = ip_header_ck tot ident proto src dst"
proof -
  have 1: "ip 0 = 0x45" "holds ip 2 (put16 tot)" "holds ip 6 (put16 0)" "ip 9 = proto" "holds ip 12 (put32 src)" "holds ip 16 (put32 dst)"
    using h by (simp_all add: ip_header_ck_def ip_header_def numeral_2_eq_2 [symmetric])
  show "ip 0 = 0x45" "ip 9 = proto" by (fact 1)+
  show "be16 ip 2 = tot" "be16 ip 6 = 0" "be32 ip 12 = src" "be32 ip 16 = dst"
    using be16_put [OF 1(2) t] be16_put [OF 1(3)] be32_put [OF 1(5)] be32_put [OF 1(6)] by simp_all
  show "bytes_at ip 0 20 = ip_header_ck tot ident proto src dst" using h by (rule bytes_at_holds) simp
qed

text \<open>A frame with a correct transport checksum gets through to the protocols.\<close>

lemma ip_frame_input:
  assumes f: "holds f 0 (ip_frame dmac smac ident proto src dst pl)" "length dmac = 6" "length smac = 6"
    and len: "20 + length pl \<le> 1500" and s: "g_bufs s" and l4: "l4_csum_ok (\<lambda>i. f (14 + i)) 20 (20 + length pl)"
    and quiet: "\<not> dw_active (g_dhcp_w (arp_learn src smac s))" "dst = nic_ip (arp_learn src smac s)"
  shows "net_input km f (34 + length pl) s = ip_input km (\<lambda>i. f (14 + i)) 20 (arp_learn src smac s)"
proof -
  let ?ip = "\<lambda>i. f (14 + i)"
  have h: "holds ?ip 0 (ip_header_ck (20 + length pl) ident proto src dst)" using f by (simp add: ip_frame_def holds_shift)
  have t: "20 + length pl < 65536" using len by simp
  note fl = ip_header_fields [OF h t]
  have et: "be16 f 12 = 0x0800" using f by (simp add: ip_frame_def be16_sum)
  have sm: "bytes_at f 6 6 = smac" using f by (intro bytes_at_holds) (simp_all add: ip_frame_def)
  have v: "drop_bit 4 (0x45 :: u8) = 4" "unat ((0x45 :: u8) AND 0x0F) = 5" by simp_all
  have b: "f 14 = 0x45" "f 23 = proto" using fl(1,4) by simp_all
  show ?thesis unfolding net_input_def Let_def build_ready_def
    using s len l4 quiet by (simp add: et fl b v sm ip_header_verifies)
qed

end
