(* ===== verification/TcpStream.thy ===== *)
theory TcpStream
  imports NetSock
begin

text \<open>
  A TCP connection as a byte stream: whatever segments of the peer's stream arrive, in whatever order and
  however often, the bytes handed to the reader are a prefix of that stream, and the
  acknowledgement number says exactly how long it is.
\<close>

section \<open>The receive ring\<close>

definition contents :: "sock \<Rightarrow> u8 list" where
  "contents c = (case rx c of None \<Rightarrow> [] | Some b \<Rightarrow> ring_get b (rx_r c) (rx_used c))"

definition ring_ok :: "sock \<Rightarrow> bool" where
  "ring_ok c \<longleftrightarrow> (\<exists>b. rx c = Some b \<and> length b = NET_SOCK_BUF) \<and> rx_r c < NET_SOCK_BUF \<and> rx_w c < NET_SOCK_BUF"

lemma length_ring_get [simp]: "length (ring_get b r n) = n"
  by (simp add: ring_get_def)

lemma length_ring_put [simp]: "length (ring_put b w xs) = length b"
  by (induction b w xs rule: ring_put.induct) auto

lemma length_contents: "ring_ok c \<Longrightarrow> length (contents c) = rx_used c"
  by (auto simp: contents_def ring_ok_def)

lemma contents_cong: "rx c' = rx c \<Longrightarrow> rx_r c' = rx_r c \<Longrightarrow> rx_w c' = rx_w c \<Longrightarrow> contents c' = contents c"
  by (cases "rx c") (simp_all add: contents_def rx_used_def)

lemma rx_used_cases: "ring_ok c \<Longrightarrow> rx_used c = (if rx_r c \<le> rx_w c then rx_w c - rx_r c else rx_w c + NET_SOCK_BUF - rx_r c)"
  by (auto simp: rx_used_def ring_ok_def mod_if)

lemma rx_space_used:
  assumes "ring_ok c"
  shows "rx_space c = NET_SOCK_BUF - 1 - rx_used c" "rx_used c \<le> NET_SOCK_BUF - 1" "(rx_r c + rx_used c) mod NET_SOCK_BUF = rx_w c"
proof -
  have b: "rx_r c < 4096" "rx_w c < 4096" using assms by (auto simp: ring_ok_def)
  have "(4095 + rx_r c + (4294967296 - rx_w c)) mod 4294967296 mod 4096 = (4095 + rx_r c + (4294967296 - rx_w c)) mod 4096"
    by (simp add: mod_mod_cancel)
  also have "\<dots> = (4095 + rx_r c + (4096 - rx_w c) + 4096 * 1048575) mod 4096" using b by simp
  also have "\<dots> = (4095 + rx_r c + (4096 - rx_w c)) mod 4096" by (rule mod_mult_self2)
  finally show "rx_space c = NET_SOCK_BUF - 1 - rx_used c"
    unfolding rx_space_def rx_used_cases [OF assms] using b by (auto simp: mod_if)
  show "rx_used c \<le> NET_SOCK_BUF - 1" unfolding rx_used_cases [OF assms] using b by auto
  show "(rx_r c + rx_used c) mod NET_SOCK_BUF = rx_w c" unfolding rx_used_cases [OF assms] using b by (auto simp: mod_if)
qed

lemma ring_get_snoc:
  assumes "length b = NET_SOCK_BUF" "u < NET_SOCK_BUF"
  shows "ring_get (b[(r + u) mod NET_SOCK_BUF := x]) r (Suc u) = ring_get b r u @ [x]"
proof (rule nth_equalityI)
  fix k assume "k < length (ring_get (b[(r + u) mod NET_SOCK_BUF := x]) r (Suc u))"
  then have k: "k \<le> u" by simp
  show "ring_get (b[(r + u) mod NET_SOCK_BUF := x]) r (Suc u) ! k = (ring_get b r u @ [x]) ! k"
  proof (cases "k = u")
    case True
    then show ?thesis using assms by (simp add: ring_get_def nth_append del: upt_Suc)
  next
    case False
    then have "(r + k) mod NET_SOCK_BUF \<noteq> (r + u) mod NET_SOCK_BUF"
      using ring_window_inj [of r k NET_SOCK_BUF u] k assms(2) by auto
    then show ?thesis using False k by (simp add: ring_get_def nth_append del: upt_Suc)
  qed
qed simp

lemma ring_put_get:
  "length b = NET_SOCK_BUF \<Longrightarrow> w = (r + u) mod NET_SOCK_BUF \<Longrightarrow> u + length xs \<le> NET_SOCK_BUF \<Longrightarrow>
    ring_get (ring_put b w xs) r (u + length xs) = ring_get b r u @ xs"
proof (induction xs arbitrary: b w u)
  case (Cons x xs)
  have "ring_get (ring_put (b[w := x]) ((w + 1) mod NET_SOCK_BUF) xs) r (Suc u + length xs) = ring_get (b[w := x]) r (Suc u) @ xs"
    by (rule Cons.IH) (use Cons.prems in \<open>auto simp: mod_Suc_eq\<close>)
  moreover have "ring_get (b[w := x]) r (Suc u) = ring_get b r u @ [x]" using ring_get_snoc [of b u r x] Cons.prems by simp
  ultimately show ?case by simp
qed simp

lemma ring_dist: "r < N \<Longrightarrow> ((r + v) mod N + N - r) mod N = v mod N" for r v N :: nat
proof -
  assume r: "r < N"
  have "((r + v) mod N + N - r) mod N = ((r + v) mod N + (N - r)) mod N" using r by simp
  also have "\<dots> = (r + v + (N - r)) mod N" by (rule mod_add_left_eq)
  also have "\<dots> = (v + N) mod N" using r by simp
  finally show ?thesis by simp
qed

lemma rx_store_ok:
  assumes "ring_ok c" "length bs \<le> rx_space c"
  shows "\<exists>b. rx_store bs c = Done (c\<lparr>rx := Some b, rx_w := (rx_w c + length bs) mod NET_SOCK_BUF\<rparr>) \<and>
    ring_ok (c\<lparr>rx := Some b, rx_w := (rx_w c + length bs) mod NET_SOCK_BUF\<rparr>) \<and>
    contents (c\<lparr>rx := Some b, rx_w := (rx_w c + length bs) mod NET_SOCK_BUF\<rparr>) = contents c @ bs"
proof -
  obtain b where b: "rx c = Some b" "length b = NET_SOCK_BUF" using assms(1) by (auto simp: ring_ok_def)
  let ?b = "ring_put b (rx_w c) bs" and ?w = "(rx_w c + length bs) mod NET_SOCK_BUF"
  let ?c = "c\<lparr>rx := Some ?b, rx_w := ?w\<rparr>"
  note sp = rx_space_used [OF assms(1)]
  have ok: "ring_ok ?c" using assms(1) b by (auto simp: ring_ok_def)
  have r: "rx_r c < NET_SOCK_BUF" using assms(1) by (simp add: ring_ok_def)
  have "(rx_r c + (rx_used c + length bs)) mod NET_SOCK_BUF = ?w" using sp(3) by (metis add.assoc mod_add_left_eq)
  then have "rx_used ?c = (rx_used c + length bs) mod NET_SOCK_BUF"
    using ring_dist [OF r, of "rx_used c + length bs"] by (simp add: rx_used_def [of ?c])
  then have u: "rx_used ?c = rx_used c + length bs" using sp(1,2) assms(2) by simp
  have "contents ?c = ring_get ?b (rx_r c) (rx_used c + length bs)" unfolding contents_def u by simp
  also have "\<dots> = ring_get b (rx_r c) (rx_used c) @ bs" by (rule ring_put_get) (use b sp assms(2) in auto)
  finally have "contents ?c = contents c @ bs" by (simp add: contents_def b)
  then show ?thesis using ok b by (intro exI [of _ ?b]) (simp add: rx_store_def)
qed

section \<open>Sequence numbers\<close>

lemma of_nat_u32_inj: "a < 4294967296 \<Longrightarrow> b < 4294967296 \<Longrightarrow> (of_nat a :: u32) = of_nat b \<longleftrightarrow> a = b"
proof
  assume ab: "a < 4294967296" "b < 4294967296" and eq: "(of_nat a :: u32) = of_nat b"
  have "unat (of_nat a :: u32) = a" "unat (of_nat b :: u32) = b" by (rule unat_of_nat32, use ab in simp)+
  then show "a = b" using eq by metis
qed simp

lemma sint_diff:
  assumes "a < 2147483648" "b < 2147483648"
  shows "sint (x + of_nat a - (x + of_nat b) :: u32) < 0 \<longleftrightarrow> a < b"
proof (cases "a < b")
  case True
  have "of_nat (4294967296 - (b - a)) + of_nat (b - a) = (of_nat 4294967296 :: u32)"
    unfolding of_nat_add [symmetric] using assms True by simp
  also have "\<dots> = 0" by simp
  finally have z: "of_nat (4294967296 - (b - a)) + of_nat (b - a) = (0 :: u32)" .
  have "of_nat b = (of_nat a + of_nat (b - a) :: u32)" unfolding of_nat_add [symmetric] using True by simp
  then have e: "x + of_nat a - (x + of_nat b) = (of_nat (4294967296 - (b - a)) :: u32)" using z by (simp only: add_eq_0_iff) simp
  have "unat (of_nat (4294967296 - (b - a)) :: u32) = 4294967296 - (b - a)" by (rule unat_of_nat32) (use True in simp)
  then have "sint (of_nat (4294967296 - (b - a)) :: u32) < 0" by (intro sint_big) (use assms in simp)
  then show ?thesis using True by (simp only: e)
next
  case False
  have "of_nat a - of_nat b = (of_nat (a - b) :: u32)" using False by (simp add: of_nat_diff)
  moreover have "unat (of_nat (a - b) :: u32) = a - b" using assms by (intro unat_of_nat32) simp
  ultimately show ?thesis using sint_small [of "of_nat (a - b)"] False assms by simp
qed

section \<open>The stream\<close>

text \<open>A segment of the stream \<open>S\<close> whose first byte has the sequence number \<open>r0\<close>; a FIN stands at its end.\<close>

definition seg_of :: "u8 list \<Rightarrow> u32 \<Rightarrow> seg \<Rightarrow> bool" where
  "seg_of S r0 g \<longleftrightarrow> (\<exists>p. sg_seq g = r0 + of_nat p \<and> p + length (sg_data g) \<le> length S \<and>
     sg_data g = take (length (sg_data g)) (drop p S) \<and> (has (sg_flags g) TCP_FIN \<longrightarrow> p + length (sg_data g) = length S))"

definition ooo_ok :: "u8 list \<Rightarrow> u32 \<Rightarrow> sock \<Rightarrow> bool" where
  "ooo_ok S r0 c \<longleftrightarrow> (\<forall>b. ooo c = Some b \<longrightarrow> length b = TCP_OOO_BUF) \<and>
     (0 < ooo_len c \<longrightarrow> (\<exists>q b. ooo c = Some b \<and> ooo_len c \<le> TCP_OOO_BUF \<and> ooo_seq c = r0 + of_nat q \<and> q + ooo_len c \<le> length S \<and>
        take (ooo_len c) b = take (ooo_len c) (drop q S)))"

text \<open>\<open>D\<close> is what was delivered so far, the last part of it still in the ring.\<close>

definition stream_inv :: "u8 list \<Rightarrow> u32 \<Rightarrow> u8 list \<Rightarrow> sock \<Rightarrow> bool" where
  "stream_inv S r0 D c \<longleftrightarrow> ring_ok c \<and> ooo_ok S r0 c \<and> D = take (length D) S \<and> length D \<le> length S \<and>
     rcv_nxt c = r0 + of_nat (length D + (if got_fin c then 1 else 0)) \<and> (got_fin c \<longrightarrow> length D = length S)"

lemma take_take_drop: "take m (drop n S) = take m (take k (drop n S))" if "m \<le> k"
  using that by (simp add: min_absorb1)

lemma prefix_extend: "D = take (length D) S \<Longrightarrow> D @ take m (drop (length D) S) = take (length D + m) S"
  by (metis take_add)

lemma take_shift: "take l b = take l (drop q S) \<Longrightarrow> n \<le> l \<Longrightarrow> take (l - n) (drop n b) = take (l - n) (drop (q + n) S)"
  by (metis add.commute drop_drop drop_take)

text \<open>Fields the receiving of data leaves alone.\<close>

definition same_conn :: "sock \<Rightarrow> sock \<Rightarrow> bool" where
  "same_conn c c' \<longleftrightarrow> s_state c' = s_state c \<and> got_fin c' = got_fin c \<and> rx_r c' = rx_r c \<and> s_used c' = s_used c \<and> s_type c' = s_type c \<and>
     snd_nxt c' = snd_nxt c \<and> snd_una c' = snd_una c"

lemma same_conn_refl: "same_conn c c"
  by (simp add: same_conn_def)

lemma same_conn_trans: "same_conn c c' \<Longrightarrow> same_conn c' c'' \<Longrightarrow> same_conn c c''"
  by (simp add: same_conn_def)

lemma ooo_drain_ok:
  assumes "stream_inv S r0 D c" "length S < 2147483647"
  shows "\<exists>c' n E. ooo_drain c acc = Done (c', n) \<and> stream_inv S r0 (D @ E) c' \<and> contents c' = contents c @ E \<and> same_conn c c'"
  using assms
proof (induction "ooo_len c" arbitrary: c D acc rule: less_induct)
  case less
  note inv = less.prems(1) [unfolded stream_inv_def]
  let ?sp = "rx_space c" let ?n = "if ooo_len c < ?sp then ooo_len c else ?sp"
  show ?case
  proof (cases "ooo_len c = 0 \<or> ooo_seq c \<noteq> rcv_nxt c \<or> ?n = 0")
    case True
    then have "ooo_drain c acc = Done (c, acc)" by (subst ooo_drain.simps) (auto simp: Let_def)
    then show ?thesis using less.prems(1) same_conn_refl by (intro exI [of _ c] exI [of _ acc] exI [of _ "[]"]) auto
  next
    case False
    then obtain q b where b: "ooo c = Some b" "length b = TCP_OOO_BUF" "ooo_len c \<le> TCP_OOO_BUF" "ooo_seq c = r0 + of_nat q"
      "q + ooo_len c \<le> length S" "take (ooo_len c) b = take (ooo_len c) (drop q S)"
      using inv by (auto simp: ooo_ok_def)
    have "of_nat q = (of_nat (length D + (if got_fin c then 1 else 0)) :: u32)" using False b(4) inv by auto
    then have "q = length D + (if got_fin c then 1 else 0)"
      using of_nat_u32_inj [of q "length D + (if got_fin c then 1 else 0)"] b(5) inv less.prems(2) by (auto split: if_splits)
    then have q: "q = length D" "\<not> got_fin c" using b(5) inv False by (auto split: if_splits)
    have n: "0 < ?n" "?n \<le> ooo_len c" "?n \<le> ?sp" using False by auto
    have ln: "length (take ?n b) = ?n" using b n by simp
    obtain rb where rb: "rx_store (take ?n b) c = Done (c\<lparr>rx := Some rb, rx_w := (rx_w c + ?n) mod NET_SOCK_BUF\<rparr>)"
      "ring_ok (c\<lparr>rx := Some rb, rx_w := (rx_w c + ?n) mod NET_SOCK_BUF\<rparr>)"
      "contents (c\<lparr>rx := Some rb, rx_w := (rx_w c + ?n) mod NET_SOCK_BUF\<rparr>) = contents c @ take ?n b"
      using rx_store_ok [of c "take ?n b"] inv n(3) unfolding ln by blast
    let ?c = "c\<lparr>rx := Some rb, rx_w := (rx_w c + ?n) mod NET_SOCK_BUF, rcv_nxt := rcv_nxt c + of_nat ?n,
        ooo := Some (take (ooo_len c - ?n) (drop ?n b) @ drop (ooo_len c - ?n) b), ooo_len := ooo_len c - ?n, ooo_seq := rcv_nxt c + of_nat ?n\<rparr>"
    have step: "ooo_drain c acc = ooo_drain ?c (acc + ?n)" using False rb(1) b(1) by (subst ooo_drain.simps) (simp add: Let_def)
    have "take ?n b = take ?n (take (ooo_len c) b)" using n(2) by (simp only: take_take min_absorb1)
    also have "\<dots> = take ?n (take (ooo_len c) (drop q S))" by (simp only: b(6))
    also have "\<dots> = take ?n (drop (length D) S)" unfolding q(1) using n(2) by (simp only: take_take min_absorb1)
    finally have tb: "take ?n b = take ?n (drop (length D) S)" .
    have rn: "rcv_nxt c = r0 + of_nat q" using inv q by simp
    have sh: "take (ooo_len c - ?n) (drop ?n b) = take (ooo_len c - ?n) (drop (q + ?n) S)" using b(6) n(2) by (rule take_shift)
    have lb: "length (take (ooo_len c - ?n) (drop ?n b)) = ooo_len c - ?n" using b(2,3) n(2) by simp
    have oo: "ooo_ok S r0 ?c"
      unfolding ooo_ok_def using b(2,3,5) n(2) sh lb rn by (auto simp: add.assoc intro!: exI [of _ "q + ?n"])
    have D: "length (D @ take ?n b) = q + ?n" using ln q(1) by simp
    have "stream_inv S r0 (D @ take ?n b) ?c"
      unfolding stream_inv_def D using rb(2) oo rn q b(5) n(2) inv prefix_extend [of D S ?n] tb
      by (auto simp: ring_ok_def add.assoc)
    from less.hyps [OF _ this less.prems(2), of "acc + ?n"] n(1,2)
    obtain c' m E where e: "ooo_drain ?c (acc + ?n) = Done (c', m)" "stream_inv S r0 ((D @ take ?n b) @ E) c'" "contents c' = contents ?c @ E" "same_conn ?c c'"
      by auto
    have "contents ?c = contents c @ take ?n b" using rb(3) by (simp add: contents_def rx_used_def)
    then show ?thesis unfolding step using e same_conn_trans [of c ?c c']
      by (intro exI [of _ c'] exI [of _ m] exI [of _ "take ?n b @ E"]) (simp add: same_conn_def)
  qed
qed

lemma seq_pos:
  assumes "stream_inv S r0 D c" "length S < 2147483647" "p \<le> length S"
  shows "sint (r0 + of_nat p - rcv_nxt c) < 0 \<longleftrightarrow> p < length D + (if got_fin c then 1 else 0)"
    "r0 + of_nat p = rcv_nxt c \<longleftrightarrow> p = length D + (if got_fin c then 1 else 0)"
proof -
  have r: "rcv_nxt c = r0 + of_nat (length D + (if got_fin c then 1 else 0))" and l: "length D \<le> length S"
    using assms(1) by (simp_all add: stream_inv_def)
  show "r0 + of_nat p = rcv_nxt c \<longleftrightarrow> p = length D + (if got_fin c then 1 else 0)"
    unfolding r using of_nat_u32_inj [of p "length D + (if got_fin c then 1 else 0)"] assms(2,3) l by simp
  show "sint (r0 + of_nat p - rcv_nxt c) < 0 \<longleftrightarrow> p < length D + (if got_fin c then 1 else 0)"
    unfolding r by (rule sint_diff) (use assms(2,3) l in \<open>auto\<close>)
qed

lemma ooo_append:
  assumes "ooo_ok S r0 c" "length S < 2147483647" "seg_of S r0 g" "ooo c = Some b" "ooo_len c + length (sg_data g) \<le> TCP_OOO_BUF"
    "ooo_len c = 0 \<or> sg_seq g = ooo_seq c + of_nat (ooo_len c)"
  shows "ooo_ok S r0 (c\<lparr>ooo_seq := (if ooo_len c = 0 then sg_seq g else ooo_seq c),
            ooo := Some (take (ooo_len c) b @ sg_data g @ drop (ooo_len c + length (sg_data g)) b), ooo_len := ooo_len c + length (sg_data g)\<rparr>)"
proof -
  let ?l = "length (sg_data g)"
  obtain p where p: "sg_seq g = r0 + of_nat p" "p + ?l \<le> length S" "sg_data g = take ?l (drop p S)" using assms(3) by (auto simp: seg_of_def)
  have lb: "length b = TCP_OOO_BUF" using assms(1,4) by (simp add: ooo_ok_def)
  show ?thesis
  proof (cases "ooo_len c = 0")
    case True
    then show ?thesis using p lb assms(5) by (auto simp: ooo_ok_def)
  next
    case False
    then obtain q where q: "ooo_seq c = r0 + of_nat q" "q + ooo_len c \<le> length S" "take (ooo_len c) b = take (ooo_len c) (drop q S)"
      using assms(1,4) by (auto simp: ooo_ok_def)
    have "of_nat p = (of_nat (q + ooo_len c) :: u32)" using assms(6) False p(1) q(1) by (simp add: add.assoc)
    then have pq: "p = q + ooo_len c" using of_nat_u32_inj [of p "q + ooo_len c"] p(2) q(2) assms(2) by simp
    have "take (ooo_len c) (drop q S) @ take ?l (drop p S) = take (ooo_len c + ?l) (drop q S)"
      unfolding pq by (simp add: take_add add.commute)
    then show ?thesis using p q lb assms(5) False pq by (auto simp: ooo_ok_def intro!: exI [of _ q])
  qed
qed

lemma data_in_order:
  assumes inv: "stream_inv S r0 D c" and S: "length S < 2147483647" and g: "seg_of S r0 g" and l: "sg_data g \<noteq> []" "sg_seq g = rcv_nxt c"
  shows "\<exists>c' n E. data_sock g c = Done (c', n) \<and> stream_inv S r0 (D @ E) c' \<and> contents c' = contents c @ E \<and> same_conn c c'"
proof -
  obtain p where p: "sg_seq g = r0 + of_nat p" "p + length (sg_data g) \<le> length S" "sg_data g = take (length (sg_data g)) (drop p S)"
    using g by (auto simp: seg_of_def)
  let ?l = "length (sg_data g)" let ?tk = "if ?l > rx_space c then rx_space c else ?l"
  note pos = seq_pos [OF inv S, of p, folded p(1)]
  have ring: "ring_ok c" using inv by (simp add: stream_inv_def)
  have q: "p = length D" "\<not> got_fin c" using pos(2) p(2) l inv by (auto simp: stream_inv_def split: if_splits)
  have tk: "length (take ?tk (sg_data g)) = ?tk" "?tk \<le> rx_space c" by auto
  obtain rb where rb: "rx_store (take ?tk (sg_data g)) c = Done (c\<lparr>rx := Some rb, rx_w := (rx_w c + ?tk) mod NET_SOCK_BUF\<rparr>)"
    "ring_ok (c\<lparr>rx := Some rb, rx_w := (rx_w c + ?tk) mod NET_SOCK_BUF\<rparr>)"
    "contents (c\<lparr>rx := Some rb, rx_w := (rx_w c + ?tk) mod NET_SOCK_BUF\<rparr>) = contents c @ take ?tk (sg_data g)"
    using rx_store_ok [OF ring, of "take ?tk (sg_data g)"] tk(2) unfolding tk(1) by blast
  let ?c = "c\<lparr>rx := Some rb, rx_w := (rx_w c + ?tk) mod NET_SOCK_BUF, rcv_nxt := rcv_nxt c + of_nat ?tk\<rparr>"
  have step: "data_sock g c = ooo_drain ?c ?tk" using l rb(1) by (simp add: data_sock_def Let_def)
  have "take ?tk (sg_data g) = take ?tk (take ?l (drop p S))" using p(3) by simp
  also have "\<dots> = take ?tk (drop (length D) S)" unfolding q(1) by (simp only: take_take) simp
  finally have t: "take ?tk (sg_data g) = take ?tk (drop (length D) S)" .
  have "stream_inv S r0 (D @ take ?tk (sg_data g)) ?c"
    unfolding stream_inv_def using rb(2) inv q p(2) prefix_extend [of D S ?tk] tk(1) t
    by (auto simp: stream_inv_def ring_ok_def ooo_ok_def add.assoc)
  from ooo_drain_ok [OF this S, of ?tk] obtain c' n E where e: "ooo_drain ?c ?tk = Done (c', n)"
    "stream_inv S r0 ((D @ take ?tk (sg_data g)) @ E) c'" "contents c' = contents ?c @ E" "same_conn ?c c'" by blast
  have "contents ?c = contents c @ take ?tk (sg_data g)" using rb(3) by (simp add: contents_def rx_used_def)
  then show ?thesis unfolding step using e
    by (intro exI [of _ c'] exI [of _ n] exI [of _ "take ?tk (sg_data g) @ E"]) (simp add: same_conn_def)
qed

lemma data_sock_ok:
  assumes inv: "stream_inv S r0 D c" and S: "length S < 2147483647" and g: "seg_of S r0 g"
  shows "\<exists>c' n E. data_sock g c = Done (c', n) \<and> stream_inv S r0 (D @ E) c' \<and> contents c' = contents c @ E \<and> same_conn c c'"
proof -
  let ?l = "length (sg_data g)"
  show ?thesis
  proof (cases "?l = 0 \<or> sint (sg_seq g - rcv_nxt c) < 0")
    case True
    then have "data_sock g c = Done (c, 0)" unfolding data_sock_def Let_def by auto
    then show ?thesis using inv same_conn_refl by (intro exI [of _ c] exI [of _ 0] exI [of _ "[]"]) auto
  next
    case False
    show ?thesis
    proof (cases "sg_seq g = rcv_nxt c")
      case True
      then show ?thesis using data_in_order [OF inv S g] False by simp
    next
      case ne: False
      show ?thesis
      proof (cases "\<exists>b. ooo c = Some b \<and> ooo_len c + ?l \<le> TCP_OOO_BUF \<and> (ooo_len c = 0 \<or> sg_seq g = ooo_seq c + of_nat (ooo_len c))")
        case True
        then obtain b where b: "ooo c = Some b" "ooo_len c + ?l \<le> TCP_OOO_BUF" "ooo_len c = 0 \<or> sg_seq g = ooo_seq c + of_nat (ooo_len c)" by blast
        let ?c = "c\<lparr>ooo_seq := (if ooo_len c = 0 then sg_seq g else ooo_seq c),
            ooo := Some (take (ooo_len c) b @ sg_data g @ drop (ooo_len c + ?l) b), ooo_len := ooo_len c + ?l\<rparr>"
        have step: "data_sock g c = Done (?c, 0)" using False ne b by (simp add: data_sock_def Let_def)
        have "ooo_ok S r0 ?c" using ooo_append [OF _ S g b] inv by (simp add: stream_inv_def)
        then have "stream_inv S r0 (D @ []) ?c" using inv by (simp add: stream_inv_def ring_ok_def)
        moreover have "contents ?c = contents c @ []" using contents_cong [of ?c c] by simp
        ultimately show ?thesis using step by (intro exI [of _ ?c] exI [of _ 0] exI [of _ "[]"]) (simp add: same_conn_def)
      next
        case nope: False
        have "data_sock g c = Done (c, 0)"
        proof (cases "ooo c")
          case (Some b)
          have "\<not> (ooo_len c + ?l \<le> TCP_OOO_BUF \<and> (ooo_len c = 0 \<or> sg_seq g = ooo_seq c + of_nat (ooo_len c)))" using nope Some by blast
          then show ?thesis using False ne Some unfolding data_sock_def Let_def by (simp only: if_False option.case) simp
        qed (use False ne in \<open>simp add: data_sock_def\<close>)
        then show ?thesis using inv same_conn_refl by (intro exI [of _ c] exI [of _ 0] exI [of _ "[]"]) auto
      qed
    qed
  qed
qed

section \<open>A connection\<close>

lemma send_socks [simp]:
  "g_socks (snd (rtl8139_send fr s)) = g_socks s" "g_socks (snd (tcp_send_seg_ex i fl d sq s)) = g_socks s" "g_socks (snd (tcp_send_seg i fl d s)) = g_socks s"
proof -
  show "g_socks (snd (rtl8139_send fr s)) = g_socks s" for fr s by (simp add: rtl8139_send_def)
  show "g_socks (snd (tcp_send_seg_ex i fl d sq s)) = g_socks s" for i fl d sq s
    by (auto simp: tcp_send_seg_ex_def rtl8139_send_def Let_def split: option.splits)
  then show "g_socks (snd (tcp_send_seg i fl d s)) = g_socks s" by (simp add: tcp_send_seg_def)
qed

lemma upd_sock_nth [simp]: "i < length (g_socks s) \<Longrightarrow> g_socks (upd_sock i f s) ! i = f (g_socks s ! i)" "length (g_socks (upd_sock i f s)) = length (g_socks s)"
  by (simp_all add: upd_sock_def)

lemma ack_sock_stream: "stream_inv S r0 D (ack_sock t g c) = stream_inv S r0 D c" "contents (ack_sock t g c) = contents c" "s_state (ack_sock t g c) = s_state c"
  by (auto simp: ack_sock_def Let_def stream_inv_def ring_ok_def ooo_ok_def intro: contents_cong)

lemma fin_sock_stream:
  assumes "stream_inv S r0 D c" "length S < 2147483647" "seg_of S r0 g"
  shows "stream_inv S r0 D (fin_sock g c)"
proof (cases "has (sg_flags g) TCP_FIN \<and> sg_seq g + of_nat (length (sg_data g)) = rcv_nxt c")
  case True
  then obtain p where p: "sg_seq g = r0 + of_nat p" "p + length (sg_data g) = length S" using assms(3) by (auto simp: seg_of_def)
  have "r0 + of_nat (length S) = rcv_nxt c" using True p by (simp add: add.assoc flip: p(2))
  then have "length S = length D + (if got_fin c then 1 else 0)" using seq_pos(2) [OF assms(1,2), of "length S"] by simp
  then have "length D = length S" "\<not> got_fin c" using assms(1) by (auto simp: stream_inv_def split: if_splits)
  then show ?thesis using True assms(1) by (simp add: fin_sock_def stream_inv_def ring_ok_def ooo_ok_def add.assoc)
qed (use assms(1) in \<open>auto simp: fin_sock_def\<close>)

definition receiving :: "sock \<Rightarrow> bool" where
  "receiving c \<longleftrightarrow> s_state c = TS_ESTABLISHED \<or> s_state c = TS_CLOSE_WAIT"

lemma tcp_receive_ok:
  assumes "stream_inv S r0 D (g_socks s ! i)" "length S < 2147483647" "seg_of S r0 g" "i < length (g_socks s)" "receiving (g_socks s ! i)"
  shows "\<exists>s' E. tcp_receive i g s = Done s' \<and> stream_inv S r0 (D @ E) (g_socks s' ! i) \<and> contents (g_socks s' ! i) = contents (g_socks s ! i) @ E \<and>
    receiving (g_socks s' ! i) \<and> length (g_socks s') = length (g_socks s)"
proof -
  obtain c' n E where e: "data_sock g (g_socks s ! i) = Done (c', n)" "stream_inv S r0 (D @ E) c'" "contents c' = contents (g_socks s ! i) @ E"
    "same_conn (g_socks s ! i) c'" using data_sock_ok [OF assms(1-3)] by blast
  let ?c2 = "fin_sock g c'"
  let ?f = "has (sg_flags g) TCP_FIN \<and> sg_seq g + of_nat (length (sg_data g)) = rcv_nxt c'"
  let ?c3 = "if ?f \<and> s_state ?c2 = TS_ESTABLISHED then ?c2\<lparr>s_state := TS_CLOSE_WAIT\<rparr> else ?c2"
  have "stream_inv S r0 (D @ E) ?c2" by (rule fin_sock_stream [OF e(2) assms(2,3)])
  then have 3: "stream_inv S r0 (D @ E) ?c3" by (simp add: stream_inv_def ring_ok_def ooo_ok_def)
  have c3: "contents ?c3 = contents c'" by (rule contents_cong) (auto simp: fin_sock_def)
  have r: "receiving ?c3" using assms(5) e(4) by (auto simp: receiving_def same_conn_def fin_sock_def)
  show ?thesis unfolding tcp_receive_def using assms(4) e 3 c3 r by (auto simp: Let_def)
qed

lemma tcp_conn_input_ok:
  assumes "stream_inv S r0 D (g_socks s ! i)" "length S < 2147483647" "seg_of S r0 g" "i < length (g_socks s)" "receiving (g_socks s ! i)"
    "\<not> has (sg_flags g) TCP_RST"
  shows "\<exists>s' E. tcp_conn_input i g s = Done s' \<and> stream_inv S r0 (D @ E) (g_socks s' ! i) \<and> contents (g_socks s' ! i) = contents (g_socks s ! i) @ E \<and>
    receiving (g_socks s' ! i) \<and> length (g_socks s') = length (g_socks s)"
proof -
  let ?s = "upd_sock i (ack_sock (pit_ticks s) g) s"
  have "tcp_conn_input i g s = tcp_receive i g ?s"
    using assms(4-6) by (auto simp: tcp_conn_input_def Let_def receiving_def ack_sock_stream)
  moreover have "stream_inv S r0 D (g_socks ?s ! i)" "receiving (g_socks ?s ! i)" "contents (g_socks ?s ! i) = contents (g_socks s ! i)"
    using assms(1,4,5) by (simp_all add: ack_sock_stream receiving_def)
  ultimately show ?thesis using tcp_receive_ok [of S r0 D ?s i g] assms(2-4) by auto
qed

lemma ring_get_take: "n \<le> u \<Longrightarrow> ring_get b r n = take n (ring_get b r u)"
  by (simp add: ring_get_def take_map)

lemma ring_get_drop: "n \<le> u \<Longrightarrow> ring_get b ((r + n) mod NET_SOCK_BUF) (u - n) = drop n (ring_get b r u)"
  by (rule nth_equalityI) (auto simp: ring_get_def mod_add_left_eq add.assoc)

lemma contents_advance:
  assumes "ring_ok c" "n \<le> rx_used c" "r' = (rx_r c + n) mod NET_SOCK_BUF"
  shows "contents (c\<lparr>rx_r := r'\<rparr>) = drop n (contents c)"
proof -
  obtain b where b: "rx c = Some b" using assms(1) by (auto simp: ring_ok_def)
  note sp = rx_space_used [OF assms(1)]
  have "(r' + (rx_used c - n)) mod NET_SOCK_BUF = rx_w c" using sp(3) assms(2) unfolding assms(3) mod_add_left_eq by simp
  moreover have "r' < NET_SOCK_BUF" unfolding assms(3) by simp
  ultimately have "(rx_w c + NET_SOCK_BUF - r') mod NET_SOCK_BUF = rx_used c - n"
    using ring_dist [of r' NET_SOCK_BUF "rx_used c - n"] sp(2) by simp
  then have "rx_used (c\<lparr>rx_r := r'\<rparr>) = rx_used c - n"
    unfolding rx_used_def [of "c\<lparr>rx_r := r'\<rparr>"] by simp
  then show ?thesis using ring_get_drop [OF assms(2), of b "rx_r c"] by (simp add: contents_def b assms(3))
qed

lemma tcp_recv_ok:
  assumes "stream_inv S r0 D (g_socks s ! i)" "i < length (g_socks s)"
  shows "\<exists>s' d. tcp_recv i mx s = Done (d, s') \<and> contents (g_socks s ! i) = d @ contents (g_socks s' ! i) \<and> stream_inv S r0 D (g_socks s' ! i) \<and>
    s_state (g_socks s' ! i) = s_state (g_socks s ! i) \<and> length (g_socks s') = length (g_socks s) \<and> (0 < mx \<and> contents (g_socks s ! i) \<noteq> [] \<longrightarrow> d \<noteq> [])"
proof -
  let ?c = "g_socks s ! i"
  let ?n = "if mx < rx_used ?c then mx else rx_used ?c"
  have ring: "ring_ok ?c" using assms(1) by (simp add: stream_inv_def)
  then obtain b where b: "rx ?c = Some b" "length b = NET_SOCK_BUF" by (auto simp: ring_ok_def)
  have ct: "contents ?c = ring_get b (rx_r ?c) (rx_used ?c)" by (simp add: contents_def b)
  show ?thesis
  proof (cases "?n = 0")
    case True
    then show ?thesis using assms ct by (auto simp: tcp_recv_def Let_def ring_get_def split: if_splits)
  next
    case False
    let ?c' = "?c\<lparr>rx_r := (rx_r ?c + ?n) mod NET_SOCK_BUF\<rparr>"
    let ?s = "upd_sock i (\<lambda>c. c\<lparr>rx_r := (rx_r c + ?n) mod NET_SOCK_BUF\<rparr>) s"
    have run: "tcp_recv i mx s = Done (ring_get b (rx_r ?c) ?n, ?s)" using False b by (simp add: tcp_recv_def Let_def)
    have "contents ?c' = drop ?n (contents ?c)" by (rule contents_advance [OF ring]) simp_all
    moreover have "ring_get b (rx_r ?c) ?n = take ?n (contents ?c)" unfolding ct by (rule ring_get_take) simp
    moreover have "stream_inv S r0 D ?c'" using assms(1) by (auto simp: stream_inv_def ring_ok_def ooo_ok_def)
    moreover have "ring_get b (rx_r ?c) ?n \<noteq> []" using False length_ring_get [of b "rx_r ?c" ?n] by (metis list.size(3))
    ultimately show ?thesis using run assms(2) by (intro exI [of _ ?s] exI [of _ "ring_get b (rx_r ?c) ?n"]) simp
  qed
qed

text \<open>A run of a connection: segments that arrive and reads of the application; what the reads return is
  concatenated.\<close>

datatype conn_ev = Segment seg | Read nat

fun conn_run :: "nat \<Rightarrow> conn_ev list \<Rightarrow> net \<Rightarrow> (u8 list \<times> net) nres" where
  "conn_run i [] s = Done ([], s)"
| "conn_run i (Segment g # es) s = nbind (tcp_conn_input i g s) (conn_run i es)"
| "conn_run i (Read mx # es) s = nbind (tcp_recv i mx s) (\<lambda>(d, s1). nbind (conn_run i es s1) (\<lambda>(ds, s2). Done (d @ ds, s2)))"

lemma conn_run_ok:
  assumes "stream_inv S r0 D (g_socks s ! i)" "length S < 2147483647" "i < length (g_socks s)" "receiving (g_socks s ! i)"
    "\<forall>g. Segment g \<in> set es \<longrightarrow> seg_of S r0 g \<and> \<not> has (sg_flags g) TCP_RST" "D = Q @ contents (g_socks s ! i)"
  shows "\<exists>R s' D'. conn_run i es s = Done (R, s') \<and> stream_inv S r0 D' (g_socks s' ! i) \<and> D' = Q @ R @ contents (g_socks s' ! i)"
  using assms
proof (induction i es s arbitrary: D Q rule: conn_run.induct)
  case (2 i g es s)
  obtain s' E where s': "tcp_conn_input i g s = Done s'" "stream_inv S r0 (D @ E) (g_socks s' ! i)"
    "contents (g_socks s' ! i) = contents (g_socks s ! i) @ E" "receiving (g_socks s' ! i)" "length (g_socks s') = length (g_socks s)"
    using tcp_conn_input_ok [OF "2.prems"(1,2) _ "2.prems"(3,4)] "2.prems"(5) by fastforce
  show ?case using "2.IH" [OF s'(2) "2.prems"(2), of Q] s' "2.prems"(3,5,6) by auto
next
  case (3 i mx es s)
  obtain s' d where s': "tcp_recv i mx s = Done (d, s')" "contents (g_socks s ! i) = d @ contents (g_socks s' ! i)" "stream_inv S r0 D (g_socks s' ! i)"
    "s_state (g_socks s' ! i) = s_state (g_socks s ! i)" "length (g_socks s') = length (g_socks s)"
    using tcp_recv_ok [OF "3.prems"(1,3)] by blast
  have "receiving (g_socks s' ! i)" using "3.prems"(4) s'(4) by (simp add: receiving_def)
  from "3.IH" [OF s'(3) "3.prems"(2) _ this, of "Q @ d"] s' "3.prems"(3,5,6)
  obtain R s'' D' where "conn_run i es s' = Done (R, s'')" "stream_inv S r0 D' (g_socks s'' ! i)" "D' = Q @ d @ R @ contents (g_socks s'' ! i)"
    by auto
  then show ?case using s'(1) by auto
qed auto

text \<open>C29: a TCP receiver delivers the byte stream of its peer. Starting from a fresh connection with an
  empty ring, after any sequence of arriving segments of a stream (lost, repeated, reordered, overlapping,
  with or without FIN) and of reads of any size, the call has returned, the bytes read followed by those in the
  ring are exactly the first bytes of the stream, the next sequence number the receiver asks for is
  the number of these bytes past the start (plus one once the FIN is counted), and the end of the stream is
  reported only when all of it was delivered.\<close>

theorem tcp_stream_prefix:
  assumes S: "length S < 2147483647"
    and i: "i < length (g_socks s)" "s_state (g_socks s ! i) = TS_ESTABLISHED"
    and ring: "rx (g_socks s ! i) = Some b" "length b = NET_SOCK_BUF" "rx_r (g_socks s ! i) = 0" "rx_w (g_socks s ! i) = 0"
    and fresh: "rcv_nxt (g_socks s ! i) = r0" "\<not> got_fin (g_socks s ! i)" "ooo_len (g_socks s ! i) = 0"
      "ooo (g_socks s ! i) = Some ob" "length ob = TCP_OOO_BUF"
    and segs: "\<forall>g. Segment g \<in> set es \<longrightarrow> seg_of S r0 g \<and> \<not> has (sg_flags g) TCP_RST"
  shows "\<exists>R s'. conn_run i es s = Done (R, s') \<and>
    (let c = g_socks s' ! i; n = length R + rx_used c in
       R @ contents c = take n S \<and> n \<le> length S \<and> rcv_nxt c = r0 + of_nat n + (if got_fin c then 1 else 0) \<and> (got_fin c \<longrightarrow> n = length S))"
proof -
  let ?c = "g_socks s ! i"
  have "stream_inv S r0 [] ?c" using ring fresh by (auto simp: stream_inv_def ring_ok_def ooo_ok_def)
  moreover have "contents ?c = []" using ring by (simp add: contents_def rx_used_def ring_get_def)
  ultimately obtain R s' where r: "conn_run i es s = Done (R, s')" "stream_inv S r0 (R @ contents (g_socks s' ! i)) (g_socks s' ! i)"
    using conn_run_ok [of S r0 "[]" s i es "[]"] S i segs by (auto simp: receiving_def)
  have "length (contents (g_socks s' ! i)) = rx_used (g_socks s' ! i)" using r(2) by (intro length_contents) (simp add: stream_inv_def)
  then show ?thesis using r by (intro exI [of _ R] exI [of _ s']) (auto simp: stream_inv_def Let_def add.assoc)
qed

text \<open>Four bytes in two segments, the second one first.\<close>

definition est_sock :: sock where
  "est_sock = sock0\<lparr>s_used := True, s_type := SOCK_TYPE_TCP, s_state := TS_ESTABLISHED, rx := Some (replicate NET_SOCK_BUF 0),
     ooo := Some (replicate TCP_OOO_BUF 0), rcv_nxt := 0xFFFFFFFE\<rparr>"

definition seg_at :: "nat \<Rightarrow> u8 list \<Rightarrow> seg" where
  "seg_at p d = \<lparr>sg_flags = TCP_ACK, sg_seq = 0xFFFFFFFE + of_nat p, sg_ack = 0, sg_data = d, sg_sport = 0, sg_dport = 0, sg_src = 0\<rparr>"

theorem tcp_stream_prefix_witness:
  "\<exists>R s'. conn_run 0 [Segment (seg_at 2 [3, 4]), Segment (seg_at 0 [1, 2]), Read 100] (net0\<lparr>g_socks := [est_sock]\<rparr>) = Done (R, s') \<and>
    R @ contents (g_socks s' ! 0) = take (length R + rx_used (g_socks s' ! 0)) [1, 2, 3, 4]"
proof -
  have "\<forall>g. Segment g \<in> set [Segment (seg_at 2 [3, 4]), Segment (seg_at 0 [1, 2]), Read 100] \<longrightarrow>
      seg_of [1, 2, 3, 4] 0xFFFFFFFE g \<and> \<not> has (sg_flags g) TCP_RST"
    by (auto simp: seg_of_def seg_at_def intro: exI [of _ 0] exI [of _ 2])
  then show ?thesis
    using tcp_stream_prefix [of "[1, 2, 3, 4]" 0 "net0\<lparr>g_socks := [est_sock]\<rparr>" "replicate NET_SOCK_BUF 0" "0xFFFFFFFE" "replicate TCP_OOO_BUF 0"
        "[Segment (seg_at 2 [3, 4]), Segment (seg_at 0 [1, 2]), Read 100]"]
    by (auto simp: est_sock_def sock0_def Let_def)
qed

end
