(* ===== verification/NetUdp.thy ===== *)
theory NetUdp
  imports NetCodec TcpStream
begin

text \<open>
  A datagram from one machine to another: what \<open>net_udp_send\<close> puts on the wire, \<open>net_input\<close> of the receiver
  delivers to the socket bound to the port, and \<open>recvfrom\<close> returns it with its sender. The ring of a UDP
  socket is a queue of datagrams.
\<close>

section \<open>Sending\<close>

lemma frame_bytes: "length h = k \<Longrightarrow> bytes_at (put_at 0 h (put_at k pl g)) 0 (k + length pl) = h @ pl"
  by (rule bytes_at_holds) (auto simp: holds_def put_at_def nth_append)

lemma udp_send_frame:
  assumes "arp_lookup dst s = Some mac" "length mac = 6" "length (nic_mac s) = 6" "nic_present s" "nic_free s" "length d \<le> 1472"
  shows "\<exists>s'. net_udp_send km dst dport sport d rs s = Done (int (length d), rs, s') \<and>
    sent s' = sent s @ [ip_frame mac (nic_mac s) ((g_ip_id s + 1) mod 65536) 17 (nic_ip s) dst (udp_segment (nic_ip s) dst sport dport d)]"
proof -
  let ?u = "udp_segment (nic_ip s) dst sport dport d"
  let ?s1 = "s\<lparr>g_frame := put_at 34 ?u (g_frame s)\<rparr>"
  let ?hd = "mac @ nic_mac s @ [0x08, 0x00] @ ip_header_ck (20 + length ?u) ((g_ip_id s + 1) mod 65536) 17 (nic_ip s) dst"
  have ne: "?u \<noteq> []" by (metis add_is_0 length_0_conv length_udp_segment zero_neq_numeral)
  have copy: "ipv4_copy ?u s = Some ?s1" using assms(6) ne by (simp add: ipv4_copy_def)
  have look: "arp_lookup dst ?s1 = Some mac" using assms(1) by (simp add: arp_lookup_def cong: list.case_cong)
  have l: "length ?hd = 34" using assms(2,3) by simp
  have fr: "g_frame ?s1 = put_at 34 ?u (g_frame s)" by simp
  have bytes: "bytes_at (put_at 0 ?hd (g_frame ?s1)) 0 (34 + length ?u) = ?hd @ ?u"
    unfolding fr by (rule frame_bytes [OF l])
  have "\<exists>s2. ipv4_emit dst mac 17 (length ?u) ?s1 = (True, s2) \<and> sent s2 = sent s @ [?hd @ ?u]"
    unfolding ipv4_emit_def Let_def using assms bytes by (simp add: rtl8139_send_def)
  then show ?thesis using assms(6) copy look
    by (auto simp: net_udp_send_def ipv4_send_def ipv4_send_via_def arp_resolve_def ip_frame_def)
qed

section \<open>Receiving\<close>

lemma arp_learn_fields [simp]:
  "g_socks (arp_learn ip m s) = g_socks s" "nic_ip (arp_learn ip m s) = nic_ip s" "g_dhcp_w (arp_learn ip m s) = g_dhcp_w s"
  "g_dns_w (arp_learn ip m s) = g_dns_w s"
  by (auto simp: arp_learn_def Let_def split: list.splits)

lemma udp_segment_fields:
  assumes "holds u 0 (udp_segment si di sp dp d)" "sp < 65536" "dp < 65536" "length d \<le> 1472"
  shows "be16 u 0 = sp" "be16 u 2 = dp" "be16 u 4 = 8 + length d" "bytes_at u 8 (length d) = d"
proof -
  have h: "holds u 0 (put16 sp)" "holds u 2 (put16 dp)" "holds u 4 (put16 (8 + length d))" "holds u 8 d"
    using assms(1,4) unfolding udp_segment_def Let_def holds_append length_puts by (simp_all add: numeral_2_eq_2 [symmetric])
  show "be16 u 0 = sp" "be16 u 2 = dp" "be16 u 4 = 8 + length d"
    using be16_put [OF h(1) assms(2)] be16_put [OF h(2) assms(3)] be16_put [OF h(3)] assms(4) by simp_all
  show "bytes_at u 8 (length d) = d" by (rule bytes_at_holds [OF h(4) refl])
qed

lemma udp_frame_input:
  assumes f: "holds f 0 (ip_frame dmac smac ident 17 src (nic_ip s) (udp_segment src (nic_ip s) sp dp d))" "length dmac = 6" "length smac = 6"
    and d: "length d \<le> 1472" "sp < 65536" "dp < 65536" and s: "g_bufs s" "\<not> dw_active (g_dhcp_w s)" "\<not> nw_active (g_dns_w s)"
  shows "net_input km f (42 + length d) s =
    nbind (udp_deliver src sp dp d ((arp_learn src smac s)\<lparr>udp_rx := udp_rx (arp_learn src smac s) + 1\<rparr>)) (\<lambda>s1. Done (0, s1))"
proof -
  let ?ip = "\<lambda>i. f (14 + i)" and ?u = "udp_segment src (nic_ip s) sp dp d" and ?s1 = "arp_learn src smac s"
  have h: "holds ?ip 0 (ip_header_ck (28 + length d) ident 17 src (nic_ip s))" "holds (\<lambda>i. f (34 + i)) 0 ?u"
    using f by (simp_all add: ip_frame_def holds_shift)
  have t: "28 + length d < 65536" using d(1) by simp
  note fl = ip_header_fields [OF h(1) t]
  note uf = udp_segment_fields [OF h(2) d(2,3,1)]
  have seg: "bytes_at ?ip 20 (8 + length d) = ?u"
  proof (rule bytes_at_holds)
    show "holds ?ip 20 ?u" using h(2) by (simp add: holds_shift)
  qed simp
  have "l4_csum_ok ?ip 20 (20 + length ?u)"
    unfolding l4_csum_ok_def Let_def using fl seg udp_segment_verifies [of d src "nic_ip s" sp dp] d(1) by simp
  then have "net_input km f (34 + length ?u) s = ip_input km ?ip 20 ?s1" using f d(1) s by (intro ip_frame_input) simp_all
  moreover have "dns_input ?ip 20 ?s1 = (False, ?s1)" using s(3) by (simp add: dns_input_def)
  moreover have "udp_input ?ip 20 ?s1 = udp_deliver src sp dp d (?s1\<lparr>udp_rx := udp_rx ?s1 + 1\<rparr>)"
  proof -
    have e: "be16 ?ip 20 = sp" "be16 ?ip 22 = dp" "be16 ?ip 24 = 8 + length d" using uf(1-3) by (simp_all add: be16_def)
    have b: "bytes_at ?ip 28 (length d) = d" using uf(4) by (simp add: bytes_at_def)
    show ?thesis unfolding udp_input_def Let_def using fl e b d(1) by simp
  qed
  ultimately show ?thesis using fl(4) by (simp add: ip_input_def)
qed

section \<open>The queue of a socket\<close>

definition udp_bound :: "nat \<Rightarrow> nat \<Rightarrow> net \<Rightarrow> bool" where
  "udp_bound j port s \<longleftrightarrow> j < NET_MAX_SOCKS \<and> j < length (g_socks s) \<and>
     (\<forall>i \<le> j. (s_used (g_socks s ! i) \<and> s_type (g_socks s ! i) = SOCK_TYPE_UDP \<and> local_port (g_socks s ! i) = port) \<longleftrightarrow> i = j)"

lemma length_udp_record [simp]: "length (udp_record ip port d) = 8 + length d"
  by (simp add: udp_record_def)

lemma udp_deliver_ok:
  assumes b: "udp_bound j dp s" and r: "ring_ok (g_socks s ! j)" and sp: "8 + length d \<le> rx_space (g_socks s ! j)"
  shows "\<exists>s'. udp_deliver ip port dp d s = Done s' \<and> ring_ok (g_socks s' ! j) \<and>
    contents (g_socks s' ! j) = contents (g_socks s ! j) @ udp_record ip port d \<and> (\<forall>i. i \<noteq> j \<longrightarrow> g_socks s' ! i = g_socks s ! i) \<and>
    length (g_socks s') = length (g_socks s)"
proof -
  let ?P = "\<lambda>i. s_used (g_socks s ! i) \<and> s_type (g_socks s ! i) = SOCK_TYPE_UDP \<and> local_port (g_socks s ! i) = dp"
  have P: "?P i \<longleftrightarrow> i = j" if "i \<le> j" for i using b that unfolding udp_bound_def by blast
  have "?P j" using P [of j] by blast
  moreover have "j < NET_MAX_SOCKS" using b by (simp add: udp_bound_def)
  moreover have "\<forall>i < j. \<not> ?P i" using P by (metis less_imp_le_nat less_irrefl)
  ultimately obtain rest where f: "filter ?P [0..<NET_MAX_SOCKS] = j # rest" using first_filter [of ?P j NET_MAX_SOCKS] by blast
  obtain c' where c': "rx_store (udp_record ip port d) (g_socks s ! j) = Done c'" "ring_ok c'" "contents c' = contents (g_socks s ! j) @ udp_record ip port d"
    using rx_store_ok [OF r, of "udp_record ip port d"] sp by auto
  show ?thesis unfolding udp_deliver_def Let_def f using c' sp b by (auto simp: upd_sock_def udp_bound_def)
qed

lemma le16_record: "(unat (wr16le v ! 0) OR push_bit 8 (unat (wr16le v ! 1))) = v" if "v < 65536"
proof -
  have "v div 256 < 256" using that by (simp add: less_mult_imp_div_less)
  then show ?thesis using or_shift [of "v mod 256" 8 "v div 256"] by (simp add: wr16le_def unat_of_nat drop_bit_eq_div)
qed

lemma udp_recv_ok:
  assumes j: "j < length (g_socks s)" "ring_ok (g_socks s ! j)" and q: "contents (g_socks s ! j) = udp_record ip port d @ rest"
    and l: "length d < 65536" "port < 65536"
  shows "\<exists>s'. udp_recv j mx s = Done ((take mx d, ip, port), s') \<and> contents (g_socks s' ! j) = rest"
proof -
  let ?c = "g_socks s ! j"
  obtain b where b: "rx ?c = Some b" "length b = NET_SOCK_BUF" using j(2) by (auto simp: ring_ok_def)
  have u: "rx_used ?c = 8 + length d + length rest" using length_contents [OF j(2)] q by simp
  have ct: "ring_get b (rx_r ?c) (rx_used ?c) = udp_record ip port d @ rest" using q by (simp add: contents_def b)
  have "ring_get b (rx_r ?c) 8 = take 8 (ring_get b (rx_r ?c) (rx_used ?c))" by (rule ring_get_take) (simp add: u)
  then have hdr: "ring_get b (rx_r ?c) 8 = put32 ip @ wr16le port @ wr16le (length d)" unfolding ct using l(1) by (simp add: udp_record_def)
  have w: "(put32 ip @ wr16le port @ wr16le (length d)) ! k =
      (if k < 4 then put32 ip ! k else if k - 4 < 2 then wr16le port ! (k - 4) else wr16le (length d) ! (k - 4 - 2))" for k by (simp add: nth_append)
  have dn: "(unat (ring_get b (rx_r ?c) 8 ! 6) OR push_bit 8 (unat (ring_get b (rx_r ?c) 8 ! 7))) = length d"
    "(unat (ring_get b (rx_r ?c) 8 ! 4) OR push_bit 8 (unat (ring_get b (rx_r ?c) 8 ! 5))) = port"
    unfolding hdr w using le16_record l by simp_all
  have ip: "be32 (\<lambda>k. ring_get b (rx_r ?c) 8 ! k) 0 = ip" unfolding hdr w by (rule be32_put) (simp add: holds_def)
  have "ring_get b ((rx_r ?c + 8) mod NET_SOCK_BUF) (rx_used ?c - 8) = drop 8 (ring_get b (rx_r ?c) (rx_used ?c))"
    by (rule ring_get_drop) (simp add: u)
  then have d8: "ring_get b ((rx_r ?c + 8) mod NET_SOCK_BUF) (length d + length rest) = d @ rest" unfolding ct by (simp add: u udp_record_def)
  have data: "ring_get b ((rx_r ?c + 8) mod NET_SOCK_BUF) n = take n d" if "n \<le> length d" for n
    using ring_get_take [of n "length d + length rest" b "(rx_r ?c + 8) mod NET_SOCK_BUF"] that unfolding d8 by simp
  let ?c' = "?c\<lparr>rx_r := (rx_r ?c + 8 + length d) mod NET_SOCK_BUF\<rparr>"
  have "contents ?c' = drop (8 + length d) (contents ?c)" by (rule contents_advance [OF j(2)]) (simp_all add: u add.assoc)
  then have rest: "contents ?c' = rest" using q by simp
  have m: "(if length d > mx then mx else length d) \<le> length d" "take (if length d > mx then mx else length d) d = take mx d" by auto
  show ?thesis unfolding udp_recv_def Let_def b(1) option.case dn data [OF m(1)] m(2) ip using j(1) rest by simp
qed

text \<open>C30: a datagram of at most 1472 bytes that one machine sends with \<open>net_udp_send\<close> to a neighbour in its ARP cache is one
  frame on the wire; when the frame reaches the machine with that address (in a buffer with anything
  behind it), its headers and checksums are accepted, the datagram is appended to the queue of the socket
  bound to the port, no other socket changes, and if the queue was empty the next \<open>recvfrom\<close> returns the
  data (cut to the size of the caller's buffer) with the sender's address and port and leaves the queue
  empty.\<close>

theorem udp_end_to_end:
  assumes a: "arp_lookup (nic_ip sb) sa = Some mac" "length mac = 6" "length (nic_mac sa) = 6" "nic_present sa" "nic_free sa"
    and d: "length d \<le> 1472" "sport < 65536" "dport < 65536"
    and b: "g_bufs sb" "\<not> dw_active (g_dhcp_w sb)" "\<not> nw_active (g_dns_w sb)" "udp_bound j dport sb" "ring_ok (g_socks sb ! j)"
      "8 + length d \<le> rx_space (g_socks sb ! j)"
  shows "\<exists>sa' fr sb'. net_udp_send km (nic_ip sb) dport sport d rs sa = Done (int (length d), rs, sa') \<and> sent sa' = sent sa @ [fr] \<and>
    net_input km' (put_at 0 fr junk) (length fr) sb = Done (0, sb') \<and>
    contents (g_socks sb' ! j) = contents (g_socks sb ! j) @ udp_record (nic_ip sa) sport d \<and> (\<forall>i. i \<noteq> j \<longrightarrow> g_socks sb' ! i = g_socks sb ! i) \<and>
    (contents (g_socks sb ! j) = [] \<longrightarrow> (\<exists>sb''. udp_recv j mx sb' = Done ((take mx d, nic_ip sa, sport), sb'') \<and> contents (g_socks sb'' ! j) = []))"
proof -
  let ?fr = "ip_frame mac (nic_mac sa) ((g_ip_id sa + 1) mod 65536) 17 (nic_ip sa) (nic_ip sb) (udp_segment (nic_ip sa) (nic_ip sb) sport dport d)"
  obtain sa' where sa': "net_udp_send km (nic_ip sb) dport sport d rs sa = Done (int (length d), rs, sa')" "sent sa' = sent sa @ [?fr]"
    using udp_send_frame [OF a d(1)] by blast
  let ?s1 = "(arp_learn (nic_ip sa) (nic_mac sa) sb)\<lparr>udp_rx := udp_rx (arp_learn (nic_ip sa) (nic_mac sa) sb) + 1\<rparr>"
  have "length ?fr = 42 + length d" using a(2,3) by (simp add: ip_frame_def)
  then have inp: "net_input km' (put_at 0 ?fr junk) (length ?fr) sb = nbind (udp_deliver (nic_ip sa) sport dport d ?s1) (\<lambda>s1. Done (0, s1))"
    using udp_frame_input [OF holds_put_at a(2,3) d b(1-3)] by simp
  have "udp_bound j dport ?s1" "ring_ok (g_socks ?s1 ! j)" "8 + length d \<le> rx_space (g_socks ?s1 ! j)" using b(4-6) by (simp_all add: udp_bound_def)
  then obtain sb' where sb': "udp_deliver (nic_ip sa) sport dport d ?s1 = Done sb'" "ring_ok (g_socks sb' ! j)"
    "contents (g_socks sb' ! j) = contents (g_socks sb ! j) @ udp_record (nic_ip sa) sport d" "\<forall>i. i \<noteq> j \<longrightarrow> g_socks sb' ! i = g_socks sb ! i"
    "length (g_socks sb') = length (g_socks sb)" using udp_deliver_ok [of j dport ?s1 d "nic_ip sa" sport] by auto
  have "\<exists>sb''. udp_recv j mx sb' = Done ((take mx d, nic_ip sa, sport), sb'') \<and> contents (g_socks sb'' ! j) = []" if "contents (g_socks sb ! j) = []"
    using udp_recv_ok [of j sb' "nic_ip sa" sport d "[]" mx] sb' that b(4) d by (simp add: udp_bound_def)
  then show ?thesis using sa' inp sb' by (intro exI [of _ sa'] exI [of _ ?fr] exI [of _ sb']) simp
qed

text \<open>Two hosts: 10.0.2.15 knows 10.0.2.16, where the second socket is bound to port 7.\<close>

definition udp_host_a :: net where
  "udp_host_a = net0\<lparr>nic_present := True, nic_mac := [2, 0, 0, 0, 0, 15], g_arp := replicate 4 (0x0A000210, [2, 0, 0, 0, 0, 16])\<rparr>"

definition udp_host_b :: net where
  "udp_host_b = net0\<lparr>g_bufs := True, nic_ip := 0x0A000210,
     g_socks := (g_socks net0)[1 := sock0\<lparr>s_used := True, local_port := 7, rx := Some (replicate NET_SOCK_BUF 0)\<rparr>]\<rparr>"

lemma udp_hosts_ok:
  "arp_lookup (nic_ip udp_host_b) udp_host_a = Some [2, 0, 0, 0, 0, 16]" "udp_bound 1 7 udp_host_b" "ring_ok (g_socks udp_host_b ! 1)"
  "rx_space (g_socks udp_host_b ! 1) = 4095" "contents (g_socks udp_host_b ! 1) = []"
proof -
  show "arp_lookup (nic_ip udp_host_b) udp_host_a = Some [2, 0, 0, 0, 0, 16]" by (simp add: arp_lookup_def udp_host_a_def udp_host_b_def upt_rec)
  show "udp_bound 1 7 udp_host_b" by (auto simp: udp_bound_def udp_host_b_def net0_def sock0_def nth_list_update)
  show "ring_ok (g_socks udp_host_b ! 1)" by (simp add: ring_ok_def udp_host_b_def net0_def sock0_def)
  show "rx_space (g_socks udp_host_b ! 1) = 4095" by (simp add: rx_space_def udp_host_b_def net0_def sock0_def)
  show "contents (g_socks udp_host_b ! 1) = []" by (simp add: contents_def rx_used_def ring_get_def udp_host_b_def net0_def sock0_def)
qed

theorem udp_end_to_end_witness:
  "\<exists>sa' fr sb'. net_udp_send (\<lambda>_. None) 0x0A000210 7 4000 [104, 105] [] udp_host_a = Done (2, [], sa') \<and>
    net_input (\<lambda>_. None) (put_at 0 fr (\<lambda>_. 255)) (length fr) udp_host_b = Done (0, sb') \<and>
    (\<exists>sb''. udp_recv 1 1 sb' = Done (([104], 0x0A00020F, 4000), sb'') \<and> contents (g_socks sb'' ! 1) = [])"
  using udp_end_to_end [of udp_host_b udp_host_a "[2, 0, 0, 0, 0, 16]" "[104, 105]" 4000 7 1 "\<lambda>_. None" "[]" "\<lambda>_. None" "\<lambda>_. 255" 1]
    udp_hosts_ok by (auto simp: udp_host_a_def udp_host_b_def net0_def)

end
