(* ===== verification/NetWf.thy ===== *)
theory NetWf
  imports NetSock NetCodec
begin

text \<open>
  The shape of the state of the network stack: every table has its size, every buffer that exists its
  length, every index and count lies inside the buffer it refers to, and every frame handed to the card
  is a possible Ethernet frame. Each operation of the stack keeps it.
\<close>

section \<open>The invariant\<close>

definition buf_ok :: "nat \<Rightarrow> u8 list option \<Rightarrow> bool" where
  "buf_ok n b = (case b of None \<Rightarrow> True | Some l \<Rightarrow> length l = n)"

lemma buf_ok_simps [simp]: "buf_ok n None" "buf_ok n (Some l) \<longleftrightarrow> length l = n"
  by (simp_all add: buf_ok_def)

definition sock_wf :: "sock \<Rightarrow> bool" where
  "sock_wf c \<longleftrightarrow> rx_r c < NET_SOCK_BUF \<and> rx_w c < NET_SOCK_BUF \<and> buf_ok NET_SOCK_BUF (rx c) \<and> buf_ok TCP_RTX_BUF (rtx c) \<and>
     buf_ok TCP_OOO_BUF (ooo c) \<and> rtx_len c \<le> TCP_RTX_BUF \<and> ooo_len c \<le> TCP_OOO_BUF \<and> (rtx c = None \<longrightarrow> rtx_len c = 0) \<and>
     (ooo c = None \<longrightarrow> ooo_len c = 0) \<and> rtx_tries c \<le> TCP_RTX_MAX \<and> local_port c < 65536 \<and> peer_port c < 65536"

definition frame_ok :: "u8 list \<Rightarrow> bool" where
  "frame_ok f \<longleftrightarrow> ETH_HDR_LEN \<le> length f \<and> length f \<le> ETH_FRAME_MAX"

definition net_wf :: "net \<Rightarrow> bool" where
  "net_wf s \<longleftrightarrow> length (g_socks s) = NET_MAX_SOCKS \<and> list_all sock_wf (g_socks s) \<and> length (g_arp s) = ARP_CACHE \<and>
     list_all (\<lambda>e. length (snd e) = 6) (g_arp s) \<and> list_all frame_ok (sent s) \<and> g_ip_id s < 65536 \<and> g_ephemeral s < 65536 \<and>
     length (dns_srv s) \<le> DNS_MAX_SRV \<and> length (dns_cache s) = DNS_CACHE_MAX \<and> dw_len (g_dhcp_w s) \<le> 512 \<and> nw_len (g_dns_w s) \<le> 512 \<and>
     seq_counter s < 65536 \<and> id_counter s < 65536 \<and> nw_port (g_dns_w s) < 65536"

definition all_done :: "('a \<Rightarrow> bool) \<Rightarrow> 'a nres \<Rightarrow> bool" where
  "all_done P r = (case r of Done x \<Rightarrow> P x | _ \<Rightarrow> True)"

lemma all_done_simps [simp]: "all_done P (Done x) \<longleftrightarrow> P x" "all_done P NullDeref" "all_done P Stuck" "all_done P Waiting"
  by (simp_all add: all_done_def)

lemma all_done_bind: "all_done P r \<Longrightarrow> (\<And>x. P x \<Longrightarrow> all_done Q (f x)) \<Longrightarrow> all_done Q (nbind r f)"
  by (cases r) simp_all

lemma all_done_mono: "all_done P r \<Longrightarrow> (\<And>x. P x \<Longrightarrow> Q x) \<Longrightarrow> all_done Q r"
  by (cases r) simp_all

text \<open>What the stack relies on of the heap: a block has the size that was asked for.\<close>

definition km_ok :: "kmalloc_fn \<Rightarrow> bool" where
  "km_ok km \<longleftrightarrow> (\<forall>n b. km n = Some b \<longrightarrow> length b = n)"

named_theorems wf_keep \<open>operations that keep the shape of the stack\<close>

lemma net_wf_sock: "net_wf s \<Longrightarrow> i < NET_MAX_SOCKS \<Longrightarrow> sock_wf (g_socks s ! i)"
  by (simp add: net_wf_def list_all_length)

lemma list_all_update: "list_all P xs \<Longrightarrow> (i < length xs \<Longrightarrow> P x) \<Longrightarrow> list_all P (xs[i := x])"
  by (cases "i < length xs") (auto simp: list_all_length nth_list_update)

lemma net_wf_upd:
  assumes "net_wf s" "i < NET_MAX_SOCKS \<Longrightarrow> sock_wf (g_socks s ! i) \<Longrightarrow> sock_wf (f (g_socks s ! i))"
  shows "net_wf (upd_sock i f s)"
proof -
  have "list_all sock_wf ((g_socks s)[i := f (g_socks s ! i)])"
  proof (rule list_all_update)
    show "list_all sock_wf (g_socks s)" using assms(1) by (simp add: net_wf_def)
    show "sock_wf (f (g_socks s ! i))" if "i < length (g_socks s)" using assms that net_wf_sock [OF assms(1)] by (simp add: net_wf_def)
  qed
  then show ?thesis using assms(1) by (simp add: net_wf_def upd_sock_def)
qed

lemma net_wf_simps [simp]:
  "net_wf (s\<lparr>pit_ticks := t\<rparr>) = net_wf s" "net_wf (s\<lparr>last_tick := t\<rparr>) = net_wf s" "net_wf (s\<lparr>udp_rx := w\<rparr>) = net_wf s"
  "net_wf (s\<lparr>udp_tx := w\<rparr>) = net_wf s" "net_wf (s\<lparr>tcp_rx := w\<rparr>) = net_wf s" "net_wf (s\<lparr>tcp_tx := w\<rparr>) = net_wf s"
  "net_wf (s\<lparr>tcp_rtx := w\<rparr>) = net_wf s" "net_wf (s\<lparr>arp_replied := w\<rparr>) = net_wf s" "net_wf (s\<lparr>icmp_replied := w\<rparr>) = net_wf s"
  "net_wf (s\<lparr>ip_bad_csum := w\<rparr>) = net_wf s" "net_wf (s\<lparr>ip_frag_drop := w\<rparr>) = net_wf s" "net_wf (s\<lparr>g_frame := fb\<rparr>) = net_wf s"
  "net_wf (s\<lparr>g_bufs := b\<rparr>) = net_wf s" "net_wf (s\<lparr>ping_got := b\<rparr>) = net_wf s" "net_wf (s\<lparr>ping_active := b\<rparr>) = net_wf s"
  "net_wf (s\<lparr>ping_matched := w\<rparr>) = net_wf s" "net_wf (s\<lparr>ping_reqs := w\<rparr>) = net_wf s" "net_wf (s\<lparr>g_lease := le\<rparr>) = net_wf s"
  "net_wf (s\<lparr>g_renew := rn\<rparr>) = net_wf s" "net_wf (s\<lparr>dns_manual := b\<rparr>) = net_wf s" "net_wf (s\<lparr>nic_ip := w\<rparr>) = net_wf s"
  "net_wf (s\<lparr>dns_rr := n\<rparr>) = net_wf s" "net_wf (s\<lparr>dns_hits := w\<rparr>) = net_wf s" "net_wf (s\<lparr>ping_id := n\<rparr>) = net_wf s"
  "net_wf (s\<lparr>ping_seq := n\<rparr>) = net_wf s"
  by (simp_all add: net_wf_def)

lemma net_wf_dhcp_w: "dw_len w = dw_len (g_dhcp_w s) \<Longrightarrow> net_wf (s\<lparr>g_dhcp_w := w\<rparr>) = net_wf s"
  by (simp add: net_wf_def)

lemma net_wf_dns_w: "nw_len w = nw_len (g_dns_w s) \<Longrightarrow> nw_port w = nw_port (g_dns_w s) \<Longrightarrow> net_wf (s\<lparr>g_dns_w := w\<rparr>) = net_wf s"
  by (simp add: net_wf_def)

lemma net_wf_ip_id [simp]: "net_wf s \<Longrightarrow> net_wf (s\<lparr>g_ip_id := n mod 65536\<rparr>)"
  by (simp add: net_wf_def)

section \<open>Sending\<close>

lemma build_ready_wf [wf_keep]: "net_wf s \<Longrightarrow> net_wf (snd (build_ready km s))"
  by (simp add: build_ready_def)

lemma rtl8139_send_wf [wf_keep]: "net_wf s \<Longrightarrow> net_wf (snd (rtl8139_send fr s))"
  by (auto simp: rtl8139_send_def net_wf_def frame_ok_def)

lemma arp_learn_wf [wf_keep]: "net_wf s \<Longrightarrow> length mac = 6 \<Longrightarrow> net_wf (arp_learn ip mac s)"
  by (auto simp: arp_learn_def Let_def net_wf_def intro: list_all_update split: list.splits)

lemma arp_request_wf [wf_keep]: "net_wf s \<Longrightarrow> net_wf (arp_request ip s)"
  by (simp add: arp_request_def rtl8139_send_wf)

lemma ipv4_emit_wf [wf_keep]: "net_wf s \<Longrightarrow> net_wf (snd (ipv4_emit dst m proto n s))"
  by (simp add: ipv4_emit_def Let_def rtl8139_send_wf)

lemma ipv4_copy_wf: "net_wf s \<Longrightarrow> ipv4_copy p s = Some s' \<Longrightarrow> net_wf s'"
  by (auto simp: ipv4_copy_def split: if_splits)

lemma ipv4_reply_wf: "net_wf s \<Longrightarrow> all_done (\<lambda>(ok, s'). net_wf s') (ipv4_reply dst proto p s)"
  by (auto simp: ipv4_reply_def split_beta ipv4_emit_wf dest: ipv4_copy_wf split: option.split)

lemma tcp_send_seg_ex_wf [wf_keep]: "net_wf s \<Longrightarrow> net_wf (snd (tcp_send_seg_ex i fl d sq s))"
  by (simp add: tcp_send_seg_ex_def Let_def split_beta rtl8139_send_wf split: option.split bool.split)

lemma tcp_send_seg_wf [wf_keep]: "net_wf s \<Longrightarrow> net_wf (snd (tcp_send_seg i fl d s))"
  by (simp add: tcp_send_seg_def tcp_send_seg_ex_wf)

lemma dhcp_send_wf [wf_keep]: "net_wf s \<Longrightarrow> net_wf (snd (dhcp_send ty ip srv b s))"
  by (simp add: dhcp_send_def Let_def rtl8139_send_wf)

section \<open>Sockets\<close>

lemma ring_put_length [simp]: "length (ring_put b w xs) = length b"
  by (induction b w xs rule: ring_put.induct) simp_all

lemma rx_store_wf: "sock_wf c \<Longrightarrow> rx_store bs c = Done c' \<Longrightarrow>
    sock_wf c' \<and> ooo c' = ooo c \<and> ooo_len c' = ooo_len c \<and> rtx c' = rtx c"
  by (auto simp: rx_store_def sock_wf_def split: option.splits if_splits)

lemma tcp_reset_wf: "sock_wf c \<Longrightarrow> sock_wf (tcp_reset c)"
  by (simp add: sock_wf_def tcp_reset_def)

lemma sock_free_wf [wf_keep]: "net_wf s \<Longrightarrow> net_wf (sock_free i s)"
  unfolding sock_free_def by (rule net_wf_upd) (auto simp: sock_wf_def tcp_reset_def)

lemma tcp_bufs_wf [wf_keep]:
  "net_wf s \<Longrightarrow> km_ok km \<Longrightarrow> net_wf (snd (tcp_bufs km i s))"
  by (auto simp: tcp_bufs_def Let_def km_ok_def sock_wf_def tcp_reset_def intro!: net_wf_upd)

lemma ack_sock_wf: "sock_wf c \<Longrightarrow> sock_wf (ack_sock t g c)"
  by (auto simp: ack_sock_def Let_def sock_wf_def buf_ok_def split: option.splits)

lemma fin_sock_wf: "sock_wf c \<Longrightarrow> sock_wf (fin_sock g c)"
  by (simp add: fin_sock_def sock_wf_def)

lemma ooo_drain_wf: "sock_wf c \<Longrightarrow> all_done (\<lambda>(c', n). sock_wf c') (ooo_drain c acc)"
proof (induction c acc rule: ooo_drain.induct)
  case (1 c acc)
  let ?n = "if ooo_len c < rx_space c then ooo_len c else rx_space c"
  show ?case
  proof (cases "ooo_len c = 0 \<or> ooo_seq c \<noteq> rcv_nxt c \<or> ?n = 0 \<or> ooo c = None")
    case True
    then show ?thesis using "1.prems" by (subst ooo_drain.simps) (auto simp: Let_def)
  next
    case False
    then obtain b where b: "ooo c = Some b" by blast
    show ?thesis
    proof (cases "rx_store (take ?n b) c")
      case (Done c1)
      have "sock_wf (c1\<lparr>rcv_nxt := rcv_nxt c + of_nat ?n, ooo := Some (take (ooo_len c - ?n) (drop ?n b) @ drop (ooo_len c - ?n) b),
          ooo_len := ooo_len c - ?n, ooo_seq := rcv_nxt c + of_nat ?n\<rparr>)"
        using rx_store_wf [OF "1.prems" Done] "1.prems" b by (auto simp: sock_wf_def)
      from "1.IH" [OF _ refl refl _ b Done this] show ?thesis using False b Done by (subst ooo_drain.simps) (simp add: Let_def)
    qed (use False b in \<open>subst ooo_drain.simps, simp add: Let_def\<close>)+
  qed
qed

lemma data_sock_wf: "sock_wf c \<Longrightarrow> all_done (\<lambda>(c', n). sock_wf c') (data_sock g c)"
proof -
  assume c: "sock_wf c"
  have "all_done (\<lambda>(c', n). sock_wf c') (nbind (rx_store d c) (\<lambda>c1. ooo_drain (c1\<lparr>rcv_nxt := rcv_nxt c1 + k\<rparr>) t))" for d k t
  proof (rule all_done_bind)
    show "all_done sock_wf (rx_store d c)" using rx_store_wf [OF c] by (cases "rx_store d c") auto
    show "all_done (\<lambda>(c', n). sock_wf c') (ooo_drain (c1\<lparr>rcv_nxt := rcv_nxt c1 + k\<rparr>) t)" if "sock_wf c1" for c1
      using that by (intro ooo_drain_wf) (simp add: sock_wf_def)
  qed
  then show ?thesis using c by (auto simp: data_sock_def Let_def sock_wf_def split: option.split)
qed

section \<open>Received segments\<close>

lemma upd_state_wf [simp]:
  "sock_wf (c\<lparr>s_state := st\<rparr>) = sock_wf c" "sock_wf (c\<lparr>snd_nxt := w\<rparr>) = sock_wf c" "sock_wf (c\<lparr>snd_una := w\<rparr>) = sock_wf c"
  "sock_wf (c\<lparr>rcv_nxt := w\<rparr>) = sock_wf c" "sock_wf (c\<lparr>s_used := b\<rparr>) = sock_wf c" "sock_wf (c\<lparr>s_parent := k\<rparr>) = sock_wf c"
  "sock_wf (c\<lparr>rto_tick := w\<rparr>) = sock_wf c" "sock_wf (c\<lparr>syn_unacked := b\<rparr>) = sock_wf c" "sock_wf (c\<lparr>got_fin := b\<rparr>) = sock_wf c"
  by (simp_all add: sock_wf_def)

lemma upd_tries_wf [simp]: "sock_wf c \<Longrightarrow> n \<le> TCP_RTX_MAX \<Longrightarrow> sock_wf (c\<lparr>rtx_tries := n\<rparr>)"
  by (simp add: sock_wf_def)

lemma tcp_receive_wf:
  assumes "net_wf s" "i < NET_MAX_SOCKS"
  shows "all_done net_wf (tcp_receive i g s)"
proof -
  have "net_wf (upd_sock i (\<lambda>_. c) s)" if "sock_wf c" for c using assms(1) that by (intro net_wf_upd)
  then show ?thesis unfolding tcp_receive_def Let_def
    by (intro all_done_bind [OF data_sock_wf [OF net_wf_sock [OF assms]]]) (auto intro!: tcp_send_seg_wf simp: fin_sock_wf)
qed

lemma tcp_last_fin_wf [wf_keep]: "net_wf s \<Longrightarrow> net_wf (tcp_last_fin i g s)"
  by (simp add: tcp_last_fin_def sock_free_wf tcp_send_seg_wf net_wf_upd fin_sock_wf)

lemma tcp_conn_input_wf:
  assumes "net_wf s" "i < NET_MAX_SOCKS"
  shows "all_done net_wf (tcp_conn_input i g s)"
proof -
  have 1: "net_wf (upd_sock i (ack_sock (pit_ticks s) g) s)" using assms(1) by (rule net_wf_upd) (rule ack_sock_wf)
  have u: "net_wf (upd_sock i f (upd_sock i (ack_sock (pit_ticks s) g) s))" if "\<And>c. sock_wf c \<Longrightarrow> sock_wf (f c)" for f
    using 1 that by (rule net_wf_upd)
  show ?thesis unfolding tcp_conn_input_def Let_def using assms
    by (auto intro!: 1 u sock_free_wf tcp_send_seg_wf tcp_last_fin_wf tcp_receive_wf split: tcp_state.split)
qed

lemma tcp_conn_bound: "tcp_conn g s = Some i \<Longrightarrow> i < NET_MAX_SOCKS"
  by (auto simp: tcp_conn_def split: list.splits dest: in_filter_upt)

lemma tcp_passive_wf [wf_keep]:
  assumes "net_wf s" "km_ok km" "sg_dport g < 65536" "sg_sport g < 65536"
  shows "net_wf (tcp_passive km g s)"
proof -
  have u: "net_wf (upd_sock i f s')" if "net_wf s'" "\<And>c. sock_wf c \<Longrightarrow> sock_wf (f c)" for f i s' using that by (rule net_wf_upd)
  have 1: "net_wf (upd_sock i (\<lambda>c. c\<lparr>s_used := True, s_type := SOCK_TYPE_TCP, s_state := TS_SYN_RCVD, local_port := sg_dport g,
      peer_port := sg_sport g, peer_ip := sg_src g, got_fin := False, owner_pid := p, s_parent := l, rx_r := 0, rx_w := 0\<rparr>) s)" for i p l
    using assms by (intro u) (simp_all add: sock_wf_def)
  note 2 = tcp_bufs_wf [OF 1 assms(2)]
  show ?thesis unfolding tcp_passive_def Let_def split_beta
    by (auto intro!: tcp_send_seg_ex_wf u 2 assms(1) split: option.split list.split bool.split)
qed

lemma be16_bound [simp]: "be16 f i < 65536"
  using u8_bound [of "f i"] u8_bound [of "f (i + 1)"] by (simp add: be16_sum)

lemma tcp_input_wf: "net_wf s \<Longrightarrow> km_ok km \<Longrightarrow> all_done net_wf (tcp_input km ip ihl s)"
  by (auto simp: tcp_input_def tcp_parse_def Let_def intro!: tcp_passive_wf tcp_conn_input_wf dest: tcp_conn_bound split: option.split if_splits)

section \<open>The other protocols\<close>

lemma udp_deliver_wf: "net_wf s \<Longrightarrow> all_done net_wf (udp_deliver ip p dp d s)"
proof -
  assume s: "net_wf s"
  have "all_done net_wf (nbind (rx_store r (g_socks s ! i)) (\<lambda>c1. Done (upd_sock i (\<lambda>_. c1) s)))" if "i < NET_MAX_SOCKS" for i r
    using net_wf_sock [OF s that] s by (cases "rx_store r (g_socks s ! i)") (auto dest: rx_store_wf intro!: net_wf_upd)
  then show ?thesis using s by (auto simp: udp_deliver_def Let_def dest!: in_filter_upt split: list.split)
qed

lemma udp_input_wf: "net_wf s \<Longrightarrow> all_done net_wf (udp_input ip ihl s)"
  by (auto simp: udp_input_def Let_def intro!: udp_deliver_wf)

lemma icmp_input_wf: "net_wf s \<Longrightarrow> all_done net_wf (icmp_input ip ihl s)"
  by (auto simp: icmp_input_def Let_def intro!: all_done_bind [OF ipv4_reply_wf])

lemma bytes_at_length [simp]: "length (bytes_at f i n) = n"
  by (simp add: bytes_at_def)

lemma arp_input_wf [wf_keep]: "net_wf s \<Longrightarrow> net_wf (snd (arp_input f n s))"
  by (simp add: arp_input_def Let_def split_beta rtl8139_send_wf arp_learn_wf split: bool.split)

lemma dns_input_wf [wf_keep]: "net_wf s \<Longrightarrow> net_wf (snd (dns_input ip ihl s))"
  by (auto simp: dns_input_def Let_def net_wf_def)

lemma dhcp_input_wf [wf_keep]: "net_wf s \<Longrightarrow> net_wf (dhcp_input ip ihl s)"
  by (auto simp: dhcp_input_def Let_def net_wf_def)

lemma ip_input_wf: "net_wf s \<Longrightarrow> km_ok km \<Longrightarrow> all_done (\<lambda>r. net_wf (snd r)) (ip_input km ip ihl s)"
  using dns_input_wf [of s ip ihl]
  by (auto simp: ip_input_def Let_def split_beta intro!: all_done_bind [OF icmp_input_wf] all_done_bind [OF udp_input_wf] all_done_bind [OF tcp_input_wf]
      split: bool.split)

lemma net_input_wf:
  assumes "net_wf s" "km_ok km"
  shows "all_done (\<lambda>r. net_wf (snd r)) (net_input km f n s)"
proof -
  note b = build_ready_wf [OF assms(1), of km]
  show ?thesis unfolding net_input_def Let_def split_beta using b assms(2)
    by (auto simp: arp_learn_wf split_beta dhcp_input_wf arp_input_wf intro!: ip_input_wf split: bool.split)
qed

section \<open>The timer\<close>

lemma dns_from_opt_length: "length (dns_from_opt dv) \<le> DNS_MAX_SRV"
  by (simp add: dns_from_opt_def)

lemma dhcp_apply_wf [wf_keep]: "net_wf s \<Longrightarrow> net_wf (dhcp_apply ip srv s)"
  using dns_from_opt_length by (simp add: dhcp_apply_def Let_def net_wf_def)

lemma renew_answer_wf: "net_wf s \<Longrightarrow> (case renew_answer now s of Inl r \<Rightarrow> net_wf (snd r) | Inr s' \<Rightarrow> net_wf s')"
  by (auto simp: renew_answer_def Let_def split_beta net_wf_dhcp_w intro!: dhcp_apply_wf dhcp_send_wf split: bool.split)

lemma renew_state_wf: "net_wf s \<Longrightarrow> renew_state now s = Some s' \<Longrightarrow> net_wf s'"
  by (auto simp: renew_state_def Let_def split: if_splits)

lemma renew_request_wf: "net_wf s \<Longrightarrow> net_wf (snd (renew_request now s))"
  by (auto simp: renew_request_def Let_def split_beta net_wf_dhcp_w intro!: dhcp_send_wf)

lemma dhcp_renew_check_wf [wf_keep]: "net_wf s \<Longrightarrow> net_wf (snd (dhcp_renew_check now s))"
  using renew_answer_wf [of s now] by (auto simp: dhcp_renew_check_def Let_def intro!: renew_request_wf dest: renew_state_wf split: sum.split option.split)

lemma tcp_retransmit_check_wf [wf_keep]: "net_wf s \<Longrightarrow> net_wf (tcp_retransmit_check i now s)"
  by (auto simp: tcp_retransmit_check_def Let_def intro!: net_wf_upd sock_free_wf tcp_send_seg_wf tcp_send_seg_ex_wf)

lemma tick_socks_wf: "net_wf s \<Longrightarrow> net_wf (tick_socks k now s)"
  by (induction k) (simp_all add: Let_def tcp_retransmit_check_wf)

lemma net_tick_wf [wf_keep]: "net_wf s \<Longrightarrow> net_wf (net_tick s)"
  by (simp add: net_tick_def Let_def tick_socks_wf dhcp_renew_check_wf)

lemma net_events_wf: "km_ok km \<Longrightarrow> net_wf s \<Longrightarrow> all_done net_wf (net_events km es s)"
proof (induction km es s rule: net_events.induct)
  case (3 km f len es s)
  then show ?case using net_input_wf [of s km f len] by (auto split: nres.split)
qed (auto simp: net_tick_wf)

lemma net_poll_wf: "km_ok km \<Longrightarrow> net_wf s \<Longrightarrow> all_done net_wf (net_poll km es s)"
  unfolding net_poll_def by (rule all_done_bind [OF net_events_wf]) (auto simp: net_tick_wf)

section \<open>Calls that wait\<close>

abbreviation keeps2 :: "('a \<times> 'b \<times> net) nres \<Rightarrow> bool" where
  "keeps2 r \<equiv> all_done (\<lambda>x. net_wf (snd (snd x))) r"

lemma wait_loop_wf: "km_ok km \<Longrightarrow> net_wf s \<Longrightarrow> keeps2 (wait_loop km c dl rs s)"
proof (induction rs arbitrary: s)
  case (Cons es rs)
  then show ?case by (auto intro!: all_done_bind [OF net_poll_wf])
qed simp

lemma wait_cond_wf: "km_ok km \<Longrightarrow> net_wf s \<Longrightarrow> keeps2 (wait_cond km c t rs s)"
  by (simp add: wait_cond_def wait_loop_wf)

lemma arp_resolve_wf: "km_ok km \<Longrightarrow> net_wf s \<Longrightarrow> keeps2 (arp_resolve km ip t rs s)"
  by (auto simp: arp_resolve_def Let_def split_beta arp_request_wf intro!: all_done_bind [OF wait_loop_wf] split: option.split)

lemma ipv4_send_via_wf: "km_ok km \<Longrightarrow> net_wf s \<Longrightarrow> keeps2 (ipv4_send_via km dst hop p d rs s)"
  by (auto simp: ipv4_send_via_def split_beta ipv4_emit_wf intro!: all_done_bind [OF arp_resolve_wf] dest: ipv4_copy_wf split: option.split)

lemma net_udp_send_wf: "km_ok km \<Longrightarrow> net_wf s \<Longrightarrow> keeps2 (net_udp_send km dst dp sp d rs s)"
  by (auto simp: net_udp_send_def ipv4_send_def split_beta intro!: all_done_bind [OF ipv4_send_via_wf])

lemma net_ping_wf: "km_ok km \<Longrightarrow> net_wf s \<Longrightarrow> keeps2 (net_ping km dst t rs s)"
proof -
  assume a: "km_ok km" "net_wf s"
  note b = build_ready_wf [OF a(2), of km]
  have u: "net_wf (s'\<lparr>seq_counter := n mod 65536\<rparr>)" if "net_wf s'" for s' n using that by (simp add: net_wf_def)
  show ?thesis using a(1) b
    by (auto simp: net_ping_def ipv4_send_def Let_def split_beta u intro!: all_done_bind [OF ipv4_send_via_wf] all_done_bind [OF wait_loop_wf] split: bool.split)
qed

lemma dhcp_ask_wf:
  assumes "km_ok km" "\<And>s. net_wf s \<Longrightarrow> net_wf (snd (f s))"
  shows "net_wf s \<Longrightarrow> keeps2 (dhcp_ask km t f w nak k rs s)"
proof (induction k arbitrary: rs s)
  case (Suc k)
  have "net_wf (snd (f (s\<lparr>g_dhcp_w := (g_dhcp_w s)\<lparr>dw_got := False, dw_active := True\<rparr>\<rparr>)))"
    using Suc.prems by (intro assms(2)) (simp add: net_wf_dhcp_w)
  then show ?case using Suc.IH assms(1)
    by (auto simp: split_beta net_wf_dhcp_w intro!: all_done_bind [OF wait_loop_wf] split: bool.split)
qed simp

lemma dhcp_idle_wf [simp]: "net_wf (dhcp_idle s) = net_wf s"
  by (simp add: dhcp_idle_def net_wf_dhcp_w)

lemma dhcp_finish_wf: "km_ok km \<Longrightarrow> net_wf s \<Longrightarrow> keeps2 (dhcp_finish km t rs s)"
  by (auto simp: dhcp_finish_def Let_def split_beta dhcp_apply_wf intro!: all_done_bind [OF dhcp_ask_wf] dhcp_send_wf split: sum.split)

lemma net_dhcp_wf: "km_ok km \<Longrightarrow> net_wf s \<Longrightarrow> keeps2 (net_dhcp km t rs s)"
  using build_ready_wf [of s km]
  by (auto simp: net_dhcp_def Let_def split_beta net_wf_dhcp_w intro!: all_done_bind [OF dhcp_ask_wf] dhcp_send_wf dhcp_finish_wf split: sum.split bool.split)

lemma dns_send_wf: "km_ok km \<Longrightarrow> net_wf s \<Longrightarrow> keeps2 (dns_send km srv q rs s)"
  by (simp add: dns_send_def ipv4_send_via_wf)

lemma dns_round_wf: "km_ok km \<Longrightarrow> net_wf s \<Longrightarrow> keeps2 (dns_round km t q k j rs s)"
proof (induction k arbitrary: j rs s)
  case (Suc k)
  then show ?case by (auto simp: split_beta net_wf_dns_w intro!: all_done_bind [OF dns_send_wf] all_done_bind [OF wait_loop_wf])
qed simp

lemma dns_ask_wf: "km_ok km \<Longrightarrow> net_wf s \<Longrightarrow> keeps2 (dns_ask km t q rs s)"
  by (auto simp: dns_ask_def split_beta intro!: all_done_bind [OF dns_round_wf] dns_round_wf)

lemma dns_cache_put_wf [wf_keep]: "net_wf s \<Longrightarrow> net_wf (dns_cache_put name ip ttl s)"
  by (simp add: dns_cache_put_def Let_def split_beta net_wf_def split: option.split)

lemma net_dns_cache_lookup_wf [wf_keep]: "net_wf s \<Longrightarrow> net_wf (snd (net_dns_cache_lookup name s))"
  by (auto simp: net_dns_cache_lookup_def Let_def net_wf_def split: list.split)

lemma dns_answer_wf [wf_keep]: "net_wf s \<Longrightarrow> net_wf (snd (snd (dns_answer name s)))"
  by (auto simp: dns_answer_def dns_cache_put_wf split: option.split)

lemma port_bits: "j AND 0x07FF < (2048 :: nat)"
proof -
  have "j AND 0x07FF = take_bit 11 j" by (simp add: take_bit_eq_mask mask_eq_exp_minus_1)
  then show ?thesis using take_bit_nat_less_exp [of 11 j] by simp
qed

lemma net_dns_resolve_wf:
  assumes "km_ok km" "net_wf s"
  shows "keeps2 (net_dns_resolve km name t rs s)"
proof -
  note b = build_ready_wf [OF net_dns_cache_lookup_wf [OF assms(2)], of km name] and l = net_dns_cache_lookup_wf [OF assms(2), of name]
  have u: "net_wf (s'\<lparr>id_counter := n mod 65536, g_dns_w := (g_dns_w s')\<lparr>nw_id := k, nw_port := 40000 + (j AND 0x07FF)\<rparr>\<rparr>)" if "net_wf s'" for s' n k and j :: nat
    using that port_bits [of j] by (simp add: net_wf_def)
  show ?thesis unfolding net_dns_resolve_def Let_def split_beta using assms b l
    by (auto simp: split_beta net_wf_dns_w dns_answer_wf intro!: u all_done_bind [OF dns_ask_wf] split: option.split bool.split sum.split)
qed

section \<open>Socket calls\<close>

lemma sock_reap_wf [wf_keep]: "net_wf s \<Longrightarrow> net_wf (sock_reap alive s)"
proof -
  have "net_wf s \<Longrightarrow> net_wf (fold (\<lambda>i s. let c = g_socks s ! i in if s_used c \<and> owner_pid c \<noteq> 0 \<and> \<not> alive (owner_pid c) then sock_free i s else s) is s)" for "is"
    by (induction "is" arbitrary: s) (simp_all add: Let_def sock_free_wf)
  then show "net_wf s \<Longrightarrow> net_wf (sock_reap alive s)" by (simp add: sock_reap_def)
qed

lemma sock_alloc_wf [wf_keep]:
  assumes "km_ok km" "net_wf s"
  shows "net_wf (snd (sock_alloc km alive ty pid s))"
proof -
  have u: "net_wf (upd_sock i f s')" if "net_wf s'" "\<And>c. sock_wf c \<Longrightarrow> sock_wf (f c)" for f i s' using that by (rule net_wf_upd)
  show ?thesis unfolding sock_alloc_def Let_def using assms sock_reap_wf [OF assms(2), of alive]
    by (auto simp: sock_wf_def km_ok_def intro!: u split: list.split option.split)
qed

lemma sock_alloc_bound: "sock_alloc km alive ty pid s = (Some i, s') \<Longrightarrow> i < NET_MAX_SOCKS"
  by (auto simp: sock_alloc_def Let_def dest!: in_filter_upt split: list.splits option.splits if_splits)

lemma accepted_bound: "accepted l s = i # r \<Longrightarrow> i < NET_MAX_SOCKS"
  by (auto simp: accepted_def dest: in_filter_upt)

lemma sc_bind_wf [wf_keep]: "net_wf s \<Longrightarrow> net_wf (snd (sc_bind i p s))"
  by (auto simp: sc_bind_def sock_wf_def intro!: net_wf_upd split: option.split)

lemma sc_listen_wf [wf_keep]: "net_wf s \<Longrightarrow> net_wf (snd (sc_listen i s))"
  by (auto simp: sc_listen_def intro!: net_wf_upd split: option.split)

lemma sc_accept_wf: "km_ok km \<Longrightarrow> net_wf s \<Longrightarrow> keeps2 (sc_accept km l t rs s)"
  by (auto simp: sc_accept_def split_beta intro!: all_done_bind [OF wait_cond_wf] net_wf_upd split: option.split list.split)

lemma pick_port_wf: "net_wf s \<Longrightarrow> net_wf (snd (pick_port k s)) \<and> fst (pick_port k s) < 65536"
proof (induction k arbitrary: s)
  case (Suc k)
  have "net_wf (s\<lparr>g_ephemeral := (if g_ephemeral s < 40000 then 40000 else (g_ephemeral s + 1) mod 65536)\<rparr>)" "g_ephemeral s < 65536"
    using Suc.prems by (simp_all add: net_wf_def)
  then show ?case using Suc.IH by (simp add: Let_def)
qed simp

lemma tcp_open_wf:
  assumes "km_ok km" "net_wf s" "port < 65536" "dport < 65536"
  shows "keeps2 (tcp_open km i port dst dport t rs s)"
proof -
  have u: "net_wf (upd_sock i f s')" if "net_wf s'" "\<And>c. sock_wf c \<Longrightarrow> sock_wf (f c)" for f i s' using that by (rule net_wf_upd)
  show ?thesis unfolding tcp_open_def Let_def using assms
    by (intro all_done_bind [OF arp_resolve_wf]) (auto simp: split_beta sock_wf_def intro!: u sock_free_wf tcp_send_seg_ex_wf all_done_bind [OF wait_cond_wf])
qed

lemma sc_connect_wf:
  assumes "km_ok km" "net_wf s"
  shows "keeps2 (sc_connect km i dst dport t rs s)"
proof -
  note p = pick_port_wf [OF assms(2), of 200]
  note b = tcp_bufs_wf [OF conjunct1 [OF p] assms(1), of i]
  show ?thesis unfolding sc_connect_def split_beta using assms p b
    by (auto simp: split_beta intro!: all_done_bind [OF tcp_open_wf] split: option.split bool.split)
qed

lemma tcp_bufs_some: "net_wf s \<Longrightarrow> fst (tcp_bufs km i s) \<Longrightarrow> i < NET_MAX_SOCKS \<Longrightarrow> rtx (g_socks (snd (tcp_bufs km i s)) ! i) \<noteq> None"
  by (auto simp: tcp_bufs_def Let_def upd_sock_def tcp_reset_def net_wf_def split: if_splits)

lemma rtx_ready_wf: "km_ok km \<Longrightarrow> net_wf s \<Longrightarrow> net_wf (snd (rtx_ready km i s))"
  by (simp add: rtx_ready_def tcp_bufs_wf)

lemma rtx_ready_some: "net_wf s \<Longrightarrow> fst (rtx_ready km i s) \<Longrightarrow> i < NET_MAX_SOCKS \<Longrightarrow> rtx (g_socks (snd (rtx_ready km i s)) ! i) \<noteq> None"
  using tcp_bufs_some by (auto simp: rtx_ready_def split: if_splits)

lemma upd_sock_upd: "net_wf (upd_sock i f s) \<Longrightarrow> (\<And>c. sock_wf c \<Longrightarrow> sock_wf (g c)) \<Longrightarrow> net_wf (upd_sock i g (upd_sock i f s))"
  by (rule net_wf_upd)

lemma hold_segment_wf:
  assumes "net_wf s" "rtx (g_socks s ! i) \<noteq> None" "length d \<le> TCP_RTX_BUF"
  shows "net_wf (upd_sock i (\<lambda>c. c\<lparr>rtx := map_option (\<lambda>b. d @ drop (length d) b) (rtx c), rtx_len := length d, snd_nxt := sq\<rparr>) s)"
  using assms by (intro net_wf_upd) (auto simp: sock_wf_def)

lemma tcp_push_wf:
  assumes "net_wf s" "rtx (g_socks s ! i) \<noteq> None" "length d \<le> TCP_RTX_BUF"
  shows "net_wf (snd (tcp_push i d s))"
proof -
  have u: "net_wf (upd_sock i f s')" if "net_wf s'" "\<And>c. sock_wf c \<Longrightarrow> sock_wf (f c)" for f i s' using that by (rule net_wf_upd)
  note 1 = tcp_send_seg_ex_wf [OF hold_segment_wf [OF assms]]
  show ?thesis unfolding tcp_push_def Let_def split_beta
    by (auto simp: sock_wf_def intro!: u 1 split: bool.split)
qed

lemma sock_get_bound: "sock_get i s = Some c \<Longrightarrow> i < NET_MAX_SOCKS"
  by (auto simp: sock_get_def split: if_splits)

lemma sc_sendto_wf:
  assumes "km_ok km" "net_wf s"
  shows "keeps2 (sc_sendto km uptr um i buf len dst dport rs s)"
proof -
  note r = rtx_ready_wf [OF assms, of i]
  have p: "net_wf (snd (tcp_push i d (snd (rtx_ready km i s))))" if "fst (rtx_ready km i s)" "i < NET_MAX_SOCKS" "length d \<le> TCP_RTX_BUF" for d
    using tcp_push_wf [OF r rtx_ready_some [OF assms(2) that(1,2)] that(3)] .
  show ?thesis unfolding sc_sendto_def Let_def split_beta using assms r p
    by (auto simp: not_less intro!: net_udp_send_wf dest!: sock_get_bound split: option.split bool.split)
qed

lemma udp_recv_wf: "net_wf s \<Longrightarrow> all_done (\<lambda>x. net_wf (snd x)) (udp_recv i mx s)"
  by (auto simp: udp_recv_def Let_def sock_wf_def intro!: net_wf_upd split: option.split)

lemma tcp_recv_wf: "net_wf s \<Longrightarrow> all_done (\<lambda>x. net_wf (snd x)) (tcp_recv i mx s)"
  by (auto simp: tcp_recv_def Let_def sock_wf_def intro!: net_wf_upd split: option.split)

abbreviation state_of :: "int \<times> (u32 \<times> u8 list) list \<times> (u32 \<times> nat) option \<times> rounds \<times> net \<Rightarrow> net" where
  "state_of r \<equiv> snd (snd (snd (snd r)))"

lemma sc_recvfrom_wf:
  assumes "km_ok km" "net_wf s"
  shows "all_done (\<lambda>r. net_wf (state_of r)) (sc_recvfrom km uptr i buf len t out rs s)"
proof -
  show ?thesis unfolding sc_recvfrom_def Let_def using assms
    by (auto simp: split_beta intro!: all_done_bind [OF wait_cond_wf] all_done_bind [OF udp_recv_wf] all_done_bind [OF tcp_recv_wf] split: option.split)
qed

lemma fold_sock_free_wf: "net_wf s \<Longrightarrow> net_wf (fold sock_free is s)"
  by (induction "is" arbitrary: s) (simp_all add: sock_free_wf)

lemma tcp_close_wf [wf_keep]: "net_wf s \<Longrightarrow> net_wf (snd (tcp_close i s))"
proof -
  assume s: "net_wf s"
  have u: "net_wf (upd_sock i f s')" if "net_wf s'" "\<And>c. sock_wf c \<Longrightarrow> sock_wf (f c)" for f i s' using that by (rule net_wf_upd)
  show ?thesis unfolding tcp_close_def Let_def split_beta using s
    by (auto intro!: u tcp_send_seg_ex_wf sock_free_wf fold_sock_free_wf split: bool.split)
qed

lemma sc_close_wf [wf_keep]: "net_wf s \<Longrightarrow> net_wf (snd (sc_close i s))"
  by (simp add: sc_close_def split_beta tcp_close_wf split: option.split)

lemma sc_socket_wf [wf_keep]: "km_ok km \<Longrightarrow> net_wf s \<Longrightarrow> net_wf (snd (sc_socket km alive ty pid s))"
  by (simp add: sc_socket_def split_beta sock_alloc_wf split: option.split)

lemma net_sockcall_wf:
  assumes "km_ok km" "net_wf s"
  shows "all_done (\<lambda>r. net_wf (state_of r)) (net_sockcall km alive uptr um pid cmd a rs s)"
proof -
  note b = build_ready_wf [OF assms(2), of km]
  show ?thesis unfolding net_sockcall_def Let_def split_beta using b assms(1)
    by (auto simp: sc_socket_wf sc_bind_wf sc_listen_wf sc_close_wf
        intro!: all_done_bind [OF sc_accept_wf] all_done_bind [OF sc_sendto_wf] all_done_bind [OF sc_connect_wf] sc_recvfrom_wf split: bool.split)
qed

section \<open>Calls of the kernel\<close>

lemma net_tcp_connect_wf:
  assumes "km_ok km" "net_wf s" "dport < 65536"
  shows "keeps2 (net_tcp_connect km alive dst dport t rs s)"
proof -
  note a = sock_alloc_wf [OF assms(1) build_ready_wf [OF assms(2), of km], of alive SOCK_TYPE_TCP 0]
  note p = pick_port_wf [OF a, of 200]
  note b = tcp_bufs_wf [OF conjunct1 [OF p] assms(1)]
  show ?thesis unfolding net_tcp_connect_def split_beta using assms a p b build_ready_wf [OF assms(2), of km]
    by (auto simp: split_beta sock_free_wf intro!: all_done_bind [OF tcp_open_wf] split: option.split bool.split)
qed

lemma tcp_send_loop_wf:
  assumes "km_ok km" "i < NET_MAX_SOCKS"
  shows "net_wf s \<Longrightarrow> keeps2 (tcp_send_loop k km i d t rs s)"
proof (induction k arbitrary: d rs s)
  case (Suc k)
  have p: "net_wf (snd (tcp_push i (take TCP_RTX_BUF d) (snd (rtx_ready km i s'))))" if "net_wf s'" "fst (rtx_ready km i s')" for s'
    using tcp_push_wf [OF rtx_ready_wf [OF assms(1) that(1)] rtx_ready_some [OF that assms(2)]] by simp
  have w: "keeps2 (if rtx_len (g_socks s ! i) \<noteq> 0 then wait_cond km (cond_sent i) t rs s else Done (True, rs, s))"
    using assms(1) Suc.prems by (simp add: wait_cond_wf)
  show ?case
  proof (cases "d = []")
    case False
    show ?thesis unfolding tcp_send_loop.simps if_not_P [OF False]
      by (rule all_done_bind [OF w]) (simp add: split_beta Suc.IH p rtx_ready_wf [OF assms(1)] split: bool.split)
  qed (use Suc.prems in simp)
qed simp

lemma net_tcp_send_wf: "km_ok km \<Longrightarrow> net_wf s \<Longrightarrow> keeps2 (net_tcp_send km i d t rs s)"
  by (auto simp: net_tcp_send_def split_beta dest!: sock_get_bound intro!: all_done_bind [OF tcp_send_loop_wf] simp del: tcp_send_loop.simps split: option.split)

lemma net_tcp_recv_wf: "km_ok km \<Longrightarrow> net_wf s \<Longrightarrow> all_done (\<lambda>r. net_wf (snd (snd (snd r)))) (net_tcp_recv km i mx t rs s)"
  by (auto simp: net_tcp_recv_def split_beta intro!: all_done_bind [OF wait_cond_wf] all_done_bind [OF tcp_recv_wf] split: option.split)

lemma net_tcp_close_wf [wf_keep]: "net_wf s \<Longrightarrow> net_wf (net_tcp_close i s)"
  by (simp add: net_tcp_close_def tcp_close_wf split: option.split)

lemma httpd_answer_wf:
  assumes "km_ok km" "net_wf s" "i < NET_MAX_SOCKS"
  shows "net_wf (snd (httpd_answer km resp i s))"
proof -
  have u: "net_wf (upd_sock i f s')" if "net_wf s'" "\<And>c. sock_wf c \<Longrightarrow> sock_wf (f c)" for f i s' using that by (rule net_wf_upd)
  note b = tcp_bufs_wf [OF assms(2,1), of i]
  note h = hold_segment_wf [OF b tcp_bufs_some [OF assms(2) _ assms(3)]]
  show ?thesis unfolding httpd_answer_def Let_def split_beta using assms b
    by (auto simp: not_less intro!: u tcp_send_seg_ex_wf h split: bool.split)
qed

lemma net_httpd_once_wf:
  assumes "km_ok km" "net_wf s"
  shows "keeps2 (net_httpd_once km alive resp rs s)"
proof -
  have u: "net_wf (upd_sock i f s')" if "net_wf s'" "\<And>c. sock_wf c \<Longrightarrow> sock_wf (f c)" for f i s' using that by (rule net_wf_upd)
  note r = build_ready_wf [OF assms(2), of km]
  note a = sock_alloc_wf [OF assms(1) r, of alive SOCK_TYPE_TCP 0]
  note b = tcp_bufs_wf [OF a assms(1)]
  have p: "net_wf (upd_sock i (\<lambda>c. c\<lparr>local_port := 80\<rparr>) s')" if "net_wf s'" for i s' using that by (intro u) (auto simp: sock_wf_def)
  show ?thesis unfolding net_httpd_once_def Let_def split_beta using assms r a b
    by (auto simp: split_beta intro!: sock_free_wf u p all_done_bind [OF wait_cond_wf] tcp_close_wf httpd_answer_wf dest!: accepted_bound
        split: option.split bool.split list.split)
qed

section \<open>Runs of the stack\<close>

text \<open>Everything that can happen to the stack: a frame arrives, the timer fires, the card gets busy or free, or a
  system call or a call of the kernel runs, with whatever happens while it waits.\<close>

inductive net_step :: "kmalloc_fn \<Rightarrow> net \<Rightarrow> net \<Rightarrow> bool" for km where
  frame: "net_input km f n s = Done r \<Longrightarrow> net_step km s (snd r)"
| tick: "net_step km s (net_tick (s\<lparr>pit_ticks := t\<rparr>))"
| card: "net_step km s (s\<lparr>nic_free := b\<rparr>)"
| sockcall: "net_sockcall km alive uptr um pid cmd a rs s = Done r \<Longrightarrow> net_step km s (state_of r)"
| ping: "net_ping km dst t rs s = Done r \<Longrightarrow> net_step km s (snd (snd r))"
| dhcp: "net_dhcp km t rs s = Done r \<Longrightarrow> net_step km s (snd (snd r))"
| resolve: "net_dns_resolve km name t rs s = Done r \<Longrightarrow> net_step km s (snd (snd r))"
| server: "net_step km s (net_dns_set_server ip s)"
| flush: "net_step km s (net_dns_cache_clear s)"
| connect: "net_tcp_connect km alive dst dport t rs s = Done r \<Longrightarrow> dport < 65536 \<Longrightarrow> net_step km s (snd (snd r))"
| send: "net_tcp_send km i d t rs s = Done r \<Longrightarrow> net_step km s (snd (snd r))"
| recv: "net_tcp_recv km i mx t rs s = Done r \<Longrightarrow> net_step km s (snd (snd (snd r)))"
| close: "net_step km s (net_tcp_close i s)"
| httpd: "net_httpd_once km alive resp rs s = Done r \<Longrightarrow> net_step km s (snd (snd r))"

inductive net_reachable :: "kmalloc_fn \<Rightarrow> net \<Rightarrow> bool" for km where
  boot: "net_reachable km (net0\<lparr>nic_present := p, nic_mac := mac, nic_ip := ip\<rparr>)"
| step: "net_reachable km s \<Longrightarrow> net_step km s s' \<Longrightarrow> net_reachable km s'"

lemma done_of: "r = Done x \<Longrightarrow> all_done P r \<Longrightarrow> P x"
  by simp

lemma net_step_wf:
  assumes "net_step km s s'" "net_wf s" "km_ok km"
  shows "net_wf s'"
  using assms(1)
proof cases
  case (frame f n r) then show ?thesis using net_input_wf [OF assms(2,3), of f n] by simp
next
  case (sockcall alive uptr um pid cmd a rs r)
  then show ?thesis using net_sockcall_wf [OF assms(3,2), of alive uptr um pid cmd a rs] by simp
next
  case (ping dst t rs r) then show ?thesis using net_ping_wf [OF assms(3,2), of dst t rs] by simp
next
  case (dhcp t rs r) then show ?thesis using net_dhcp_wf [OF assms(3,2), of t rs] by simp
next
  case (resolve name t rs r) then show ?thesis using net_dns_resolve_wf [OF assms(3,2), of name t rs] by simp
next
  case (connect alive dst dport t rs r)
  then show ?thesis using net_tcp_connect_wf [OF assms(3,2), of dport alive dst t rs] by simp
next
  case (send i d t rs r) then show ?thesis using net_tcp_send_wf [OF assms(3,2), of i d t rs] by simp
next
  case (recv i mx t rs r) then show ?thesis using net_tcp_recv_wf [OF assms(3,2), of i mx t rs] by simp
next
  case (httpd alive resp rs r) then show ?thesis using net_httpd_once_wf [OF assms(3,2), of alive resp rs] by simp
next
  case server then show ?thesis using assms(2) by (simp add: net_dns_set_server_def net_wf_def)
next
  case flush then show ?thesis using assms(2) by (simp add: net_dns_cache_clear_def net_wf_def)
next
  case card then show ?thesis using assms(2) by (simp add: net_wf_def)
qed (use assms(2) in \<open>simp_all add: net_tick_wf net_tcp_close_wf\<close>)

lemma net0_wf: "net_wf (net0\<lparr>nic_present := p, nic_mac := mac, nic_ip := ip\<rparr>)"
  by (simp add: net_wf_def net0_def sock0_def sock_wf_def list_all_length)

text \<open>C31: whatever frames arrive (of any content and length), whatever processes ask for with whatever arguments,
  and however calls, interrupts and time-outs follow each other from the boot on: every table of the
  stack keeps its size and every buffer its length, the ring indices, the counts of unacknowledged and
  of reassembled bytes and the numbers of retransmissions stay inside their bounds, bytes are only counted in a
  buffer that exists, ports fit 16 bits, and every frame that was given to the card has between 14 and
  1514 bytes. All that is asked of the heap is that a block has the requested size.\<close>

theorem net_stays_well_formed:
  assumes "km_ok km" "net_reachable km s"
  shows "net_wf s"
  using assms(2)
proof induction
  case (boot p mac ip) then show ?case by (rule net0_wf)
next
  case (step s s') then show ?case using assms(1) by (blast intro: net_step_wf)
qed

text \<open>A process opens a socket after boot.\<close>

definition all_mem :: kmalloc_fn where
  "all_mem n = Some (replicate n 0)"

lemma sock_reap_alive: "sock_reap (\<lambda>_. True) s = s"
proof -
  have "fold (\<lambda>i s. s) is s = s" for "is" :: "nat list" and s :: net by (induction "is") simp_all
  then show ?thesis by (simp add: sock_reap_def Let_def)
qed

lemma first_socket: "\<exists>s. net_sockcall all_mem (\<lambda>_. True) (\<lambda>_ _ _. True) (\<lambda>_. 0) 1 0 [0, 0, 0, 0, 0] [] net0 = Done (0, [], None, [], s)"
proof -
  have u: "[0..<NET_MAX_SOCKS] = 0 # [Suc 0..<NET_MAX_SOCKS]" by (rule upt_conv_Cons) simp
  have "\<not> s_used (g_socks net0 ! 0)" by (simp add: net0_def sock0_def)
  then show ?thesis
    by (simp add: net_sockcall_def sc_socket_def sock_alloc_def sock_reap_alive build_ready_def all_mem_def u Let_def upd_sock_def)
qed

theorem net_stays_well_formed_witness:
  "\<exists>s. net_sockcall all_mem (\<lambda>_. True) (\<lambda>_ _ _. True) (\<lambda>_. 0) 1 0 [0, 0, 0, 0, 0] [] net0 = Done (0, [], None, [], s) \<and> km_ok all_mem \<and> net_reachable all_mem s \<and> net_wf s"
proof -
  have k: "km_ok all_mem" by (simp add: km_ok_def all_mem_def)
  have "net_reachable all_mem (net0\<lparr>nic_present := False, nic_mac := nic_mac net0, nic_ip := nic_ip net0\<rparr>)" by (rule net_reachable.boot)
  then have "net_reachable all_mem net0" by (simp add: net0_def)
  moreover obtain s where s: "net_sockcall all_mem (\<lambda>_. True) (\<lambda>_ _ _. True) (\<lambda>_. 0) 1 0 [0, 0, 0, 0, 0] [] net0 = Done (0, [], None, [], s)"
    using first_socket by blast
  ultimately have r: "net_reachable all_mem s" using net_reachable.step [OF _ net_step.sockcall [OF s]] by simp
  show ?thesis using s k r net_stays_well_formed [OF k r] by blast
qed

end
