(* ===== verification/NetLimits.thy ===== *)
theory NetLimits
  imports NetWf
begin

text \<open>
  How a received frame can end, and where the stack does not do what it means to: which frames make the
  interrupt handler sleep or store through a null pointer, and how much one call of the TCP client can send.
\<close>

section \<open>How a frame ends\<close>

lemma ipv4_reply_total: "(\<exists>r. ipv4_reply dst p d s = Done r) \<or> ipv4_reply dst p d s = Stuck \<and> arp_lookup dst s = None"
  by (auto simp: ipv4_reply_def ipv4_copy_def arp_lookup_def split: option.splits cong: list.case_cong)

lemma icmp_input_total:
  "(\<exists>s'. icmp_input ip ihl s = Done s') \<or>
   icmp_input ip ihl s = Stuck \<and> ip ihl = 8 \<and> ip (ihl + 1) = 0 \<and> arp_lookup (be32 ip 12) s = None"
proof -
  have "(\<exists>s'. nbind (ipv4_reply (be32 ip 12) 1 d s) (\<lambda>(ok, s1). Done (f ok s1)) = Done s') \<or>
      nbind (ipv4_reply (be32 ip 12) 1 d s) (\<lambda>(ok, s1). Done (f ok s1)) = Stuck \<and> arp_lookup (be32 ip 12) s = None" for d f
    using ipv4_reply_total [of "be32 ip 12" 1 d s] by (auto simp: split_beta)
  from this [of _ "\<lambda>ok s1. if ok then s1\<lparr>icmp_replied := icmp_replied s1 + 1\<rparr> else s1"] show ?thesis
    by (auto simp: icmp_input_def Let_def)
qed

lemma rx_store_total: "(\<exists>c'. rx_store bs c = Done c' \<and> (rx c' = None \<longrightarrow> rx c = None)) \<or> rx_store bs c = NullDeref \<and> rx c = None"
  by (auto simp: rx_store_def split: option.splits)

lemma ooo_drain_total: "(ooo c = None \<longrightarrow> ooo_len c = 0) \<Longrightarrow> (\<exists>r. ooo_drain c n = Done r) \<or> ooo_drain c n = NullDeref \<and> rx c = None"
proof (induction c n rule: ooo_drain.induct)
  case (1 c n)
  let ?n = "if ooo_len c < rx_space c then ooo_len c else rx_space c"
  show ?case
  proof (cases "ooo_len c = 0 \<or> ooo_seq c \<noteq> rcv_nxt c \<or> ?n = 0")
    case True
    have "ooo_drain c n = Done (c, n)" by (subst ooo_drain.simps) (use True in \<open>auto simp: Let_def\<close>)
    then show ?thesis by simp
  next
    case False
    then obtain b where b: "ooo c = Some b" using "1.prems" by auto
    have step: "ooo_drain c n = (case rx_store (take ?n b) c of
        Done c1 \<Rightarrow> ooo_drain (c1\<lparr>rcv_nxt := rcv_nxt c + of_nat ?n, ooo := Some (take (ooo_len c - ?n) (drop ?n b) @ drop (ooo_len c - ?n) b),
          ooo_len := ooo_len c - ?n, ooo_seq := rcv_nxt c + of_nat ?n\<rparr>) (n + ?n)
        | NullDeref \<Rightarrow> NullDeref | Stuck \<Rightarrow> Stuck | Waiting \<Rightarrow> Waiting)"
      by (subst ooo_drain.simps) (use False b in \<open>simp add: Let_def\<close>)
    show ?thesis using rx_store_total [of "take ?n b" c]
    proof (elim disjE exE conjE)
      fix c1 assume ok: "rx_store (take ?n b) c = Done c1" "rx c1 = None \<longrightarrow> rx c = None"
      let ?c2 = "c1\<lparr>rcv_nxt := rcv_nxt c + of_nat ?n, ooo := Some (take (ooo_len c - ?n) (drop ?n b) @ drop (ooo_len c - ?n) b),
          ooo_len := ooo_len c - ?n, ooo_seq := rcv_nxt c + of_nat ?n\<rparr>"
      have eq: "ooo_drain c n = ooo_drain ?c2 (n + ?n)" unfolding step ok(1) by simp
      have "(\<exists>r. ooo_drain ?c2 (n + ?n) = Done r) \<or> ooo_drain ?c2 (n + ?n) = NullDeref \<and> rx ?c2 = None"
        using False by (intro "1.IH" [OF _ refl refl _ b ok(1)]) simp_all
      then show ?thesis unfolding eq using ok(2) by (elim disjE) simp_all
    qed (simp add: step)
  qed
qed

lemma store_drain_total:
  assumes "ooo c = None \<longrightarrow> ooo_len c = 0"
  shows "(\<exists>r. nbind (rx_store d c) (\<lambda>c1. ooo_drain (c1\<lparr>rcv_nxt := rcv_nxt c1 + k\<rparr>) t) = Done r) \<or>
      nbind (rx_store d c) (\<lambda>c1. ooo_drain (c1\<lparr>rcv_nxt := rcv_nxt c1 + k\<rparr>) t) = NullDeref \<and> rx c = None"
proof -
  show ?thesis using rx_store_total [of d c]
  proof (elim disjE exE conjE)
    fix c1 assume ok: "rx_store d c = Done c1" "rx c1 = None \<longrightarrow> rx c = None"
    have "ooo c1 = ooo c" "ooo_len c1 = ooo_len c" using ok(1) by (auto simp: rx_store_def split: option.splits if_splits)
    then show ?thesis using ooo_drain_total [of "c1\<lparr>rcv_nxt := rcv_nxt c1 + k\<rparr>" t] assms ok by simp blast
  qed simp
qed

lemma data_sock_total:
  assumes "ooo c = None \<longrightarrow> ooo_len c = 0"
  shows "(\<exists>r. data_sock g c = Done r) \<or> data_sock g c = NullDeref \<and> rx c = None"
proof -
  let ?tk = "if length (sg_data g) > rx_space c then rx_space c else length (sg_data g)"
  note st = store_drain_total [OF assms, of "take ?tk (sg_data g)" "of_nat ?tk" ?tk]
  show ?thesis
  proof (cases "length (sg_data g) \<noteq> 0 \<and> \<not> sint (sg_seq g - rcv_nxt c) < 0 \<and> sg_seq g = rcv_nxt c")
    case True
    then have "data_sock g c = nbind (rx_store (take ?tk (sg_data g)) c) (\<lambda>c1. ooo_drain (c1\<lparr>rcv_nxt := rcv_nxt c1 + of_nat ?tk\<rparr>) ?tk)"
      by (simp add: data_sock_def Let_def)
    then show ?thesis using st by simp
  next
    case False
    then have "\<exists>r. data_sock g c = Done r" by (cases "ooo c") (auto simp: data_sock_def Let_def)
    then show ?thesis ..
  qed
qed

lemma tcp_receive_total:
  "(ooo (g_socks s ! i) = None \<longrightarrow> ooo_len (g_socks s ! i) = 0) \<Longrightarrow> (\<exists>s'. tcp_receive i g s = Done s') \<or> tcp_receive i g s = NullDeref \<and> rx (g_socks s ! i) = None"
  using data_sock_total [of "g_socks s ! i" g] by (auto simp: tcp_receive_def Let_def)

lemma ack_sock_frame [simp]: "rx (ack_sock t g c) = rx c" "ooo (ack_sock t g c) = ooo c" "ooo_len (ack_sock t g c) = ooo_len c"
  "s_state (ack_sock t g c) = s_state c" "snd_nxt (ack_sock t g c) = snd_nxt c" "rcv_nxt (ack_sock t g c) = rcv_nxt c"
  "rx_r (ack_sock t g c) = rx_r c" "rx_w (ack_sock t g c) = rx_w c"
  by (simp_all add: ack_sock_def Let_def)

lemma tcp_conn_input_total:
  assumes "net_wf s" "i < NET_MAX_SOCKS"
  shows "(\<exists>s'. tcp_conn_input i g s = Done s') \<or> tcp_conn_input i g s = NullDeref \<and> rx (g_socks s ! i) = None"
proof -
  have l: "i < length (g_socks s)" using assms by (simp add: net_wf_def)
  have w: "ooo (g_socks s ! i) = None \<longrightarrow> ooo_len (g_socks s ! i) = 0" using net_wf_sock [OF assms] by (simp add: sock_wf_def)
  have r: "(\<exists>s'. tcp_receive i g (upd_sock i f s) = Done s') \<or> tcp_receive i g (upd_sock i f s) = NullDeref \<and> rx (g_socks s ! i) = None"
    if "rx (f (g_socks s ! i)) = rx (g_socks s ! i)" "ooo (f (g_socks s ! i)) = ooo (g_socks s ! i)" "ooo_len (f (g_socks s ! i)) = ooo_len (g_socks s ! i)" for f
    using tcp_receive_total [of "upd_sock i f s" i g] that l w by (simp add: upd_sock_def)
  have u: "upd_sock i f (upd_sock i h s) = upd_sock i (\<lambda>c. f (h c)) s" for f h using l by (simp add: upd_sock_def)
  show ?thesis unfolding tcp_conn_input_def Let_def u
    using r [of "ack_sock (pit_ticks s) g"] r [of "\<lambda>c. (ack_sock (pit_ticks s) g c)\<lparr>s_state := TS_ESTABLISHED\<rparr>"]
    by (auto split: tcp_state.split)
qed

lemma udp_input_total: "(\<exists>s'. udp_input ip ihl s = Done s') \<or> udp_input ip ihl s = NullDeref \<and>
    (\<exists>i < NET_MAX_SOCKS. let c = g_socks s ! i in s_used c \<and> s_type c = SOCK_TYPE_UDP \<and> local_port c = be16 ip (ihl + 2) \<and> rx c = None)"
proof -
  have "(\<exists>s'. udp_deliver a p q d s1 = Done s') \<or> udp_deliver a p q d s1 = NullDeref \<and>
      (\<exists>i < NET_MAX_SOCKS. let c = g_socks s1 ! i in s_used c \<and> s_type c = SOCK_TYPE_UDP \<and> local_port c = q \<and> rx c = None)" for a p q d s1
  proof (cases "filter (\<lambda>i. let c = g_socks s1 ! i in s_used c \<and> s_type c = SOCK_TYPE_UDP \<and> local_port c = q) [0..<NET_MAX_SOCKS]")
    case (Cons i l)
    then have i: "i < NET_MAX_SOCKS" "s_used (g_socks s1 ! i)" "s_type (g_socks s1 ! i) = SOCK_TYPE_UDP" "local_port (g_socks s1 ! i) = q"
      using in_filter_upt [OF Cons] by (simp_all add: Let_def)
    then show ?thesis using rx_store_total [of "udp_record a p d" "g_socks s1 ! i"] Cons by (auto simp: udp_deliver_def Let_def)
  qed (simp add: udp_deliver_def)
  from this [of _ _ _ _ "s\<lparr>udp_rx := udp_rx s + 1\<rparr>"] show ?thesis by (auto simp: udp_input_def Let_def)
qed

lemma tcp_input_total:
  assumes "net_wf s"
  shows "(\<exists>s'. tcp_input km ip ihl s = Done s') \<or> tcp_input km ip ihl s = NullDeref \<and>
    (\<exists>g i. tcp_parse ip ihl = Some g \<and> tcp_conn g s = Some i \<and> rx (g_socks s ! i) = None)"
proof -
  have "(\<exists>s'. tcp_conn_input i g s = Done s') \<or> tcp_conn_input i g s = NullDeref \<and> rx (g_socks s ! i) = None"
    if "tcp_conn g s = Some i" for g i using tcp_conn_input_total [OF assms tcp_conn_bound [OF that], of g] .
  then show ?thesis by (simp add: tcp_input_def split: option.split)
qed

text \<open>The packet is for a socket that has no receive buffer: a TCP segment of its connection or a datagram for its port.\<close>

definition for_bufferless :: "frame_buf \<Rightarrow> nat \<Rightarrow> net \<Rightarrow> bool" where
  "for_bufferless ip ihl s \<longleftrightarrow>
     ip 9 = 6 \<and> (\<exists>g i. tcp_parse ip ihl = Some g \<and> tcp_conn g s = Some i \<and> rx (g_socks s ! i) = None) \<or>
     ip 9 = 17 \<and> (\<exists>i < NET_MAX_SOCKS. let c = g_socks s ! i in
       s_used c \<and> s_type c = SOCK_TYPE_UDP \<and> local_port c = be16 ip (ihl + 2) \<and> rx c = None)"

lemma for_bufferless_cong: "g_socks s' = g_socks s \<Longrightarrow> for_bufferless ip ihl s' = for_bufferless ip ihl s"
  by (simp add: for_bufferless_def tcp_conn_def)

lemma ip_input_total:
  assumes "net_wf s"
  shows "(\<exists>r. ip_input km ip ihl s = Done r) \<or>
    ip_input km ip ihl s = Stuck \<and> ip 9 = 1 \<and> ip ihl = 8 \<and> ip (ihl + 1) = 0 \<and> arp_lookup (be32 ip 12) s = None \<or>
    ip_input km ip ihl s = NullDeref \<and> for_bufferless ip ihl s"
proof -
  have "g_socks (snd (dns_input ip ihl s)) = g_socks s" by (simp add: dns_input_def Let_def)
  then show ?thesis
    using icmp_input_total [of ip ihl s] udp_input_total [of ip ihl "snd (dns_input ip ihl s)"] tcp_input_total [OF assms, of km ip ihl]
    unfolding ip_input_def Let_def split_beta by (auto simp: for_bufferless_def Let_def split: bool.split)
qed

lemma arp_lookup_first:
  assumes "i < ARP_CACHE" "g_arp s ! i = (ip, m)" "\<forall>k < i. fst (g_arp s ! k) \<noteq> ip"
  shows "arp_lookup ip s = Some m"
proof -
  obtain r where "filter (\<lambda>i. fst (g_arp s ! i) = ip) [0..<ARP_CACHE] = i # r"
    using first_filter [of "\<lambda>i. fst (g_arp s ! i) = ip" i ARP_CACHE] assms by auto
  then show ?thesis using assms(2) by (simp add: arp_lookup_def)
qed

lemma arp_learn_lookup:
  assumes "length (g_arp s) = ARP_CACHE" "ip \<noteq> 0"
  shows "arp_lookup ip (arp_learn ip m s) = Some m"
proof (cases "filter (\<lambda>i. fst (g_arp s ! i) = ip) [0..<ARP_CACHE]")
  case (Cons i r)
  then have "arp_learn ip m s = s\<lparr>g_arp := (g_arp s)[i := (ip, m)]\<rparr>" using assms by (simp add: arp_learn_def)
  then show ?thesis using filter_first [OF Cons] assms(1) by (intro arp_lookup_first [of i]) auto
next
  case Nil
  let ?slot = "case filter (\<lambda>i. fst (g_arp s ! i) = 0) [1..<ARP_CACHE] of i # _ \<Rightarrow> i | [] \<Rightarrow> 0"
  have b: "?slot < ARP_CACHE"
  proof (cases "filter (\<lambda>i. fst (g_arp s ! i) = 0) [1..<ARP_CACHE]")
    case (Cons x l)
    have "x \<in> set (filter (\<lambda>i. fst (g_arp s ! i) = 0) [1..<ARP_CACHE])" unfolding Cons by simp
    then have "x < ARP_CACHE" by simp
    then show ?thesis unfolding Cons by simp
  qed (simp del: One_nat_def)
  have "\<forall>k < ARP_CACHE. fst (g_arp s ! k) \<noteq> ip" using Nil by (simp add: filter_empty_conv)
  moreover have "arp_learn ip m s = s\<lparr>g_arp := (g_arp s)[?slot := (ip, m)]\<rparr>" using Nil assms by (simp add: arp_learn_def Let_def)
  ultimately show ?thesis using b assms(1) by (intro arp_lookup_first [of ?slot]) auto
qed

lemma arp_lookup_none: "arp_lookup ip s = None \<Longrightarrow> k < ARP_CACHE \<Longrightarrow> fst (g_arp s ! k) \<noteq> ip"
  by (auto simp: arp_lookup_def filter_empty_conv split: list.splits)

lemma arp_learn_socks: "g_socks (arp_learn ip m s) = g_socks s"
  by (auto simp: arp_learn_def Let_def split: list.splits)

text \<open>C32: a received frame, of whatever content and length, leaves a well-formed state and makes the interrupt handler
  neither sleep nor store through a null pointer, except in two cases: an ICMP message with the type and
  the code of an echo request whose source address is 0.0.0.0, when all four entries of the ARP cache are taken
  (the handler then sleeps to resolve the address, lemma \<open>echo_from_zero_sleeps\<close>), and a TCP segment
  of a connection, or a datagram for a port, whose socket has no receive buffer.\<close>

theorem net_input_outcomes:
  assumes "net_wf s" "km_ok km"
  shows "let ip = \<lambda>i. f (ETH_HDR_LEN + i); ihl = unat (ip 0 AND 0x0F) * 4 in
    (\<exists>r s'. net_input km f n s = Done (r, s') \<and> net_wf s') \<or>
    net_input km f n s = Stuck \<and> ip 9 = 1 \<and> ip ihl = 8 \<and> ip (ihl + 1) = 0 \<and> be32 ip 12 = 0 \<and> (\<forall>k < ARP_CACHE. fst (g_arp s ! k) \<noteq> 0) \<or>
    net_input km f n s = NullDeref \<and> for_bufferless ip ihl s"
proof -
  define ip where "ip = (\<lambda>i. f (ETH_HDR_LEN + i))"
  define ihl where "ihl = unat (ip 0 AND 0x0F) * 4"
  let ?s = "snd (build_ready km s)"
  let ?s1 = "arp_learn (be32 ip 12) (bytes_at f 6 6) ?s"
  have same: "g_socks ?s = g_socks s" "g_arp ?s = g_arp s" by (simp_all add: build_ready_def)
  have wf: "net_wf ?s1" using assms(1) by (intro arp_learn_wf build_ready_wf) simp_all
  have none: "be32 ip 12 = 0 \<and> (\<forall>k < ARP_CACHE. fst (g_arp s ! k) \<noteq> 0)" if "arp_lookup (be32 ip 12) ?s1 = None"
  proof (cases "be32 ip 12 = 0")
    case True
    then have "?s1 = ?s" by (simp add: arp_learn_def)
    then show ?thesis using arp_lookup_none [OF that] True same by auto
  next
    case False
    then show ?thesis using arp_learn_lookup [OF _ False, of ?s "bytes_at f 6 6"] that assms(1) same by (simp add: net_wf_def)
  qed
  have socks: "g_socks ?s1 = g_socks s" using same by (simp add: arp_learn_socks)
  have run: "(\<exists>r. ip_input km ip ihl ?s1 = Done r) \<or>
      ip_input km ip ihl ?s1 = Stuck \<and> ip 9 = 1 \<and> ip ihl = 8 \<and> ip (ihl + 1) = 0 \<and> be32 ip 12 = 0 \<and> (\<forall>k < ARP_CACHE. fst (g_arp s ! k) \<noteq> 0) \<or>
      ip_input km ip ihl ?s1 = NullDeref \<and> for_bufferless ip ihl s"
    using ip_input_total [OF wf, of km ip ihl] none unfolding for_bufferless_cong [OF socks] by blast
  have choice: "(\<exists>r. (if b then x else y) = Done r) \<or> (if b then x else y) = ip_input km ip ihl ?s1"
    if "(\<exists>r. x = Done r) \<or> x = ip_input km ip ihl ?s1" "(\<exists>r. y = Done r) \<or> y = ip_input km ip ihl ?s1"
    for b and x y :: "(int \<times> net) nres" using that by (cases b) simp_all
  have "(\<exists>r. net_input km f n s = Done r) \<or> net_input km f n s = ip_input km ip ihl ?s1"
  proof (cases "fst (build_ready km s)")
    case True
    then have b: "build_ready km s = (True, ?s)" by (cases "build_ready km s") simp
    show ?thesis unfolding net_input_def Let_def ip_def [symmetric]
      by (subst (1 2) b, unfold prod.case bool.case ihl_def [symmetric], intro choice) blast+
  next
    case False
    then have b: "build_ready km s = (False, ?s)" by (cases "build_ready km s") simp
    show ?thesis unfolding net_input_def by (subst b) simp
  qed
  then show ?thesis using run net_input_wf [OF assms, of f n] unfolding Let_def ip_def [symmetric] ihl_def [symmetric] by fastforce
qed

theorem net_input_outcomes_witness:
  "net_wf net0 \<and> km_ok all_mem \<and> (\<exists>r s'. net_input all_mem (\<lambda>i. of_nat i) 60 net0 = Done (r, s') \<and> net_wf s')"
proof -
  have w: "net_wf net0" "km_ok all_mem" by (simp_all add: net_wf_def net0_def sock0_def sock_wf_def list_all_length km_ok_def all_mem_def)
  show ?thesis using net_input_outcomes [OF w, of "\<lambda>i. of_nat i" 60] w by (simp add: Let_def for_bufferless_def)
qed

lemma echo_from_zero_sleeps:
  assumes "ip ihl = 8" "ip (ihl + 1) = 0" "be32 ip 12 = 0" "be16 ip 2 \<ge> ihl + 8" "be16 ip 2 \<le> 1500" "\<forall>k < ARP_CACHE. fst (g_arp s ! k) \<noteq> 0"
  shows "icmp_input ip ihl s = Stuck"
proof -
  have "arp_lookup 0 s' = None" if "g_arp s' = g_arp s" for s' using assms(6) that by (simp add: arp_lookup_def filter_False)
  then show ?thesis using assms(1-5) by (simp add: icmp_input_def Let_def ipv4_reply_def ipv4_copy_def) linarith
qed

section \<open>A passive connection has no buffer\<close>

lemma tcp_send_socks [simp]: "g_socks (snd (tcp_send_seg_ex i fl d sq s)) = g_socks s"
  by (simp add: tcp_send_seg_ex_def rtl8139_send_def Let_def split: option.split bool.split prod.split)

lemma tcp_bufs_ok:
  assumes "km TCP_RTX_BUF \<noteq> None" "km TCP_OOO_BUF \<noteq> None"
  shows "\<exists>a b. tcp_bufs km i s = (True, upd_sock i (\<lambda>c. tcp_reset (c\<lparr>rtx := a, ooo := b, ooo_seq := 0\<rparr>)) s)"
  using assms by (cases "rtx (g_socks s ! i)"; cases "ooo (g_socks s ! i)") (auto simp: tcp_bufs_def Let_def)

lemma tcp_passive_child:
  assumes "tcp_listener g s = Some l" "has (sg_flags g) TCP_SYN" "\<not> has (sg_flags g) TCP_ACK" "length (g_socks s) = NET_MAX_SOCKS"
    and i: "filter (\<lambda>i. \<not> s_used (g_socks s ! i)) [0..<NET_MAX_SOCKS] = i # r"
    and mem: "km TCP_RTX_BUF \<noteq> None" "km TCP_OOO_BUF \<noteq> None"
  shows "\<exists>c. g_socks (tcp_passive km g s) = (g_socks s)[i := c] \<and> s_used c \<and> s_type c = SOCK_TYPE_TCP \<and> s_state c = TS_SYN_RCVD \<and>
    local_port c = sg_dport g \<and> peer_port c = sg_sport g \<and> peer_ip c = sg_src g \<and> rx c = rx (g_socks s ! i) \<and> rx_r c = 0 \<and> rx_w c = 0 \<and>
    rcv_nxt c = sg_seq g + 1 \<and> snd_una c = initial_seq s \<and> snd_nxt c = initial_seq s + 1 \<and> ooo_len c = 0"
proof -
  have l: "i < length (g_socks s)" using in_filter_upt [OF i] assms(4) by simp
  let ?s1 = "upd_sock i (\<lambda>c. c\<lparr>s_used := True, s_type := SOCK_TYPE_TCP, s_state := TS_SYN_RCVD, local_port := sg_dport g,
      peer_port := sg_sport g, peer_ip := sg_src g, got_fin := False, owner_pid := owner_pid (g_socks s ! l), s_parent := int l, rx_r := 0, rx_w := 0\<rparr>) s"
  obtain a b where bufs: "tcp_bufs km i ?s1 = (True, upd_sock i (\<lambda>c. tcp_reset (c\<lparr>rtx := a, ooo := b, ooo_seq := 0\<rparr>)) ?s1)"
    using tcp_bufs_ok [OF mem] by blast
  have run: "tcp_passive km g s = snd (tcp_send_seg_ex i (TCP_SYN OR TCP_ACK) [] (initial_seq s)
      (upd_sock i (\<lambda>c. c\<lparr>snd_una := initial_seq s, rcv_nxt := sg_seq g + 1, snd_nxt := initial_seq s + 1\<rparr>)
        (upd_sock i (\<lambda>c. tcp_reset (c\<lparr>rtx := a, ooo := b, ooo_seq := 0\<rparr>)) ?s1)))"
    unfolding tcp_passive_def assms(1) i Let_def using assms(2,3) bufs by (simp add: initial_seq_def upd_sock_def)
  show ?thesis unfolding run tcp_send_socks using l
    by (intro exI conjI, unfold upd_sock_def, simp, (rule refl)?) (simp_all add: tcp_reset_def)
qed

lemma first_data_faults:
  assumes "i < length (g_socks s)" "c = g_socks s ! i" "s_state c = TS_SYN_RCVD" "rx c = None" "rx_r c = 0" "rx_w c = 0" "snd_una c + 1 = snd_nxt c"
    and g: "has (sg_flags g) TCP_ACK" "\<not> has (sg_flags g) TCP_RST" "sg_ack g = snd_nxt c" "sg_seq g = rcv_nxt c" "sg_data g \<noteq> []"
  shows "tcp_conn_input i g s = NullDeref"
proof -
  have "data_sock g ((ack_sock t g c)\<lparr>s_state := TS_ESTABLISHED\<rparr>) = NullDeref" for t
    using assms by (simp add: data_sock_def Let_def rx_space_def rx_store_def)
  then show ?thesis using assms by (simp add: tcp_conn_input_def tcp_receive_def Let_def upd_sock_def)
qed

text \<open>C33: a connection that a client opens to a listening port in a socket slot that never had a receive buffer gets
  none: when the client's next segment completes the handshake and carries data, the first byte is stored
  through the null pointer.\<close>

theorem passive_open_has_no_buffer:
  assumes p: "tcp_parse ip1 ihl1 = Some g1" "tcp_parse ip2 ihl2 = Some g2"
    and syn: "tcp_conn g1 s = None" "tcp_listener g1 s = Some l" "has (sg_flags g1) TCP_SYN" "\<not> has (sg_flags g1) TCP_ACK" "length (g_socks s) = NET_MAX_SOCKS"
    and slot: "filter (\<lambda>i. \<not> s_used (g_socks s ! i)) [0..<NET_MAX_SOCKS] = i # r" "rx (g_socks s ! i) = None"
    and mem: "km TCP_RTX_BUF \<noteq> None" "km TCP_OOO_BUF \<noteq> None"
    and peer: "sg_sport g2 = sg_sport g1" "sg_dport g2 = sg_dport g1" "sg_src g2 = sg_src g1"
    and data: "has (sg_flags g2) TCP_ACK" "\<not> has (sg_flags g2) TCP_RST" "sg_ack g2 = initial_seq s + 1" "sg_seq g2 = sg_seq g1 + 1" "sg_data g2 \<noteq> []"
  shows "nbind (tcp_input km ip1 ihl1 s) (tcp_input km ip2 ihl2) = NullDeref"
proof -
  let ?s = "tcp_passive km g1 s"
  obtain c where c: "g_socks ?s = (g_socks s)[i := c]" "s_used c" "s_type c = SOCK_TYPE_TCP" "s_state c = TS_SYN_RCVD"
    "local_port c = sg_dport g1" "peer_port c = sg_sport g1" "peer_ip c = sg_src g1" "rx c = None" "rx_r c = 0" "rx_w c = 0"
    "rcv_nxt c = sg_seq g1 + 1" "snd_una c = initial_seq s" "snd_nxt c = initial_seq s + 1"
    using tcp_passive_child [OF syn(2-5) slot(1) mem] slot(2) by auto
  have i: "i < NET_MAX_SOCKS" using in_filter_upt [OF slot(1)] by simp
  let ?P = "\<lambda>k. let c = g_socks ?s ! k in s_used c \<and> s_type c = SOCK_TYPE_TCP \<and> local_port c = sg_dport g2 \<and> s_state c \<noteq> TS_LISTEN \<and>
          peer_port c = sg_sport g2 \<and> peer_ip c = sg_src g2"
  have "\<not> ?P k" if "k < i" for k
    using syn(1) that i c(1) peer by (auto simp: tcp_conn_def Let_def filter_empty_conv split: list.splits)
  moreover have "?P i" using c i syn(5) peer by (simp add: Let_def)
  ultimately obtain q where "filter ?P [0..<NET_MAX_SOCKS] = i # q" using first_filter [of ?P i NET_MAX_SOCKS] i by blast
  then have "tcp_conn g2 ?s = Some i" by (simp add: tcp_conn_def)
  moreover have "tcp_conn_input i g2 ?s = NullDeref" using c i syn(5) data by (intro first_data_faults [of _ _ c]) simp_all
  ultimately show ?thesis using p syn(1) by (simp add: tcp_input_def)
qed

text \<open>A client connects to port 80 of a machine whose second slot was never used.\<close>

definition web_host :: net where
  "web_host = net0\<lparr>g_socks := sock0\<lparr>s_used := True, s_type := SOCK_TYPE_TCP, s_state := TS_LISTEN, local_port := 80\<rparr> # replicate 7 sock0\<rparr>"

definition syn_packet :: frame_buf where
  "syn_packet = (\<lambda>_. 0)(3 := 40, 21 := 9, 23 := 80, 32 := 0x50, 33 := 0x02)"

definition data_packet :: frame_buf where
  "data_packet = (\<lambda>_. 0)(3 := 41, 21 := 9, 23 := 80, 27 := 1, 30 := 0x10, 31 := 0x01, 32 := 0x50, 33 := 0x10, 40 := 71)"

lemma packets_parse:
  "tcp_parse syn_packet 20 = Some \<lparr>sg_flags = 2, sg_seq = 0, sg_ack = 0, sg_data = [], sg_sport = 9, sg_dport = 80, sg_src = 0\<rparr>"
  "tcp_parse data_packet 20 = Some \<lparr>sg_flags = 16, sg_seq = 1, sg_ack = 0x1001, sg_data = [71], sg_sport = 9, sg_dport = 80, sg_src = 0\<rparr>"
  by (simp_all add: tcp_parse_def syn_packet_def data_packet_def be16_def be32_def bytes_at_def Let_def push_bit_eq_mult drop_bit_eq_div)

lemma web_host_slots:
  "filter (\<lambda>i. \<not> s_used (g_socks web_host ! i)) [0..<NET_MAX_SOCKS] = [1, 2, 3, 4, 5, 6, 7]"
  "tcp_conn g web_host = None" "sg_dport g = 80 \<Longrightarrow> tcp_listener g web_host = Some 0" "rx (g_socks web_host ! 1) = None" "initial_seq web_host = 0x1000"
  "length (g_socks web_host) = NET_MAX_SOCKS"
  by (simp_all add: web_host_def net0_def sock0_def tcp_conn_def tcp_listener_def initial_seq_def upt_rec Let_def)

theorem passive_open_has_no_buffer_witness: "nbind (tcp_input all_mem syn_packet 20 web_host) (tcp_input all_mem data_packet 20) = NullDeref"
  by (rule passive_open_has_no_buffer [OF packets_parse web_host_slots(2) web_host_slots(3) _ _ web_host_slots(6,1,4)])
    (simp_all add: web_host_slots all_mem_def)

section \<open>How much one segment can carry\<close>

abbreviation PSH_ACK :: nat where "PSH_ACK \<equiv> TCP_PSH OR TCP_ACK"

lemma tcp_segment_length [simp]: "length (tcp_segment ip c fl sq d) = 20 + length d"
  by (simp add: tcp_segment_def tcp_header_def Let_def)

lemma tcp_segment_cong: "local_port c' = local_port c \<Longrightarrow> peer_port c' = peer_port c \<Longrightarrow> peer_ip c' = peer_ip c \<Longrightarrow> rcv_nxt c' = rcv_nxt c \<Longrightarrow>
    tcp_segment ip c' fl sq d = tcp_segment ip c fl sq d"
  by (simp add: tcp_segment_def tcp_header_def)

lemma tcp_push_exact:
  assumes "i < length (g_socks s)" "rtx (g_socks s ! i) = Some b" "length d \<le> TCP_RTX_BUF" "length b = TCP_RTX_BUF"
    and "arp_lookup (peer_ip (g_socks s ! i)) s = Some mac" "length mac = 6" "length (nic_mac s) = 6" "nic_present s" "nic_free s"
  shows "\<exists>s'. tcp_push i d s = (length d \<le> 1460, s') \<and>
    sent s' = sent s @ (if length d \<le> 1460 then [ip_frame mac (nic_mac s) ((g_ip_id s + 1) mod 65536) 6 (nic_ip s) (peer_ip (g_socks s ! i))
        (tcp_segment (nic_ip s) (g_socks s ! i) PSH_ACK (snd_nxt (g_socks s ! i)) d)] else []) \<and>
    (let c = g_socks s ! i; c' = g_socks s' ! i in
       rtx_len c' = (if length d \<le> 1460 then length d else 0) \<and> rtx c' = Some (d @ drop (length d) b) \<and>
       snd_nxt c' = snd_nxt c + (if length d \<le> 1460 then of_nat (length d) else 0))"
proof -
  let ?c = "g_socks s ! i" and ?sq = "snd_nxt (g_socks s ! i)"
  let ?h = "\<lambda>c. c\<lparr>rtx := map_option (\<lambda>b. d @ drop (length d) b) (rtx c), rtx_len := length d, snd_nxt := ?sq + of_nat (length d)\<rparr>"
  let ?s1 = "upd_sock i ?h s"
  have look: "arp_lookup (peer_ip ?c) ?s1 = Some mac" using assms(5) by (simp add: arp_lookup_def upd_sock_def cong: list.case_cong)
  have c1: "g_socks ?s1 ! i = ?h ?c" using assms(1) by (simp add: upd_sock_def)
  have seg: "tcp_segment ip (?h ?c) fl sq d = tcp_segment ip ?c fl sq d" for ip fl sq by (rule tcp_segment_cong) simp_all
  have "tcp_send_seg_ex i PSH_ACK d ?sq ?s1 = (if length d \<le> 1460
      then (True, ?s1\<lparr>g_ip_id := (g_ip_id s + 1) mod 65536, tcp_tx := tcp_tx s + 1, sent := sent s @ [ip_frame mac (nic_mac s) ((g_ip_id s + 1) mod 65536) 6 (nic_ip s) (peer_ip ?c)
        (tcp_segment (nic_ip s) ?c PSH_ACK ?sq d)]\<rparr>)
      else (False, ?s1\<lparr>g_ip_id := (g_ip_id s + 1) mod 65536\<rparr>))"
    unfolding tcp_send_seg_ex_def Let_def c1 seg using look assms by (simp add: rtl8139_send_def ip_frame_def upd_sock_def)
  then show ?thesis unfolding tcp_push_def Let_def using assms(1,2) by (simp add: upd_sock_def)
qed

text \<open>C34: on an idle connection to a neighbour in the ARP cache \<open>net_tcp_send\<close> sends up to 1460 bytes as one
  segment, keeps them for retransmission, advances the sequence number by their count and returns the count;
  any longer message fails completely: nothing is sent and -1 is returned, because the code cuts messages
  into pieces of 1536 bytes, which do not fit an Ethernet frame.\<close>

theorem tcp_send_at_most_1460:
  assumes c: "sock_get i s = Some c" "s_type c = SOCK_TYPE_TCP" "can_send i s" "rtx_len c = 0" "rtx c = Some b" "length b = TCP_RTX_BUF" "net_wf s"
    and n: "arp_lookup (peer_ip c) s = Some mac" "length mac = 6" "length (nic_mac s) = 6" "nic_present s" "nic_free s" and d: "d \<noteq> []"
  shows "\<exists>s'. net_tcp_send km i d t rs s = Done (if length d \<le> 1460 then int (length d) else -1, rs, s') \<and>
    sent s' = sent s @ (if length d \<le> 1460 then [ip_frame mac (nic_mac s) ((g_ip_id s + 1) mod 65536) 6 (nic_ip s) (peer_ip c)
        (tcp_segment (nic_ip s) c PSH_ACK (snd_nxt c) d)] else []) \<and>
    (let c' = g_socks s' ! i in rtx_len c' = (if length d \<le> 1460 then length d else 0) \<and> (length d \<le> 1460 \<longrightarrow> rtx c' = Some (d @ drop (length d) b)) \<and>
       snd_nxt c' = snd_nxt c + (if length d \<le> 1460 then of_nat (length d) else 0))"
proof -
  have i: "i < length (g_socks s)" "g_socks s ! i = c" using c(1,7) by (auto simp: sock_get_def net_wf_def split: if_splits)
  have ready: "rtx_ready km i s = (True, s)" using c(5) i by (simp add: rtx_ready_def)
  let ?d = "take TCP_RTX_BUF d"
  have l: "length ?d \<le> 1460 \<longleftrightarrow> length d \<le> 1460" "length d \<le> 1460 \<Longrightarrow> ?d = d" by auto
  obtain s' where s': "tcp_push i ?d s = (length d \<le> 1460, s')"
    "sent s' = sent s @ (if length d \<le> 1460 then [ip_frame mac (nic_mac s) ((g_ip_id s + 1) mod 65536) 6 (nic_ip s) (peer_ip c)
        (tcp_segment (nic_ip s) c PSH_ACK (snd_nxt c) ?d)] else [])"
    "rtx_len (g_socks s' ! i) = (if length d \<le> 1460 then length ?d else 0)" "rtx (g_socks s' ! i) = Some (?d @ drop (length ?d) b)"
    "snd_nxt (g_socks s' ! i) = snd_nxt c + (if length d \<le> 1460 then of_nat (length ?d) else 0)"
    using tcp_push_exact [of i s b ?d mac] c i n l(1) by (auto simp: Let_def)
  have "tcp_send_loop (Suc k) km i d t rs s = (if length d \<le> 1460 then tcp_send_loop k km i [] t rs s' else Done (False, rs, s'))" for k
    using d c(4) i ready s'(1) by simp
  then have "net_tcp_send km i d t rs s = Done (if length d \<le> 1460 then int (length d) else -1, rs, s')"
    using c d by (cases "length d div TCP_RTX_BUF") (simp_all add: net_tcp_send_def del: tcp_send_loop.simps, simp_all)
  then show ?thesis using s'(2-5) l(2) by (intro exI [of _ s']) (auto simp: Let_def)
qed

definition tcp_client :: net where
  "tcp_client = net0\<lparr>nic_present := True, g_arp := replicate 4 (7, [1, 2, 3, 4, 5, 6]),
     g_socks := sock0\<lparr>s_used := True, s_type := SOCK_TYPE_TCP, s_state := TS_ESTABLISHED, peer_ip := 7, rtx := Some (replicate TCP_RTX_BUF 0)\<rparr> # replicate 7 sock0\<rparr>"

theorem tcp_send_at_most_1460_witness:
  "(\<exists>s'. net_tcp_send all_mem 0 (replicate 1461 0) 0 [] tcp_client = Done (-1, [], s') \<and> sent s' = []) \<and>
   (\<exists>s'. net_tcp_send all_mem 0 (replicate 1460 0) 0 [] tcp_client = Done (1460, [], s') \<and> length (sent s') = 1)"
proof -
  let ?c = "g_socks tcp_client ! 0"
  have c: "sock_get 0 tcp_client = Some ?c" "s_type ?c = SOCK_TYPE_TCP" "can_send 0 tcp_client" "rtx_len ?c = 0" "rtx ?c = Some (replicate TCP_RTX_BUF 0)"
    "length (replicate TCP_RTX_BUF (0 :: u8)) = TCP_RTX_BUF" "net_wf tcp_client"
    by (simp_all add: tcp_client_def net0_def sock0_def sock_get_def can_send_def net_wf_def sock_wf_def list_all_length nth_Cons split: nat.split)
  have n: "arp_lookup (peer_ip ?c) tcp_client = Some [1, 2, 3, 4, 5, 6]" "length [1, 2, 3, 4, 5, 6 :: u8] = 6" "length (nic_mac tcp_client) = 6" "nic_present tcp_client" "nic_free tcp_client"
    by (simp_all add: tcp_client_def net0_def arp_lookup_def upt_rec)
  have e: "sent tcp_client = []" by (simp add: tcp_client_def net0_def)
  show ?thesis using tcp_send_at_most_1460 [OF c n, of "replicate 1461 0" all_mem 0 "[]"] tcp_send_at_most_1460 [OF c n, of "replicate 1460 0" all_mem 0 "[]"] e
    by auto
qed

end
