(* ===== verification/NetLease.thy ===== *)
theory NetLease
  imports NetWf
begin

text \<open>
  The life of a DHCP lease: when the renewal sends what, and that the way back after a lost lease is never
  taken.
\<close>

section \<open>What does not touch the lease\<close>

definition lease_of :: "net \<Rightarrow> dhcp_lease \<times> dhcp_renew \<times> u32" where
  "lease_of s = (g_lease s, g_renew s, nic_ip s)"

named_theorems lease_keep \<open>operations that leave lease, renewal and address alone\<close>

lemma lease_of_simps [simp]:
  "lease_of (s\<lparr>pit_ticks := t\<rparr>) = lease_of s" "lease_of (s\<lparr>last_tick := t\<rparr>) = lease_of s" "lease_of (s\<lparr>udp_rx := w\<rparr>) = lease_of s"
  "lease_of (s\<lparr>udp_tx := w\<rparr>) = lease_of s" "lease_of (s\<lparr>tcp_rx := w\<rparr>) = lease_of s" "lease_of (s\<lparr>tcp_tx := w\<rparr>) = lease_of s"
  "lease_of (s\<lparr>tcp_rtx := w\<rparr>) = lease_of s" "lease_of (s\<lparr>arp_replied := w\<rparr>) = lease_of s" "lease_of (s\<lparr>icmp_replied := w\<rparr>) = lease_of s"
  "lease_of (s\<lparr>ip_bad_csum := w\<rparr>) = lease_of s" "lease_of (s\<lparr>ip_frag_drop := w\<rparr>) = lease_of s" "lease_of (s\<lparr>g_frame := fb\<rparr>) = lease_of s"
  "lease_of (s\<lparr>g_bufs := b\<rparr>) = lease_of s" "lease_of (s\<lparr>ping_got := b\<rparr>) = lease_of s" "lease_of (s\<lparr>ping_matched := w\<rparr>) = lease_of s"
  "lease_of (s\<lparr>g_arp := a\<rparr>) = lease_of s" "lease_of (s\<lparr>g_ip_id := n\<rparr>) = lease_of s" "lease_of (s\<lparr>sent := f\<rparr>) = lease_of s"
  "lease_of (s\<lparr>g_dhcp_w := dw\<rparr>) = lease_of s" "lease_of (s\<lparr>g_dns_w := nw\<rparr>) = lease_of s" "lease_of (s\<lparr>g_socks := cs\<rparr>) = lease_of s"
  by (simp_all add: lease_of_def)

lemma upd_sock_lease [simp]: "lease_of (upd_sock i f s) = lease_of s"
  by (simp add: upd_sock_def)

lemma build_ready_lease [simp]: "lease_of (snd (build_ready km s)) = lease_of s"
  by (simp add: build_ready_def)

lemma rtl8139_send_lease [simp]: "lease_of (snd (rtl8139_send fr s)) = lease_of s"
  by (simp add: rtl8139_send_def)

lemma arp_learn_lease [simp]: "lease_of (arp_learn ip m s) = lease_of s"
  by (simp add: arp_learn_def Let_def split: list.split)

lemma ipv4_emit_lease [simp]: "lease_of (snd (ipv4_emit dst m p n s)) = lease_of s"
  by (simp add: ipv4_emit_def Let_def)

lemma tcp_send_lease [simp]: "lease_of (snd (tcp_send_seg_ex i fl d sq s)) = lease_of s" "lease_of (snd (tcp_send_seg i fl d s)) = lease_of s"
  by (simp_all add: tcp_send_seg_def tcp_send_seg_ex_def Let_def split_beta split: option.split bool.split)

lemma tcp_ops_lease [simp]:
  "lease_of (sock_free i s) = lease_of s" "lease_of (snd (tcp_bufs km i s)) = lease_of s" "lease_of (tcp_last_fin i g s) = lease_of s"
  "lease_of (tcp_retransmit_check i now s) = lease_of s"
  by (simp_all add: sock_free_def tcp_bufs_def tcp_last_fin_def tcp_retransmit_check_def Let_def)

lemma tcp_passive_lease [simp]: "lease_of (tcp_passive km g s) = lease_of s"
  by (simp add: tcp_passive_def Let_def split_beta split: option.split list.split bool.split)

lemma tick_socks_lease [simp]: "lease_of (tick_socks k now s) = lease_of s"
  by (induction k) (simp_all add: Let_def)

abbreviation keeps_lease :: "net \<Rightarrow> net \<Rightarrow> bool" where
  "keeps_lease s s' \<equiv> lease_of s' = lease_of s"

lemma tcp_receive_lease: "all_done (keeps_lease s) (tcp_receive i g s)"
  by (cases "data_sock g (g_socks s ! i)") (auto simp: tcp_receive_def Let_def split_beta)

lemma tcp_conn_input_lease: "all_done (keeps_lease s) (tcp_conn_input i g s)"
proof -
  have "all_done (keeps_lease s) (tcp_receive i g (upd_sock i f s))" "all_done (keeps_lease s) (tcp_receive i g (upd_sock i f' (upd_sock i f s)))" for f f'
    using tcp_receive_lease [of "upd_sock i f s" i g] tcp_receive_lease [of "upd_sock i f' (upd_sock i f s)" i g] by simp_all
  then show ?thesis by (simp add: tcp_conn_input_def Let_def split: tcp_state.split)
qed

lemma tcp_input_lease: "all_done (keeps_lease s) (tcp_input km ip ihl s)"
  by (simp add: tcp_input_def tcp_conn_input_lease split: option.split)

lemma icmp_input_lease: "all_done (keeps_lease s) (icmp_input ip ihl s)"
proof -
  have "all_done (\<lambda>r. keeps_lease s (snd r)) (ipv4_reply dst p d s)" for dst p d
    by (auto simp: ipv4_reply_def ipv4_copy_def split: option.split)
  then have "all_done (keeps_lease s) (nbind (ipv4_reply dst p d s) (\<lambda>(ok, s1). Done (if ok then s1\<lparr>icmp_replied := icmp_replied s1 + 1\<rparr> else s1)))" for dst p d
    by (rule all_done_bind) auto
  then show ?thesis by (simp add: icmp_input_def Let_def)
qed

lemma udp_input_lease: "all_done (keeps_lease s) (udp_input ip ihl s)"
proof -
  have "all_done (keeps_lease s1) (nbind (rx_store r c) (\<lambda>c1. Done (upd_sock i (\<lambda>_. c1) s1)))" for s1 i r c by (cases "rx_store r c") simp_all
  then have "all_done (keeps_lease s1) (udp_deliver a p q d s1)" for a p q d s1 by (auto simp: udp_deliver_def Let_def split: list.split)
  from this [of "s\<lparr>udp_rx := udp_rx s + 1\<rparr>"] show ?thesis by (simp add: udp_input_def Let_def)
qed

lemma dhcp_dns_input_lease [simp]: "lease_of (dhcp_input ip ihl s) = lease_of s" "lease_of (snd (dns_input ip ihl s)) = lease_of s"
  "lease_of (snd (arp_input f n s)) = lease_of s"
  by (simp_all add: dhcp_input_def dns_input_def arp_input_def Let_def split_beta split: bool.split)

lemma ip_input_lease: "all_done (\<lambda>r. keeps_lease s (snd r)) (ip_input km ip ihl s)"
proof -
  have fin: "all_done (\<lambda>r. keeps_lease s (snd r)) (nbind x (\<lambda>s1. Done (0 :: int, s1)))" if "all_done (keeps_lease s) x" for x :: "net nres"
    using that by (rule all_done_bind) simp
  have u: "all_done (keeps_lease s) (udp_input ip ihl (snd (dns_input ip ihl s)))" using udp_input_lease [of "snd (dns_input ip ihl s)" ip ihl] by simp
  show ?thesis unfolding ip_input_def Let_def split_beta
    using fin [OF icmp_input_lease, of ip ihl] fin [OF tcp_input_lease, of km ip ihl] fin [OF u] by (simp split: bool.split)
qed

lemma net_input_lease: "all_done (\<lambda>r. keeps_lease s (snd r)) (net_input km f n s)"
  using ip_input_lease [of "arp_learn (be32 (\<lambda>i. f (ETH_HDR_LEN + i)) 12) (bytes_at f 6 6) (snd (build_ready km s))" km]
  by (simp add: net_input_def Let_def split_beta split: bool.split)

lemma net_tick_no_lease: "\<not> le_valid (g_lease s) \<Longrightarrow> lease_of (net_tick s) = lease_of s"
  by (simp add: net_tick_def Let_def dhcp_renew_check_def)

lemma valid_lease_of: "lease_of s' = lease_of s \<Longrightarrow> le_valid (g_lease s') = le_valid (g_lease s)"
  by (simp add: lease_of_def)

lemma net_events_no_lease: "\<not> le_valid (g_lease s) \<Longrightarrow> all_done (keeps_lease s) (net_events km es s)"
proof (induction km es s rule: net_events.induct)
  case (2 km t es s)
  then show ?case using net_tick_no_lease [of "s\<lparr>pit_ticks := t\<rparr>"] valid_lease_of [of "net_tick (s\<lparr>pit_ticks := t\<rparr>)" s] by simp
next
  case (3 km f len es s)
  show ?case
  proof (cases "net_input km f len s")
    case (Done r)
    then have "lease_of (snd r) = lease_of s" using net_input_lease [of s km f len] by simp
    then show ?thesis using 3 Done valid_lease_of [of "snd r" s] by (cases r) auto
  qed simp_all
qed simp

section \<open>The end of a lease\<close>

definition no_answer :: "net \<Rightarrow> bool" where
  "no_answer s \<longleftrightarrow> \<not> (dw_renewing (g_dhcp_w s) \<and> dw_got (g_dhcp_w s))"

definition lease_ends :: "u32 \<Rightarrow> net \<Rightarrow> bool" where
  "lease_ends now s \<longleftrightarrow> rn_active (g_renew s) \<and> le_valid (g_lease s) \<and>
     (if no_answer s then rn_state (g_renew s) = 2 \<and> sint (now - rn_expire (g_renew s)) \<ge> 0 else dw_msg_type (g_dhcp_w s) = 6)"

lemma dhcp_send_lease [simp]: "lease_of (snd (dhcp_send ty ip srv b s)) = lease_of s"
  by (simp add: dhcp_send_def Let_def)

lemma renew_request_lease:
  "g_lease (snd (renew_request now s)) = g_lease s" "nic_ip (snd (renew_request now s)) = nic_ip s" "rn_state (g_renew (snd (renew_request now s))) = rn_state (g_renew s)"
  using dhcp_send_lease by (simp_all add: renew_request_def Let_def split_beta lease_of_def)

lemma dhcp_renew_check_end:
  assumes "lease_ends now s"
  shows "\<not> le_valid (g_lease (snd (dhcp_renew_check now s)))" "rn_state (g_renew (snd (dhcp_renew_check now s))) = 3" "nic_ip (snd (dhcp_renew_check now s)) = nic_ip s"
proof -
  let ?w = "\<lambda>s. s\<lparr>g_lease := (g_lease s)\<lparr>le_valid := False\<rparr>, g_renew := (g_renew s)\<lparr>rn_state := 3\<rparr>\<rparr>"
  obtain s2 where s2: "dhcp_renew_check now s = (if sint (now - rn_next (g_renew s2)) < 0 then (False, s2) else renew_request now s2)"
    "\<not> le_valid (g_lease s2)" "rn_state (g_renew s2) = 3" "nic_ip s2 = nic_ip s"
  proof (cases "no_answer s")
    case True
    then show ?thesis using assms
      by (intro that [of "s\<lparr>g_lease := (g_lease s)\<lparr>le_valid := False\<rparr>, g_renew := (g_renew s)\<lparr>rn_state := 3, rn_next := 0\<rparr>\<rparr>"])
        (auto simp: lease_ends_def no_answer_def dhcp_renew_check_def renew_answer_def renew_state_def)
  next
    case False
    then show ?thesis using assms
      by (intro that [of "?w (s\<lparr>g_dhcp_w := (g_dhcp_w s)\<lparr>dw_got := False\<rparr>\<rparr>)"])
        (auto simp: lease_ends_def no_answer_def dhcp_renew_check_def renew_answer_def renew_state_def Let_def)
  qed
  then show "\<not> le_valid (g_lease (snd (dhcp_renew_check now s)))" "rn_state (g_renew (snd (dhcp_renew_check now s))) = 3" "nic_ip (snd (dhcp_renew_check now s)) = nic_ip s"
    using renew_request_lease [of now s2] by simp_all
qed

text \<open>C36: when a lease runs out or its renewal is refused by the server, the machine never gets a new one by itself,
  whatever answers arrive and however long it runs: the lease stays invalid, the renewal stays in its
  INIT state, and the card keeps using the address that it lost. The code for the INIT state is not
  reached, because the check returns at once when the lease is not valid.\<close>

theorem lost_lease_stays_lost:
  assumes "lease_ends now s" "net_events km es (snd (dhcp_renew_check now s)) = Done s'"
  shows "\<not> le_valid (g_lease s') \<and> rn_state (g_renew s') = 3 \<and> nic_ip s' = nic_ip s"
  using dhcp_renew_check_end [OF assms(1)] net_events_no_lease [of "snd (dhcp_renew_check now s)" km es] assms(2) by (simp add: lease_of_def)

text \<open>A lease that ran out at tick 1000, and one more timer interrupt.\<close>

definition expired_host :: net where
  "expired_host = net0\<lparr>g_lease := (g_lease net0)\<lparr>le_valid := True, le_ip := 0x0A000242\<rparr>, nic_ip := 0x0A000242,
     g_renew := \<lparr>rn_active = True, rn_state = 2, rn_t1 = 500, rn_t2 = 875, rn_expire = 1000, rn_next = 0\<rparr>\<rparr>"

theorem lost_lease_stays_lost_witness:
  "\<exists>s'. net_events (\<lambda>_. None) [Irq0 2000] (snd (dhcp_renew_check 1000 expired_host)) = Done s' \<and> \<not> le_valid (g_lease s') \<and> nic_ip s' = 0x0A000242"
proof -
  have "lease_ends 1000 expired_host" by (simp add: lease_ends_def no_answer_def expired_host_def net0_def)
  from lost_lease_stays_lost [OF this, of "\<lambda>_. None" "[Irq0 2000]"] show ?thesis by (simp add: expired_host_def)
qed

section \<open>The first renewal\<close>

lemma renew_answer_none: "no_answer s \<Longrightarrow> renew_answer now s = Inr s"
  unfolding no_answer_def renew_answer_def Let_def by (simp only: if_False)

lemma dhcp_message_length: "length (nic_mac s) = 6 \<Longrightarrow> length (dhcp_message ty ip srv b s) = BOOTP_MIN"
  by (simp add: dhcp_message_def dhcp_options_def Let_def put16_def put32_def)

lemma dhcp_send_bound:
  assumes "length (nic_mac s) = 6" "nic_present s" "nic_free s" "\<And>m. arp_lookup srv s = Some m \<Longrightarrow> length m = 6" "srv \<noteq> 0"
  shows "\<exists>fr. fst (dhcp_send 3 ip srv True s) \<and> sent (snd (dhcp_send 3 ip srv True s)) = sent s @ [fr] \<and> drop 42 fr = dhcp_message 3 ip srv True s \<and>
    take 6 fr = (case arp_lookup srv s of Some m \<Rightarrow> m | None \<Rightarrow> replicate 6 0xFF)"
proof -
  have o: "\<not> 240 + length (dhcp_options 3 ip srv True s) > BOOTP_MIN" using assms(1) by (simp add: dhcp_options_def)
  have u: "length (udp_segment a b c d m) = 8 + length m" "drop 8 (udp_segment a b c d m) = m" for a b c d m
    by (simp_all add: udp_segment_def Let_def put16_def)
  have h: "length (ip_header_ck a b c d e) = 20" for a b c d e by (simp add: ip_header_ck_def ip_header_def put16_def put32_def)
  show ?thesis unfolding dhcp_send_def if_not_P [OF o] Let_def using assms
    by (cases "arp_lookup srv s") (simp_all add: rtl8139_send_def u h dhcp_message_length)
qed

text \<open>C35: at the first check after half of the lease time, the renewal sends one REQUEST for the leased
  address, to the server if its hardware address is known and to everybody otherwise, and repeats it after
  half the time between T1 and T2, at least one second and at most one minute; but only while the
  millisecond counter is below \<open>2^31\<close>: above (from day 24 to day 49 of the machine) nothing is sent,
  because the time of the next transmission is set to 0 and compared with the counter as a signed difference.\<close>

theorem renewal_at_t1:
  assumes r: "rn_active (g_renew s)" "le_valid (g_lease s)" "rn_state (g_renew s) = 0" "no_answer s" "sint (now - rn_t1 (g_renew s)) \<ge> 0"
    and n: "length (nic_mac s) = 6" "nic_present s" "nic_free s" "\<And>m. arp_lookup (le_server (g_lease s)) s = Some m \<Longrightarrow> length m = 6" "le_server (g_lease s) \<noteq> 0"
  shows "\<exists>s'. dhcp_renew_check now s = (sint now \<ge> 0, s') \<and> rn_state (g_renew s') = 1 \<and> g_lease s' = g_lease s \<and>
    (if sint now \<ge> 0 then
       \<exists>fr xid. sent s' = sent s @ [fr] \<and> take 6 fr = (case arp_lookup (le_server (g_lease s)) s of Some m \<Rightarrow> m | None \<Rightarrow> replicate 6 0xFF) \<and>
         drop 42 fr = dhcp_message 3 (le_ip (g_lease s)) (le_server (g_lease s)) True (s\<lparr>g_dhcp_w := (g_dhcp_w s)\<lparr>dw_xid := xid\<rparr>\<rparr>) \<and>
         1000 \<le> rn_next (g_renew s') - now \<and> rn_next (g_renew s') - now \<le> 60000
     else sent s' = sent s)"
proof -
  let ?s2 = "s\<lparr>g_renew := (g_renew s)\<lparr>rn_state := 1, rn_next := 0\<rparr>\<rparr>"
  have run: "dhcp_renew_check now s = (if sint now < 0 then (False, ?s2) else renew_request now ?s2)"
    using r renew_answer_none [OF r(4)] by (simp add: dhcp_renew_check_def renew_state_def Let_def)
  show ?thesis
  proof (cases "sint now < 0")
    case True
    then show ?thesis using run by simp
  next
    case False
    let ?w = "(g_dhcp_w s)\<lparr>dw_xid := dhcp_new_xid ?s2, dw_got := False, dw_msg_type := 0, dw_active := True, dw_renewing := True\<rparr>"
    let ?s3 = "?s2\<lparr>g_dhcp_w := ?w\<rparr>"
    have l: "arp_lookup a ?s3 = arp_lookup a s" for a by (simp add: arp_lookup_def cong: list.case_cong)
    obtain fr where f: "fst (dhcp_send 3 (le_ip (g_lease s)) (le_server (g_lease s)) True ?s3)"
      "sent (snd (dhcp_send 3 (le_ip (g_lease s)) (le_server (g_lease s)) True ?s3)) = sent s @ [fr]"
      "drop 42 fr = dhcp_message 3 (le_ip (g_lease s)) (le_server (g_lease s)) True ?s3"
      "take 6 fr = (case arp_lookup (le_server (g_lease s)) s of Some m \<Rightarrow> m | None \<Rightarrow> replicate 6 0xFF)"
      using dhcp_send_bound [of ?s3 "le_server (g_lease s)" "le_ip (g_lease s)"] n by (auto simp: l simp del: One_nat_def)
    have m: "dhcp_message 3 a b True ?s3 = dhcp_message 3 a b True (s\<lparr>g_dhcp_w := (g_dhcp_w s)\<lparr>dw_xid := dhcp_new_xid ?s2\<rparr>\<rparr>)" for a b
      by (simp add: dhcp_message_def dhcp_options_def)
    have "fst (renew_request now ?s2)" "sent (snd (renew_request now ?s2)) = sent s @ [fr]" using f by (simp_all add: renew_request_def Let_def split_beta)
    moreover have "1000 \<le> rn_next (g_renew (snd (renew_request now ?s2))) - now \<and> rn_next (g_renew (snd (renew_request now ?s2))) - now \<le> 60000"
      by (auto simp: renew_request_def Let_def split_beta not_less)
    ultimately show ?thesis using False run f(3,4) renew_request_lease [of now ?s2] unfolding m
      by (intro exI [of _ "snd (renew_request now ?s2)"]) (cases "renew_request now ?s2", auto)
  qed
qed

text \<open>A lease whose T1 is given.\<close>

definition leased_host :: "u32 \<Rightarrow> net" where
  "leased_host t1 = net0\<lparr>nic_present := True, g_lease := (g_lease net0)\<lparr>le_valid := True, le_server := 1\<rparr>,
     g_renew := \<lparr>rn_active = True, rn_state = 0, rn_t1 = t1, rn_t2 = t1 + 4000, rn_expire = t1 + 8000, rn_next = 0\<rparr>\<rparr>"

theorem renewal_at_t1_witness:
  "\<exists>s'. dhcp_renew_check 0x80000000 (leased_host 0x7FFFFFFF) = (False, s') \<and> sent s' = [] \<and>
     (\<exists>s'. dhcp_renew_check 500 (leased_host 500) = (True, s') \<and> length (sent s') = 1)"
proof -
  have f: "rn_active (g_renew (leased_host t))" "le_valid (g_lease (leased_host t))" "rn_state (g_renew (leased_host t)) = 0" "no_answer (leased_host t)"
    "rn_t1 (g_renew (leased_host t)) = t" "length (nic_mac (leased_host t)) = 6" "nic_present (leased_host t)" "nic_free (leased_host t)"
    "le_server (g_lease (leased_host t)) = 1" "arp_lookup 1 (leased_host t) = None" "sent (leased_host t) = []" for t
    by (simp_all add: leased_host_def net0_def no_answer_def arp_lookup_def filter_False)
  show ?thesis using renewal_at_t1 [where s = "leased_host 0x7FFFFFFF" and now = "0x80000000"] renewal_at_t1 [where s = "leased_host 500" and now = 500]
    by (fastforce simp: f)
qed

end
