(* ===== verification/NetNames.thy ===== *)
theory NetNames
  imports NetWf TcpStream
begin

text \<open>
  The resolver: names on the wire, answers of a server, and the cache of resolved names.
\<close>

section \<open>Names on the wire\<close>

text \<open>Labels with their lengths, ended by the root label or by a compression pointer.\<close>

inductive wire_name :: "u8 list \<Rightarrow> bool" where
  root: "wire_name [0]"
| pointer: "unat a AND 0xC0 = 0xC0 \<Longrightarrow> wire_name [a, b]"
| label: "0 < length l \<Longrightarrow> length l < 64 \<Longrightarrow> wire_name r \<Longrightarrow> wire_name (of_nat (length l) # l @ r)"

lemma low_and_high: "take_bit n k AND push_bit n m = (0 :: nat)"
  by (rule bit_eqI) (auto simp: bit_simps)

lemma small_label: "0 < k \<Longrightarrow> k < 64 \<Longrightarrow> unat (of_nat k :: u8) = k \<and> k AND 0xC0 = 0"
proof -
  assume k: "0 < k" "k < 64"
  have "k AND 0xC0 = take_bit 6 k AND push_bit 6 3" using k take_bit_nat_eq_self [of k 6] by (simp add: push_bit_eq_mult)
  also have "\<dots> = 0" by (rule low_and_high)
  finally show ?thesis using k by (simp add: unat_of_nat)
qed

lemma skip_wire: "wire_name e \<Longrightarrow> holds d i e \<Longrightarrow> i + length e \<le> n \<Longrightarrow> dns_skip_name d i n = i + length e"
proof (induction e arbitrary: i rule: wire_name.induct)
  case root
  then show ?case by (subst dns_skip_name.simps) simp
next
  case (pointer a b)
  then show ?case by (subst dns_skip_name.simps) (simp add: Let_def)
next
  case (label l r)
  have h: "d i = of_nat (length l)" "holds d (i + 1 + length l) r" using label.prems(1) by simp_all
  have "dns_skip_name d (i + 1 + length l) n = i + 1 + length l + length r" using label.prems(2) h(2) by (intro label.IH) simp_all
  then show ?case using h(1) small_label [OF label.hyps(1,2)] label.prems(2) label.hyps(1) by (subst dns_skip_name.simps) (simp add: Let_def)
qed

lemma dns_encode_wire: "dns_encode cs acc cur = Some e \<Longrightarrow> \<exists>w. e = acc @ w \<and> wire_name w"
proof (induction cs acc cur rule: dns_encode.induct)
  case (1 acc cur)
  then have "0 < length cur" "length cur < 64" "e = acc @ (of_nat (length cur) # cur @ [0])" by (auto split: if_splits)
  then show ?case using wire_name.label [OF _ _ wire_name.root, of cur] by auto
next
  case (2 c cs acc cur)
  show ?case
  proof (cases "c = 46")
    case True
    then have l: "0 < length cur" "length cur < 64" "cs \<noteq> []" using "2.prems" by (auto split: if_splits)
    then have "dns_encode cs (acc @ [of_nat (length cur)] @ cur) [] = Some e" using "2.prems" True by simp
    then obtain w where "e = (acc @ [of_nat (length cur)] @ cur) @ w" "wire_name w" using "2.IH"(1) [OF True] l by auto
    then show ?thesis using wire_name.label [OF l(1,2)] by auto
  next
    case False
    then show ?thesis using 2 by (auto split: if_splits)
  qed
qed

section \<open>Answers\<close>

record dns_rec =
  rr_name :: "u8 list"
  rr_type :: nat
  rr_class :: nat
  rr_ttl :: u32
  rr_data :: "u8 list"

definition rr_ok :: "dns_rec \<Rightarrow> bool" where
  "rr_ok r \<longleftrightarrow> wire_name (rr_name r) \<and> rr_type r < 65536 \<and> rr_class r < 65536 \<and> length (rr_data r) < 65536"

definition rr_bytes :: "dns_rec \<Rightarrow> u8 list" where
  "rr_bytes r = rr_name r @ put16 (rr_type r) @ put16 (rr_class r) @ put32 (rr_ttl r) @ put16 (length (rr_data r)) @ rr_data r"

definition is_address :: "dns_rec \<Rightarrow> bool" where
  "is_address r \<longleftrightarrow> rr_type r = 1 \<and> rr_class r = 1 \<and> length (rr_data r) = 4"

lemma wire_name_nonempty: "wire_name e \<Longrightarrow> e \<noteq> []"
  by (cases rule: wire_name.cases) auto

lemma dns_answers_step:
  assumes "dns_skip_name d i n = j" "j \<noteq> 0" "j + 10 + len \<le> n" "be16 d j = ty" "be16 d (j + 2) = cl" "be16 d (j + 8) = len"
  shows "dns_answers (Suc k) d n i =
    (if ty = 1 \<and> cl = 1 \<and> len = 4 then Some (be32 d (j + 10), be32 d (j + 4)) else dns_answers k d n (j + 10 + len))"
  using assms by (simp add: Let_def add.commute)

lemma dns_answers_find:
  assumes "\<forall>r \<in> set rs. rr_ok r" "holds d i (concat (map rr_bytes rs))" "i + length (concat (map rr_bytes rs)) \<le> n"
  shows "dns_answers (length rs) d n i = map_option (\<lambda>r. (be32_list (rr_data r), rr_ttl r)) (find is_address rs)"
  using assms
proof (induction rs arbitrary: i)
  case (Cons r rs)
  let ?j = "i + length (rr_name r)"
  have ok: "wire_name (rr_name r)" "rr_type r < 65536" "rr_class r < 65536" "length (rr_data r) < 65536" using Cons.prems(1) by (auto simp: rr_ok_def)
  have h: "holds d i (rr_name r)" "holds d ?j (put16 (rr_type r))" "holds d (?j + 2) (put16 (rr_class r))" "holds d (?j + 4) (put32 (rr_ttl r))"
    "holds d (?j + 8) (put16 (length (rr_data r)))" "holds d (?j + 10) (rr_data r)" "holds d (?j + 10 + length (rr_data r)) (concat (map rr_bytes rs))"
    using Cons.prems(2) by (simp_all add: rr_bytes_def [of r] add.assoc del: add_2_eq_Suc add_2_eq_Suc')
  have n: "?j + 10 + length (rr_data r) + length (concat (map rr_bytes rs)) \<le> n" using Cons.prems(3) by (simp add: rr_bytes_def [of r])
  have skip: "dns_skip_name d i n = ?j" using skip_wire [OF ok(1) h(1)] n by simp
  note f = be16_put [OF h(2) ok(2)] be16_put [OF h(3) ok(3)] be16_put [OF h(5) ok(4)]
  have data: "be32 d (?j + 10) = be32_list (rr_data r)" if "length (rr_data r) = 4"
  proof -
    have "d (?j + 10 + k) = rr_data r ! k" if "k < 4" for k using h(6) that \<open>length (rr_data r) = 4\<close> by (simp add: holds_def)
    from this [of 0] this [of 1] this [of 2] this [of 3] show ?thesis by (simp add: be32_list_def be32_def add.assoc numeral_2_eq_2 [symmetric])
  qed
  have ttl: "be32 d (?j + 4) = rr_ttl r" by (rule be32_put [OF h(4)])
  have IH: "dns_answers (length rs) d n (?j + 10 + length (rr_data r)) = map_option (\<lambda>r. (be32_list (rr_data r), rr_ttl r)) (find is_address rs)"
    using Cons.prems(1) h(7) n by (intro Cons.IH) simp_all
  have "?j \<noteq> 0" using wire_name_nonempty [OF ok(1)] by simp
  moreover have "?j + 10 + length (rr_data r) \<le> n" using n by linarith
  ultimately have "dns_answers (Suc (length rs)) d n i = (if is_address r then Some (be32 d (?j + 10), be32 d (?j + 4))
      else dns_answers (length rs) d n (?j + 10 + length (rr_data r)))"
    unfolding is_address_def by (intro dns_answers_step [OF skip _ _ f])
  then show ?case using data ttl IH unfolding list.size find.simps by (simp add: is_address_def del: dns_answers.simps)
qed simp

text \<open>C37: the answer of a server to a query is understood whatever it contains: in a message that repeats the question
  and has any number of well-formed records, with names spelled out or compressed, the resolver finds the address and
  the time to live of the first address record, and reports that there is none exactly when no record is an
  address. Anything may follow the answers.\<close>

theorem dns_reply_understood:
  assumes q: "dns_query name ident = Some q" and rs: "\<forall>r \<in> set rs. rr_ok r" "length rs < 65536"
    and d: "holds d 0 (hdr @ put16 1 @ put16 (length rs) @ cnt @ drop 12 q @ concat (map rr_bytes rs) @ extra)" "length hdr = 4" "length cnt = 4"
      "length q + length (concat (map rr_bytes rs)) \<le> n"
  shows "dns_parse d n = map_option (\<lambda>r. (be32_list (rr_data r), rr_ttl r)) (find is_address rs)"
proof -
  obtain e where e: "dns_encode_name name = Some e" "q = put16 ident @ put16 0x0100 @ put16 1 @ put16 0 @ put16 0 @ put16 0 @ e @ put16 1 @ put16 1"
    using q by (auto simp: dns_query_def split: option.splits if_splits)
  then have w: "wire_name e" using dns_encode_wire [of name "[]" "[]" e] by (auto simp: dns_encode_name_def split: if_splits)
  have dq: "drop 12 q = e @ put16 1 @ put16 1" using e(2) by (simp add: put16_def)
  have lq: "length q = 16 + length e" using e(2) by simp
  have h: "holds d 4 (put16 1)" "holds d 6 (put16 (length rs))" "holds d 12 e" "holds d (16 + length e) (concat (map rr_bytes rs))"
    using d(1-3) unfolding dq by (simp_all add: add.assoc add.commute add.left_commute del: add_2_eq_Suc add_2_eq_Suc')
  have "dns_questions 1 d n 12 = Some (16 + length e)" using skip_wire [OF w h(3), of n] d(4) lq by (simp add: Let_def)
  moreover have "be16 d 4 = 1" "be16 d 6 = length rs" using be16_put [OF h(1)] be16_put [OF h(2) rs(2)] by simp_all
  moreover have "dns_answers (length rs) d n (16 + length e) = map_option (\<lambda>r. (be32_list (rr_data r), rr_ttl r)) (find is_address rs)"
    using d(4) lq by (intro dns_answers_find [OF rs(1) h(4)]) simp
  ultimately show ?thesis by (simp add: dns_parse_def)
qed

text \<open>The answer to \<open>a.b\<close>: an alias, then the address 10.0.2.3.\<close>

definition alias_rec :: dns_rec where
  "alias_rec = \<lparr>rr_name = [0xC0, 12], rr_type = 5, rr_class = 1, rr_ttl = 60, rr_data = [1, 99, 0]\<rparr>"

definition addr_rec :: dns_rec where
  "addr_rec = \<lparr>rr_name = [0xC0, 36], rr_type = 1, rr_class = 1, rr_ttl = 300, rr_data = [10, 0, 2, 3]\<rparr>"

theorem dns_reply_understood_witness:
  "\<exists>q. dns_query [97, 46, 98] 7 = Some q \<and>
     dns_parse (put_at 0 ([0, 7, 0x81, 0x80] @ put16 1 @ put16 2 @ [0, 0, 0, 0] @ drop 12 q @ concat (map rr_bytes [alias_rec, addr_rec]) @ [9]) (\<lambda>_. 0)) 60 = Some (0x0A000203, 300)"
proof -
  obtain q where q: "dns_query [97, 46, 98] 7 = Some q" "length q = 21" by (simp add: dns_query_def dns_encode_name_def low_char_def)
  have p: "wire_name [0xC0, b]" for b by (rule wire_name.pointer) simp
  have rs: "\<forall>r \<in> set [alias_rec, addr_rec]. rr_ok r" "length [alias_rec, addr_rec] < 65536" "length (concat (map rr_bytes [alias_rec, addr_rec])) = 31"
    using p by (simp_all add: rr_ok_def alias_rec_def addr_rec_def rr_bytes_def)
  let ?m = "[0, 7, 0x81, 0x80] @ put16 1 @ put16 (length [alias_rec, addr_rec]) @ [0, 0, 0, 0] @ drop 12 q @ concat (map rr_bytes [alias_rec, addr_rec]) @ [9]"
  have parse: "dns_parse (put_at 0 ?m (\<lambda>_. 0)) 60 = map_option (\<lambda>r. (be32_list (rr_data r), rr_ttl r)) (find is_address [alias_rec, addr_rec])"
    by (rule dns_reply_understood [OF q(1) rs(1,2) holds_put_at]) (use q(2) rs(3) in simp_all)
  have len: "length [alias_rec, addr_rec] = 2" by simp
  have res: "map_option (\<lambda>r. (be32_list (rr_data r), rr_ttl r)) (find is_address [alias_rec, addr_rec]) = Some (0x0A000203, 300)"
    by (simp add: is_address_def alias_rec_def addr_rec_def be32_list_def be32_def push_bit_eq_mult)
  show ?thesis using q(1) parse [unfolded len res] by blast
qed

section \<open>The cache\<close>

lemma dns_name_eq_iff: "dns_name_eq a b \<longleftrightarrow> map low_char a = map low_char b"
  by (induction a b rule: dns_name_eq.induct) auto

lemma low_char_idem [simp]: "low_char (low_char c) = low_char c"
  by (simp add: low_char_def)

lemma low_char_zero [simp]: "low_char c = 0 \<longleftrightarrow> c = 0"
  by (simp add: low_char_def)

lemma map_low_low [simp]: "map low_char (map low_char xs) = map low_char xs"
  by simp

definition written_name :: "dname \<Rightarrow> (nat \<Rightarrow> nat) \<Rightarrow> nat \<Rightarrow> nat" where
  "written_name key old = (\<lambda>i. if i < length key then key ! i else if i = DNS_NAME_MAX - 1 then 0 else old i)"

lemma name_range: "n < DNS_NAME_MAX \<Longrightarrow> [0..<DNS_NAME_MAX] = [0..<n] @ [n..<DNS_NAME_MAX - 1] @ [DNS_NAME_MAX - 1]"
  using upt_add_eq_append [of 0 n "DNS_NAME_MAX - n"] upt_Suc_append [of n "DNS_NAME_MAX - 1"] by simp

lemma takeWhile_zero: "takeWhile (\<lambda>c. c \<noteq> 0) (xs @ [0]) = takeWhile (\<lambda>c. c \<noteq> 0) (xs :: dname)"
  by (induction xs) simp_all

lemma takeWhile_rest: "takeWhile P (xs @ ys) = pre @ rest \<Longrightarrow> length pre = length xs \<Longrightarrow> rest \<noteq> [] \<Longrightarrow> takeWhile P ys = rest"
proof (induction xs arbitrary: pre)
  case (Cons x xs)
  then obtain p ps where "pre = p # ps" by (cases pre) auto
  then show ?case using Cons by (auto split: if_splits)
qed simp

lemma cstr_written:
  assumes "0 \<notin> set key" "length key < DNS_NAME_MAX"
  shows "cstr (written_name key old) = key @ takeWhile (\<lambda>c. c \<noteq> 0) (map old [length key..<DNS_NAME_MAX - 1])"
proof -
  let ?n = "length key"
  note 1 = name_range [OF assms(2)]
  have m1: "map (written_name key old) [0..<?n] = key" by (rule nth_equalityI) (simp_all add: written_name_def)
  have m2: "map (written_name key old) [?n..<DNS_NAME_MAX - 1] = map old [?n..<DNS_NAME_MAX - 1]" by (simp add: written_name_def)
  have m3: "written_name key old (DNS_NAME_MAX - 1) = 0" using assms(2) by (simp add: written_name_def)
  have "cstr (written_name key old) = takeWhile (\<lambda>c. c \<noteq> 0) (key @ map old [?n..<DNS_NAME_MAX - 1] @ [0])"
    unfolding cstr_def 1 map_append m1 m2 list.map m3 ..
  moreover have "\<forall>c \<in> set key. c \<noteq> 0" using assms(1) by metis
  ultimately show ?thesis by (simp add: takeWhile_append2 takeWhile_zero [simplified])
qed

text \<open>The slot that an insertion uses, and the state behind it.\<close>

lemma dns_cache_put_slot:
  assumes "dns_name_copy name = Some key" "ttl \<noteq> 0"
  shows "\<exists>slot rr. slot < DNS_CACHE_MAX \<and>
    (\<forall>i < slot. dc_used (dns_cache s ! i) \<and> map low_char (cstr (dc_name (dns_cache s ! i))) \<noteq> key) \<and>
    dns_cache_put name ip ttl s = s\<lparr>dns_rr := rr, dns_cache := (dns_cache s)[slot := \<lparr>dc_used = True,
      dc_name = written_name key (dc_name (dns_cache s ! slot)), dc_ip = ip,
      dc_expire = pit_ticks s + (if ttl > DNS_TTL_MAX then DNS_TTL_MAX else ttl) * 1000\<rparr>]\<rparr>"
proof -
  have key: "map low_char key = key" using assms(1) by (auto simp: dns_name_copy_def split: if_splits)
  let ?e = "\<lambda>slot. \<lparr>dc_used = True, dc_name = written_name key (dc_name (dns_cache s ! slot)), dc_ip = ip,
      dc_expire = pit_ticks s + (if ttl > DNS_TTL_MAX then DNS_TTL_MAX else ttl) * 1000\<rparr>"
  let ?f = "filter (\<lambda>i. \<not> dc_used (dns_cache s ! i) \<or> dns_name_eq key (cstr (dc_name (dns_cache s ! i)))) [0..<DNS_CACHE_MAX]"
  show ?thesis
  proof (cases ?f)
    case (Cons i r)
    then have "dns_cache_put name ip ttl s = s\<lparr>dns_rr := dns_rr s, dns_cache := (dns_cache s)[i := ?e i]\<rparr>"
      using assms by (simp add: dns_cache_put_def Let_def written_name_def)
    moreover have "i < DNS_CACHE_MAX" "\<forall>k < i. dc_used (dns_cache s ! k) \<and> map low_char (cstr (dc_name (dns_cache s ! k))) \<noteq> key"
      using filter_first [OF Cons] key by (auto simp: dns_name_eq_iff)
    ultimately show ?thesis by blast
  next
    case Nil
    let ?i = "dns_rr s mod DNS_CACHE_MAX"
    have "dns_cache_put name ip ttl s = s\<lparr>dns_rr := (dns_rr s + 1) mod 4294967296, dns_cache := (dns_cache s)[?i := ?e ?i]\<rparr>"
      using assms Nil by (simp add: dns_cache_put_def Let_def written_name_def)
    moreover have "\<forall>i < DNS_CACHE_MAX. dc_used (dns_cache s ! i) \<and> map low_char (cstr (dc_name (dns_cache s ! i))) \<noteq> key"
      using Nil key by (auto simp: filter_empty_conv dns_name_eq_iff)
    moreover have "?i < DNS_CACHE_MAX" by simp
    ultimately show ?thesis by (meson less_trans)
  qed
qed

lemma dns_lookup_first:
  assumes "slot < DNS_CACHE_MAX" "dc_used (dns_cache s ! slot)" "map low_char name = map low_char (cstr (dc_name (dns_cache s ! slot)))"
    "\<forall>i < slot. \<not> (dc_used (dns_cache s ! i) \<and> map low_char (cstr (dc_name (dns_cache s ! i))) = map low_char name)"
  shows "fst (net_dns_cache_lookup name s) =
    (if sint (pit_ticks s - dc_expire (dns_cache s ! slot)) \<ge> 0 then None else Some (dc_ip (dns_cache s ! slot)))"
proof -
  let ?P = "\<lambda>i. dc_used (dns_cache s ! i) \<and> dns_name_eq name (cstr (dc_name (dns_cache s ! i)))"
  have "\<exists>r. filter ?P [0..<DNS_CACHE_MAX] = slot # r" using assms by (intro first_filter) (auto simp: dns_name_eq_iff)
  then show ?thesis by (auto simp: net_dns_cache_lookup_def Let_def)
qed

lemma ttl_ticks: "\<exists>T. (if ttl > DNS_TTL_MAX then DNS_TTL_MAX else ttl) * 1000 = (of_nat T :: u32) \<and> T = 1000 * min (unat ttl) 86400 \<and> T < 2147483648"
proof -
  let ?t = "if ttl > DNS_TTL_MAX then DNS_TTL_MAX else ttl"
  have "unat ?t = min (unat ttl) 86400" by (auto simp: word_less_nat_alt min_def)
  moreover have "?t * 1000 = of_nat (1000 * unat ?t)" by simp
  ultimately show ?thesis by (intro exI [of _ "1000 * min (unat ttl) 86400"]) (simp del: of_nat_mult)
qed

text \<open>The signed test of the clock against a moment \<open>T\<close> ticks after the start, \<open>k\<close> ticks after it.\<close>

lemma sint_elapsed:
  assumes "T < 2147483648"
  shows "0 \<le> sint (of_nat k - of_nat T :: u32) \<longleftrightarrow> T \<le> k mod 4294967296 \<and> k mod 4294967296 < T + 2147483648"
proof -
  define m where "m = k mod 4294967296"
  have m: "m < 4294967296" by (simp add: m_def)
  have km: "(of_nat k :: u32) = of_nat m" by (simp add: m_def word_of_nat_eq_iff take_bit_eq_mod)
  show ?thesis
  proof (cases "T \<le> m")
    case True
    define v :: u32 where "v = of_nat (m - T)"
    have "unat v = m - T" unfolding v_def by (rule unat_of_nat32) (use m in simp)
    then have "0 \<le> sint v \<longleftrightarrow> m - T < 2147483648" using sint_small [of v] sint_big [of v] by (cases "m - T < 2147483648") simp_all
    moreover have "of_nat k - of_nat T = v" using True by (simp add: km v_def of_nat_diff)
    ultimately show ?thesis using True by (auto simp: m_def [symmetric])
  next
    case False
    define v :: u32 where "v = of_nat (4294967296 - (T - m))"
    have "unat v = 4294967296 - (T - m)" unfolding v_def by (rule unat_of_nat32) (use False in simp)
    then have "sint v < 0" by (intro sint_big) (use assms in simp)
    moreover have "of_nat k - of_nat T = v"
    proof -
      have "(of_nat (4294967296 - (T - m)) :: u32) = of_nat 4294967296 - of_nat (T - m)" by (rule of_nat_diff) (use assms in simp)
      then show ?thesis using False by (simp add: km v_def of_nat_diff)
    qed
    ultimately show ?thesis using False by (simp add: m_def [symmetric])
  qed
qed

text \<open>C38: the entry that a name gets in the cache, when the names which the entries held before end
  where the new name ends or earlier, and when nothing is looked up or stored in between. A look-up k
  ms later, under any spelling of the letters, finds the address exactly when the 32-bit distance of
  the clock, k mod 2^32, is below the time it may live (one day at most) or at least 2^31 ms above it.
  So it is found for exactly the time it may live, then not for about 24.8 days, and then,
  if no look-up has cleared it before, it is taken for valid again.\<close>

theorem dns_cache_roundtrip:
  assumes n: "dns_name_copy name = Some key" "0 \<notin> set name" "ttl \<noteq> 0" "map low_char name' = map low_char name"
    and c: "length (dns_cache s) = DNS_CACHE_MAX" "\<forall>e \<in> set (dns_cache s). dc_name e (length name) = 0"
  shows "fst (net_dns_cache_lookup name' ((dns_cache_put name ip ttl s)\<lparr>pit_ticks := pit_ticks s + of_nat k\<rparr>)) =
    (if k mod 2 ^ 32 < 1000 * min (unat ttl) 86400 \<or> 1000 * min (unat ttl) 86400 + 2 ^ 31 \<le> k mod 2 ^ 32 then Some ip else None)"
proof -
  have key: "key = map low_char name" "length key < DNS_NAME_MAX" using n(1) by (auto simp: dns_name_copy_def split: if_splits)
  have z: "0 \<notin> set key" using n(2) key(1) by auto
  obtain T where T: "(if ttl > DNS_TTL_MAX then DNS_TTL_MAX else ttl) * 1000 = (of_nat T :: u32)" "T = 1000 * min (unat ttl) 86400" "T < 2147483648" using ttl_ticks by blast
  obtain slot rr where p: "slot < DNS_CACHE_MAX" "\<forall>i < slot. dc_used (dns_cache s ! i) \<and> map low_char (cstr (dc_name (dns_cache s ! i))) \<noteq> key"
    "dns_cache_put name ip ttl s = s\<lparr>dns_rr := rr, dns_cache := (dns_cache s)[slot := \<lparr>dc_used = True,
      dc_name = written_name key (dc_name (dns_cache s ! slot)), dc_ip = ip, dc_expire = pit_ticks s + of_nat T\<rparr>]\<rparr>"
    using dns_cache_put_slot [OF n(1,3), of s ip] unfolding T(1) by blast
  let ?old = "dc_name (dns_cache s ! slot)" and ?s = "(dns_cache_put name ip ttl s)\<lparr>pit_ticks := pit_ticks s + of_nat k\<rparr>"
  have "?old (length key) = 0" using c p(1) key(1) by (simp add: nth_mem)
  then have "takeWhile (\<lambda>c. c \<noteq> 0) (map ?old [length key..<DNS_NAME_MAX - 1]) = []" by (cases "length key < DNS_NAME_MAX - 1") (simp_all add: upt_conv_Cons)
  then have "cstr (written_name key ?old) = key" using cstr_written [OF z key(2)] by simp
  then have e: "dns_cache ?s ! slot = \<lparr>dc_used = True, dc_name = written_name key ?old, dc_ip = ip, dc_expire = pit_ticks s + of_nat T\<rparr>"
    "map low_char (cstr (dc_name (dns_cache ?s ! slot))) = key" using p(1) c(1) key(1) by (simp_all add: p(3))
  have "fst (net_dns_cache_lookup name' ?s) = (if sint (pit_ticks ?s - dc_expire (dns_cache ?s ! slot)) \<ge> 0 then None else Some (dc_ip (dns_cache ?s ! slot)))"
    by (rule dns_lookup_first [OF p(1)]) (use p(2) e n(4) key(1) in \<open>simp_all add: p(3)\<close>)
  also have "\<dots> = (if k mod 4294967296 < T \<or> T + 2147483648 \<le> k mod 4294967296 then Some ip else None)"
    unfolding e(1) using sint_elapsed [OF T(3), of k] by auto
  finally show ?thesis unfolding T(2) by simp
qed

theorem dns_cache_roundtrip_witness:
  "fst (net_dns_cache_lookup [65, 46, 98] ((dns_cache_put [97, 46, 66] 0x0A000203 300 net0)\<lparr>pit_ticks := 299999\<rparr>)) = Some 0x0A000203 \<and>
   fst (net_dns_cache_lookup [65, 46, 98] ((dns_cache_put [97, 46, 66] 0x0A000203 300 net0)\<lparr>pit_ticks := 300000\<rparr>)) = None \<and>
   fst (net_dns_cache_lookup [65, 46, 98] ((dns_cache_put [97, 46, 66] 0x0A000203 300 net0)\<lparr>pit_ticks := 2147783648\<rparr>)) = Some 0x0A000203"
proof -
  have n: "dns_name_copy [97, 46, 66] = Some [97, 46, 98]" "0 \<notin> set [97, 46, 66 :: nat]" "(300 :: u32) \<noteq> 0" "map low_char [65, 46, 98] = map low_char [97, 46, 66]"
    "length (dns_cache net0) = DNS_CACHE_MAX" "\<forall>e \<in> set (dns_cache net0). dc_name e (length [97, 46, 66 :: nat]) = 0" "pit_ticks net0 = 0"
    by (simp_all add: dns_name_copy_def low_char_def net0_def)
  show ?thesis using dns_cache_roundtrip [OF n(1-6), of 299999 "0x0A000203"] dns_cache_roundtrip [OF n(1-6), of 300000 "0x0A000203"]
    dns_cache_roundtrip [OF n(1-6), of 2147783648 "0x0A000203"] n(7) by simp
qed

text \<open>Without that provision a name is mixed with the one that the entry held before: after a longer name was removed, a
  shorter one that takes its entry is not found, and the mixture of both is answered with the address of the shorter one.\<close>

lemma dns_cache_mixes_names:
  assumes "dns_name_copy name = Some key" "0 \<notin> set name" "ttl \<noteq> 0" "length (dns_cache s) = DNS_CACHE_MAX" "\<not> dc_used (dns_cache s ! 0)"
    and old: "cstr (dc_name (dns_cache s ! 0)) = pre @ rest" "length pre = length name" "rest \<noteq> []" "dc_name (dns_cache s ! 0) (DNS_NAME_MAX - 1) = 0"
  shows "\<exists>e. dns_cache (dns_cache_put name ip ttl s) ! 0 = e \<and> dc_ip e = ip \<and> cstr (dc_name e) = key @ rest"
proof -
  let ?old = "dc_name (dns_cache s ! 0)"
  have key: "key = map low_char name" "length key < DNS_NAME_MAX" using assms(1) by (auto simp: dns_name_copy_def split: if_splits)
  have z: "0 \<notin> set key" using assms(2) key(1) by auto
  obtain slot rr where p: "\<forall>i < slot. dc_used (dns_cache s ! i) \<and> map low_char (cstr (dc_name (dns_cache s ! i))) \<noteq> key"
    "dns_cache_put name ip ttl s = s\<lparr>dns_rr := rr, dns_cache := (dns_cache s)[slot := \<lparr>dc_used = True,
      dc_name = written_name key (dc_name (dns_cache s ! slot)), dc_ip = ip,
      dc_expire = pit_ticks s + (if ttl > DNS_TTL_MAX then DNS_TTL_MAX else ttl) * 1000\<rparr>]\<rparr>"
    using dns_cache_put_slot [OF assms(1,3), of s ip] by blast
  have "slot = 0" using p(1) assms(5) by (metis neq0_conv)
  moreover have "takeWhile (\<lambda>c. c \<noteq> 0) (map ?old [length key..<DNS_NAME_MAX - 1]) = rest"
  proof -
    have "[0..<DNS_NAME_MAX] = [0..<length key] @ [length key..<DNS_NAME_MAX - 1] @ [DNS_NAME_MAX - 1]" by (rule name_range [OF key(2)])
    then have "takeWhile (\<lambda>c. c \<noteq> 0) (map ?old [0..<length key] @ map ?old [length key..<DNS_NAME_MAX - 1] @ [0]) = pre @ rest"
      using old(1,4) unfolding cstr_def by (simp only: map_append list.map)
    then have "takeWhile (\<lambda>c. c \<noteq> 0) (map ?old [length key..<DNS_NAME_MAX - 1] @ [0]) = rest"
      by (rule takeWhile_rest) (use old(2,3) key(1) in simp_all)
    then show ?thesis by (simp only: takeWhile_zero)
  qed
  ultimately show ?thesis using p(2) assms(4) cstr_written [OF z key(2), of ?old] by simp
qed

end
