(* ===== verification/Spec2Isabelle.thy ===== *)
theory Spec2Isabelle
  imports Pmm UserRange ElfLoad KmallocSpec Sched ForkSpec Div64 Rtc Dmesg TextEnc Levenshtein FatFlaws NetUdp NetLimits NetLease NetNames
begin

text \<open>
  A verification library for the EZOS kernel, a 32-bit x86 operating system in C
  (\<open>src/kernel/\<close>). The definitions are translations of the C functions and keep their names;
  the theorems are about these definitions.

  \<^bold>\<open>The program.\<close> The kernel hands out physical page frames (\<open>pmm.c\<close>), builds page tables from them
  (\<open>paging.c\<close>) and small objects from a static pool (\<open>kmalloc.c\<close>). Programs are loaded by
  \<open>elf.c\<close> into a user area, run as tasks of \<open>task.c\<close> (scheduler, wait queues, fork, exit and
  wait) and enter the kernel through system calls, whose pointers \<open>syscall.c\<close> checks against the page
  tables. Tasks own descriptor tables (\<open>fd.c\<close>: files, pipes, standard streams). Files live on
  FAT volumes (\<open>fat.c\<close>). \<open>net.c\<close> is the network stack: interrupts bring frames (\<open>net_input\<close>) and timer
  ticks (\<open>net_tick\<close>), tasks call sockets and wait for conditions. The log (\<open>dmesg.c\<close>), the clock (\<open>rtc.c\<close>),
  the stack guards (\<open>stackchk.c\<close>), 64-bit division (\<open>div64.c\<close>) and the text algorithms
  (\<open>textenc.c\<close>) serve all of them.

  \<^bold>\<open>The theories.\<close>

  \<^item> \<open>EzPrelude\<close>: integer types, masks, shifts, signed readings of words, list lemmas.

  \<^item> \<open>Pmm\<close> (\<open>pmm.c\<close>): the bitmap as a record; allocation, release, reservation, the memory map of the
    firmware. Allocation is first fit and fails exactly when no run is free; release is exact on unbounded
    integers, so no 32-bit check can be fooled. The locale \<open>frame_allocator\<close> states
    what clients rely on and is interpreted on these operations.

  \<^item> \<open>Paging\<close> (\<open>paging.c\<close>): directory and tables as a store of pages of 1024 entries. Mapping,
    unmapping, queries, the identity map of \<open>paging_init\<close>; locale \<open>address_space\<close>.

  \<^item> \<open>UserRange\<close> (\<open>user_range_ok\<close> of \<open>syscall.c\<close>): the check accepts exactly the ranges of user pages.

  \<^item> \<open>Elf\<close>, \<open>ElfLoad\<close> (\<open>elf.c\<close>): \<open>elf_validate\<close> accepts exactly the well-formed images;
    \<open>elf_load\<close> and \<open>elf_unload\<close> balance their frames, also when loading fails.

  \<^item> \<open>Kmalloc\<close>, \<open>KmallocSpec\<close> (\<open>kmalloc.c\<close>): the heap as a store of words with a free list threaded through
    it; it refines first-fit allocation on a tiling of the pool; canaries detect overruns;
    locale \<open>heap\<close>.

  \<^item> \<open>Fd\<close>, \<open>FdSpec\<close> (\<open>fd.c\<close>): descriptors and pipes. A file handle is a byte sequence with an offset;
    a pipe is a bounded queue under any interleaving of readers and writers; reference counts count.
    Locale \<open>byte_channel\<close>.

  \<^item> \<open>Stackchk\<close> (\<open>stackchk.c\<close>): guard, canary and high-water mark of the kernel stacks.

  \<^item> \<open>Task\<close> (\<open>task.c\<close>): the task table, \<open>schedule\<close>, sleeping and waking, exit, wait, fork.
    \<open>WaitQ\<close>: the chains through \<open>wait_next\<close> refine lists (locale \<open>wait_queues\<close>), and the timer wakes
    exactly the sleepers whose time has come. \<open>ProcExit\<close>: exit and wait, with the lost wake-up.
    \<open>Sched\<close>: no ready task is starved. \<open>ForkSpec\<close>: the frames of \<open>task_fork\<close>.

  \<^item> \<open>Div64\<close>, \<open>Rtc\<close>, \<open>Dmesg\<close>, \<open>TextEnc\<close>, \<open>Levenshtein\<close>: the small components, each with its
    exact specification.

  \<^item> \<open>FatTable\<close>, \<open>FatChain\<close>, \<open>FatDir\<close>, \<open>FatFile\<close> (\<open>fat.c\<close>): table entries and their cache, chains of
    clusters, directories and names, file operations. \<open>FatSpec\<close>: the table is a map. \<open>FatData\<close>: data
    written to a new chain is read back. \<open>FatNames\<close>: directory entries. \<open>FatFlaws\<close>: entries
    behind the end mark.

  \<^item> \<open>NetBase\<close>, \<open>NetDhcp\<close>, \<open>NetDns\<close>, \<open>NetTcp\<close>, \<open>NetIn\<close>, \<open>NetSock\<close> (\<open>net.c\<close>): the state
    of the stack and every operation on it. \<open>NetWf\<close>: an invariant over all frames and calls.
    \<open>NetCodec\<close>, \<open>NetUdp\<close>: a datagram from sender to receiver. \<open>TcpStream\<close>: what a reader gets is a
    prefix of what the peer sent. \<open>NetLease\<close>, \<open>NetNames\<close>, \<open>NetLimits\<close>: leases, names, and
    where the stack ends badly.

  \<^bold>\<open>Conventions.\<close> A struct is a record, an enumeration a datatype, a counter that may wrap a word of its
  width or a number with the reduction written out. State is passed explicitly. An error result is
  the value the code returns; an access outside an object or through a null pointer is an
  outcome of its own (\<open>Fault\<close>, \<open>NullDeref\<close>, \<open>Bad_read\<close>, or \<open>None\<close> where a theory says so). Code that
  is not part of a component, such as the heap under descriptors and sockets, the file system
  under descriptors or the drive under FAT, is an argument.

  \<^bold>\<open>Loops.\<close> A loop that may run for ever is a \<open>partial_function\<close> into the option type (\<open>km_find\<close>,
  \<open>km_insert_pos\<close>, \<open>largest_loop\<close>, \<open>wq_remove_from\<close>, \<open>wake_chain\<close>, \<open>range_loop\<close>,
  \<open>ts_digits\<close>); that it returns is part of the theorems, and for \<open>ts_digits\<close> so is exactly when it does
  not. The loops over cluster chains carry the step bounds of the code (\<open>cluster_count\<close>, plus 2), and
  directory walks run at most \<open>wmax + 1\<close> blocks, after which \<open>fat_dir_walk_next\<close> of the code stops
  them. A wait of the network stack is given the events that arrive before each look; \<open>Waiting\<close> is a
  wait that has used them up.

  \<^bold>\<open>What the model leaves out.\<close>

  \<^item> Interrupts come between the operations, which are atomic. Where the code lets them come inside an
    operation, the operation is split there: \<open>schedule\<close> at \<open>switch_to\<close>, \<open>task_sleep\<close> at its halt
    (\<open>sleep_normalize\<close> is what follows), \<open>task_wait_pid\<close> between its look and its sleep, a pipe
    operation at its sleep, a wait of the network stack at each look. While a task waits in the network
    stack only frames and timer ticks arrive; calls of other tasks are not interleaved with that wait.
    A task that sleeps and that no other task can replace returns from its halt after any
    interrupt, so its timeout is only an upper bound.

  \<^item> The wake-ups of pipe queues that closing a descriptor causes, also in \<open>process_exit\<close>, are
    recorded as events of the descriptor state and do not touch the task table.

  \<^item> \<open>paging_init\<close>: the probe that writes and reads back two words of RAM is taken to succeed; the
    translation buffer is not modelled. \<open>paging_query\<close>, as in the code, looks at the flags of
    the table entry only.

  \<^item> The drive under FAT reads or fails sector by sector, and a failed read leaves the buffer as it was. The
    theorems on the table and on data need 512-byte sectors and a drive that works. Probing,
    mounting, formatting and checking of volumes are not modelled.

  \<^item> \<open>Rtc\<close>: the CMOS is a function from registers to bytes; the calendar of the specification uses the
    code's own decoding and leap-year functions, and the arithmetic on days is what is proved.

  \<^item> \<open>tcp_push\<close> stores into the retransmission buffer; that a socket which can send has one is part of the
    invariant of \<open>NetWf\<close>, and the case without is not an outcome of its own.

  \<^item> Not modelled at all: the device drivers and their registers, the other file systems (exFAT, NTFS, ext4,
    F2FS, ReFS, EROFS), the file-system switch, the shell and its commands, graphics and desktop,
    USB, the boot loaders, user programs, self-tests, and the Rust and Zig libraries.

  \<^bold>\<open>What went against the code.\<close> Several theorems state precisely where the code does not do what it means to:
  a deadline that wraps to 0 is never met, a wake-up can be lost between the look and the sleep of
  \<open>task_wait_pid\<close>, \<open>dmesg_tail\<close> spins when its buffer ends within a time stamp, long
  names are read back with stale characters, entries can be stored behind the end mark of a root directory, a
  passive connection has no receive buffer, one call sends at most 1460 bytes, a lost lease is never
  asked for again, and a stale name can become valid again after 24.8 days.
\<close>

end
